(* ===== verification/FC_Prelude.thy ===== *)
theory FC_Prelude
  imports Main "HOL-Library.Word"
begin

text \<open>
  Shared material of the capacity-admission library: the C integer types at their width, the parts
  of the C library the sources use (\<open>strtol\<close>, \<open>strcasecmp\<close>, \<open>strcspn\<close>), the named theorem
  collections of the development and the generic lemmas on words and lists that the component
  theories share.
\<close>

unbundle bit_operations_syntax

type_synonym u8 = "8 word"
type_synonym u16 = "16 word"
type_synonym u32 = "32 word"
type_synonym u64 = "64 word"

named_theorems fc_defs \<open>unfolding rules of the small accessors of the admission state\<close>
named_theorems fc_frame \<open>what an operation leaves untouched\<close>
named_theorems fc_cases \<open>splits for the results of the operations\<close>

section \<open>C library functions\<close>

text \<open>\<open>getenv\<close> is the process environment: a name either has a string or has none.\<close>

type_synonym getenv_fn = "string \<Rightarrow> string option"

definition ascii_lower :: "char \<Rightarrow> char" where
  "ascii_lower c = (if 65 \<le> (of_char c :: nat) \<and> (of_char c :: nat) \<le> 90
                    then char_of ((of_char c :: nat) + 32) else c)"

text \<open>\<open>strcasecmp (a, b) == 0\<close> in the C locale.\<close>

definition strcaseeq :: "string \<Rightarrow> string \<Rightarrow> bool" where
  "strcaseeq a b \<longleftrightarrow> map ascii_lower a = map ascii_lower b"

definition c_isspace :: "char \<Rightarrow> bool" where
  "c_isspace c \<longleftrightarrow> (of_char c :: nat) = 32 \<or> (9 \<le> (of_char c :: nat) \<and> (of_char c :: nat) \<le> 13)"

definition c_isdigit :: "char \<Rightarrow> bool" where
  "c_isdigit c \<longleftrightarrow> 48 \<le> (of_char c :: nat) \<and> (of_char c :: nat) \<le> 57"

fun digits_val :: "int \<Rightarrow> string \<Rightarrow> int" where
  "digits_val acc [] = acc"
| "digits_val acc (c # cs) = digits_val (acc * 10 + (int (of_char c) - 48)) cs"

text \<open>
  \<open>strtol (e, &end, 10)\<close>: leading white space, one optional sign, the longest run of digits,
  clamped to the range of a 64-bit \<open>long\<close>. \<open>None\<close> is "no digits" (\<open>end == e\<close>); otherwise the
  value and what \<open>end\<close> points at.
\<close>

definition strtol10 :: "string \<Rightarrow> (int \<times> string) option" where
  "strtol10 e =
     (let s = dropWhile c_isspace e;
          neg = (s \<noteq> [] \<and> hd s = CHR ''-'');
          s = (if s \<noteq> [] \<and> (hd s = CHR ''-'' \<or> hd s = CHR ''+'') then tl s else s);
          ds = takeWhile c_isdigit s;
          v = digits_val 0 ds;
          v = (if neg then - v else v)
      in if ds = [] then None
         else Some (max (- (2 ^ 63)) (min (2 ^ 63 - 1) v), dropWhile c_isdigit s))"

section \<open>Generic lemmas\<close>

lemma word_inc_le: "(x :: 'a::len word) < y \<Longrightarrow> x + 1 \<le> y"
  by (rule inc_le)

lemma unat_inc:
  assumes "(x :: 'a::len word) < y" shows "unat (x + 1) = Suc (unat x)"
proof -
  have "unat x < unat y" using assms by (simp add: word_less_nat_alt)
  moreover have "unat y < 2 ^ LENGTH('a)" by (rule unsigned_less)
  ultimately have "Suc (unat x) < 2 ^ LENGTH('a)" by linarith
  then show ?thesis by (simp add: unat_word_ariths)
qed

lemma word_inc_gt: "(x :: 'a::len word) < y \<Longrightarrow> x < x + 1"
  by (simp add: word_less_nat_alt unat_inc)

lemma unat_dec: "(x :: 'a::len word) \<noteq> 0 \<Longrightarrow> unat (x - 1) = unat x - 1"
  by (rule unat_minus_one)

lemma word_dec_inc [simp]: "(x :: 'a::len word) + 1 - 1 = x"
  by simp

lemma u8_less: "unat (x :: u8) < 256"
  using unsigned_less [of x, where ?'a = nat] by simp

lemma u32_less: "unat (x :: u32) < 4294967296"
  using unsigned_less [of x, where ?'a = nat] by simp

lemma u64_less: "unat (x :: u64) < 18446744073709551616"
  using unsigned_less [of x, where ?'a = nat] by simp

lemma unat_u8_u64 [simp]: "unat (ucast (x :: u8) :: u64) = unat x"
  using u8_less [of x] by (simp add: unsigned_ucast_eq take_bit_nat_eq_self_iff)

lemma unat_u32_u64 [simp]: "unat (ucast (x :: u32) :: u64) = unat x"
  using u32_less [of x] by (simp add: unsigned_ucast_eq take_bit_nat_eq_self_iff)

lemma unat_u64_u32: "unat (x :: u64) < 4294967296 \<Longrightarrow> unat (ucast x :: u32) = unat x"
  by (simp add: unsigned_ucast_eq take_bit_nat_eq_self_iff)

lemma u64_mult: "unat x * unat y < 18446744073709551616 \<Longrightarrow> unat (x * y :: u64) = unat x * unat y"
  by (simp add: unat_word_ariths)

lemma u64_add: "unat x + unat y < 18446744073709551616 \<Longrightarrow> unat (x + y :: u64) = unat x + unat y"
  by (simp add: unat_word_ariths)

lemma u32_add: "unat x + unat y < 4294967296 \<Longrightarrow> unat (x + y :: u32) = unat x + unat y"
  by (simp add: unat_word_ariths)

end
