(* ===== verification/FC_Types.thy ===== *)
theory FC_Types
  imports FC_Prelude
begin

text \<open>
  The data model of \<open>common/sockproxy_fc.h\<close>: enums as datatypes, structs as records with a short
  prefix per struct (\<open>c_\<close> configuration, \<open>r_\<close> rule, \<open>e_\<close> queue entry, \<open>ev_\<close> evicted entry,
  \<open>q_\<close> queue, \<open>t_\<close> tenant, \<open>tt_\<close> tenant table, \<open>s_\<close> pool state, \<open>p_\<close> permit, \<open>d_\<close> deadline timer,
  \<open>w_\<close> process). Counters, percentages and times keep their C width; positions in the queue ring
  and in the tenant table, which are bounded by 65536 and 4097, are natural numbers. An array
  indexed by an enum is a function on that enum. C truth values are \<open>bool\<close>.
\<close>

section \<open>Constants\<close>

abbreviation FC_MAX_EP :: nat where "FC_MAX_EP \<equiv> 32"
abbreviation FC_QUEUE_DEPTH_MAX :: u32 where "FC_QUEUE_DEPTH_MAX \<equiv> 65536"
abbreviation FC_QUEUE_WAIT_MS_MAX :: u32 where "FC_QUEUE_WAIT_MS_MAX \<equiv> 3600000"
abbreviation FC_BAND_WEIGHT_MAX :: u8 where "FC_BAND_WEIGHT_MAX \<equiv> 62"
abbreviation FC_TELEMETRY_STALE_MS_DEFAULT :: u32 where "FC_TELEMETRY_STALE_MS_DEFAULT \<equiv> 30000"
abbreviation FC_TELEMETRY_STALE_MS_MAX :: u32 where "FC_TELEMETRY_STALE_MS_MAX \<equiv> 3600000"
abbreviation FC_WARMUP_MS_MAX :: u32 where "FC_WARMUP_MS_MAX \<equiv> 3600000"
abbreviation FC_TTFT_TARGET_MS_MAX :: u32 where "FC_TTFT_TARGET_MS_MAX \<equiv> 3600000"
abbreviation FC_TENANT_SLOTS :: nat where "FC_TENANT_SLOTS \<equiv> 64"
abbreviation FC_TENANT_SLOTS_DEFAULT :: nat where "FC_TENANT_SLOTS_DEFAULT \<equiv> 256"
abbreviation FC_TENANT_SLOTS_MAX :: nat where "FC_TENANT_SLOTS_MAX \<equiv> 4096"
abbreviation FC_EVICT_PENDING :: nat where "FC_EVICT_PENDING \<equiv> 16"
abbreviation FC_DEADLINE_GRAIN_NS :: u64 where "FC_DEADLINE_GRAIN_NS \<equiv> 25000000"

section \<open>Enums\<close>

datatype fc_role = FC_ROLE_NORMAL | FC_ROLE_PREFILL | FC_ROLE_DECODE

datatype fc_mode = FC_MODE_OFF | FC_MODE_OBSERVE | FC_MODE_ENFORCE

datatype fc_src = FC_SRC_DEFAULT | FC_SRC_ENV | FC_SRC_RULE

datatype fc_limit = FC_L_MODE | FC_L_MAX_OUTSTANDING | FC_L_EP_NORMAL | FC_L_EP_PREFILL
  | FC_L_EP_DECODE | FC_L_QUEUE_DEPTH | FC_L_QUEUE_WAIT | FC_L_TELEMETRY_STALE | FC_L_ADAPTIVE
  | FC_L_WARMUP | FC_L_TTFT_TARGET | FC_L_TENANT_SHARE | FC_L_EXPOSE_HEADERS | FC_L_WAKE_POLICY
  | FC_L_BAND_WEIGHTS | FC_L_BAND_MIN_SHARE | FC_L_CRITICAL_RESERVE | FC_L_BAND_WAIT
  | FC_L_BAND_QUEUE | FC_L_SHED_QUEUE | FC_L_TENANT_WAKE | FC_L_LLMD_HEADERS

datatype fc_wake_policy = FC_WAKE_STRICT | FC_WAKE_WEIGHTED

datatype fc_tenant_wake = FC_TENANT_WAKE_FIFO | FC_TENANT_WAKE_RR

datatype fc_band_fallback = FC_BAND_FB_NONE | FC_BAND_FB_SOCKMAP | FC_BAND_FB_NO_WEIGHTS
  | FC_BAND_FB_NO_QUEUE

datatype fc_band = FC_BAND_STANDARD | FC_BAND_CRITICAL | FC_BAND_SHEDDABLE

datatype fc_adapt_state = FC_AS_OFF | FC_AS_OPEN | FC_AS_TIGHTENED | FC_AS_FROZEN

datatype fc_adapt_reason = FC_AR_NONE | FC_AR_QUEUED | FC_AR_TTFT | FC_AR_CLEAR | FC_AR_STALE

datatype fc_reason = FC_R_ADMITTED | FC_R_CAPACITY_SHED | FC_R_NO_HEALTHY_CAPACITY
  | FC_R_OBSERVE_WOULD_SHED | FC_R_BYPASS_NON_INFERENCE | FC_R_QUEUED | FC_R_QUEUE_FULL
  | FC_R_QUEUE_TIMEOUT | FC_R_CANCELLED | FC_R_DRAINED | FC_R_OBSERVE_WOULD_QUEUE
  | FC_R_DRAINING | FC_R_TENANT_SHARE | FC_R_SHED

datatype fc_band_outcome_t = FC_BO_ADMITTED | FC_BO_QUEUED | FC_BO_SHED | FC_BO_EXPIRED
  | FC_BO_CANCELLED

datatype fc_anomaly = FC_A_UNDERFLOW | FC_A_UNKNOWN_PERMIT | FC_A_TENANT_TABLE_FULL
  | FC_A_H2_DENY_HEADERS

datatype fc_permit_state = FC_P_NONE | FC_P_BYPASS | FC_P_EXECUTING | FC_P_RELEASED
  | FC_P_QUEUED | FC_P_EVICTED | FC_P_ENDED

datatype fc_verdict = FC_ADMIT | FC_SHED | FC_NO_CAPACITY | FC_QUEUE | FC_DRAINING
  | FC_TENANT_SHARE | FC_BAND_SHED

datatype fc_resume = FC_RESUME_NOT_QUEUED | FC_RESUME_WAIT | FC_RESUME_TURN
  | FC_RESUME_EVICTED | FC_RESUME_DECIDED

section \<open>Configuration\<close>

record fc_cfg =
  c_mode :: fc_mode
  c_src :: "fc_limit \<Rightarrow> fc_src"
  c_max_outstanding :: u32
  c_ep_cap :: "fc_role \<Rightarrow> u32"
  c_max_queue_depth :: u32
  c_max_queue_wait_ms :: u32
  c_telemetry_stale_ms :: u32
  c_adaptive :: bool
  c_warmup_ms :: u32
  c_ttft_target_ms :: u32
  c_tenant_share_pct :: u8
  c_expose_headers :: bool
  c_wake_policy :: fc_wake_policy
  c_band_weight :: "fc_band \<Rightarrow> u8"
  c_band_min_share_pct :: "fc_band \<Rightarrow> u8"
  c_critical_reserve_pct :: u8
  c_band_wait_ms :: "fc_band \<Rightarrow> u32"
  c_band_queue_pct :: "fc_band \<Rightarrow> u8"
  c_shed_queue :: bool
  c_tenant_wake :: fc_tenant_wake
  c_llmd_headers :: bool
  c_bands :: bool
  c_wake_policy_cfg :: fc_wake_policy
  c_shed_queue_cfg :: bool
  c_tenant_wake_cfg :: fc_tenant_wake
  c_band_fallback :: fc_band_fallback

text \<open>A rule's declarations as they arrive: enum-valued bytes are still raw bytes.\<close>

record fc_rule_cfg =
  r_mode :: u8
  r_max_outstanding :: u32
  r_ep_cap :: "fc_role \<Rightarrow> u32"
  r_max_queue_depth :: u32
  r_max_queue_wait_ms :: u32
  r_telemetry_stale_ms :: u32
  r_adaptive :: u8
  r_warmup_ms :: u32
  r_ttft_target_ms :: u32
  r_tenant_share_pct :: u8
  r_expose_headers :: u8
  r_wake_policy :: u8
  r_band_weight :: "fc_band \<Rightarrow> u8"
  r_band_min_share_pct :: "fc_band \<Rightarrow> u8"
  r_critical_reserve_pct :: u8
  r_band_wait_ms :: "fc_band \<Rightarrow> u32"
  r_band_queue_pct :: "fc_band \<Rightarrow> u8"
  r_shed_queue :: u8
  r_tenant_wake :: u8
  r_llmd_headers :: u8

section \<open>Queue\<close>

record fc_queue_ent =
  e_fd :: int
  e_live :: bool
  e_band :: fc_band
  e_tslot :: int
  e_gen :: u64
  e_enqueue_ns :: u64
  e_deadline_ns :: u64

record fc_evicted_t =
  ev_fd :: int
  ev_gen :: u64
  ev_at_ns :: u64

text \<open>
  The evicted list is a C array with a fill count: here a list whose length is \<open>n_evicted\<close>.
  A ring that was never allocated (\<open>NULL\<close>) is the empty list with capacity 0.
\<close>

record fc_queue =
  q_ring :: "fc_queue_ent list"
  q_cap :: nat
  q_head :: nat
  q_tail :: nat
  q_used :: nat
  q_count :: nat
  q_band_count :: "fc_band \<Rightarrow> nat"
  q_drr_credit :: "fc_band \<Rightarrow> nat"
  q_rr_next :: "fc_band \<Rightarrow> nat"
  q_dead :: bool
  q_evicted :: "fc_evicted_t list"
  q_next_deadline_ns :: u64

section \<open>Tenants\<close>

record fc_tenant =
  t_key :: u64
  t_inflight :: u32
  t_queued :: u32
  t_used :: bool
  t_waiting_runnable :: bool
  t_next_free :: nat

text \<open>
  The tenant fields of \<open>fc_state_t\<close>, grouped: the table (\<open>None\<close> is the \<open>NULL\<close> pointer, before the
  first share and after the destroy), the lookup index and their counts.
\<close>

record fc_ttab =
  tt_tenants :: "fc_tenant list option"
  tt_index :: "nat list"
  tt_slots :: nat
  tt_used :: nat
  tt_free :: nat
  tt_tombs :: nat
  tt_runnable_waiting :: nat
  tt_bound :: u32

section \<open>Pool state, permit, deadline timer, process\<close>

record fc_state =
  s_cfg :: fc_cfg
  s_inflight :: u32
  s_queued :: u32
  s_band_inflight :: "fc_band \<Rightarrow> u32"
  s_band_queued :: "fc_band \<Rightarrow> u32"
  s_band_outcome :: "fc_band \<Rightarrow> fc_band_outcome_t \<Rightarrow> u64"
  s_band_std_read :: "fc_band_outcome_t \<Rightarrow> u64"
  s_ep_inflight :: "nat \<Rightarrow> fc_role \<Rightarrow> u32"
  s_decisions :: "fc_reason \<Rightarrow> u64"
  s_qwait_bucket :: "nat \<Rightarrow> u64"
  s_qwait_sum_ms :: u64
  s_qwait_count :: u64
  s_queue :: fc_queue
  s_eff_max :: u32
  s_adapt_state :: fc_adapt_state
  s_adapt_reason :: fc_adapt_reason
  s_adapt_moves :: "u64 \<times> u64"
  s_warm_since_ns :: "nat \<Rightarrow> u64"
  s_ttft_ewma_ms :: "nat \<Rightarrow> u32"
  s_ttft_ts_ns :: "nat \<Rightarrow> u64"
  s_tt :: fc_ttab

text \<open>The pointer \<open>p->fc\<close> is the address of a pool, \<open>None\<close> for \<open>NULL\<close>.\<close>

type_synonym pool_ref = nat

record fc_permit =
  p_fc :: "pool_ref option"
  p_state :: fc_permit_state
  p_svc_held :: bool
  p_woken :: bool
  p_band :: fc_band
  p_q_parked :: bool
  p_q_ttl_cut :: bool
  p_q_ttl_ms :: u32
  p_ep :: "fc_role \<Rightarrow> int"
  p_q_fd :: int
  p_q_slot :: nat
  p_q_gen :: u64
  p_q_enqueue_ns :: u64
  p_q_deadline_ns :: u64
  p_q_first_ns :: u64
  p_admit_ns :: u64
  p_tkey :: u64
  p_tslot :: int

text \<open>
  \<open>d_set_ns\<close> is the absolute time the kernel's timer was last set to by \<open>timerfd_settime\<close>.
\<close>

record fc_deadline =
  d_tfd :: int
  d_armed_ns :: u64
  d_last_fire_ns :: u64
  d_wakeups :: u64
  d_passes :: u64
  d_set_ns :: u64

record fc_signal =
  sig_fresh :: bool
  sig_queued :: bool
  sig_ttft_over :: bool

text \<open>Calls the module makes into the proxy, in the order it makes them.\<close>

datatype fc_call = OwnerHold pool_ref | OwnerDrop pool_ref | Wake int u64

text \<open>
  The process: every pool by its address, the module's globals, and what the module takes from its
  environment: the clock reading, whether an allocation of \<open>n\<close> elements succeeds, the owner hooks
  (installed or not) and the wake hook, whose answer may depend on every call made before
  (\<open>True\<close>: delivered).
\<close>

record fc_world =
  w_pools :: "pool_ref \<Rightarrow> fc_state"
  w_anomaly :: "fc_anomaly \<Rightarrow> u64"
  w_drain_flag :: bool
  w_timer :: fc_deadline
  w_clock :: u64
  w_calloc :: "nat \<Rightarrow> bool"
  w_owner_hold :: bool
  w_owner_drop :: bool
  w_wake_hook :: "(fc_call list \<Rightarrow> int \<Rightarrow> u64 \<Rightarrow> bool) option"
  w_calls :: "fc_call list"

end
