(* ===== verification/FC_Config.thy ===== *)
theory FC_Config
  imports FC_Types
begin

text \<open>
  Configuration of a pool (\<open>common/sockproxy_fc.c\<close>, section "configuration"): the defaults read
  from the process environment, a rule's declarations laid over them, the guard that holds a
  resolved configuration to what the control plane accepts, and the comparison of two
  configurations.
\<close>

section \<open>Names\<close>

fun fc_mode_name :: "fc_mode \<Rightarrow> string" where
  "fc_mode_name FC_MODE_OFF = ''off''"
| "fc_mode_name FC_MODE_OBSERVE = ''observe''"
| "fc_mode_name FC_MODE_ENFORCE = ''enforce''"

fun fc_src_name :: "fc_src \<Rightarrow> string" where
  "fc_src_name FC_SRC_RULE = ''rule''"
| "fc_src_name FC_SRC_ENV = ''env''"
| "fc_src_name FC_SRC_DEFAULT = ''default''"

fun fc_band_fallback_name :: "fc_band_fallback \<Rightarrow> string" where
  "fc_band_fallback_name FC_BAND_FB_SOCKMAP = ''sockmap_request''"
| "fc_band_fallback_name FC_BAND_FB_NO_WEIGHTS = ''zero_weight''"
| "fc_band_fallback_name FC_BAND_FB_NO_QUEUE = ''no_queue''"
| "fc_band_fallback_name FC_BAND_FB_NONE = ''none''"

section \<open>Reading the environment\<close>

text \<open>The value and the source, which stays what it was unless the environment gave the value.\<close>

definition fc_env_u32 :: "getenv_fn \<Rightarrow> string \<Rightarrow> u32 \<Rightarrow> fc_src \<Rightarrow> u32 \<times> fc_src" where
  "fc_env_u32 getenv name dflt src =
     (case getenv name of
        None \<Rightarrow> (dflt, src)
      | Some e \<Rightarrow>
          if e = [] then (dflt, src)
          else case strtol10 e of
                 None \<Rightarrow> (dflt, src)
               | Some (n, rest) \<Rightarrow>
                   if rest \<noteq> [] \<or> n < 0 \<or> n > 100000000 then (dflt, src)
                   else (word_of_int n, FC_SRC_ENV))"

definition fc_env_choice :: "getenv_fn \<Rightarrow> string \<Rightarrow> string \<Rightarrow> string \<Rightarrow> fc_src \<Rightarrow> bool \<times> fc_src" where
  "fc_env_choice getenv name v0 v1 src =
     (case getenv name of
        None \<Rightarrow> (False, src)
      | Some v \<Rightarrow> if strcaseeq v v1 then (True, FC_SRC_ENV)
                  else if strcaseeq v v0 then (False, FC_SRC_ENV)
                  else (False, src))"

definition fc_bands_all :: "fc_band list" where
  "fc_bands_all = [FC_BAND_STANDARD, FC_BAND_CRITICAL, FC_BAND_SHEDDABLE]"

definition fc_roles_all :: "fc_role list" where
  "fc_roles_all = [FC_ROLE_NORMAL, FC_ROLE_PREFILL, FC_ROLE_DECODE]"

definition fc_limits_all :: "fc_limit list" where
  "fc_limits_all = [FC_L_MODE, FC_L_MAX_OUTSTANDING, FC_L_EP_NORMAL, FC_L_EP_PREFILL,
     FC_L_EP_DECODE, FC_L_QUEUE_DEPTH, FC_L_QUEUE_WAIT, FC_L_TELEMETRY_STALE, FC_L_ADAPTIVE,
     FC_L_WARMUP, FC_L_TTFT_TARGET, FC_L_TENANT_SHARE, FC_L_EXPOSE_HEADERS, FC_L_WAKE_POLICY,
     FC_L_BAND_WEIGHTS, FC_L_BAND_MIN_SHARE, FC_L_CRITICAL_RESERVE, FC_L_BAND_WAIT,
     FC_L_BAND_QUEUE, FC_L_SHED_QUEUE, FC_L_TENANT_WAKE, FC_L_LLMD_HEADERS]"

text \<open>Whether any band knob differs from its default.\<close>

definition fc_cfg_bands :: "fc_cfg \<Rightarrow> bool" where
  "fc_cfg_bands c =
     (if c_wake_policy c \<noteq> FC_WAKE_STRICT \<or> c_shed_queue c \<or>
         c_tenant_wake c \<noteq> FC_TENANT_WAKE_FIFO then True
      else if list_ex (\<lambda>b. c_band_weight c b \<noteq> 0 \<or> c_band_min_share_pct c b \<noteq> 0 \<or>
                           c_band_wait_ms c b \<noteq> 0 \<or> c_band_queue_pct c b \<noteq> 0) fc_bands_all
      then True
      else c_critical_reserve_pct c \<noteq> 0)"

definition fc_cfg_band_mirror :: "fc_cfg \<Rightarrow> fc_cfg" where
  "fc_cfg_band_mirror c =
     c\<lparr>c_wake_policy_cfg := c_wake_policy c, c_shed_queue_cfg := c_shed_queue c,
       c_tenant_wake_cfg := c_tenant_wake c, c_band_fallback := FC_BAND_FB_NONE\<rparr>"

text \<open>\<open>memset (cfg, 0, sizeof (*cfg))\<close>.\<close>

definition fc_cfg_zero :: fc_cfg where
  "fc_cfg_zero =
     \<lparr>c_mode = FC_MODE_OFF, c_src = (\<lambda>_. FC_SRC_DEFAULT), c_max_outstanding = 0,
      c_ep_cap = (\<lambda>_. 0), c_max_queue_depth = 0, c_max_queue_wait_ms = 0,
      c_telemetry_stale_ms = 0, c_adaptive = False, c_warmup_ms = 0, c_ttft_target_ms = 0,
      c_tenant_share_pct = 0, c_expose_headers = False, c_wake_policy = FC_WAKE_STRICT,
      c_band_weight = (\<lambda>_. 0), c_band_min_share_pct = (\<lambda>_. 0), c_critical_reserve_pct = 0,
      c_band_wait_ms = (\<lambda>_. 0), c_band_queue_pct = (\<lambda>_. 0), c_shed_queue = False,
      c_tenant_wake = FC_TENANT_WAKE_FIFO, c_llmd_headers = False, c_bands = False,
      c_wake_policy_cfg = FC_WAKE_STRICT, c_shed_queue_cfg = False,
      c_tenant_wake_cfg = FC_TENANT_WAKE_FIFO, c_band_fallback = FC_BAND_FB_NONE\<rparr>"

definition set_src :: "fc_limit \<Rightarrow> fc_src \<Rightarrow> fc_cfg \<Rightarrow> fc_cfg" where
  "set_src l s c = c\<lparr>c_src := (c_src c)(l := s)\<rparr>"

text \<open>The switch pattern \<open>if (v && !strcasecmp (v, "on")) \<dots> else if (v && !strcasecmp (v, "off"))\<close>.\<close>

definition fc_cfg_env_mode :: "getenv_fn \<Rightarrow> fc_cfg \<Rightarrow> fc_cfg" where
  "fc_cfg_env_mode getenv cfg =
     (case getenv ''LLB_FC_MODE'' of
        None \<Rightarrow> cfg\<lparr>c_mode := FC_MODE_OFF\<rparr>
      | Some m \<Rightarrow>
          if strcaseeq m ''enforce'' then set_src FC_L_MODE FC_SRC_ENV (cfg\<lparr>c_mode := FC_MODE_ENFORCE\<rparr>)
          else if strcaseeq m ''observe'' then set_src FC_L_MODE FC_SRC_ENV (cfg\<lparr>c_mode := FC_MODE_OBSERVE\<rparr>)
          else if strcaseeq m ''off'' then set_src FC_L_MODE FC_SRC_ENV (cfg\<lparr>c_mode := FC_MODE_OFF\<rparr>)
          else cfg\<lparr>c_mode := FC_MODE_OFF\<rparr>)"

definition fc_cfg_env_ceilings :: "getenv_fn \<Rightarrow> fc_cfg \<Rightarrow> fc_cfg" where
  "fc_cfg_env_ceilings getenv cfg =
     (let (mo, s_mo) = fc_env_u32 getenv ''LLB_FC_MAX_OUTSTANDING'' 0 (c_src cfg FC_L_MAX_OUTSTANDING);
          (en, s_en) = fc_env_u32 getenv ''LLB_FC_EP_MAX_INFLIGHT'' 0 (c_src cfg FC_L_EP_NORMAL);
          (pd, s_pd) = fc_env_u32 getenv ''LLB_PD_MAX_INFLIGHT_PER_EP'' 0 (c_src cfg FC_L_EP_PREFILL);
          (pf, s_pf) = fc_env_u32 getenv ''LLB_FC_PREFILL_MAX_INFLIGHT'' pd s_pd;
          (de, s_de) = fc_env_u32 getenv ''LLB_FC_DECODE_MAX_INFLIGHT'' 0 (c_src cfg FC_L_EP_DECODE)
      in set_src FC_L_MAX_OUTSTANDING s_mo (set_src FC_L_EP_NORMAL s_en
           (set_src FC_L_EP_PREFILL s_pf (set_src FC_L_EP_DECODE s_de
              (cfg\<lparr>c_max_outstanding := mo,
                   c_ep_cap := (c_ep_cap cfg)(FC_ROLE_NORMAL := en, FC_ROLE_PREFILL := pf,
                                              FC_ROLE_DECODE := de)\<rparr>)))))"

definition fc_cfg_env_queue :: "getenv_fn \<Rightarrow> fc_cfg \<Rightarrow> fc_cfg" where
  "fc_cfg_env_queue getenv cfg =
     (let (qd, s_qd) = fc_env_u32 getenv ''LLB_FC_MAX_QUEUE_DEPTH'' 0 (c_src cfg FC_L_QUEUE_DEPTH);
          qd = (if qd > FC_QUEUE_DEPTH_MAX then FC_QUEUE_DEPTH_MAX else qd);
          (qw, s_qw) = fc_env_u32 getenv ''LLB_FC_MAX_QUEUE_WAIT_MS'' 0 (c_src cfg FC_L_QUEUE_WAIT);
          qw = (if qw > FC_QUEUE_WAIT_MS_MAX then FC_QUEUE_WAIT_MS_MAX else qw);
          qw = (if qd > 0 \<and> qw = 0 then 5000 else qw)
      in set_src FC_L_QUEUE_DEPTH s_qd (set_src FC_L_QUEUE_WAIT s_qw
           (cfg\<lparr>c_max_queue_depth := qd, c_max_queue_wait_ms := qw\<rparr>)))"

definition fc_cfg_env_telemetry :: "getenv_fn \<Rightarrow> fc_cfg \<Rightarrow> fc_cfg" where
  "fc_cfg_env_telemetry getenv cfg =
     (let (ts, s_ts) = fc_env_u32 getenv ''LLB_FC_TELEMETRY_STALE_MS'' FC_TELEMETRY_STALE_MS_DEFAULT
                         (c_src cfg FC_L_TELEMETRY_STALE);
          (ts, s_ts) = (if ts = 0 \<or> ts > FC_TELEMETRY_STALE_MS_MAX
                        then (FC_TELEMETRY_STALE_MS_DEFAULT, FC_SRC_DEFAULT) else (ts, s_ts));
          (ad, s_ad) = fc_env_choice getenv ''LLB_FC_ADAPTIVE'' ''off'' ''on'' (c_src cfg FC_L_ADAPTIVE);
          (wu, s_wu) = fc_env_u32 getenv ''LLB_FC_WARMUP_MS'' 0 (c_src cfg FC_L_WARMUP);
          wu = (if wu > FC_WARMUP_MS_MAX then FC_WARMUP_MS_MAX else wu);
          (tt, s_tt) = fc_env_u32 getenv ''LLB_FC_TTFT_TARGET_MS'' 0 (c_src cfg FC_L_TTFT_TARGET);
          tt = (if tt > FC_TTFT_TARGET_MS_MAX then FC_TTFT_TARGET_MS_MAX else tt)
      in set_src FC_L_TELEMETRY_STALE s_ts (set_src FC_L_ADAPTIVE s_ad
           (set_src FC_L_WARMUP s_wu (set_src FC_L_TTFT_TARGET s_tt
              (cfg\<lparr>c_telemetry_stale_ms := ts, c_adaptive := ad, c_warmup_ms := wu,
                   c_ttft_target_ms := tt\<rparr>)))))"

definition fc_cfg_env_share :: "getenv_fn \<Rightarrow> fc_cfg \<Rightarrow> fc_cfg" where
  "fc_cfg_env_share getenv cfg =
     (let (pct, s_p) = fc_env_u32 getenv ''LLB_FC_TENANT_MAX_SHARE_PCT'' 0 (c_src cfg FC_L_TENANT_SHARE);
          (pct, s_p) = (if pct > 100 then (0, FC_SRC_DEFAULT) else (pct, s_p));
          (ex, s_ex) = fc_env_choice getenv ''LLB_FC_EXPOSE_HEADERS'' ''off'' ''on''
                         (c_src cfg FC_L_EXPOSE_HEADERS)
      in set_src FC_L_TENANT_SHARE s_p (set_src FC_L_EXPOSE_HEADERS s_ex
           (cfg\<lparr>c_tenant_share_pct := ucast pct, c_expose_headers := ex\<rparr>)))"

definition fc_cfg_env_bands :: "getenv_fn \<Rightarrow> fc_cfg \<Rightarrow> fc_cfg" where
  "fc_cfg_env_bands getenv cfg =
     (let (wp, s_wp) = fc_env_choice getenv ''LLB_FC_WAKE_POLICY'' ''strict'' ''weighted''
                         (c_src cfg FC_L_WAKE_POLICY);
          (sq, s_sq) = fc_env_choice getenv ''LLB_FC_SHED_QUEUE'' ''off'' ''on'' (c_src cfg FC_L_SHED_QUEUE);
          (tw, s_tw) = fc_env_choice getenv ''LLB_FC_TENANT_WAKE'' ''fifo'' ''rr'' (c_src cfg FC_L_TENANT_WAKE);
          (lh, s_lh) = fc_env_choice getenv ''LLB_FC_LLMD_HEADERS'' ''off'' ''on'' (c_src cfg FC_L_LLMD_HEADERS)
      in set_src FC_L_WAKE_POLICY s_wp (set_src FC_L_SHED_QUEUE s_sq
           (set_src FC_L_TENANT_WAKE s_tw (set_src FC_L_LLMD_HEADERS s_lh
              (cfg\<lparr>c_wake_policy := (if wp then FC_WAKE_WEIGHTED else FC_WAKE_STRICT),
                   c_shed_queue := sq,
                   c_tenant_wake := (if tw then FC_TENANT_WAKE_RR else FC_TENANT_WAKE_FIFO),
                   c_llmd_headers := lh\<rparr>)))))"

definition fc_cfg_from_env :: "getenv_fn \<Rightarrow> fc_cfg" where
  "fc_cfg_from_env getenv =
     (let cfg = fc_cfg_env_mode getenv fc_cfg_zero;
          cfg = fc_cfg_env_ceilings getenv cfg;
          cfg = fc_cfg_env_queue getenv cfg;
          cfg = fc_cfg_env_telemetry getenv cfg;
          cfg = fc_cfg_env_share getenv cfg;
          cfg = fc_cfg_env_bands getenv cfg;
          cfg = cfg\<lparr>c_bands := fc_cfg_bands cfg\<rparr>
      in fc_cfg_band_mirror cfg)"

section \<open>A rule's declarations\<close>

definition fc_overlay_u32 :: "u32 \<Rightarrow> fc_src \<Rightarrow> u32 \<Rightarrow> u32 \<times> fc_src" where
  "fc_overlay_u32 val src declared = (if declared \<noteq> 0 then (declared, FC_SRC_RULE) else (val, src))"

text \<open>A rule-only triple, held at \<open>max\<close>; its source is the rule's when any value is set.\<close>

definition fc_band_triple_u8 :: "(fc_band \<Rightarrow> u8) \<Rightarrow> u8 \<Rightarrow> (fc_band \<Rightarrow> u8) \<times> fc_src" where
  "fc_band_triple_u8 rule mx =
     (let out = (\<lambda>b. if rule b > mx then mx else rule b)
      in (out, if list_ex (\<lambda>b. out b \<noteq> 0) fc_bands_all then FC_SRC_RULE else FC_SRC_DEFAULT))"

definition fc_cfg_resolve_bands :: "fc_cfg \<Rightarrow> fc_rule_cfg \<Rightarrow> fc_cfg" where
  "fc_cfg_resolve_bands out rule =
     (let out = (if r_wake_policy rule = 1 \<or> r_wake_policy rule = 2
                 then set_src FC_L_WAKE_POLICY FC_SRC_RULE
                        (out\<lparr>c_wake_policy := (if r_wake_policy rule = 2 then FC_WAKE_WEIGHTED
                                               else FC_WAKE_STRICT)\<rparr>)
                 else out);
          (bw, s_bw) = fc_band_triple_u8 (r_band_weight rule) FC_BAND_WEIGHT_MAX;
          (bm, s_bm) = fc_band_triple_u8 (r_band_min_share_pct rule) 100;
          cr = (if r_critical_reserve_pct rule > 100 then 100 else r_critical_reserve_pct rule);
          s_cr = (if cr \<noteq> 0 then FC_SRC_RULE else FC_SRC_DEFAULT);
          wt = (\<lambda>b. if r_band_wait_ms rule b > FC_QUEUE_WAIT_MS_MAX then FC_QUEUE_WAIT_MS_MAX
                    else r_band_wait_ms rule b);
          s_wt = (if list_ex (\<lambda>b. wt b \<noteq> 0) fc_bands_all then FC_SRC_RULE else FC_SRC_DEFAULT);
          (bq, s_bq) = fc_band_triple_u8 (r_band_queue_pct rule) 100;
          out = set_src FC_L_BAND_WEIGHTS s_bw (set_src FC_L_BAND_MIN_SHARE s_bm
                  (set_src FC_L_CRITICAL_RESERVE s_cr (set_src FC_L_BAND_WAIT s_wt
                     (set_src FC_L_BAND_QUEUE s_bq
                        (out\<lparr>c_band_weight := bw, c_band_min_share_pct := bm,
                             c_critical_reserve_pct := cr, c_band_wait_ms := wt,
                             c_band_queue_pct := bq\<rparr>)))));
          out = (if r_shed_queue rule = 1 \<or> r_shed_queue rule = 2
                 then set_src FC_L_SHED_QUEUE FC_SRC_RULE
                        (out\<lparr>c_shed_queue := (r_shed_queue rule = 2)\<rparr>)
                 else out);
          out = (if r_tenant_wake rule = 1 \<or> r_tenant_wake rule = 2
                 then set_src FC_L_TENANT_WAKE FC_SRC_RULE
                        (out\<lparr>c_tenant_wake := (if r_tenant_wake rule = 2 then FC_TENANT_WAKE_RR
                                               else FC_TENANT_WAKE_FIFO)\<rparr>)
                 else out);
          out = (if r_llmd_headers rule = 1 \<or> r_llmd_headers rule = 2
                 then set_src FC_L_LLMD_HEADERS FC_SRC_RULE
                        (out\<lparr>c_llmd_headers := (r_llmd_headers rule = 2)\<rparr>)
                 else out);
          out = out\<lparr>c_bands := fc_cfg_bands out\<rparr>
      in fc_cfg_band_mirror out)"

definition fc_mode_of_rule :: "u8 \<Rightarrow> fc_mode" where
  "fc_mode_of_rule m = (if m = 1 then FC_MODE_OFF else if m = 2 then FC_MODE_OBSERVE
                        else FC_MODE_ENFORCE)"

text \<open>The ceilings and the queue: \<open>fc_cfg_resolve\<close> up to and including the wait window.\<close>

definition fc_cfg_resolve_queue :: "fc_cfg \<Rightarrow> fc_cfg \<Rightarrow> fc_rule_cfg \<Rightarrow> fc_cfg" where
  "fc_cfg_resolve_queue out env rule =
     (let out = (if r_mode rule \<ge> 1 \<and> r_mode rule \<le> 3
                 then set_src FC_L_MODE FC_SRC_RULE (out\<lparr>c_mode := fc_mode_of_rule (r_mode rule)\<rparr>)
                 else out);
          (mo, s_mo) = fc_overlay_u32 (c_max_outstanding out) (c_src out FC_L_MAX_OUTSTANDING)
                         (r_max_outstanding rule);
          (en, s_en) = fc_overlay_u32 (c_ep_cap out FC_ROLE_NORMAL) (c_src out FC_L_EP_NORMAL)
                         (r_ep_cap rule FC_ROLE_NORMAL);
          (ep, s_ep) = fc_overlay_u32 (c_ep_cap out FC_ROLE_PREFILL) (c_src out FC_L_EP_PREFILL)
                         (r_ep_cap rule FC_ROLE_PREFILL);
          (ed, s_ed) = fc_overlay_u32 (c_ep_cap out FC_ROLE_DECODE) (c_src out FC_L_EP_DECODE)
                         (r_ep_cap rule FC_ROLE_DECODE);
          (qd, s_qd) = fc_overlay_u32 (c_max_queue_depth out) (c_src out FC_L_QUEUE_DEPTH)
                         (r_max_queue_depth rule);
          qd = (if qd > FC_QUEUE_DEPTH_MAX then FC_QUEUE_DEPTH_MAX else qd);
          qw = (if c_src env FC_L_QUEUE_WAIT = FC_SRC_DEFAULT then 0 else c_max_queue_wait_ms out);
          (qw, s_qw) = fc_overlay_u32 qw (c_src out FC_L_QUEUE_WAIT) (r_max_queue_wait_ms rule);
          qw = (if qw > FC_QUEUE_WAIT_MS_MAX then FC_QUEUE_WAIT_MS_MAX else qw);
          (qw, s_qw) = (if qd > 0 \<and> qw = 0 then (5000, FC_SRC_DEFAULT) else (qw, s_qw))
      in set_src FC_L_MAX_OUTSTANDING s_mo (set_src FC_L_EP_NORMAL s_en
           (set_src FC_L_EP_PREFILL s_ep (set_src FC_L_EP_DECODE s_ed
              (set_src FC_L_QUEUE_DEPTH s_qd (set_src FC_L_QUEUE_WAIT s_qw
                 (out\<lparr>c_max_outstanding := mo,
                      c_ep_cap := (c_ep_cap out)(FC_ROLE_NORMAL := en, FC_ROLE_PREFILL := ep,
                                                 FC_ROLE_DECODE := ed),
                      c_max_queue_depth := qd, c_max_queue_wait_ms := qw\<rparr>)))))))"

text \<open>Telemetry, adaptive ceiling, warm-up, TTFT target, tenant share and admission headers.\<close>

definition fc_cfg_resolve_adapt :: "fc_cfg \<Rightarrow> fc_rule_cfg \<Rightarrow> fc_cfg" where
  "fc_cfg_resolve_adapt out rule =
     (let (ts, s_ts) = fc_overlay_u32 (c_telemetry_stale_ms out) (c_src out FC_L_TELEMETRY_STALE)
                         (r_telemetry_stale_ms rule);
          ts = (if ts > FC_TELEMETRY_STALE_MS_MAX then FC_TELEMETRY_STALE_MS_MAX else ts);
          out = set_src FC_L_TELEMETRY_STALE s_ts (out\<lparr>c_telemetry_stale_ms := ts\<rparr>);
          out = (if r_adaptive rule = 1 \<or> r_adaptive rule = 2
                 then set_src FC_L_ADAPTIVE FC_SRC_RULE (out\<lparr>c_adaptive := (r_adaptive rule = 2)\<rparr>)
                 else out);
          (wu, s_wu) = fc_overlay_u32 (c_warmup_ms out) (c_src out FC_L_WARMUP) (r_warmup_ms rule);
          wu = (if wu > FC_WARMUP_MS_MAX then FC_WARMUP_MS_MAX else wu);
          (tt, s_tt) = fc_overlay_u32 (c_ttft_target_ms out) (c_src out FC_L_TTFT_TARGET)
                         (r_ttft_target_ms rule);
          tt = (if tt > FC_TTFT_TARGET_MS_MAX then FC_TTFT_TARGET_MS_MAX else tt);
          out = set_src FC_L_WARMUP s_wu (set_src FC_L_TTFT_TARGET s_tt
                  (out\<lparr>c_warmup_ms := wu, c_ttft_target_ms := tt\<rparr>));
          out = (if r_tenant_share_pct rule \<ge> 1 \<and> r_tenant_share_pct rule \<le> 100
                 then set_src FC_L_TENANT_SHARE FC_SRC_RULE
                        (out\<lparr>c_tenant_share_pct := r_tenant_share_pct rule\<rparr>)
                 else out)
      in if r_expose_headers rule = 1 \<or> r_expose_headers rule = 2
         then set_src FC_L_EXPOSE_HEADERS FC_SRC_RULE
                (out\<lparr>c_expose_headers := (r_expose_headers rule = 2)\<rparr>)
         else out)"

definition fc_cfg_resolve :: "fc_cfg \<Rightarrow> fc_rule_cfg option \<Rightarrow> fc_cfg" where
  "fc_cfg_resolve env rule =
     (case rule of
        None \<Rightarrow> env
      | Some r \<Rightarrow> fc_cfg_resolve_bands (fc_cfg_resolve_adapt (fc_cfg_resolve_queue env env r) r) r)"

section \<open>The guard and the comparison\<close>

text \<open>The three judgements of \<open>fc_cfg_band_guard\<close>, in its order.\<close>

definition fc_guard_bypass :: "bool \<Rightarrow> fc_cfg \<Rightarrow> fc_cfg" where
  "fc_guard_bypass gate_bypassed c =
     (if gate_bypassed \<and> c_bands c
      then c\<lparr>c_wake_policy := FC_WAKE_STRICT, c_shed_queue := False,
             c_tenant_wake := FC_TENANT_WAKE_FIFO, c_band_weight := (\<lambda>_. 0),
             c_band_min_share_pct := (\<lambda>_. 0), c_critical_reserve_pct := 0,
             c_band_wait_ms := (\<lambda>_. 0), c_band_queue_pct := (\<lambda>_. 0),
             c_band_fallback := FC_BAND_FB_SOCKMAP\<rparr>
      else c)"

definition fc_guard_weights :: "fc_cfg \<Rightarrow> fc_cfg" where
  "fc_guard_weights c =
     (if c_wake_policy c = FC_WAKE_WEIGHTED \<and> list_ex (\<lambda>b. c_band_weight c b = 0) fc_bands_all
      then c\<lparr>c_wake_policy := FC_WAKE_STRICT,
             c_band_fallback := (if c_band_fallback c = FC_BAND_FB_NONE
                                 then FC_BAND_FB_NO_WEIGHTS else c_band_fallback c)\<rparr>
      else c)"

definition fc_guard_shed :: "fc_cfg \<Rightarrow> fc_cfg" where
  "fc_guard_shed c =
     (if c_shed_queue c \<and> c_max_queue_depth c = 0
      then c\<lparr>c_shed_queue := False,
             c_band_fallback := (if c_band_fallback c = FC_BAND_FB_NONE
                                 then FC_BAND_FB_NO_QUEUE else c_band_fallback c)\<rparr>
      else c)"

text \<open>The guarded configuration; the value the function returns is its \<open>c_band_fallback\<close>.\<close>

definition fc_cfg_band_guard :: "fc_cfg \<Rightarrow> bool \<Rightarrow> fc_cfg" where
  "fc_cfg_band_guard c gate_bypassed =
     (let c = fc_guard_shed (fc_guard_weights (fc_guard_bypass gate_bypassed (fc_cfg_band_mirror c)))
      in c\<lparr>c_bands := fc_cfg_bands c\<rparr>)"

definition fc_cfg_equal :: "fc_cfg \<Rightarrow> fc_cfg \<Rightarrow> bool" where
  "fc_cfg_equal a b =
     (if c_mode a \<noteq> c_mode b \<or> c_max_outstanding a \<noteq> c_max_outstanding b \<or>
         c_max_queue_depth a \<noteq> c_max_queue_depth b \<or>
         c_max_queue_wait_ms a \<noteq> c_max_queue_wait_ms b \<or>
         c_telemetry_stale_ms a \<noteq> c_telemetry_stale_ms b \<or>
         c_adaptive a \<noteq> c_adaptive b \<or> c_warmup_ms a \<noteq> c_warmup_ms b \<or>
         c_ttft_target_ms a \<noteq> c_ttft_target_ms b \<or>
         c_tenant_share_pct a \<noteq> c_tenant_share_pct b \<or>
         c_expose_headers a \<noteq> c_expose_headers b \<or>
         c_wake_policy a \<noteq> c_wake_policy b \<or> c_shed_queue a \<noteq> c_shed_queue b \<or>
         c_tenant_wake a \<noteq> c_tenant_wake b \<or> c_llmd_headers a \<noteq> c_llmd_headers b \<or>
         c_bands a \<noteq> c_bands b \<or> c_wake_policy_cfg a \<noteq> c_wake_policy_cfg b \<or>
         c_critical_reserve_pct a \<noteq> c_critical_reserve_pct b \<or>
         c_shed_queue_cfg a \<noteq> c_shed_queue_cfg b \<or>
         c_tenant_wake_cfg a \<noteq> c_tenant_wake_cfg b \<or>
         c_band_fallback a \<noteq> c_band_fallback b
      then False
      else if list_ex (\<lambda>i. c_band_weight a i \<noteq> c_band_weight b i \<or>
                           c_band_min_share_pct a i \<noteq> c_band_min_share_pct b i \<or>
                           c_band_wait_ms a i \<noteq> c_band_wait_ms b i \<or>
                           c_band_queue_pct a i \<noteq> c_band_queue_pct b i) fc_bands_all
      then False
      else if list_ex (\<lambda>r. c_ep_cap a r \<noteq> c_ep_cap b r) fc_roles_all then False
      else if list_ex (\<lambda>l. c_src a l \<noteq> c_src b l) fc_limits_all then False
      else True)"

section \<open>Lemmas\<close>

lemma set_fc_bands_all [simp]: "b \<in> set fc_bands_all"
  by (cases b) (simp_all add: fc_bands_all_def)

lemma set_fc_roles_all [simp]: "r \<in> set fc_roles_all"
  by (cases r) (simp_all add: fc_roles_all_def)

lemma set_fc_limits_all [simp]: "l \<in> set fc_limits_all"
  by (cases l) (simp_all add: fc_limits_all_def)

lemma fc_cfg_eqI:
  fixes a b :: fc_cfg
  assumes "c_mode a = c_mode b" "c_src a = c_src b" "c_max_outstanding a = c_max_outstanding b"
    "c_ep_cap a = c_ep_cap b" "c_max_queue_depth a = c_max_queue_depth b"
    "c_max_queue_wait_ms a = c_max_queue_wait_ms b"
    "c_telemetry_stale_ms a = c_telemetry_stale_ms b" "c_adaptive a = c_adaptive b"
    "c_warmup_ms a = c_warmup_ms b" "c_ttft_target_ms a = c_ttft_target_ms b"
    "c_tenant_share_pct a = c_tenant_share_pct b" "c_expose_headers a = c_expose_headers b"
    "c_wake_policy a = c_wake_policy b" "c_band_weight a = c_band_weight b"
    "c_band_min_share_pct a = c_band_min_share_pct b"
    "c_critical_reserve_pct a = c_critical_reserve_pct b"
    "c_band_wait_ms a = c_band_wait_ms b" "c_band_queue_pct a = c_band_queue_pct b"
    "c_shed_queue a = c_shed_queue b" "c_tenant_wake a = c_tenant_wake b"
    "c_llmd_headers a = c_llmd_headers b" "c_bands a = c_bands b"
    "c_wake_policy_cfg a = c_wake_policy_cfg b" "c_shed_queue_cfg a = c_shed_queue_cfg b"
    "c_tenant_wake_cfg a = c_tenant_wake_cfg b" "c_band_fallback a = c_band_fallback b"
  shows "a = b"
  using assms by (cases a; cases b) simp

text \<open>Two configurations compare equal exactly when they are the same configuration.\<close>

lemma fc_cfg_equal_iff': "fc_cfg_equal a b \<longleftrightarrow> a = b"
proof
  assume "fc_cfg_equal a b"
  then have eq: "fc_cfg_equal a b = True" by simp
  note E = eq [simplified fc_cfg_equal_def list_ex_iff if_bool_eq_conj, simplified]
  show "a = b"
    by (rule fc_cfg_eqI) (use E in \<open>simp_all add: fun_eq_iff\<close>)
next
  assume "a = b"
  then show "fc_cfg_equal a b" by (simp add: fc_cfg_equal_def list_ex_iff)
qed

text \<open>What every configuration a pool may run on satisfies.\<close>

definition fc_cfg_wf :: "fc_cfg \<Rightarrow> bool" where
  "fc_cfg_wf c \<longleftrightarrow>
     c_max_queue_depth c \<le> FC_QUEUE_DEPTH_MAX \<and> c_max_queue_wait_ms c \<le> FC_QUEUE_WAIT_MS_MAX \<and>
     (c_max_queue_depth c > 0 \<longrightarrow> c_max_queue_wait_ms c > 0) \<and>
     0 < c_telemetry_stale_ms c \<and> c_telemetry_stale_ms c \<le> FC_TELEMETRY_STALE_MS_MAX \<and>
     c_warmup_ms c \<le> FC_WARMUP_MS_MAX \<and> c_ttft_target_ms c \<le> FC_TTFT_TARGET_MS_MAX \<and>
     c_tenant_share_pct c \<le> 100 \<and> c_critical_reserve_pct c \<le> 100 \<and>
     list_all (\<lambda>b. c_band_weight c b \<le> FC_BAND_WEIGHT_MAX \<and> c_band_min_share_pct c b \<le> 100 \<and>
                    c_band_wait_ms c b \<le> FC_QUEUE_WAIT_MS_MAX \<and> c_band_queue_pct c b \<le> 100)
       fc_bands_all"

lemma set_src_sel [simp]:
  "c_mode (set_src l s c) = c_mode c" "c_max_outstanding (set_src l s c) = c_max_outstanding c"
  "c_ep_cap (set_src l s c) = c_ep_cap c" "c_max_queue_depth (set_src l s c) = c_max_queue_depth c"
  "c_max_queue_wait_ms (set_src l s c) = c_max_queue_wait_ms c"
  "c_telemetry_stale_ms (set_src l s c) = c_telemetry_stale_ms c"
  "c_adaptive (set_src l s c) = c_adaptive c" "c_warmup_ms (set_src l s c) = c_warmup_ms c"
  "c_ttft_target_ms (set_src l s c) = c_ttft_target_ms c"
  "c_tenant_share_pct (set_src l s c) = c_tenant_share_pct c"
  "c_expose_headers (set_src l s c) = c_expose_headers c"
  "c_wake_policy (set_src l s c) = c_wake_policy c" "c_band_weight (set_src l s c) = c_band_weight c"
  "c_band_min_share_pct (set_src l s c) = c_band_min_share_pct c"
  "c_critical_reserve_pct (set_src l s c) = c_critical_reserve_pct c"
  "c_band_wait_ms (set_src l s c) = c_band_wait_ms c"
  "c_band_queue_pct (set_src l s c) = c_band_queue_pct c"
  "c_shed_queue (set_src l s c) = c_shed_queue c" "c_tenant_wake (set_src l s c) = c_tenant_wake c"
  "c_llmd_headers (set_src l s c) = c_llmd_headers c" "c_bands (set_src l s c) = c_bands c"
  "c_src (set_src l s c) = (c_src c)(l := s)"
  by (simp_all add: set_src_def)

lemma fc_cfg_band_mirror_wf [simp]: "fc_cfg_wf (fc_cfg_band_mirror c) = fc_cfg_wf c"
  by (simp add: fc_cfg_wf_def fc_cfg_band_mirror_def)

lemma fc_cfg_wf_bands [simp]: "fc_cfg_wf (c\<lparr>c_bands := b\<rparr>) = fc_cfg_wf c"
  by (simp add: fc_cfg_wf_def)

lemma fc_cfg_wf_set_src [simp]: "fc_cfg_wf (set_src l s c) = fc_cfg_wf c"
  by (simp add: fc_cfg_wf_def)

lemma fc_env_u32_zero_src: "fc_env_u32 g n d s = (v, s') \<Longrightarrow> s' = s \<or> s' = FC_SRC_ENV"
  by (auto simp: fc_env_u32_def split: option.splits if_splits)

text \<open>The queue, telemetry and share parts of the environment, each read from its own knobs.\<close>

lemma fc_cfg_env_bounds:
  shows "c_max_queue_depth (fc_cfg_env_queue g c) \<le> FC_QUEUE_DEPTH_MAX"
    and "c_max_queue_wait_ms (fc_cfg_env_queue g c) \<le> FC_QUEUE_WAIT_MS_MAX"
    and "c_max_queue_depth (fc_cfg_env_queue g c) > 0 \<Longrightarrow> c_max_queue_wait_ms (fc_cfg_env_queue g c) > 0"
    and "0 < c_telemetry_stale_ms (fc_cfg_env_telemetry g c)"
    and "c_telemetry_stale_ms (fc_cfg_env_telemetry g c) \<le> FC_TELEMETRY_STALE_MS_MAX"
    and "c_warmup_ms (fc_cfg_env_telemetry g c) \<le> FC_WARMUP_MS_MAX"
    and "c_ttft_target_ms (fc_cfg_env_telemetry g c) \<le> FC_TTFT_TARGET_MS_MAX"
  by (auto simp: fc_cfg_env_queue_def fc_cfg_env_telemetry_def Let_def word_gt_0 not_less
      split: prod.splits if_splits)

lemma ucast_u8_pct:
  assumes "(p :: u32) \<le> 100" shows "(ucast p :: u8) \<le> 100"
proof -
  have "unat (ucast p :: u8) = take_bit 8 (unat p)" by (simp add: unsigned_ucast_eq)
  also have "\<dots> \<le> unat p" by (rule take_bit_nat_less_eq_self)
  also have "\<dots> \<le> 100" using assms by (simp add: word_le_nat_alt)
  finally show ?thesis by (simp add: word_le_nat_alt)
qed

lemma fc_cfg_env_share_pct: "c_tenant_share_pct (fc_cfg_env_share g c) \<le> 100"
  by (auto simp: fc_cfg_env_share_def Let_def not_less intro: ucast_u8_pct split: prod.splits if_splits)

lemma fc_cfg_env_frame:
  "c_max_queue_depth (fc_cfg_env_telemetry g c) = c_max_queue_depth c"
  "c_max_queue_wait_ms (fc_cfg_env_telemetry g c) = c_max_queue_wait_ms c"
  "c_max_queue_depth (fc_cfg_env_share g c) = c_max_queue_depth c"
  "c_max_queue_wait_ms (fc_cfg_env_share g c) = c_max_queue_wait_ms c"
  "c_telemetry_stale_ms (fc_cfg_env_share g c) = c_telemetry_stale_ms c"
  "c_warmup_ms (fc_cfg_env_share g c) = c_warmup_ms c"
  "c_ttft_target_ms (fc_cfg_env_share g c) = c_ttft_target_ms c"
  by (simp_all add: fc_cfg_env_telemetry_def fc_cfg_env_share_def Let_def split: prod.splits)

lemma fc_cfg_env_bands_wf: "fc_cfg_wf (fc_cfg_env_bands g c) = fc_cfg_wf c"
  by (simp add: fc_cfg_env_bands_def Let_def fc_cfg_wf_def split: prod.splits)

definition fc_cfg_triples_zero :: "fc_cfg \<Rightarrow> bool" where
  "fc_cfg_triples_zero c \<longleftrightarrow> c_band_weight c = (\<lambda>_. 0) \<and> c_band_min_share_pct c = (\<lambda>_. 0) \<and>
     c_critical_reserve_pct c = 0 \<and> c_band_wait_ms c = (\<lambda>_. 0) \<and> c_band_queue_pct c = (\<lambda>_. 0)"

lemma fc_cfg_env_triples_zero:
  "fc_cfg_triples_zero fc_cfg_zero"
  "fc_cfg_triples_zero (fc_cfg_env_mode g c) = fc_cfg_triples_zero c"
  "fc_cfg_triples_zero (fc_cfg_env_ceilings g c) = fc_cfg_triples_zero c"
  "fc_cfg_triples_zero (fc_cfg_env_queue g c) = fc_cfg_triples_zero c"
  "fc_cfg_triples_zero (fc_cfg_env_telemetry g c) = fc_cfg_triples_zero c"
  "fc_cfg_triples_zero (fc_cfg_env_share g c) = fc_cfg_triples_zero c"
  by (simp_all add: fc_cfg_triples_zero_def fc_cfg_zero_def fc_cfg_env_mode_def
      fc_cfg_env_ceilings_def fc_cfg_env_queue_def fc_cfg_env_telemetry_def fc_cfg_env_share_def
      Let_def split: prod.splits option.splits)

lemma fc_cfg_from_env_wf': "fc_cfg_wf (fc_cfg_from_env g)"
proof -
  let ?q = "fc_cfg_env_queue g (fc_cfg_env_ceilings g (fc_cfg_env_mode g fc_cfg_zero))"
  let ?s = "fc_cfg_env_share g (fc_cfg_env_telemetry g ?q)"
  have "fc_cfg_triples_zero ?s" by (simp add: fc_cfg_env_triples_zero)
  then have "fc_cfg_wf ?s"
    by (simp add: fc_cfg_wf_def fc_cfg_env_frame fc_cfg_env_bounds fc_cfg_env_share_pct
        fc_cfg_triples_zero_def list_all_iff)
  then show ?thesis by (simp add: fc_cfg_from_env_def Let_def fc_cfg_env_bands_wf)
qed

text \<open>Selectors through the conditional overlays, without case splits.\<close>

lemmas cfg_sel_if =
  if_distrib [of c_mode]
  if_distrib [of c_src]
  if_distrib [of c_max_outstanding]
  if_distrib [of c_ep_cap]
  if_distrib [of c_max_queue_depth]
  if_distrib [of c_max_queue_wait_ms]
  if_distrib [of c_telemetry_stale_ms]
  if_distrib [of c_adaptive]
  if_distrib [of c_warmup_ms]
  if_distrib [of c_ttft_target_ms]
  if_distrib [of c_tenant_share_pct]
  if_distrib [of c_expose_headers]
  if_distrib [of c_wake_policy]
  if_distrib [of c_band_weight]
  if_distrib [of c_band_min_share_pct]
  if_distrib [of c_critical_reserve_pct]
  if_distrib [of c_band_wait_ms]
  if_distrib [of c_band_queue_pct]
  if_distrib [of c_shed_queue]
  if_distrib [of c_tenant_wake]
  if_distrib [of c_llmd_headers]
  if_distrib [of c_bands]

lemma fc_overlay_u32_pair:
  "fc_overlay_u32 v s d = (if d \<noteq> 0 then d else v, if d \<noteq> 0 then FC_SRC_RULE else s)"
  by (simp add: fc_overlay_u32_def)

definition held :: "'a::linorder \<Rightarrow> 'a \<Rightarrow> 'a" where
  "held mx v = (if v > mx then mx else v)"

definition declared :: "'a::zero \<Rightarrow> 'a \<Rightarrow> 'a" where
  "declared d v = (if d \<noteq> 0 then d else v)"

lemma held_le [simp]: "held mx v \<le> mx"
  by (simp add: held_def not_less)

lemma held_held [simp]: "held mx (held mx v) = held mx v"
  by (simp add: held_def)

lemma declared_again [simp]: "declared d (held mx (declared d v)) = (if d \<noteq> 0 then d else held mx v)"
  by (simp add: declared_def)

lemma declared_pos: "0 < v \<Longrightarrow> 0 < declared d (v :: 'a::len word)"
  by (simp add: declared_def word_gt_0)

lemma held_pos: "0 < v \<Longrightarrow> 0 < mx \<Longrightarrow> 0 < held mx (v :: 'a::len word)"
  by (simp add: held_def)

text \<open>The wait window a rule ends with, from what the environment declared and the rule's own.\<close>

definition resolved_wait :: "fc_cfg \<Rightarrow> fc_rule_cfg \<Rightarrow> u32" where
  "resolved_wait e r = held FC_QUEUE_WAIT_MS_MAX (declared (r_max_queue_wait_ms r)
     (if c_src e FC_L_QUEUE_WAIT = FC_SRC_DEFAULT then 0 else c_max_queue_wait_ms e))"

definition resolved_depth :: "fc_cfg \<Rightarrow> fc_rule_cfg \<Rightarrow> u32" where
  "resolved_depth e r = held FC_QUEUE_DEPTH_MAX (declared (r_max_queue_depth r) (c_max_queue_depth e))"

lemma fc_cfg_resolve_queue_frame [simp]:
  "c_telemetry_stale_ms (fc_cfg_resolve_queue c e r) = c_telemetry_stale_ms c"
  "c_adaptive (fc_cfg_resolve_queue c e r) = c_adaptive c"
  "c_warmup_ms (fc_cfg_resolve_queue c e r) = c_warmup_ms c"
  "c_ttft_target_ms (fc_cfg_resolve_queue c e r) = c_ttft_target_ms c"
  "c_tenant_share_pct (fc_cfg_resolve_queue c e r) = c_tenant_share_pct c"
  "c_expose_headers (fc_cfg_resolve_queue c e r) = c_expose_headers c"
  "c_wake_policy (fc_cfg_resolve_queue c e r) = c_wake_policy c"
  "c_band_weight (fc_cfg_resolve_queue c e r) = c_band_weight c"
  "c_band_min_share_pct (fc_cfg_resolve_queue c e r) = c_band_min_share_pct c"
  "c_critical_reserve_pct (fc_cfg_resolve_queue c e r) = c_critical_reserve_pct c"
  "c_band_wait_ms (fc_cfg_resolve_queue c e r) = c_band_wait_ms c"
  "c_band_queue_pct (fc_cfg_resolve_queue c e r) = c_band_queue_pct c"
  "c_shed_queue (fc_cfg_resolve_queue c e r) = c_shed_queue c"
  "c_tenant_wake (fc_cfg_resolve_queue c e r) = c_tenant_wake c"
  "c_llmd_headers (fc_cfg_resolve_queue c e r) = c_llmd_headers c"
  by (simp_all add: fc_cfg_resolve_queue_def fc_overlay_u32_pair cfg_sel_if Let_def
      case_prod_beta cong: if_cong split del: if_split)

lemma fc_cfg_resolve_queue_sel [simp]:
  "c_mode (fc_cfg_resolve_queue c e r) =
     (if r_mode r \<ge> 1 \<and> r_mode r \<le> 3 then fc_mode_of_rule (r_mode r) else c_mode c)"
  "c_max_outstanding (fc_cfg_resolve_queue c e r) = declared (r_max_outstanding r) (c_max_outstanding c)"
  "c_ep_cap (fc_cfg_resolve_queue c e r) x = declared (r_ep_cap r x) (c_ep_cap c x)"
  "c_max_queue_depth (fc_cfg_resolve_queue c e r) = resolved_depth c r"
  "c_max_queue_wait_ms (fc_cfg_resolve_queue c c r) =
     (if resolved_depth c r > 0 \<and> resolved_wait c r = 0 then 5000 else resolved_wait c r)"
proof -
  show "c_ep_cap (fc_cfg_resolve_queue c e r) x = declared (r_ep_cap r x) (c_ep_cap c x)"
    by (cases x; simp add: fc_cfg_resolve_queue_def fc_overlay_u32_pair declared_def cfg_sel_if Let_def
      case_prod_beta cong: if_cong split del: if_split)
qed (simp_all add: fc_cfg_resolve_queue_def fc_overlay_u32_pair resolved_depth_def resolved_wait_def
      held_def declared_def if_distrib [of fst] cfg_sel_if Let_def
      case_prod_beta cong: if_cong split del: if_split)

lemma fc_cfg_resolve_adapt_frame [simp]:
  "c_mode (fc_cfg_resolve_adapt c r) = c_mode c"
  "c_max_outstanding (fc_cfg_resolve_adapt c r) = c_max_outstanding c"
  "c_ep_cap (fc_cfg_resolve_adapt c r) = c_ep_cap c"
  "c_max_queue_depth (fc_cfg_resolve_adapt c r) = c_max_queue_depth c"
  "c_max_queue_wait_ms (fc_cfg_resolve_adapt c r) = c_max_queue_wait_ms c"
  "c_wake_policy (fc_cfg_resolve_adapt c r) = c_wake_policy c"
  "c_band_weight (fc_cfg_resolve_adapt c r) = c_band_weight c"
  "c_band_min_share_pct (fc_cfg_resolve_adapt c r) = c_band_min_share_pct c"
  "c_critical_reserve_pct (fc_cfg_resolve_adapt c r) = c_critical_reserve_pct c"
  "c_band_wait_ms (fc_cfg_resolve_adapt c r) = c_band_wait_ms c"
  "c_band_queue_pct (fc_cfg_resolve_adapt c r) = c_band_queue_pct c"
  "c_shed_queue (fc_cfg_resolve_adapt c r) = c_shed_queue c"
  "c_tenant_wake (fc_cfg_resolve_adapt c r) = c_tenant_wake c"
  "c_llmd_headers (fc_cfg_resolve_adapt c r) = c_llmd_headers c"
  by (simp_all add: fc_cfg_resolve_adapt_def fc_overlay_u32_pair cfg_sel_if Let_def
      case_prod_beta cong: if_cong split del: if_split)

lemma fc_cfg_resolve_adapt_sel [simp]:
  "c_telemetry_stale_ms (fc_cfg_resolve_adapt c r) =
     held FC_TELEMETRY_STALE_MS_MAX (declared (r_telemetry_stale_ms r) (c_telemetry_stale_ms c))"
  "c_adaptive (fc_cfg_resolve_adapt c r) =
     (if r_adaptive r = 1 \<or> r_adaptive r = 2 then r_adaptive r = 2 else c_adaptive c)"
  "c_warmup_ms (fc_cfg_resolve_adapt c r) =
     held FC_WARMUP_MS_MAX (declared (r_warmup_ms r) (c_warmup_ms c))"
  "c_ttft_target_ms (fc_cfg_resolve_adapt c r) =
     held FC_TTFT_TARGET_MS_MAX (declared (r_ttft_target_ms r) (c_ttft_target_ms c))"
  "c_tenant_share_pct (fc_cfg_resolve_adapt c r) =
     (if r_tenant_share_pct r \<ge> 1 \<and> r_tenant_share_pct r \<le> 100 then r_tenant_share_pct r
      else c_tenant_share_pct c)"
  "c_expose_headers (fc_cfg_resolve_adapt c r) =
     (if r_expose_headers r = 1 \<or> r_expose_headers r = 2 then r_expose_headers r = 2
      else c_expose_headers c)"
  by (simp_all add: fc_cfg_resolve_adapt_def fc_overlay_u32_pair held_def declared_def cfg_sel_if Let_def
      case_prod_beta cong: if_cong split del: if_split)

lemma fc_cfg_band_mirror_sel [simp]:
  "c_mode (fc_cfg_band_mirror c) = c_mode c"
  "c_max_outstanding (fc_cfg_band_mirror c) = c_max_outstanding c"
  "c_ep_cap (fc_cfg_band_mirror c) = c_ep_cap c"
  "c_max_queue_depth (fc_cfg_band_mirror c) = c_max_queue_depth c"
  "c_max_queue_wait_ms (fc_cfg_band_mirror c) = c_max_queue_wait_ms c"
  "c_telemetry_stale_ms (fc_cfg_band_mirror c) = c_telemetry_stale_ms c"
  "c_adaptive (fc_cfg_band_mirror c) = c_adaptive c"
  "c_warmup_ms (fc_cfg_band_mirror c) = c_warmup_ms c"
  "c_ttft_target_ms (fc_cfg_band_mirror c) = c_ttft_target_ms c"
  "c_tenant_share_pct (fc_cfg_band_mirror c) = c_tenant_share_pct c"
  "c_expose_headers (fc_cfg_band_mirror c) = c_expose_headers c"
  "c_wake_policy (fc_cfg_band_mirror c) = c_wake_policy c"
  "c_band_weight (fc_cfg_band_mirror c) = c_band_weight c"
  "c_band_min_share_pct (fc_cfg_band_mirror c) = c_band_min_share_pct c"
  "c_critical_reserve_pct (fc_cfg_band_mirror c) = c_critical_reserve_pct c"
  "c_band_wait_ms (fc_cfg_band_mirror c) = c_band_wait_ms c"
  "c_band_queue_pct (fc_cfg_band_mirror c) = c_band_queue_pct c"
  "c_shed_queue (fc_cfg_band_mirror c) = c_shed_queue c"
  "c_tenant_wake (fc_cfg_band_mirror c) = c_tenant_wake c"
  "c_llmd_headers (fc_cfg_band_mirror c) = c_llmd_headers c"
  "c_src (fc_cfg_band_mirror c) = c_src c"
  "c_bands (fc_cfg_band_mirror c) = c_bands c"
  by (simp_all add: fc_cfg_band_mirror_def)

lemma fc_cfg_resolve_bands_frame [simp]:
  "c_mode (fc_cfg_resolve_bands c r) = c_mode c"
  "c_max_outstanding (fc_cfg_resolve_bands c r) = c_max_outstanding c"
  "c_ep_cap (fc_cfg_resolve_bands c r) = c_ep_cap c"
  "c_max_queue_depth (fc_cfg_resolve_bands c r) = c_max_queue_depth c"
  "c_max_queue_wait_ms (fc_cfg_resolve_bands c r) = c_max_queue_wait_ms c"
  "c_telemetry_stale_ms (fc_cfg_resolve_bands c r) = c_telemetry_stale_ms c"
  "c_adaptive (fc_cfg_resolve_bands c r) = c_adaptive c"
  "c_warmup_ms (fc_cfg_resolve_bands c r) = c_warmup_ms c"
  "c_ttft_target_ms (fc_cfg_resolve_bands c r) = c_ttft_target_ms c"
  "c_tenant_share_pct (fc_cfg_resolve_bands c r) = c_tenant_share_pct c"
  "c_expose_headers (fc_cfg_resolve_bands c r) = c_expose_headers c"
  by (simp_all add: fc_cfg_resolve_bands_def fc_band_triple_u8_def cfg_sel_if Let_def
      case_prod_beta cong: if_cong split del: if_split)

lemma fc_cfg_resolve_bands_sel [simp]:
  "c_wake_policy (fc_cfg_resolve_bands c r) =
     (if r_wake_policy r = 1 \<or> r_wake_policy r = 2
      then if r_wake_policy r = 2 then FC_WAKE_WEIGHTED else FC_WAKE_STRICT else c_wake_policy c)"
  "c_band_weight (fc_cfg_resolve_bands c r) = (\<lambda>b. held FC_BAND_WEIGHT_MAX (r_band_weight r b))"
  "c_band_min_share_pct (fc_cfg_resolve_bands c r) = (\<lambda>b. held 100 (r_band_min_share_pct r b))"
  "c_critical_reserve_pct (fc_cfg_resolve_bands c r) = held 100 (r_critical_reserve_pct r)"
  "c_band_wait_ms (fc_cfg_resolve_bands c r) = (\<lambda>b. held FC_QUEUE_WAIT_MS_MAX (r_band_wait_ms r b))"
  "c_band_queue_pct (fc_cfg_resolve_bands c r) = (\<lambda>b. held 100 (r_band_queue_pct r b))"
  "c_shed_queue (fc_cfg_resolve_bands c r) =
     (if r_shed_queue r = 1 \<or> r_shed_queue r = 2 then r_shed_queue r = 2 else c_shed_queue c)"
  "c_tenant_wake (fc_cfg_resolve_bands c r) =
     (if r_tenant_wake r = 1 \<or> r_tenant_wake r = 2
      then if r_tenant_wake r = 2 then FC_TENANT_WAKE_RR else FC_TENANT_WAKE_FIFO
      else c_tenant_wake c)"
  "c_llmd_headers (fc_cfg_resolve_bands c r) =
     (if r_llmd_headers r = 1 \<or> r_llmd_headers r = 2 then r_llmd_headers r = 2
      else c_llmd_headers c)"
  by (simp_all add: fc_cfg_resolve_bands_def fc_band_triple_u8_def held_def cfg_sel_if Let_def
      case_prod_beta cong: if_cong split del: if_split)

lemma fc_cfg_resolve_wf':
  assumes "fc_cfg_wf e" shows "fc_cfg_wf (fc_cfg_resolve e rule)"
proof (cases rule)
  case None
  with assms show ?thesis by (simp add: fc_cfg_resolve_def)
next
  case (Some r)
  let ?c = "fc_cfg_resolve_bands (fc_cfg_resolve_adapt (fc_cfg_resolve_queue e e r) r) r"
  have "resolved_wait e r \<le> FC_QUEUE_WAIT_MS_MAX" "resolved_depth e r \<le> FC_QUEUE_DEPTH_MAX"
    by (simp_all add: resolved_wait_def resolved_depth_def)
  moreover have "0 < held FC_TELEMETRY_STALE_MS_MAX
                       (declared (r_telemetry_stale_ms r) (c_telemetry_stale_ms e))"
    using assms by (intro held_pos declared_pos) (simp_all add: fc_cfg_wf_def)
  ultimately have "fc_cfg_wf ?c"
    using assms by (simp add: fc_cfg_wf_def list_all_iff word_gt_0)
  with Some show ?thesis by (simp add: fc_cfg_resolve_def)
qed

lemma fc_cfg_bands_upd [simp]:
  "fc_cfg_bands (c\<lparr>c_bands := b\<rparr>) = fc_cfg_bands c"
  "fc_cfg_bands (fc_cfg_band_mirror c) = fc_cfg_bands c"
  by (simp_all add: fc_cfg_bands_def)

lemma fc_cfg_bands_resolve:
  "c_bands (fc_cfg_resolve_bands c r) = fc_cfg_bands (fc_cfg_resolve_bands c r)"
  by (simp add: fc_cfg_resolve_bands_def Let_def case_prod_beta split del: if_split)

text \<open>
  What the control plane accepts of a declaring rule: weighted wake only with every weight set, a
  shed queue only with a queue, and no band knob at all where the gate is bypassed.
\<close>

definition fc_cfg_accepted :: "fc_cfg \<Rightarrow> bool \<Rightarrow> bool" where
  "fc_cfg_accepted c gate_bypassed \<longleftrightarrow>
     (c_wake_policy c = FC_WAKE_WEIGHTED \<longrightarrow> (\<forall>b. c_band_weight c b \<noteq> 0)) \<and>
     (c_shed_queue c \<longrightarrow> c_max_queue_depth c \<noteq> 0) \<and>
     (gate_bypassed \<longrightarrow> \<not> fc_cfg_bands c)"

lemma list_ex_bands: "list_ex P fc_bands_all \<longleftrightarrow> (\<exists>b. P b)"
  by (auto simp: list_ex_iff)

lemma fc_guard_keeps:
  "\<not> (g \<and> c_bands c) \<Longrightarrow> fc_guard_bypass g c = c"
  "c_wake_policy c = FC_WAKE_WEIGHTED \<longrightarrow> (\<forall>b. c_band_weight c b \<noteq> 0) \<Longrightarrow> fc_guard_weights c = c"
  "c_shed_queue c \<longrightarrow> c_max_queue_depth c \<noteq> 0 \<Longrightarrow> fc_guard_shed c = c"
  by (auto simp: fc_guard_bypass_def fc_guard_weights_def fc_guard_shed_def list_ex_bands)

lemma fc_cfg_bands_iff:
  "fc_cfg_bands c \<longleftrightarrow> c_wake_policy c \<noteq> FC_WAKE_STRICT \<or> c_shed_queue c \<or>
     c_tenant_wake c \<noteq> FC_TENANT_WAKE_FIFO \<or>
     (\<exists>b. c_band_weight c b \<noteq> 0 \<or> c_band_min_share_pct c b \<noteq> 0 \<or> c_band_wait_ms c b \<noteq> 0 \<or>
          c_band_queue_pct c b \<noteq> 0) \<or> c_critical_reserve_pct c \<noteq> 0"
  unfolding fc_cfg_bands_def list_ex_bands if_bool_eq_conj by blast

lemma fc_guard_bypass_off: "c_bands c = fc_cfg_bands c \<Longrightarrow> g \<Longrightarrow> \<not> fc_cfg_bands (fc_guard_bypass g c)"
  by (simp add: fc_guard_bypass_def fc_cfg_bands_iff)

lemma fc_guard_weights_ok:
  shows "c_wake_policy (fc_guard_weights c) = FC_WAKE_WEIGHTED \<Longrightarrow> c_band_weight (fc_guard_weights c) b \<noteq> 0"
    and "fc_cfg_bands (fc_guard_weights c) \<Longrightarrow> fc_cfg_bands c"
   apply (cases "list_ex (\<lambda>b. c_band_weight c b = 0) fc_bands_all")
    apply (simp add: fc_guard_weights_def split: if_split_asm)
   apply (simp add: fc_guard_weights_def list_ex_bands)
  apply (simp add: fc_guard_weights_def fc_cfg_bands_iff split: if_split_asm)
  done

lemma fc_guard_shed_ok:
  shows "c_shed_queue (fc_guard_shed c) \<Longrightarrow> c_max_queue_depth (fc_guard_shed c) \<noteq> 0"
    and "fc_cfg_bands (fc_guard_shed c) \<Longrightarrow> fc_cfg_bands c"
    and "c_wake_policy (fc_guard_shed c) = c_wake_policy c"
    and "c_band_weight (fc_guard_shed c) = c_band_weight c"
     apply (simp add: fc_guard_shed_def split: if_split_asm)
    apply (simp add: fc_guard_shed_def fc_cfg_bands_iff split: if_split_asm)
   apply (simp_all add: fc_guard_shed_def)
  done

lemma fc_cfg_band_guard_accepted':
  assumes "c_bands c = fc_cfg_bands c"
  shows "fc_cfg_accepted (fc_cfg_band_guard c g) g"
proof -
  let ?b = "fc_guard_bypass g (fc_cfg_band_mirror c)"
  let ?w = "fc_guard_weights ?b"
  have "\<not> fc_cfg_bands ?b" if g using that assms by (simp add: fc_guard_bypass_off)
  then have "\<not> fc_cfg_bands (fc_guard_shed ?w)" if g
    using that fc_guard_shed_ok(2) fc_guard_weights_ok(2) by blast
  then have "g \<longrightarrow> \<not> fc_cfg_bands (fc_guard_shed ?w)" by blast
  moreover have "c_wake_policy ?w = FC_WAKE_WEIGHTED \<longrightarrow> (\<forall>b. c_band_weight ?w b \<noteq> 0)"
    using fc_guard_weights_ok(1) by blast
  moreover have "c_shed_queue (fc_guard_shed ?w) \<longrightarrow> c_max_queue_depth (fc_guard_shed ?w) \<noteq> 0"
    using fc_guard_shed_ok(1) by blast
  ultimately show ?thesis
    by (simp add: fc_cfg_accepted_def fc_cfg_band_guard_def Let_def fc_guard_shed_ok(3,4))
qed

lemma fc_cfg_band_guard_keeps':
  assumes "c_bands c = fc_cfg_bands c" and "fc_cfg_accepted c g"
  shows "fc_cfg_band_guard c g = fc_cfg_band_mirror c"
proof -
  let ?m = "fc_cfg_band_mirror c"
  have "fc_guard_bypass g ?m = ?m" "fc_guard_weights ?m = ?m" "fc_guard_shed ?m = ?m"
    using assms by (simp_all add: fc_cfg_accepted_def fc_guard_keeps)
  moreover have "?m\<lparr>c_bands := fc_cfg_bands c\<rparr> = ?m"
    unfolding assms(1) [symmetric] by (simp add: fc_cfg_band_mirror_def)
  ultimately show ?thesis by (simp add: fc_cfg_band_guard_def)
qed

end
