(* ===== verification/FC_Ring.thy ===== *)
theory FC_Ring
  imports FC_Types
begin

text \<open>
  The per-pool queue ring of \<open>common/sockproxy_fc.c\<close> (section "the ring, lock held" and the ring
  operations of section "the queue"). Operations are translated on the ring array with its head,
  tail and fill counts; the abstraction \<open>ring_live\<close> is the list of waiting entries, oldest place
  first, and every operation is shown to implement a list operation on it while keeping \<open>ring_inv\<close>.
\<close>

section \<open>Operations\<close>

definition fc_ring_wrap :: "fc_queue \<Rightarrow> nat \<Rightarrow> nat" where
  "fc_ring_wrap q i = (if i \<ge> q_cap q then i - q_cap q else i)"

text \<open>
  The loop header \<open>i = q->head; for (k = 0; k < q->used; k++) { \<dots> i = fc_ring_wrap (q, i + 1); }\<close>
  which every scan of the ring shares: the slots it visits, in order.
\<close>

fun fc_ring_walk :: "fc_queue \<Rightarrow> nat \<Rightarrow> nat \<Rightarrow> nat list" where
  "fc_ring_walk q i 0 = []"
| "fc_ring_walk q i (Suc k) = i # fc_ring_walk q (fc_ring_wrap q (i + 1)) k"

definition fc_ring_span :: "fc_queue \<Rightarrow> nat list" where
  "fc_ring_span q = fc_ring_walk q (q_head q) (q_used q)"

definition fc_band_counted :: "fc_band \<Rightarrow> bool" where
  "fc_band_counted b \<longleftrightarrow> b = FC_BAND_CRITICAL \<or> b = FC_BAND_SHEDDABLE"

definition fc_ring_band_add :: "fc_queue \<Rightarrow> fc_band \<Rightarrow> fc_queue" where
  "fc_ring_band_add q b =
     (if fc_band_counted b
      then q\<lparr>q_band_count := (q_band_count q)(b := q_band_count q b + 1)\<rparr> else q)"

definition fc_ring_band_sub :: "fc_queue \<Rightarrow> fc_band \<Rightarrow> fc_queue" where
  "fc_ring_band_sub q b =
     (if fc_band_counted b \<and> q_band_count q b > 0
      then q\<lparr>q_band_count := (q_band_count q)(b := q_band_count q b - 1)\<rparr> else q)"

definition fc_ring_deadline_add :: "fc_queue \<Rightarrow> u64 \<Rightarrow> fc_queue" where
  "fc_ring_deadline_add q deadline_ns =
     (let cur = q_next_deadline_ns q
      in if deadline_ns \<noteq> 0 \<and> (cur = 0 \<or> deadline_ns < cur)
         then q\<lparr>q_next_deadline_ns := deadline_ns\<rparr> else q)"

definition deadline_min :: "fc_queue_ent \<Rightarrow> u64 \<Rightarrow> u64" where
  "deadline_min e mn =
     (if e_live e \<and> e_deadline_ns e \<noteq> 0 \<and> (mn = 0 \<or> e_deadline_ns e < mn)
      then e_deadline_ns e else mn)"

definition fc_ring_deadline_rescan :: "fc_queue \<Rightarrow> fc_queue" where
  "fc_ring_deadline_rescan q =
     q\<lparr>q_next_deadline_ns :=
         (if q_cap q = 0 then 0
          else fold (\<lambda>i mn. deadline_min (q_ring q ! i) mn) (fc_ring_span q) 0)\<rparr>"

definition fc_ring_deadline_gone :: "fc_queue \<Rightarrow> u64 \<Rightarrow> fc_queue" where
  "fc_ring_deadline_gone q deadline_ns =
     (if deadline_ns \<noteq> 0 \<and> deadline_ns = q_next_deadline_ns q
      then fc_ring_deadline_rescan q else q)"

text \<open>A slot as \<open>calloc\<close> leaves it.\<close>

definition fc_ent_zero :: fc_queue_ent where
  "fc_ent_zero = \<lparr>e_fd = 0, e_live = False, e_band = FC_BAND_STANDARD, e_tslot = 0, e_gen = 0,
                  e_enqueue_ns = 0, e_deadline_ns = 0\<rparr>"

text \<open>The copy loop of \<open>fc_ring_relayout\<close>: destination, entries copied, per-band counts.\<close>

fun fc_ring_copy ::
  "fc_queue_ent list \<Rightarrow> nat \<Rightarrow> fc_queue_ent list \<Rightarrow> nat \<Rightarrow> (fc_band \<Rightarrow> nat) \<Rightarrow>
     fc_queue_ent list \<times> nat \<times> (fc_band \<Rightarrow> nat)" where
  "fc_ring_copy [] dst_cap dst n bc = (dst, n, bc)"
| "fc_ring_copy (e # es) dst_cap dst n bc =
     (if e_live e \<and> n < dst_cap
      then fc_ring_copy es dst_cap (dst[n := e]) (Suc n)
             (if fc_band_counted (e_band e) then bc(e_band e := bc (e_band e) + 1) else bc)
      else fc_ring_copy es dst_cap dst n bc)"

definition fc_ring_relayout :: "fc_queue \<Rightarrow> nat \<Rightarrow> fc_queue" where
  "fc_ring_relayout q dst_cap =
     (let (dst, n, bc) = fc_ring_copy (map (\<lambda>i. q_ring q ! i) (fc_ring_span q)) dst_cap
                           (replicate dst_cap fc_ent_zero) 0 (\<lambda>_. 0)
      in q\<lparr>q_ring := dst, q_cap := dst_cap, q_head := 0,
           q_tail := (if n = dst_cap then 0 else n), q_used := n, q_count := n,
           q_band_count := bc\<rparr>)"

text \<open>\<open>calloc\<close> may fail: \<open>ok n\<close> says whether an allocation of \<open>n\<close> entries succeeds.\<close>

definition fc_ring_compact :: "(nat \<Rightarrow> bool) \<Rightarrow> fc_queue \<Rightarrow> int \<times> fc_queue" where
  "fc_ring_compact ok q =
     (if q_cap q = 0 then (-1, q)
      else if \<not> ok (q_cap q) then (-1, q)
      else (0, fc_ring_relayout q (q_cap q)))"

definition fc_ring_grow :: "(nat \<Rightarrow> bool) \<Rightarrow> fc_queue \<Rightarrow> nat \<Rightarrow> int \<times> fc_queue" where
  "fc_ring_grow ok q want =
     (let want = (if want > unat FC_QUEUE_DEPTH_MAX then unat FC_QUEUE_DEPTH_MAX else want)
      in if want \<le> q_cap q then (0, q)
         else if \<not> ok want then (-1, q)
         else if q_ring q \<noteq> [] then (0, fc_ring_relayout q want)
         else (0, q\<lparr>q_ring := replicate want fc_ent_zero, q_cap := want, q_head := 0, q_tail := 0,
                    q_used := 0, q_count := 0, q_band_count := (\<lambda>_. 0)\<rparr>))"

text \<open>
  A woken request back at the head: swapped towards the tail until a live entry that arrived no
  earlier than it follows. \<open>k\<close> counts the swaps left, at most the entries behind it.
\<close>

fun fc_ring_settle_front :: "nat \<Rightarrow> fc_queue_ent list \<Rightarrow> nat \<Rightarrow> nat \<Rightarrow> fc_queue_ent list \<times> nat" where
  "fc_ring_settle_front cap ring slot 0 = (ring, slot)"
| "fc_ring_settle_front cap ring slot (Suc k) =
     (let next = (if slot + 1 \<ge> cap then slot + 1 - cap else slot + 1)
      in if e_live (ring ! next) \<and> e_enqueue_ns (ring ! next) \<ge> e_enqueue_ns (ring ! slot)
         then (ring, slot)
         else fc_ring_settle_front cap (ring[next := ring ! slot, slot := ring ! next]) next k)"

text \<open>
  An ordered append: swapped towards the head until a live entry that arrived no later precedes
  it, or the head is reached. The loop runs at most once per entry in the span; \<open>k\<close> bounds it and
  \<open>settle_back_seg\<close> shows that the entry count is enough to reach the head.
\<close>

fun fc_ring_settle_back ::
  "nat \<Rightarrow> nat \<Rightarrow> fc_queue_ent list \<Rightarrow> nat \<Rightarrow> nat \<Rightarrow> fc_queue_ent list \<times> nat" where
  "fc_ring_settle_back cap head ring slot 0 = (ring, slot)"
| "fc_ring_settle_back cap head ring slot (Suc k) =
     (if slot = head then (ring, slot)
      else let prev = (if slot = 0 then cap - 1 else slot - 1)
           in if e_live (ring ! prev) \<and> e_enqueue_ns (ring ! prev) \<le> e_enqueue_ns (ring ! slot)
              then (ring, slot)
              else fc_ring_settle_back cap head (ring[prev := ring ! slot, slot := ring ! prev]) prev k)"

text \<open>Making room: compaction of tombstones, then, for a request back at the head, a larger ring.\<close>

definition fc_ring_make_room :: "(nat \<Rightarrow> bool) \<Rightarrow> fc_queue \<Rightarrow> bool \<Rightarrow> fc_queue" where
  "fc_ring_make_room ok q front =
     (let q = (if q_used q \<ge> q_cap q \<and> q_count q < q_cap q then snd (fc_ring_compact ok q) else q)
      in if q_used q \<ge> q_cap q \<and> front
         then let more = (if q_cap q div 8 > 16 then q_cap q div 8 else 16)
              in snd (fc_ring_grow ok q (q_cap q + more))
         else q)"

text \<open>
  The slot for a new entry: before the head and settled (\<open>front\<close>), at the tail and settled
  (\<open>ordered\<close>), or at the tail.
\<close>

definition fc_ring_place :: "fc_queue \<Rightarrow> fc_queue_ent \<Rightarrow> bool \<Rightarrow> bool \<Rightarrow> fc_queue \<times> nat" where
  "fc_ring_place q e front ordered =
     (if front
      then let slot = (if q_head q = 0 then q_cap q - 1 else q_head q - 1);
               ring = (q_ring q)[slot := e\<lparr>e_live := True\<rparr>];
               (ring, slot') = fc_ring_settle_front (q_cap q) ring slot (q_used q)
           in (q\<lparr>q_head := slot, q_ring := ring\<rparr>, slot')
      else let slot = q_tail q;
               q = q\<lparr>q_tail := fc_ring_wrap q (q_tail q + 1)\<rparr>
           in if ordered
              then let ring = (q_ring q)[slot := e\<lparr>e_live := True\<rparr>];
                       (ring, slot') = fc_ring_settle_back (q_cap q) (q_head q) ring slot (q_used q)
                   in (q\<lparr>q_ring := ring\<rparr>, slot')
              else (q, slot))"

text \<open>The slot taken, or \<open>None\<close> where the code returns -1.\<close>

definition fc_ring_insert ::
  "(nat \<Rightarrow> bool) \<Rightarrow> fc_queue \<Rightarrow> fc_queue_ent \<Rightarrow> bool \<Rightarrow> bool \<Rightarrow> nat option \<times> fc_queue" where
  "fc_ring_insert ok q e front ordered =
     (if q_cap q = 0 then (None, q)
      else let q = fc_ring_make_room ok q front
           in if q_used q \<ge> q_cap q then (None, q)
              else let (q, slot) = fc_ring_place q e front ordered;
                       q = q\<lparr>q_ring := (q_ring q)[slot := e\<lparr>e_live := True\<rparr>],
                             q_used := q_used q + 1, q_count := q_count q + 1\<rparr>;
                       q = fc_ring_deadline_add (fc_ring_band_add q (e_band e)) (e_deadline_ns e)
                   in (Some slot, q))"

text \<open>The live entry of a connection: the slot hint first, then the span.\<close>

definition ent_is :: "int \<Rightarrow> u64 \<Rightarrow> fc_queue_ent \<Rightarrow> bool" where
  "ent_is fd gen e \<longleftrightarrow> e_live e \<and> e_fd e = fd \<and> e_gen e = gen"

definition fc_ring_find :: "fc_queue \<Rightarrow> int \<Rightarrow> u64 \<Rightarrow> nat \<Rightarrow> nat option" where
  "fc_ring_find q fd gen hint =
     (if q_cap q = 0 then None
      else if hint < q_cap q \<and> ent_is fd gen (q_ring q ! hint) then Some hint
      else find (\<lambda>i. ent_is fd gen (q_ring q ! i)) (fc_ring_span q))"

text \<open>Dropping the tombstones at the head.\<close>

function fc_ring_trim :: "fc_queue \<Rightarrow> fc_queue" where
  "fc_ring_trim q =
     (if q_used q > 0 \<and> \<not> e_live (q_ring q ! q_head q)
      then fc_ring_trim (q\<lparr>q_head := fc_ring_wrap q (q_head q + 1), q_used := q_used q - 1\<rparr>)
      else q)"
  by pat_completeness auto
termination by (relation "measure q_used") auto

declare fc_ring_trim.simps [simp del]

text \<open>Taking the live entry at a slot out of turn.\<close>

definition fc_ring_take_at :: "fc_queue \<Rightarrow> nat \<Rightarrow> fc_queue_ent \<times> fc_queue" where
  "fc_ring_take_at q at =
     (let e = q_ring q ! at;
          q = q\<lparr>q_ring := (q_ring q)[at := e\<lparr>e_live := False\<rparr>], q_count := q_count q - 1\<rparr>;
          q = fc_ring_deadline_gone (fc_ring_band_sub q (e_band e)) (e_deadline_ns e)
      in (e, fc_ring_trim q))"

text \<open>Popping the oldest live entry, past the tombstones before it.\<close>

function fc_ring_pop :: "fc_queue \<Rightarrow> fc_queue_ent option \<times> fc_queue" where
  "fc_ring_pop q =
     (if q_used q > 0
      then let e = q_ring q ! q_head q;
               q' = q\<lparr>q_ring := (q_ring q)[q_head q := e\<lparr>e_live := False\<rparr>],
                      q_head := fc_ring_wrap q (q_head q + 1), q_used := q_used q - 1\<rparr>
           in if e_live e
              then (Some e, fc_ring_deadline_gone
                              (fc_ring_band_sub (q'\<lparr>q_count := q_count q' - 1\<rparr>) (e_band e))
                              (e_deadline_ns e))
              else fc_ring_pop q'
      else (None, q))"
  by pat_completeness auto
termination by (relation "measure q_used") (auto simp: Let_def)

declare fc_ring_pop.simps [simp del]

section \<open>The span of the ring as a list\<close>

text \<open>\<open>n\<close> slots of a ring of \<open>c\<close> slots, from slot \<open>h\<close> on.\<close>

definition seg :: "nat \<Rightarrow> nat \<Rightarrow> 'a list \<Rightarrow> nat \<Rightarrow> 'a list" where
  "seg h c r n = map (\<lambda>j. r ! ((h + j) mod c)) [0..<n]"

lemma length_seg [simp]: "length (seg h c r n) = n"
  by (simp add: seg_def)

lemma nth_seg [simp]: "j < n \<Longrightarrow> seg h c r n ! j = r ! ((h + j) mod c)"
  by (simp add: seg_def)

lemma seg_0 [simp]: "seg h c r 0 = []"
  by (simp add: seg_def)

lemma seg_Suc: "seg h c r (Suc n) = seg h c r n @ [r ! ((h + n) mod c)]"
  by (simp add: seg_def)

lemma seg_Cons: "seg h c r (Suc n) = r ! (h mod c) # seg (h + 1) c r n"
  by (rule nth_equalityI) (auto simp: nth_Cons' less_Suc_eq_0_disj)

lemma seg_mod [simp]: "seg (h mod c) c r n = seg h c r n"
  by (simp add: seg_def mod_add_left_eq)

lemma ring_pos_inj_le:
  assumes "i \<le> j" "j < c" "(h + i) mod c = (h + j) mod (c :: nat)" shows "i = j"
proof -
  have "c dvd (h + j) - (h + i)"
    using assms(1,3) by (metis add_le_cancel_left mod_eq_dvd_iff_nat)
  then have "c dvd j - i" by simp
  with assms(1,2) show ?thesis by (metis diff_is_0_eq dvd_imp_le less_imp_diff_less linorder_not_less
        le_antisym neq0_conv)
qed

lemma ring_pos_inj:
  assumes "i < c" "j < c" "(h + i) mod c = (h + j) mod (c :: nat)" shows "i = j"
  using assms ring_pos_inj_le [of i j c h] ring_pos_inj_le [of j i c h] by (cases "i \<le> j") auto

lemma seg_update:
  assumes "length r = c" "n \<le> c" "j < n"
  shows "seg h c (r[(h + j) mod c := x]) n = (seg h c r n)[j := x]"
proof (rule nth_equalityI)
  fix i assume i: "i < length (seg h c (r[(h + j) mod c := x]) n)"
  then have "(h + i) mod c = (h + j) mod c \<longleftrightarrow> i = j"
    using assms ring_pos_inj [of i c j h] by auto
  with i assms show "seg h c (r[(h + j) mod c := x]) n ! i = (seg h c r n)[j := x] ! i"
    by (auto simp: nth_list_update)
qed simp

lemma seg_update_outside:
  assumes "\<And>j. j < n \<Longrightarrow> (h + j) mod c \<noteq> i"
  shows "seg h c (r[i := x]) n = seg h c r n"
  using assms by (intro nth_equalityI) (simp_all, metis nth_list_update_neq)

definition ring_seq :: "fc_queue \<Rightarrow> fc_queue_ent list" where
  "ring_seq q = seg (q_head q) (q_cap q) (q_ring q) (q_used q)"

definition ring_live :: "fc_queue \<Rightarrow> fc_queue_ent list" where
  "ring_live q = filter e_live (ring_seq q)"

lemma length_ring_seq [simp]: "length (ring_seq q) = q_used q"
  by (simp add: ring_seq_def)

text \<open>The structure of the ring: sizes, the tail, and no live entry outside the span.\<close>

definition ring_ok :: "fc_queue \<Rightarrow> bool" where
  "ring_ok q \<longleftrightarrow> length (q_ring q) = q_cap q \<and> q_cap q \<le> 65536 \<and> q_used q \<le> q_cap q \<and>
     (q_cap q = 0 \<longrightarrow> q_head q = 0 \<and> q_tail q = 0) \<and>
     (0 < q_cap q \<longrightarrow> q_head q < q_cap q \<and> q_tail q = (q_head q + q_used q) mod q_cap q) \<and>
     (\<forall>j. q_used q \<le> j \<and> j < q_cap q \<longrightarrow> \<not> e_live (q_ring q ! ((q_head q + j) mod q_cap q)))"

lemma fc_ring_wrap_mod: "0 < q_cap q \<Longrightarrow> i < 2 * q_cap q \<Longrightarrow> fc_ring_wrap q i = i mod q_cap q"
  by (simp add: fc_ring_wrap_def le_mod_geq)

lemma fc_ring_walk_eq:
  assumes "0 < q_cap q" "i < q_cap q"
  shows "fc_ring_walk q i k = map (\<lambda>j. (i + j) mod q_cap q) [0..<k]"
  using assms
proof (induction k arbitrary: i)
  case (Suc k)
  have w: "fc_ring_wrap q (Suc i) = Suc i mod q_cap q"
    using Suc.prems by (intro fc_ring_wrap_mod) auto
  have "fc_ring_walk q i (Suc k) = i # map (\<lambda>j. (Suc i mod q_cap q + j) mod q_cap q) [0..<k]"
    using Suc by (simp add: w)
  also have "\<dots> = map (\<lambda>j. (i + j) mod q_cap q) [0..<Suc k]"
    using Suc.prems(2)
    by (intro nth_equalityI) (auto simp: nth_Cons' mod_add_left_eq simp del: upt_Suc)
  finally show ?case .
qed simp

lemma fc_ring_span_eq:
  assumes "ring_ok q"
  shows "fc_ring_span q = map (\<lambda>j. (q_head q + j) mod q_cap q) [0..<q_used q]"
proof (cases "q_cap q = 0")
  case True
  with assms show ?thesis by (simp add: fc_ring_span_def ring_ok_def)
next
  case False
  with assms show ?thesis by (simp add: fc_ring_span_def ring_ok_def fc_ring_walk_eq)
qed

lemma map_span: "ring_ok q \<Longrightarrow> map (\<lambda>i. q_ring q ! i) (fc_ring_span q) = ring_seq q"
  by (simp add: fc_ring_span_eq ring_seq_def seg_def)

section \<open>The settling loops\<close>

text \<open>What a loop that only moves entries inside the span leaves of the ring.\<close>

definition same_outside :: "nat \<Rightarrow> nat \<Rightarrow> nat \<Rightarrow> 'a list \<Rightarrow> 'a list \<Rightarrow> bool" where
  "same_outside h c n r r' \<longleftrightarrow> length r' = length r \<and>
     (\<forall>j. n \<le> j \<and> j < c \<longrightarrow> r' ! ((h + j) mod c) = r ! ((h + j) mod c))"

lemma same_outside_update:
  assumes "j < n" "n \<le> c"
  shows "same_outside h c n (r[(h + j) mod c := x]) r' = same_outside h c n r r'"
proof -
  have "(r[(h + j) mod c := x]) ! ((h + i) mod c) = r ! ((h + i) mod c)" if "n \<le> i" "i < c" for i
    using that assms ring_pos_inj [of i c j h] by (intro nth_list_update_neq) auto
  then show ?thesis by (auto simp: same_outside_def)
qed

lemma same_outside_refl [simp]: "same_outside h c n r r"
  by (simp add: same_outside_def)

lemma seg_split_nth:
  assumes "seg h c r n = pre @ x # post"
  shows "r ! ((h + length pre) mod c) = x" and "length pre < n" and "n = Suc (length pre + length post)"
proof -
  have n: "n = Suc (length pre + length post)"
    using arg_cong [OF assms, of length] by simp
  then show "length pre < n" "n = Suc (length pre + length post)" by simp_all
  then show "r ! ((h + length pre) mod c) = x"
    using arg_cong [OF assms, of "\<lambda>xs. xs ! length pre"] by simp
qed

lemma seg_swap:
  assumes seg: "seg h c r n = pre @ x # y # post" and len: "length r = c" "n \<le> c"
  shows "seg h c (r[Suc (h + length pre) mod c := x, (h + length pre) mod c := y]) n = pre @ y # x # post"
    and "same_outside h c n (r[Suc (h + length pre) mod c := x, (h + length pre) mod c := y]) r'
         = same_outside h c n r r'"
proof -
  have n: "Suc (length pre) < n" using arg_cong [OF seg, of length] by simp
  let ?r = "r[Suc (h + length pre) mod c := x]"
  have "seg h c ?r n = (seg h c r n)[Suc (length pre) := x]"
    using seg_update [OF len n, of h x] by simp
  moreover have "seg h c (?r[(h + length pre) mod c := y]) n = (seg h c ?r n)[length pre := y]"
    using n len by (intro seg_update) auto
  ultimately show "seg h c (?r[(h + length pre) mod c := y]) n = pre @ y # x # post"
    using seg by (simp add: list_update_append)
  show "same_outside h c n (?r[(h + length pre) mod c := y]) r' = same_outside h c n r r'"
    using n len(2) same_outside_update [of "length pre" n c h ?r y r']
      same_outside_update [of "Suc (length pre)" n c h r x r'] by simp
qed

lemma ring_pos_next:
  assumes "(c :: nat) > 0"
  shows "(if i mod c + 1 \<ge> c then i mod c + 1 - c else i mod c + 1) = Suc i mod c"
proof -
  from assms have "i mod c < c" by simp
  then show ?thesis by (cases "Suc (i mod c) = c") (auto simp: mod_Suc)
qed

lemma ring_pos_prev:
  "(c :: nat) > 0 \<Longrightarrow> (if Suc i mod c = 0 then c - 1 else Suc i mod c - 1) = i mod c"
  by (auto simp: mod_Suc)

definition front_pass :: "fc_queue_ent \<Rightarrow> fc_queue_ent \<Rightarrow> bool" where
  "front_pass e x \<longleftrightarrow> \<not> (e_live x \<and> e_enqueue_ns x \<ge> e_enqueue_ns e)"

lemma settle_front_seg:
  assumes "seg h c r n = pre @ e # post" "length r = c" "n \<le> c" "0 < c"
    and "fc_ring_settle_front c r ((h + length pre) mod c) (length post) = (r', slot')"
  shows "seg h c r' n = pre @ takeWhile (front_pass e) post @ e # dropWhile (front_pass e) post \<and>
         slot' = (h + length pre + length (takeWhile (front_pass e) post)) mod c \<and>
         same_outside h c n r r'"
  using assms
proof (induction post arbitrary: pre r)
  case Nil
  then show ?case by simp
next
  case (Cons x post)
  note seg = Cons.prems(1)
  let ?s = "(h + length pre) mod c" and ?t = "Suc (h + length pre) mod c"
  have s: "r ! ?s = e" by (rule seg_split_nth(1) [OF seg])
  have t: "r ! ?t = x" using seg_split_nth(1) [of h c r n "pre @ [e]" x post] seg by simp
  have nxt: "(if ?s + 1 \<ge> c then ?s + 1 - c else ?s + 1) = ?t"
    using Cons.prems(4) by (rule ring_pos_next)
  note run = Cons.prems(5) [simplified list.size add_Suc_right add_0_right fc_ring_settle_front.simps
      nxt Let_def s t]
  show ?case
  proof (cases "front_pass e x")
    case False
    with run have "r' = r" "slot' = ?s" by (simp_all add: front_pass_def)
    with False seg show ?thesis by simp
  next
    case True
    let ?r = "r[?t := e, ?s := x]"
    have run': "fc_ring_settle_front c ?r ((h + length (pre @ [x])) mod c) (length post) = (r', slot')"
      using run True by (auto simp: front_pass_def split: if_splits)
    have "seg h c ?r n = (pre @ [x]) @ e # post" "same_outside h c n ?r r' = same_outside h c n r r'"
      using seg_swap [OF seg Cons.prems(2,3)] by simp_all
    with Cons.IH [OF _ _ Cons.prems(3,4) run'] Cons.prems(2) True show ?thesis by simp
  qed
qed

text \<open>The ordered append: entries from the tail on that arrived later are passed.\<close>

definition back_pass :: "fc_queue_ent \<Rightarrow> fc_queue_ent \<Rightarrow> bool" where
  "back_pass e x \<longleftrightarrow> \<not> (e_live x \<and> e_enqueue_ns x \<le> e_enqueue_ns e)"

definition before_of :: "fc_queue_ent \<Rightarrow> fc_queue_ent list \<Rightarrow> fc_queue_ent list" where
  "before_of e xs = rev (dropWhile (back_pass e) (rev xs))"

definition after_of :: "fc_queue_ent \<Rightarrow> fc_queue_ent list \<Rightarrow> fc_queue_ent list" where
  "after_of e xs = rev (takeWhile (back_pass e) (rev xs))"

lemma before_after: "before_of e xs @ after_of e xs = xs"
  unfolding before_of_def after_of_def
  by (metis rev_append rev_rev_ident takeWhile_dropWhile_id)

lemma before_after_snoc:
  "before_of e (xs @ [x]) = (if back_pass e x then before_of e xs else xs @ [x])"
  "after_of e (xs @ [x]) = (if back_pass e x then after_of e xs @ [x] else [])"
  by (simp_all add: before_of_def after_of_def)

lemma settle_back_seg:
  assumes "seg h c r n = pre @ e # post" "length r = c" "n \<le> c" "0 < c" "h < c" "length pre \<le> k"
    and "fc_ring_settle_back c h r ((h + length pre) mod c) k = (r', slot')"
  shows "seg h c r' n = before_of e pre @ e # after_of e pre @ post \<and>
         slot' = (h + length (before_of e pre)) mod c \<and> same_outside h c n r r'"
  using assms
proof (induction pre arbitrary: r post k rule: rev_induct)
  case Nil
  then have "r' = r" "slot' = h" by (cases k; simp)+
  with Nil show ?case by (simp add: before_of_def after_of_def)
next
  case (snoc x pre)
  note seg = snoc.prems(1)
  let ?s = "Suc (h + length pre) mod c" and ?p = "(h + length pre) mod c"
  obtain k' where k: "k = Suc k'" using snoc.prems(6) by (cases k) auto
  have "Suc (length pre) < c"
    using arg_cong [OF seg, of length] snoc.prems(3) by simp
  then have "?s \<noteq> h" using ring_pos_inj [of "Suc (length pre)" c 0 h] snoc.prems(5) by auto
  have s: "r ! ?s = e" using seg_split_nth(1) [OF seg] by simp
  have p: "r ! ?p = x" using seg_split_nth(1) [of h c r n pre x "e # post"] seg by simp
  have prv: "(if ?s = 0 then c - 1 else ?s - 1) = ?p"
    using snoc.prems(4) by (rule ring_pos_prev)
  have run: "(if e_live x \<and> e_enqueue_ns x \<le> e_enqueue_ns e then (r, ?s)
              else fc_ring_settle_back c h (r[?p := e, ?s := x]) ?p k') = (r', slot')"
    using snoc.prems(7) \<open>?s \<noteq> h\<close> unfolding k
    by (simp only: fc_ring_settle_back.simps length_append list.size add_0_right add_Suc_right
        if_False prv Let_def s p)
  show ?case
  proof (cases "back_pass e x")
    case False
    with run have "r' = r" "slot' = ?s" by (simp_all add: back_pass_def)
    with False seg show ?thesis by (simp add: before_after_snoc)
  next
    case True
    let ?r = "r[?p := e, ?s := x]"
    have run': "fc_ring_settle_back c h ?r ((h + length pre) mod c) k' = (r', slot')"
      using run True by (auto simp: back_pass_def split: if_splits)
    have swap: "?r = r[?s := x, ?p := e]"
      using ring_pos_inj [of "Suc (length pre)" c "length pre" h] \<open>Suc (length pre) < c\<close>
      by (intro list_update_swap) auto
    have "seg h c ?r n = pre @ e # x # post" "same_outside h c n ?r r' = same_outside h c n r r'"
      using seg_swap [of h c r n pre x e post] seg snoc.prems(2,3) unfolding swap by simp_all
    with snoc.IH [OF _ _ snoc.prems(3,4,5) _ run'] snoc.prems(2,6) True k show ?thesis
      by (simp add: before_after_snoc)
  qed
qed

section \<open>The ring invariant\<close>

text \<open>\<open>d\<close> is the earliest deadline among the live entries of a list, 0 for none.\<close>

definition earliest :: "fc_queue_ent list \<Rightarrow> u64 \<Rightarrow> bool" where
  "earliest es d \<longleftrightarrow>
     (if d = 0 then \<forall>e \<in> set es. e_live e \<longrightarrow> e_deadline_ns e = 0
      else (\<exists>e \<in> set es. e_live e \<and> e_deadline_ns e = d) \<and>
           (\<forall>e \<in> set es. e_live e \<and> e_deadline_ns e \<noteq> 0 \<longrightarrow> d \<le> e_deadline_ns e))"

lemma earliest_live: "earliest (filter e_live es) d = earliest es d"
  by (auto simp: earliest_def)

lemma earliest_cong: "set es = set es' \<Longrightarrow> earliest es d = earliest es' d"
  by (simp add: earliest_def)

lemma earliest_add:
  assumes "earliest es d" "e_live e" "set es' = insert e (set es)"
  shows "earliest es' (if e_deadline_ns e \<noteq> 0 \<and> (d = 0 \<or> e_deadline_ns e < d) then e_deadline_ns e else d)"
  using assms by (fastforce simp: earliest_def split: if_splits)

lemma earliest_snoc: "earliest es d \<Longrightarrow> earliest (es @ [e]) (deadline_min e d)"
proof (cases "e_live e")
  case True
  then show "earliest es d \<Longrightarrow> earliest (es @ [e]) (deadline_min e d)"
    using earliest_add [of es d e "es @ [e]"] by (simp add: deadline_min_def)
next
  case False
  then show "earliest es d \<Longrightarrow> earliest (es @ [e]) (deadline_min e d)"
    by (auto simp: deadline_min_def earliest_def split: if_splits)
qed

lemma earliest_fold: "earliest es (fold deadline_min es 0)"
proof (induction es rule: rev_induct)
  case Nil
  show ?case by (simp add: earliest_def)
next
  case (snoc e es)
  then show ?case by (simp add: earliest_snoc)
qed

lemma earliest_removed:
  assumes "earliest es d" "set es \<subseteq> insert e (set es')" "set es' \<subseteq> set es" "\<not> (e_deadline_ns e \<noteq> 0 \<and> e_deadline_ns e = d)"
  shows "earliest es' d"
  using assms unfolding earliest_def by (auto split: if_splits)

definition band_len :: "fc_band \<Rightarrow> fc_queue_ent list \<Rightarrow> nat" where
  "band_len b es = length (filter (\<lambda>e. e_band e = b) es)"

lemma band_len_simps [simp]:
  "band_len b [] = 0" "band_len b (xs @ ys) = band_len b xs + band_len b ys"
  "band_len b (e # es) = (if e_band e = b then 1 else 0) + band_len b es"
  by (simp_all add: band_len_def)

definition ring_inv :: "fc_queue \<Rightarrow> bool" where
  "ring_inv q \<longleftrightarrow> ring_ok q \<and> q_count q = length (ring_live q) \<and>
     (\<forall>b. fc_band_counted b \<longrightarrow> q_band_count q b = band_len b (ring_live q)) \<and>
     earliest (ring_live q) (q_next_deadline_ns q)"

lemma ring_invD:
  assumes "ring_inv q"
  shows "ring_ok q" and "q_count q = length (ring_live q)"
    and "fc_band_counted b \<Longrightarrow> q_band_count q b = band_len b (ring_live q)"
    and "earliest (ring_live q) (q_next_deadline_ns q)"
  using assms by (simp_all add: ring_inv_def)

lemma ring_live_le_used: "length (ring_live q) \<le> q_used q"
  unfolding ring_live_def by (metis length_filter_le length_ring_seq)

section \<open>Re-laying the ring\<close>

lemma fc_ring_copy_eq:
  assumes "length dst = c" "n + length (filter e_live es) \<le> c"
  shows "fc_ring_copy es c dst n bc =
     (take n dst @ filter e_live es @ drop (n + length (filter e_live es)) dst,
      n + length (filter e_live es),
      \<lambda>b. bc b + (if fc_band_counted b then band_len b (filter e_live es) else 0))"
  using assms
proof (induction es arbitrary: dst n bc)
  case Nil
  then show ?case by (simp add: fun_eq_iff)
next
  case (Cons e es)
  show ?case
  proof (cases "e_live e")
    case True
    then have "n < c" using Cons.prems by simp
    moreover have "take (Suc n) (dst[n := e]) = take n dst @ [e]"
      using Cons.prems(1) \<open>n < c\<close> by (simp add: take_Suc_conv_app_nth)
    ultimately show ?thesis
      using True Cons.prems Cons.IH [of "dst[n := e]" "Suc n"]
      by (auto simp: fun_eq_iff)
  next
    case False
    with Cons show ?thesis by (simp cong: if_cong)
  qed
qed

lemma fc_ring_relayout_inv:
  assumes inv: "ring_inv q" and len: "length (ring_live q) \<le> c" "c \<le> 65536" "0 < c"
  shows "ring_inv (fc_ring_relayout q c)" and "ring_live (fc_ring_relayout q c) = ring_live q"
    and "q_used (fc_ring_relayout q c) = length (ring_live q)" and "q_cap (fc_ring_relayout q c) = c"
proof -
  let ?L = "ring_live q" and ?q = "fc_ring_relayout q c"
  let ?r = "?L @ drop (length ?L) (replicate c fc_ent_zero)"
  have ok: "ring_ok q" using inv by (rule ring_invD)
  have q': "?q = q\<lparr>q_ring := ?r, q_cap := c, q_head := 0,
       q_tail := (if length ?L = c then 0 else length ?L), q_used := length ?L,
       q_count := length ?L,
       q_band_count := (\<lambda>b. if fc_band_counted b then band_len b ?L else 0)\<rparr>"
    using fc_ring_copy_eq [of "replicate c fc_ent_zero" c 0 "ring_seq q"] len
    by (simp add: fc_ring_relayout_def map_span [OF ok] ring_live_def [symmetric] cong: if_cong)
  then show "q_used ?q = length ?L" "q_cap ?q = c" by simp_all
  have seq: "ring_seq ?q = ?L"
    using len by (intro nth_equalityI) (auto simp: q' ring_seq_def nth_append)
  then show live: "ring_live ?q = ?L"
    by (simp add: ring_live_def)
  have "ring_ok ?q"
    using len by (auto simp: ring_ok_def q' nth_append fc_ent_zero_def)
  then show "ring_inv ?q"
    using ring_invD(4) [OF inv] by (simp add: ring_inv_def live) (simp add: q')
qed

lemma fc_ring_relayout_frame [simp]:
  "q_drr_credit (fc_ring_relayout q c) = q_drr_credit q" "q_rr_next (fc_ring_relayout q c) = q_rr_next q"
  "q_dead (fc_ring_relayout q c) = q_dead q" "q_evicted (fc_ring_relayout q c) = q_evicted q"
  "q_next_deadline_ns (fc_ring_relayout q c) = q_next_deadline_ns q"
  by (simp_all add: fc_ring_relayout_def split: prod.splits)

text \<open>An operation that re-lays the ring keeps the waiters, in order, and everything else.\<close>

definition ring_kept :: "fc_queue \<Rightarrow> fc_queue \<Rightarrow> bool" where
  "ring_kept q q' \<longleftrightarrow> ring_inv q' \<and> ring_live q' = ring_live q \<and> q_cap q \<le> q_cap q' \<and>
     q_drr_credit q' = q_drr_credit q \<and> q_rr_next q' = q_rr_next q \<and> q_dead q' = q_dead q \<and>
     q_evicted q' = q_evicted q \<and> q_next_deadline_ns q' = q_next_deadline_ns q"

lemma ring_kept_refl: "ring_inv q \<Longrightarrow> ring_kept q q"
  by (simp add: ring_kept_def)

lemma ring_kept_trans: "ring_kept q q' \<Longrightarrow> ring_kept q' q'' \<Longrightarrow> ring_kept q q''"
  by (simp add: ring_kept_def)

lemma fc_ring_compact_kept: "ring_inv q \<Longrightarrow> ring_kept q (snd (fc_ring_compact ok q))"
  using fc_ring_relayout_inv [of q "q_cap q"] ring_live_le_used [of q]
  by (auto simp: fc_ring_compact_def ring_kept_def ring_inv_def ring_ok_def intro: order_trans)

lemma fc_ring_grow_kept:
  assumes "ring_inv q" shows "ring_kept q (snd (fc_ring_grow ok q want))"
proof -
  define w where "w = (if want > 65536 then 65536 else want)"
  have w: "w \<le> 65536" by (simp add: w_def)
  have grow: "fc_ring_grow ok q want = (if w \<le> q_cap q then (0, q) else if \<not> ok w then (-1, q)
      else if q_ring q \<noteq> [] then (0, fc_ring_relayout q w)
      else (0, q\<lparr>q_ring := replicate w fc_ent_zero, q_cap := w, q_head := 0, q_tail := 0,
                 q_used := 0, q_count := 0, q_band_count := (\<lambda>_. 0)\<rparr>))"
    by (simp add: fc_ring_grow_def w_def)
  have len: "length (ring_live q) \<le> q_cap q"
    using ring_live_le_used [of q] assms by (simp add: ring_inv_def ring_ok_def)
  show ?thesis
  proof (cases "q_ring q = [] \<and> \<not> w \<le> q_cap q \<and> ok w")
    case False
    then show ?thesis
      using ring_kept_refl [OF assms] fc_ring_relayout_inv [OF assms, of w] len w
      by (auto simp: grow ring_kept_def)
  next
    case True
    then have "q_cap q = 0" "q_used q = 0" using assms by (auto simp: ring_inv_def ring_ok_def)
    moreover have "ring_seq q = []" using \<open>q_used q = 0\<close> by (simp add: ring_seq_def)
    moreover have "earliest [] (q_next_deadline_ns q)"
      using ring_invD(4) [OF assms] \<open>ring_seq q = []\<close> by (simp add: ring_live_def)
    ultimately show ?thesis
      using True w
      by (auto simp: grow ring_kept_def ring_inv_def ring_ok_def ring_live_def ring_seq_def fc_ent_zero_def)
  qed
qed

lemma fc_ring_make_room_kept:
  assumes "ring_inv q" shows "ring_kept q (fc_ring_make_room ok q front)"
proof -
  define q1 where "q1 = (if q_used q \<ge> q_cap q \<and> q_count q < q_cap q then snd (fc_ring_compact ok q) else q)"
  have 1: "ring_kept q q1" using assms by (simp add: q1_def fc_ring_compact_kept ring_kept_refl)
  then have "ring_inv q1" by (simp add: ring_kept_def)
  then have "ring_kept q1 (fc_ring_make_room ok q front)"
    by (simp add: fc_ring_make_room_def Let_def q1_def [symmetric] fc_ring_grow_kept ring_kept_refl)
  with 1 show ?thesis by (rule ring_kept_trans)
qed

section \<open>Inserting\<close>

text \<open>The place of a new entry among the waiters.\<close>

definition queue_insert :: "bool \<Rightarrow> bool \<Rightarrow> fc_queue_ent \<Rightarrow> fc_queue_ent list \<Rightarrow> fc_queue_ent list" where
  "queue_insert front ordered e es =
     (if front then takeWhile (front_pass e) es @ e # dropWhile (front_pass e) es
      else if ordered then before_of e es @ e # after_of e es
      else es @ [e])"

lemma set_queue_insert [simp]: "set (queue_insert f r e es) = insert e (set es)"
proof -
  have "set es = set (before_of e es) \<union> set (after_of e es)"
    by (metis before_after set_append)
  moreover have "set es = set (takeWhile (front_pass e) es) \<union> set (dropWhile (front_pass e) es)"
    by (metis takeWhile_dropWhile_id set_append)
  ultimately show ?thesis by (auto simp: queue_insert_def)
qed

lemma length_queue_insert [simp]: "length (queue_insert f r e es) = Suc (length es)"
proof -
  have "length es = length (before_of e es) + length (after_of e es)"
    by (metis before_after length_append)
  moreover have "length es = length (takeWhile (front_pass e) es) + length (dropWhile (front_pass e) es)"
    by (metis takeWhile_dropWhile_id length_append)
  ultimately show ?thesis by (simp add: queue_insert_def)
qed

lemma band_len_queue_insert [simp]:
  "band_len b (queue_insert f r e es) = (if e_band e = b then 1 else 0) + band_len b es"
proof -
  have "band_len b es = band_len b (before_of e es) + band_len b (after_of e es)"
    by (metis before_after band_len_simps(2))
  moreover have "band_len b es =
      band_len b (takeWhile (front_pass e) es) + band_len b (dropWhile (front_pass e) es)"
    by (metis takeWhile_dropWhile_id band_len_simps(2))
  ultimately show ?thesis by (simp add: queue_insert_def)
qed

text \<open>Tombstones are passed by both loops, so the waiters alone decide the place.\<close>

lemma filter_takeWhile_pass:
  assumes "\<And>x. \<not> L x \<Longrightarrow> P x"
  shows "filter L (takeWhile P xs) = takeWhile P (filter L xs)"
    and "filter L (dropWhile P xs) = dropWhile P (filter L xs)"
  using assms by (induction xs) auto

lemma filter_queue_insert:
  assumes "e_live e"
  shows "filter e_live (queue_insert f r e es) = queue_insert f r e (filter e_live es)"
proof -
  have f: "\<not> e_live x \<Longrightarrow> front_pass e x" and b: "\<not> e_live x \<Longrightarrow> back_pass e x" for x
    by (simp_all add: front_pass_def back_pass_def)
  show ?thesis
    using assms filter_takeWhile_pass [of e_live "front_pass e", OF f]
      filter_takeWhile_pass [of e_live "back_pass e", OF b]
    by (simp add: queue_insert_def before_of_def after_of_def rev_filter [symmetric])
qed

lemma ring_prev_head:
  assumes "h < c" and p: "p = (if h = 0 then c - 1 else h - (1::nat))"
  shows "p < c" and "Suc p mod c = h" and "(p + Suc j) mod c = (h + j) mod c"
proof -
  show "p < c" using assms by auto
  show s: "Suc p mod c = h" using assms by auto
  have "(p + Suc j) mod c = (Suc p mod c + j) mod c"
    by (simp add: mod_add_left_eq)
  then show "(p + Suc j) mod c = (h + j) mod c" by (simp only: s)
qed

lemma fc_ring_place_front:
  assumes ok: "ring_ok q" and room: "q_used q < q_cap q"
    and pl: "fc_ring_place q e True ordered = (q1, slot)"
    and q': "q' = q1\<lparr>q_ring := (q_ring q1)[slot := e\<lparr>e_live := True\<rparr>], q_used := q_used q1 + 1\<rparr>"
  shows "ring_ok q' \<and> ring_seq q' = queue_insert True ordered (e\<lparr>e_live := True\<rparr>) (ring_seq q) \<and>
         slot < q_cap q \<and> q_cap q' = q_cap q"
proof -
  let ?e = "e\<lparr>e_live := True\<rparr>" and ?c = "q_cap q" and ?h = "q_head q" and ?u = "q_used q"
  define p where "p = (if ?h = 0 then ?c - 1 else ?h - 1)"
  have c: "0 < ?c" "?h < ?c" "length (q_ring q) = ?c" using ok room by (auto simp: ring_ok_def)
  note prev = ring_prev_head [OF c(2) p_def]
  obtain r' where run: "fc_ring_settle_front ?c ((q_ring q)[p := ?e]) p ?u = (r', slot)"
    and q1: "q1 = q\<lparr>q_head := p, q_ring := r'\<rparr>"
    using pl by (auto simp: fc_ring_place_def p_def [symmetric] Let_def split: prod.splits)
  have off: "(?h + j) mod ?c \<noteq> p" if "j < ?u" for j
    using that room prev(1) prev(3) [of j] ring_pos_inj [of "Suc j" ?c 0 p] by auto
  have "seg p ?c ((q_ring q)[p := ?e]) (Suc ?u) = ?e # ring_seq q"
    using c prev off by (simp add: seg_Cons ring_seq_def)
      (metis prev(2) seg_mod seg_update_outside)
  then have "seg p ?c ((q_ring q)[p := ?e]) (Suc ?u) = [] @ ?e # ring_seq q" by simp
  from settle_front_seg [OF this, of r' slot] run room c prev(1)
  have st: "seg p ?c r' (Suc ?u) = takeWhile (front_pass ?e) (ring_seq q) @ ?e # dropWhile (front_pass ?e) (ring_seq q)"
    and sl: "slot = (p + length (takeWhile (front_pass ?e) (ring_seq q))) mod ?c"
    and so: "same_outside p ?c (Suc ?u) ((q_ring q)[p := ?e]) r'"
    by simp_all
  have at: "r' ! slot = ?e" using seg_split_nth(1) [OF st] sl by simp
  have q'': "q' = q\<lparr>q_head := p, q_ring := r', q_used := Suc ?u\<rparr>"
    using at by (simp add: q' q1) (metis at list_update_id)
  have dead: "\<not> e_live (r' ! ((p + j) mod ?c))" if j: "Suc ?u \<le> j" "j < ?c" for j
  proof -
    obtain i where i: "j = Suc i" using j by (cases j) auto
    have "(p + j) mod ?c \<noteq> p" using ring_pos_inj [of j ?c 0 p] j prev(1) by auto
    then have "r' ! ((p + j) mod ?c) = q_ring q ! ((p + j) mod ?c)"
      using so j by (simp add: same_outside_def)
    moreover have "(p + j) mod ?c = (?h + i) mod ?c" unfolding i by (rule prev(3))
    moreover have "\<not> e_live (q_ring q ! ((?h + i) mod ?c))" using ok j i by (simp add: ring_ok_def)
    ultimately show ?thesis by (simp only:) simp
  qed
  have "q_tail q = (p + Suc ?u) mod ?c"
    unfolding prev(3) using ok c by (simp add: ring_ok_def)
  moreover have "length r' = ?c" using so c by (simp add: same_outside_def)
  ultimately have "ring_ok q'"
    using ok room prev(1) c dead by (simp add: ring_ok_def q'')
  with st sl c show ?thesis by (simp add: q'' ring_seq_def queue_insert_def)
qed

lemma fc_ring_tail_next:
  assumes "ring_ok q" "q_used q < q_cap q"
  shows "fc_ring_wrap q (q_tail q + 1) = (q_head q + Suc (q_used q)) mod q_cap q"
proof -
  have "q_tail q < q_cap q" using assms by (auto simp: ring_ok_def)
  then have "fc_ring_wrap q (q_tail q + 1) = (q_tail q + 1) mod q_cap q"
    by (intro fc_ring_wrap_mod) auto
  also have "\<dots> = (q_head q + Suc (q_used q)) mod q_cap q"
    using assms by (simp add: ring_ok_def mod_Suc_eq)
  finally show ?thesis .
qed

lemma fc_ring_place_back:
  assumes ok: "ring_ok q" and room: "q_used q < q_cap q"
    and pl: "fc_ring_place q e False ordered = (q1, slot)"
    and q': "q' = q1\<lparr>q_ring := (q_ring q1)[slot := e\<lparr>e_live := True\<rparr>], q_used := q_used q1 + 1\<rparr>"
  shows "ring_ok q' \<and> ring_seq q' = queue_insert False ordered (e\<lparr>e_live := True\<rparr>) (ring_seq q) \<and>
         slot < q_cap q \<and> q_cap q' = q_cap q"
proof -
  let ?e = "e\<lparr>e_live := True\<rparr>" and ?c = "q_cap q" and ?h = "q_head q" and ?u = "q_used q"
  let ?t = "(?h + ?u) mod ?c" and ?n = "(?h + Suc ?u) mod ?c"
  have c: "0 < ?c" "?h < ?c" "length (q_ring q) = ?c" "q_tail q = ?t"
    using ok room by (auto simp: ring_ok_def)
  note tn = fc_ring_tail_next [OF ok room]
  have start: "seg ?h ?c ((q_ring q)[?t := ?e]) (Suc ?u) = ring_seq q @ ?e # []"
    using seg_update [of "q_ring q" ?c "Suc ?u" ?u ?h ?e] c room
    by (simp add: seg_Suc ring_seq_def list_update_append)
  have *: "\<exists>r'. q' = q\<lparr>q_tail := ?n, q_ring := r', q_used := Suc ?u\<rparr> \<and>
             seg ?h ?c r' (Suc ?u) = queue_insert False ordered ?e (ring_seq q) \<and> slot < ?c \<and>
             same_outside ?h ?c (Suc ?u) ((q_ring q)[?t := ?e]) r'"
  proof (cases ordered)
    case False
    then have "q1 = q\<lparr>q_tail := fc_ring_wrap q (q_tail q + 1)\<rparr>" "slot = q_tail q"
      using pl by (auto simp: fc_ring_place_def Let_def)
    then have "q1 = q\<lparr>q_tail := ?n\<rparr>" "slot = ?t" using tn c(4) by simp_all
    with False start c show ?thesis
      by (intro exI [of _ "(q_ring q)[?t := ?e]"]) (simp add: q' queue_insert_def)
  next
    case True
    then obtain r' where "fc_ring_settle_back ?c ?h ((q_ring q)[q_tail q := ?e]) (q_tail q) ?u = (r', slot)"
      and "q1 = q\<lparr>q_tail := fc_ring_wrap q (q_tail q + 1), q_ring := r'\<rparr>"
      using pl by (auto simp: fc_ring_place_def Let_def split: prod.splits)
    then have run: "fc_ring_settle_back ?c ?h ((q_ring q)[?t := ?e]) ?t ?u = (r', slot)"
      and q1: "q1 = q\<lparr>q_tail := ?n, q_ring := r'\<rparr>" using tn c(4) by simp_all
    have st: "seg ?h ?c r' (Suc ?u) = before_of ?e (ring_seq q) @ ?e # after_of ?e (ring_seq q)"
      and sl: "slot = (?h + length (before_of ?e (ring_seq q))) mod ?c"
      and so: "same_outside ?h ?c (Suc ?u) ((q_ring q)[?t := ?e]) r'"
      using settle_back_seg [OF start, of ?u r' slot] run room c by simp_all
    have "r' ! slot = ?e" using seg_split_nth(1) [OF st] sl by simp
    then have "q' = q\<lparr>q_tail := ?n, q_ring := r', q_used := Suc ?u\<rparr>"
      by (simp add: q' q1) (metis list_update_id)
    with st sl so True c show ?thesis by (auto simp: queue_insert_def)
  qed
  then obtain r' where q'': "q' = q\<lparr>q_tail := ?n, q_ring := r', q_used := Suc ?u\<rparr>"
    and st: "seg ?h ?c r' (Suc ?u) = queue_insert False ordered ?e (ring_seq q)" and sl: "slot < ?c"
    and so: "same_outside ?h ?c (Suc ?u) ((q_ring q)[?t := ?e]) r'" by blast
  have "\<not> e_live (r' ! ((?h + j) mod ?c))" if j: "Suc ?u \<le> j" "j < ?c" for j
  proof -
    have "(?h + j) mod ?c \<noteq> ?t" using ring_pos_inj [of j ?c ?u ?h] j by auto
    then have "r' ! ((?h + j) mod ?c) = q_ring q ! ((?h + j) mod ?c)"
      using so j by (simp add: same_outside_def)
    then show ?thesis using ok j by (simp add: ring_ok_def)
  qed
  moreover have "length r' = ?c" using so c by (simp add: same_outside_def)
  ultimately have "ring_ok q'" using ok room c by (simp add: ring_ok_def q'')
  with st sl show ?thesis by (simp add: q'' ring_seq_def)
qed

lemma fc_ring_place_seq:
  assumes "ring_ok q" "q_used q < q_cap q" "fc_ring_place q e front ordered = (q1, slot)"
    and "q' = q1\<lparr>q_ring := (q_ring q1)[slot := e\<lparr>e_live := True\<rparr>], q_used := q_used q1 + 1\<rparr>"
  shows "ring_ok q' \<and> ring_seq q' = queue_insert front ordered (e\<lparr>e_live := True\<rparr>) (ring_seq q) \<and>
         slot < q_cap q \<and> q_cap q' = q_cap q"
  using fc_ring_place_front [OF assms(1,2) _ assms(4), of ordered]
    fc_ring_place_back [OF assms(1,2) _ assms(4), of ordered] assms(3)
  by (cases front) simp_all

text \<open>The bookkeeping updates and what they leave alone.\<close>

lemma fc_ring_book_frame [simp]:
  "q_ring (fc_ring_band_add q b) = q_ring q" "q_cap (fc_ring_band_add q b) = q_cap q"
  "q_head (fc_ring_band_add q b) = q_head q" "q_tail (fc_ring_band_add q b) = q_tail q"
  "q_used (fc_ring_band_add q b) = q_used q" "q_count (fc_ring_band_add q b) = q_count q"
  "q_next_deadline_ns (fc_ring_band_add q b) = q_next_deadline_ns q"
  "q_ring (fc_ring_band_sub q b) = q_ring q" "q_cap (fc_ring_band_sub q b) = q_cap q"
  "q_head (fc_ring_band_sub q b) = q_head q" "q_tail (fc_ring_band_sub q b) = q_tail q"
  "q_used (fc_ring_band_sub q b) = q_used q" "q_count (fc_ring_band_sub q b) = q_count q"
  "q_next_deadline_ns (fc_ring_band_sub q b) = q_next_deadline_ns q"
  "q_ring (fc_ring_deadline_add q d) = q_ring q" "q_cap (fc_ring_deadline_add q d) = q_cap q"
  "q_head (fc_ring_deadline_add q d) = q_head q" "q_tail (fc_ring_deadline_add q d) = q_tail q"
  "q_used (fc_ring_deadline_add q d) = q_used q" "q_count (fc_ring_deadline_add q d) = q_count q"
  "q_band_count (fc_ring_deadline_add q d) = q_band_count q"
  "q_ring (fc_ring_deadline_gone q d) = q_ring q" "q_cap (fc_ring_deadline_gone q d) = q_cap q"
  "q_head (fc_ring_deadline_gone q d) = q_head q" "q_tail (fc_ring_deadline_gone q d) = q_tail q"
  "q_used (fc_ring_deadline_gone q d) = q_used q" "q_count (fc_ring_deadline_gone q d) = q_count q"
  "q_band_count (fc_ring_deadline_gone q d) = q_band_count q"
  by (simp_all add: fc_ring_band_add_def fc_ring_band_sub_def fc_ring_deadline_add_def
      fc_ring_deadline_gone_def fc_ring_deadline_rescan_def Let_def)

text \<open>The fields no ring operation writes.\<close>

definition ring_aside :: "fc_queue \<Rightarrow> fc_queue \<Rightarrow> bool" where
  "ring_aside q q' \<longleftrightarrow> q_drr_credit q' = q_drr_credit q \<and> q_rr_next q' = q_rr_next q \<and>
     q_dead q' = q_dead q \<and> q_evicted q' = q_evicted q"

lemma ring_aside_refl [simp]: "ring_aside q q"
  by (simp add: ring_aside_def)

lemma ring_aside_trans: "ring_aside q q' \<Longrightarrow> ring_aside q' q'' \<Longrightarrow> ring_aside q q''"
  by (simp add: ring_aside_def)

lemma ring_aside_book:
  "ring_aside q (fc_ring_band_add q b)" "ring_aside q (fc_ring_band_sub q b)"
  "ring_aside q (fc_ring_deadline_add q d)" "ring_aside q (fc_ring_deadline_gone q d)"
  "ring_aside q (fst (fc_ring_place q e front ordered))"
  by (simp_all add: ring_aside_def fc_ring_band_add_def fc_ring_band_sub_def
      fc_ring_deadline_add_def fc_ring_deadline_gone_def fc_ring_deadline_rescan_def
      fc_ring_place_def Let_def split: prod.splits)

lemma ring_ok_cong:
  assumes "q_ring q' = q_ring q" "q_cap q' = q_cap q" "q_head q' = q_head q" "q_tail q' = q_tail q"
    "q_used q' = q_used q"
  shows "ring_ok q' = ring_ok q" and "ring_seq q' = ring_seq q" and "ring_live q' = ring_live q"
  using assms by (simp_all add: ring_ok_def ring_seq_def ring_live_def)

lemma fc_ring_place_counts:
  "fc_ring_place q e front ordered = (q1, slot) \<Longrightarrow>
     q_used q1 = q_used q \<and> q_count q1 = q_count q \<and> q_band_count q1 = q_band_count q \<and>
     q_next_deadline_ns q1 = q_next_deadline_ns q"
  by (auto simp: fc_ring_place_def Let_def split: prod.splits if_splits)

text \<open>
  With a slot free, the new waiter joins the others at its place, and the counts, the per-band
  counts and the earliest deadline follow.
\<close>

lemma fc_ring_insert_room:
  assumes inv: "ring_inv q" and room: "q_used (fc_ring_make_room ok q front) < q_cap (fc_ring_make_room ok q front)"
    and cap: "q_cap q \<noteq> 0"
  obtains slot q' where "fc_ring_insert ok q e front ordered = (Some slot, q')" "ring_inv q'"
    "ring_live q' = queue_insert front ordered (e\<lparr>e_live := True\<rparr>) (ring_live q)" "ring_aside q q'"
    "q_cap q \<le> q_cap q'"
proof -
  let ?e = "e\<lparr>e_live := True\<rparr>"
  define m where "m = fc_ring_make_room ok q front"
  have kept: "ring_kept q m" unfolding m_def by (rule fc_ring_make_room_kept [OF inv])
  then have invm: "ring_inv m" and livem: "ring_live m = ring_live q" by (simp_all add: ring_kept_def)
  obtain q1 slot where pl: "fc_ring_place m e front ordered = (q1, slot)" by fastforce
  define q2 where "q2 = q1\<lparr>q_ring := (q_ring q1)[slot := ?e], q_used := q_used q1 + 1\<rparr>"
  define q3 where "q3 = fc_ring_band_add (q2\<lparr>q_count := q_count q1 + 1\<rparr>) (e_band e)"
  define q4 where "q4 = fc_ring_deadline_add q3 (e_deadline_ns e)"
  have res: "fc_ring_insert ok q e front ordered = (Some slot, q4)"
    using cap room pl by (simp add: fc_ring_insert_def m_def [symmetric] q4_def q3_def q2_def Let_def)
  have seq2: "ring_ok q2" "ring_seq q2 = queue_insert front ordered ?e (ring_seq m)" "q_cap q2 = q_cap m"
    using fc_ring_place_seq [OF ring_invD(1) [OF invm] _ pl q2_def] room by (simp_all add: m_def)
  have live2: "ring_live q2 = queue_insert front ordered ?e (ring_live q)"
    using seq2(2) livem by (simp add: ring_live_def filter_queue_insert)
  have same: "ring_ok q4 = ring_ok q2" "ring_live q4 = ring_live q2"
    by (intro ring_ok_cong; simp add: q4_def q3_def)+
  note cnt = fc_ring_place_counts [OF pl]
  have "q_count q4 = length (ring_live q4)"
    using ring_invD(2) [OF invm] cnt same live2 livem by (simp add: q4_def q3_def)
  moreover have "q_band_count q4 b = band_len b (ring_live q4)" if "fc_band_counted b" for b
    using that ring_invD(3) [OF invm that] cnt same live2 livem
    by (auto simp: q4_def q3_def q2_def fc_ring_band_add_def)
  moreover have nd: "q_next_deadline_ns q4 =
      (if e_deadline_ns ?e \<noteq> 0 \<and> (q_next_deadline_ns m = 0 \<or> e_deadline_ns ?e < q_next_deadline_ns m)
       then e_deadline_ns ?e else q_next_deadline_ns m)"
    using cnt by (simp add: q4_def q3_def q2_def fc_ring_deadline_add_def Let_def)
  moreover have "earliest (ring_live q4) (q_next_deadline_ns q4)"
    unfolding nd same(2) live2 using ring_invD(4) [OF invm] livem
    by (intro earliest_add [of "ring_live q"]) simp_all
  ultimately have "ring_inv q4" using same seq2(1) by (simp add: ring_inv_def)
  moreover have "ring_aside q q4"
    using kept ring_aside_book(5) [of m e front ordered] pl ring_aside_book(1,3)
    by (auto simp: q4_def q3_def q2_def ring_aside_def ring_kept_def)
  moreover have "q_cap q \<le> q_cap q4" using kept seq2(3) by (simp add: q4_def q3_def ring_kept_def)
  ultimately show thesis using that res same(2) live2 by metis
qed

text \<open>Where no slot can be made the waiters stay as they were.\<close>

lemma fc_ring_insert_full:
  assumes "ring_inv q" "fc_ring_insert ok q e front ordered = (None, q')"
  shows "ring_inv q' \<and> ring_live q' = ring_live q \<and> ring_aside q q'"
  using assms fc_ring_make_room_kept [OF assms(1), of ok front]
  by (auto simp: fc_ring_insert_def Let_def ring_kept_def ring_aside_def split: if_splits prod.splits)

text \<open>An append finds room whenever the waiters are fewer than the slots.\<close>

lemma fc_ring_make_room_back:
  assumes "ring_inv q" "length (ring_live q) < q_cap q" "ok (q_cap q)"
  shows "q_used (fc_ring_make_room ok q front) < q_cap (fc_ring_make_room ok q front)"
proof (cases "q_used q < q_cap q")
  case True
  then show ?thesis by (simp add: fc_ring_make_room_def Let_def)
next
  case False
  have "q_cap q \<le> 65536" using assms(1) by (simp add: ring_inv_def ring_ok_def)
  with False assms fc_ring_relayout_inv(3,4) [OF assms(1), of "q_cap q"]
  show ?thesis by (simp add: fc_ring_make_room_def fc_ring_compact_def Let_def ring_inv_def)
qed

text \<open>A request back at the head finds room as long as the ring may still grow.\<close>

lemma fc_ring_grow_size:
  assumes inv: "ring_inv q" and "ok (min 65536 want)" "q_cap q < min 65536 want"
  shows "q_used (snd (fc_ring_grow ok q want)) = length (ring_live q)"
    and "q_cap (snd (fc_ring_grow ok q want)) = min 65536 want"
proof -
  define w where "w = min 65536 want"
  have len: "length (ring_live q) \<le> q_cap q"
    using ring_live_le_used [of q] inv by (simp add: ring_inv_def ring_ok_def)
  have w: "q_cap q < w" "w \<le> 65536" "ok w" using assms by (simp_all add: w_def)
  have clamp: "(if want > unat FC_QUEUE_DEPTH_MAX then unat FC_QUEUE_DEPTH_MAX else want) = w"
    by (simp add: w_def)
  have grow: "fc_ring_grow ok q want = (if q_ring q \<noteq> [] then (0, fc_ring_relayout q w)
      else (0, q\<lparr>q_ring := replicate w fc_ent_zero, q_cap := w, q_head := 0, q_tail := 0,
                 q_used := 0, q_count := 0, q_band_count := (\<lambda>_. 0)\<rparr>))"
    unfolding fc_ring_grow_def Let_def clamp using w by simp
  have none: "q_ring q = [] \<Longrightarrow> ring_live q = []" using len inv by (simp add: ring_inv_def ring_ok_def)
  show "q_used (snd (fc_ring_grow ok q want)) = length (ring_live q)"
    using w len fc_ring_relayout_inv(3) [OF inv, of w] none by (simp add: grow)
  show "q_cap (snd (fc_ring_grow ok q want)) = min 65536 want"
    using w len fc_ring_relayout_inv(4) [OF inv, of w] by (simp add: grow flip: w_def)
qed

lemma fc_ring_make_room_front:
  assumes "ring_inv q" "q_cap q < 65536" "\<And>n. ok n"
  shows "q_used (fc_ring_make_room ok q True) < q_cap (fc_ring_make_room ok q True)"
proof -
  define q1 where "q1 = (if q_used q \<ge> q_cap q \<and> q_count q < q_cap q then snd (fc_ring_compact ok q) else q)"
  define more where "more = (if q_cap q1 div 8 > 16 then q_cap q1 div 8 else 16)"
  have inv1: "ring_inv q1" using fc_ring_compact_kept [OF assms(1)] assms(1) by (simp add: q1_def ring_kept_def)
  have cap1: "q_cap q1 = q_cap q" by (simp add: q1_def fc_ring_compact_def fc_ring_relayout_def split: prod.splits)
  have "0 < more" by (simp add: more_def)
  then have big: "q_cap q1 < min 65536 (q_cap q1 + more)" using assms(2) cap1 by simp
  have "q_used q1 \<le> q_cap q1" using inv1 by (simp add: ring_inv_def ring_ok_def)
  then have len: "length (ring_live q1) \<le> q_cap q1" using ring_live_le_used [of q1] by simp
  have "fc_ring_make_room ok q True =
      (if q_used q1 \<ge> q_cap q1 then snd (fc_ring_grow ok q1 (q_cap q1 + more)) else q1)"
    by (simp add: fc_ring_make_room_def Let_def q1_def [symmetric] more_def)
  then show ?thesis
    using fc_ring_grow_size [OF inv1 assms(3) big] len big by auto
qed

section \<open>Taking entries out\<close>

text \<open>The head moves past a slot that holds no waiter any more.\<close>

lemma ring_drop_head:
  assumes ok: "ring_ok q" and used: "0 < q_used q"
    and r: "length r = q_cap q" "\<forall>i. i \<noteq> q_head q \<longrightarrow> r ! i = q_ring q ! i" "\<not> e_live (r ! q_head q)"
    and q': "q' = q\<lparr>q_ring := r, q_head := fc_ring_wrap q (q_head q + 1), q_used := q_used q - 1\<rparr>"
  shows "ring_ok q'" and "ring_seq q = q_ring q ! q_head q # ring_seq q'"
proof -
  let ?c = "q_cap q" and ?h = "q_head q"
  obtain u where u: "q_used q = Suc u" using used by (cases "q_used q") auto
  have c: "0 < ?c" "?h < ?c" "Suc u \<le> ?c" "q_tail q = (?h + Suc u) mod ?c" "?c \<le> 65536"
    using ok u by (auto simp: ring_ok_def)
  have w: "fc_ring_wrap q (?h + 1) = Suc ?h mod ?c" using c fc_ring_wrap_mod [of q "?h + 1"] by simp
  then have h: "q_head q' = Suc ?h mod ?c" by (simp add: q')
  have pos: "(q_head q' + j) mod ?c = (?h + Suc j) mod ?c" for j
    by (simp add: h mod_add_left_eq)
  have off: "(?h + Suc j) mod ?c \<noteq> ?h" if "Suc j < ?c" for j
    using ring_pos_inj [of "Suc j" ?c 0 ?h] that c by auto
  have same: "r ! ((?h + Suc j) mod ?c) = q_ring q ! ((?h + Suc j) mod ?c)" if "Suc j < ?c" for j
    using r(2) off [OF that] by blast
  have "\<not> e_live (r ! ((?h + Suc j) mod ?c))" if j: "u \<le> j" "j < ?c" for j
  proof (cases "Suc j < ?c")
    case True
    then show ?thesis using same [OF True] ok j u by (simp add: ring_ok_def del: add_Suc_right)
  next
    case False
    then have "Suc j = ?c" using j by simp
    then have "(?h + Suc j) mod ?c = ?h" using c by (simp only: mod_add_self2 mod_less)
    then show ?thesis using r(3) by simp
  qed
  then show "ring_ok q'"
    using c r(1) u pos [of u] w by (simp add: ring_ok_def q' mod_add_left_eq)
  have "ring_seq q' = seg (?h + 1) ?c r u"
    using w by (simp add: ring_seq_def seg_def q' u mod_add_left_eq)
  also have "\<dots> = seg (?h + 1) ?c (q_ring q) u"
    by (rule nth_equalityI) (use same c in \<open>simp_all del: add_Suc_right add: add.assoc\<close>)
  finally show "ring_seq q = q_ring q ! ?h # ring_seq q'"
    using c by (simp add: ring_seq_def u seg_Cons)
qed

text \<open>What the trim keeps: everything but the dead slots at the head.\<close>

lemma fc_ring_trim_kept:
  "ring_ok q \<Longrightarrow> ring_ok (fc_ring_trim q) \<and> ring_live (fc_ring_trim q) = ring_live q \<and>
     ring_aside q (fc_ring_trim q) \<and> q_count (fc_ring_trim q) = q_count q \<and>
     q_band_count (fc_ring_trim q) = q_band_count q \<and> q_cap (fc_ring_trim q) = q_cap q \<and>
     q_next_deadline_ns (fc_ring_trim q) = q_next_deadline_ns q"
proof (induction q rule: fc_ring_trim.induct)
  case (1 q)
  show ?case
  proof (cases "q_used q > 0 \<and> \<not> e_live (q_ring q ! q_head q)")
    case True
    let ?q = "q\<lparr>q_head := fc_ring_wrap q (q_head q + 1), q_used := q_used q - 1\<rparr>"
    have "length (q_ring q) = q_cap q" using 1(2) by (simp add: ring_ok_def)
    from ring_drop_head [OF 1(2) _ this, of ?q] True
    have "ring_ok ?q" and "ring_seq q = q_ring q ! q_head q # ring_seq ?q" by simp_all
    moreover have "fc_ring_trim q = fc_ring_trim ?q" using True by (subst fc_ring_trim.simps) simp
    ultimately show ?thesis using True 1(1) [OF True] by (simp add: ring_live_def ring_aside_def)
  next
    case False
    then have "fc_ring_trim q = q" by (subst fc_ring_trim.simps) auto
    then show ?thesis using 1(2) by simp
  qed
qed

text \<open>The rescan finds the earliest deadline of the waiters.\<close>

lemma fc_ring_deadline_rescan_earliest:
  assumes "ring_ok q"
  shows "earliest (ring_live q) (q_next_deadline_ns (fc_ring_deadline_rescan q))"
proof (cases "q_cap q = 0")
  case True
  then have "ring_live q = []" using assms by (simp add: ring_ok_def ring_live_def ring_seq_def)
  then show ?thesis using True by (simp add: fc_ring_deadline_rescan_def earliest_def)
next
  case False
  have "fold (\<lambda>i. deadline_min (q_ring q ! i)) (fc_ring_span q) 0 = fold deadline_min (ring_seq q) 0"
    unfolding map_span [OF assms, symmetric] by (simp add: fold_map comp_def)
  then show ?thesis
    using False earliest_fold [of "ring_seq q"]
    by (simp add: fc_ring_deadline_rescan_def ring_live_def earliest_live)
qed

text \<open>The bookkeeping after a waiter has left the ring.\<close>

lemma ring_inv_gone:
  assumes inv: "ring_inv q" and live: "ring_live q = pre @ e # post"
    and q1: "ring_ok q1" "ring_live q1 = pre @ post" "q_count q1 = q_count q - 1"
      "q_band_count q1 = q_band_count q" "q_next_deadline_ns q1 = q_next_deadline_ns q"
    and q2: "q2 = fc_ring_deadline_gone (fc_ring_band_sub q1 (e_band e)) (e_deadline_ns e)"
  shows "ring_inv q2 \<and> ring_live q2 = pre @ post \<and> ring_aside q1 q2"
proof -
  let ?b = "fc_ring_band_sub q1 (e_band e)"
  have same: "ring_ok q2 = ring_ok q1" "ring_live q2 = ring_live q1"
    and sameb: "ring_ok ?b = ring_ok q1" "ring_live ?b = ring_live q1"
    by (intro ring_ok_cong; simp add: q2)+
  have "q_count q2 = length (ring_live q2)"
    using ring_invD(2) [OF inv] live q1 same by (simp add: q2)
  moreover have "q_band_count q2 b = band_len b (ring_live q2)" if "fc_band_counted b" for b
    using that ring_invD(3) [OF inv that] live q1 same
    by (auto simp: q2 fc_ring_band_sub_def)
  moreover have "earliest (ring_live q2) (q_next_deadline_ns q2)"
  proof (cases "e_deadline_ns e \<noteq> 0 \<and> e_deadline_ns e = q_next_deadline_ns q")
    case True
    then have "q2 = fc_ring_deadline_rescan ?b" using q1 by (auto simp: q2 fc_ring_deadline_gone_def)
    then show ?thesis using fc_ring_deadline_rescan_earliest [of ?b] q1 same sameb by simp
  next
    case False
    then have "q_next_deadline_ns q2 = q_next_deadline_ns q"
      using q1 by (auto simp: q2 fc_ring_deadline_gone_def)
    then show ?thesis
      using earliest_removed [OF ring_invD(4) [OF inv], of e "pre @ post"] False live q1 same by auto
  qed
  ultimately have "ring_inv q2" using same q1 by (simp add: ring_inv_def)
  moreover have "ring_aside q1 q2" unfolding q2 by (rule ring_aside_trans [OF ring_aside_book(2,4)])
  ultimately show ?thesis using same q1 by simp
qed

text \<open>
  Taking the live entry at the \<open>j\<close>-th slot of the span takes exactly that waiter; the others keep
  their order.
\<close>

lemma fc_ring_take_at_live:
  assumes inv: "ring_inv q" and j: "j < q_used q" and at: "at = (q_head q + j) mod q_cap q"
    and live: "e_live (q_ring q ! at)" and res: "fc_ring_take_at q at = (e, q')"
  shows "e = q_ring q ! at" "ring_inv q'"
    "ring_live q = filter e_live (take j (ring_seq q)) @ e # filter e_live (drop (Suc j) (ring_seq q))"
    "ring_live q' = filter e_live (take j (ring_seq q)) @ filter e_live (drop (Suc j) (ring_seq q))"
    "ring_aside q q'" "q_cap q' = q_cap q"
proof -
  let ?pre = "take j (ring_seq q)" and ?post = "drop (Suc j) (ring_seq q)" and ?e = "q_ring q ! at"
  let ?r = "(q_ring q)[at := ?e\<lparr>e_live := False\<rparr>]"
  define q1 where "q1 = q\<lparr>q_ring := ?r, q_count := q_count q - 1\<rparr>"
  define q2 where "q2 = fc_ring_deadline_gone (fc_ring_band_sub q1 (e_band ?e)) (e_deadline_ns ?e)"
  show e: "e = ?e" using res by (simp add: fc_ring_take_at_def Let_def)
  have q': "q' = fc_ring_trim q2" using res by (auto simp: fc_ring_take_at_def Let_def q1_def q2_def)
  have ok: "ring_ok q" using inv by (rule ring_invD(1))
  have sz: "length (q_ring q) = q_cap q" "q_used q \<le> q_cap q" using ok by (simp_all add: ring_ok_def)
  have seq: "ring_seq q = ?pre @ ?e # ?post"
    using id_take_nth_drop [of j "ring_seq q"] j by (simp add: ring_seq_def at)
  have "ring_seq q1 = (ring_seq q)[j := ?e\<lparr>e_live := False\<rparr>]"
    using seg_update [OF sz j, of "q_head q"] by (simp add: ring_seq_def q1_def at)
  then have seq1: "ring_seq q1 = ?pre @ ?e\<lparr>e_live := False\<rparr> # ?post"
    using j by (simp add: upd_conv_take_nth_drop)
  have live0: "ring_live q = filter e_live ?pre @ ?e # filter e_live ?post"
    unfolding ring_live_def using live by (subst seq) simp
  then show "ring_live q = filter e_live ?pre @ e # filter e_live ?post" by (simp add: e)
  have live1: "ring_live q1 = filter e_live ?pre @ filter e_live ?post"
    unfolding ring_live_def seq1 by simp
  have "\<not> e_live (?r ! i)" if "\<not> e_live (q_ring q ! i)" for i
    using that live by (cases "i = at") auto
  then have "ring_ok q1" using ok by (auto simp: ring_ok_def q1_def)
  then have "ring_inv q2 \<and> ring_live q2 = filter e_live ?pre @ filter e_live ?post \<and> ring_aside q1 q2"
    by (rule ring_inv_gone [OF inv live0 _ live1 _ _ _ q2_def]) (simp_all add: q1_def)
  then have inv2: "ring_inv q2" and live2: "ring_live q2 = filter e_live ?pre @ filter e_live ?post"
    and as: "ring_aside q1 q2" by simp_all
  note trim = fc_ring_trim_kept [OF ring_invD(1) [OF inv2]]
  show "ring_inv q'" using trim inv2 by (simp add: q' ring_inv_def)
  show "ring_live q' = filter e_live ?pre @ filter e_live ?post" using trim live2 by (simp add: q')
  show "ring_aside q q'" using trim as by (simp add: q' ring_aside_def q1_def)
  show "q_cap q' = q_cap q" using trim by (simp add: q' q2_def q1_def)
qed

text \<open>Popping yields the first waiter, and nothing exactly when nobody waits.\<close>

lemma fc_ring_pop_live:
  "ring_inv q \<Longrightarrow> fc_ring_pop q = (r, q') \<Longrightarrow>
     ring_inv q' \<and> ring_aside q q' \<and> q_cap q' = q_cap q \<and>
     (case r of None \<Rightarrow> ring_live q = [] \<and> ring_live q' = []
              | Some e \<Rightarrow> ring_live q = e # ring_live q')"
proof (induction q arbitrary: r q' rule: fc_ring_pop.induct)
  case (1 q)
  note ok = ring_invD(1) [OF 1(2)]
  let ?e = "q_ring q ! q_head q"
  let ?r = "(q_ring q)[q_head q := ?e\<lparr>e_live := False\<rparr>]"
  let ?q = "q\<lparr>q_ring := ?r, q_head := fc_ring_wrap q (q_head q + 1), q_used := q_used q - 1\<rparr>"
  have step: "fc_ring_pop q =
      (if q_used q > 0
       then if e_live ?e
            then (Some ?e, fc_ring_deadline_gone
                             (fc_ring_band_sub (?q\<lparr>q_count := q_count ?q - 1\<rparr>) (e_band ?e)) (e_deadline_ns ?e))
            else fc_ring_pop ?q
       else (None, q))"
    by (subst fc_ring_pop.simps) (simp add: Let_def)
  show ?case
  proof (cases "q_used q > 0")
    case False
    then have "ring_live q = []" by (simp add: ring_live_def ring_seq_def)
    then show ?thesis using False 1(2,3) step by auto
  next
    case True
    have "length ?r = q_cap q" "q_head q < length (q_ring q)" using ok True by (auto simp: ring_ok_def)
    then have "ring_ok ?q" and seq: "ring_seq q = ?e # ring_seq ?q"
      using ring_drop_head [OF ok True, of ?r ?q] by simp_all
    show ?thesis
    proof (cases "e_live ?e")
      case live: True
      let ?q1 = "?q\<lparr>q_count := q_count ?q - 1\<rparr>"
      have okl: "ring_ok ?q1 = ring_ok ?q" "ring_live ?q1 = ring_live ?q"
        by (intro ring_ok_cong; simp)+
      have "ring_live q = [] @ ?e # ring_live ?q" using live seq by (simp add: ring_live_def)
      from ring_inv_gone [OF 1(2) this, of ?q1 q'] okl \<open>ring_ok ?q\<close> 1(3) step True live
      show ?thesis by (auto simp: ring_live_def seq ring_aside_def)
    next
      case dead: False
      have l: "ring_live q = ring_live ?q" using dead seq by (simp add: ring_live_def)
      then have "ring_inv ?q" using 1(2) \<open>ring_ok ?q\<close> by (simp add: ring_inv_def)
      moreover have "fc_ring_pop ?q = (r, q')" using 1(3) step True dead by simp
      ultimately have "ring_inv q' \<and> ring_aside ?q q' \<and> q_cap q' = q_cap ?q \<and>
          (case r of None \<Rightarrow> ring_live ?q = [] \<and> ring_live q' = [] | Some e \<Rightarrow> ring_live ?q = e # ring_live q')"
        by (rule 1(1) [OF True refl refl dead])
      then show ?thesis unfolding l by (simp only: ring_aside_def) simp
    qed
  qed
qed

text \<open>A slot with a live entry is a place in the span.\<close>

lemma ring_live_slot:
  assumes "ring_ok q" "i < q_cap q" "e_live (q_ring q ! i)"
  shows "\<exists>j < q_used q. i = (q_head q + j) mod q_cap q"
proof -
  define j where "j = (i + (q_cap q - q_head q)) mod q_cap q"
  have h: "q_head q < q_cap q" using assms by (auto simp: ring_ok_def)
  have "(q_head q + j) mod q_cap q = (q_head q + (i + (q_cap q - q_head q))) mod q_cap q"
    by (simp add: j_def mod_add_right_eq)
  also have "q_head q + (i + (q_cap q - q_head q)) = i + q_cap q" using h by simp
  finally have i: "i = (q_head q + j) mod q_cap q" using assms(2) by simp
  have "j < q_cap q" using assms(2) by (simp add: j_def)
  then have "j < q_used q" using assms i by (metis ring_ok_def not_le)
  then show ?thesis using i by blast
qed

lemma ent_is_live [simp]: "ent_is fd gen e \<Longrightarrow> e_live e"
  by (simp add: ent_is_def)

text \<open>The lookup finds a live entry of the connection if and only if it waits.\<close>

lemma fc_ring_find_some:
  assumes ok: "ring_ok q" and f: "fc_ring_find q fd gen hint = Some i"
  obtains j where "j < q_used q" "i = (q_head q + j) mod q_cap q" "ent_is fd gen (q_ring q ! i)"
proof (cases "hint < q_cap q \<and> ent_is fd gen (q_ring q ! hint)")
  case True
  then have "i = hint" using f by (auto simp: fc_ring_find_def split: if_splits)
  moreover obtain j where "j < q_used q" "hint = (q_head q + j) mod q_cap q"
    using ring_live_slot [OF ok, of hint] True by auto
  ultimately show thesis using that True by metis
next
  case False
  then have "find (\<lambda>i. ent_is fd gen (q_ring q ! i)) (fc_ring_span q) = Some i"
    using f by (auto simp: fc_ring_find_def split: if_splits)
  then have "i \<in> set (fc_ring_span q)" "ent_is fd gen (q_ring q ! i)"
    by (auto simp: find_Some_iff)
  with that show thesis using fc_ring_span_eq [OF ok] by auto
qed

lemma fc_ring_find_none:
  assumes ok: "ring_ok q"
  shows "fc_ring_find q fd gen hint = None \<longleftrightarrow> (\<forall>e \<in> set (ring_live q). \<not> ent_is fd gen e)"
proof -
  have set: "set (ring_seq q) = (\<lambda>i. q_ring q ! i) ` set (fc_ring_span q)"
    using map_span [OF ok] by (metis list.set_map)
  have span: "(\<forall>e \<in> set (ring_live q). \<not> ent_is fd gen e) \<longleftrightarrow>
      find (\<lambda>i. ent_is fd gen (q_ring q ! i)) (fc_ring_span q) = None"
    by (auto simp: ring_live_def set find_None_iff)
  have hint: "\<exists>e \<in> set (ring_live q). ent_is fd gen e"
    if hi: "hint < q_cap q" "ent_is fd gen (q_ring q ! hint)"
  proof -
    obtain j where "j < q_used q" "hint = (q_head q + j) mod q_cap q"
      using ring_live_slot [OF ok hi(1)] hi(2) by auto
    then have "q_ring q ! hint \<in> set (ring_seq q)"
      by (metis length_ring_seq nth_mem nth_seg ring_seq_def)
    then show ?thesis using hi by (auto simp: ring_live_def)
  qed
  have "fc_ring_span q = []" if "q_cap q = 0"
    using that ok fc_ring_span_eq [OF ok] by (simp add: ring_ok_def)
  then show ?thesis using span hint by (auto simp: fc_ring_find_def)
qed

section \<open>The order of the waiters\<close>

definition arrival_order :: "fc_queue_ent list \<Rightarrow> bool" where
  "arrival_order es \<longleftrightarrow> sorted_wrt (\<lambda>x y. e_enqueue_ns x \<le> e_enqueue_ns y) es"

lemma arrival_order_Nil [simp]: "arrival_order []"
  by (simp add: arrival_order_def)

lemma arrival_order_append:
  "arrival_order (xs @ ys) \<longleftrightarrow> arrival_order xs \<and> arrival_order ys \<and>
     (\<forall>x \<in> set xs. \<forall>y \<in> set ys. e_enqueue_ns x \<le> e_enqueue_ns y)"
  by (simp add: arrival_order_def sorted_wrt_append)

lemma arrival_order_Cons:
  "arrival_order (x # ys) \<longleftrightarrow> arrival_order ys \<and> (\<forall>y \<in> set ys. e_enqueue_ns x \<le> e_enqueue_ns y)"
  by (auto simp: arrival_order_def)

lemma arrival_order_front:
  assumes "arrival_order es" "\<forall>x \<in> set es. e_live x"
  shows "arrival_order (takeWhile (front_pass e) es @ e # dropWhile (front_pass e) es)"
  using assms by (induction es) (auto simp: arrival_order_Cons front_pass_def
      dest: set_takeWhileD set_dropWhileD)

lemma arrival_order_back:
  assumes "arrival_order es" "\<forall>x \<in> set es. e_live x"
  shows "arrival_order (before_of e es @ e # after_of e es)"
  using assms
proof (induction es rule: rev_induct)
  case Nil
  show ?case by (simp add: before_of_def after_of_def arrival_order_def)
next
  case (snoc x xs)
  have IH: "arrival_order (before_of e xs @ e # after_of e xs)"
    and le: "\<forall>y \<in> set xs. e_enqueue_ns y \<le> e_enqueue_ns x"
    using snoc by (simp_all add: arrival_order_append)
  have xs: "set xs = set (before_of e xs) \<union> set (after_of e xs)"
    using before_after [of e xs] by (metis set_append)
  show ?case
  proof (cases "back_pass e x")
    case True
    then have "e_enqueue_ns e \<le> e_enqueue_ns x" using snoc(3) by (auto simp: back_pass_def)
    with True IH le xs show ?thesis
      by (auto simp: before_after_snoc arrival_order_append arrival_order_Cons)
  next
    case False
    then have "e_enqueue_ns x \<le> e_enqueue_ns e" by (simp add: back_pass_def)
    with False snoc(2) le show ?thesis
      by (auto simp: before_after_snoc arrival_order_append arrival_order_Cons)
  qed
qed

text \<open>
  A request that goes back or that waited elsewhere first is put at its place by its arrival; a new
  arrival is the latest. Either way the waiters stay in the order of their arrival.
\<close>

lemma arrival_order_insert:
  assumes "arrival_order es" "\<forall>x \<in> set es. e_live x"
    and "front \<or> ordered \<or> (\<forall>x \<in> set es. e_enqueue_ns x \<le> e_enqueue_ns e)"
  shows "arrival_order (queue_insert front ordered e es)"
  using assms arrival_order_front [OF assms(1,2), of e] arrival_order_back [OF assms(1,2), of e]
  by (auto simp: queue_insert_def arrival_order_append arrival_order_Cons)

lemma arrival_order_remove: "arrival_order (pre @ e # post) \<Longrightarrow> arrival_order (pre @ post)"
  by (auto simp: arrival_order_append arrival_order_Cons)

section \<open>The queue as an interface\<close>

text \<open>
  What a client of a queue relies on: a pop yields the first waiter and leaves the others, and
  yields nothing exactly when nobody waits. The drains of the module are proved from these laws.
\<close>

locale popping_queue =
  fixes inv :: "'s \<Rightarrow> bool" and waiting :: "'s \<Rightarrow> fc_queue_ent list"
    and pop :: "'s \<Rightarrow> fc_queue_ent option \<times> 's"
  assumes pop_some: "inv s \<Longrightarrow> pop s = (Some e, s') \<Longrightarrow> inv s' \<and> waiting s = e # waiting s'"
    and pop_none: "inv s \<Longrightarrow> pop s = (None, s') \<Longrightarrow> inv s' \<and> waiting s = [] \<and> waiting s' = []"

text \<open>The loop \<open>while (pop (q, &e)) \<dots>\<close> with at most \<open>n\<close> rounds: what it popped and the queue left.\<close>

fun pops :: "('s \<Rightarrow> fc_queue_ent option \<times> 's) \<Rightarrow> nat \<Rightarrow> 's \<Rightarrow> fc_queue_ent list \<times> 's" where
  "pops pop 0 s = ([], s)"
| "pops pop (Suc n) s =
     (case pop s of (None, s') \<Rightarrow> ([], s')
      | (Some e, s') \<Rightarrow> let (es, s'') = pops pop n s' in (e # es, s''))"

context popping_queue
begin

lemma pop_empty_iff: "inv s \<Longrightarrow> fst (pop s) = None \<longleftrightarrow> waiting s = []"
  using pop_some [of s _ "snd (pop s)"] pop_none [of s "snd (pop s)"]
  by (cases "pop s"; cases "fst (pop s)") auto

lemma pops_take:
  "inv s \<Longrightarrow> pops pop n s = (es, s') \<Longrightarrow>
     inv s' \<and> es = take n (waiting s) \<and> waiting s' = drop n (waiting s)"
proof (induction n arbitrary: s es s')
  case (Suc n)
  obtain r s1 where p: "pop s = (r, s1)" by fastforce
  show ?case
  proof (cases r)
    case None
    with Suc p pop_none [of s s1] show ?thesis by auto
  next
    case (Some e)
    obtain es1 where "pops pop n s1 = (es1, s')" "es = e # es1"
      using Suc(3) p Some by (auto split: prod.splits)
    with Suc(1) [of s1 es1 s'] pop_some [OF Suc(2), of e s1] p Some show ?thesis by simp
  qed
qed simp

lemma pops_all:
  assumes "inv s" "length (waiting s) \<le> n" "pops pop n s = (es, s')"
  shows "es = waiting s \<and> waiting s' = []"
  using pops_take [OF assms(1,3)] assms(2) by simp

end

interpretation ringq: popping_queue ring_inv ring_live fc_ring_pop
  by unfold_locales (auto dest: fc_ring_pop_live)

end
