(* ===== verification/FC_Tenants.thy ===== *)
theory FC_Tenants
  imports FC_Types
begin

text \<open>
  The tenant table of a pool (\<open>common/sockproxy_fc.c\<close>, section "tenant share"): a fixed array of
  slots with a free list, one shared slot past the table, a lookup index by open addressing with
  tombstones, and the count of tenants that wait and could run. The index is shown to be a map
  from the keys of the slots in use to their slot numbers, and every operation to keep the table
  invariant \<open>tt_inv\<close>.
\<close>

section \<open>Operations\<close>

text \<open>The tenant array, empty where the pointer is \<open>NULL\<close>.\<close>

definition tts :: "fc_ttab \<Rightarrow> fc_tenant list" where
  "tts tt = (case tt_tenants tt of None \<Rightarrow> [] | Some ts \<Rightarrow> ts)"

definition tt_set :: "fc_ttab \<Rightarrow> nat \<Rightarrow> fc_tenant \<Rightarrow> fc_ttab" where
  "tt_set tt i t = tt\<lparr>tt_tenants := Some ((tts tt)[i := t])\<rparr>"

text \<open>FNV-1a over the bytes of the tenant id; \<open>None\<close> is the null pointer.\<close>

definition fnv_step :: "char \<Rightarrow> u64 \<Rightarrow> u64" where
  "fnv_step c h = (h XOR of_nat (of_char c)) * 0x100000001b3"

definition fc_tenant_key :: "string option \<Rightarrow> u64" where
  "fc_tenant_key tenant_id =
     (case tenant_id of None \<Rightarrow> 0xcbf29ce484222325 | Some s \<Rightarrow> fold fnv_step s 0xcbf29ce484222325)"

definition fc_tenant_slots_clamp :: "u32 \<Rightarrow> u32" where
  "fc_tenant_slots_clamp n = (if n < 64 then 64 else if n > 4096 then 4096 else n)"

definition fc_tenant_zero :: fc_tenant where
  "fc_tenant_zero = \<lparr>t_key = 0, t_inflight = 0, t_queued = 0, t_used = False,
                     t_waiting_runnable = False, t_next_free = 0\<rparr>"

text \<open>Index buckets: empty, a tombstone, or a slot number plus one.\<close>

abbreviation (input) FC_TIDX_EMPTY :: nat where "FC_TIDX_EMPTY \<equiv> 0"
abbreviation (input) FC_TIDX_TOMB :: nat where "FC_TIDX_TOMB \<equiv> 65535"

definition fc_tidx_buckets :: "fc_ttab \<Rightarrow> nat" where
  "fc_tidx_buckets tt = 2 * tt_slots tt"

definition fc_tidx_next :: "nat \<Rightarrow> nat \<Rightarrow> nat" where
  "fc_tidx_next nb b = (if b + 1 = nb then 0 else b + 1)"

definition fc_tidx_prev :: "nat \<Rightarrow> nat \<Rightarrow> nat" where
  "fc_tidx_prev nb b = (if b = 0 then nb - 1 else b - 1)"

definition fc_tidx_home :: "nat \<Rightarrow> u64 \<Rightarrow> nat" where
  "fc_tidx_home nb key =
     (let key = key XOR (drop_bit 33 key);
          key = key * 0xff51afd7ed558ccd;
          key = key XOR (drop_bit 33 key)
      in unat key mod nb)"

text \<open>The table and its index, made on the first share. \<open>ok n\<close>: an allocation of \<open>n\<close> elements succeeds.\<close>

definition fc_tenant_table_ensure :: "(nat \<Rightarrow> bool) \<Rightarrow> bool \<Rightarrow> fc_ttab \<Rightarrow> int \<times> fc_ttab" where
  "fc_tenant_table_ensure ok dead tt =
     (if tt_tenants tt \<noteq> None then (0, tt)
      else if dead then (-1, tt)
      else let tt = (if tt_slots tt = 0 then tt\<lparr>tt_slots := FC_TENANT_SLOTS\<rparr> else tt);
               n = tt_slots tt
           in if \<not> ok (n + 1) \<or> \<not> ok (2 * n) then (-1, tt)
              else (0, tt\<lparr>tt_tenants := Some (map (\<lambda>i. fc_tenant_zero\<lparr>t_next_free := i + 1\<rparr>) [0..<n]
                                               @ [fc_tenant_zero]),
                          tt_index := replicate (2 * n) FC_TIDX_EMPTY,
                          tt_free := 0, tt_used := 0, tt_tombs := 0,
                          tt_runnable_waiting := 0, tt_bound := 0\<rparr>))"

text \<open>
  The probe loop of \<open>fc_tidx_find\<close>: rounds left, bucket, first bucket free for a new slot (\<open>nb\<close>
  while none was seen). The result is the bucket of the key or \<open>nb\<close>, and the free bucket.
\<close>

fun fc_tidx_probe :: "nat \<Rightarrow> (nat \<Rightarrow> u64) \<Rightarrow> nat list \<Rightarrow> u64 \<Rightarrow> nat \<Rightarrow> nat \<Rightarrow> nat \<Rightarrow> nat \<times> nat" where
  "fc_tidx_probe nb keys idx key 0 b free_bkt = (nb, free_bkt)"
| "fc_tidx_probe nb keys idx key (Suc k) b free_bkt =
     (let v = idx ! b
      in if v = FC_TIDX_EMPTY then (nb, if free_bkt = nb then b else free_bkt)
         else if v = FC_TIDX_TOMB
              then fc_tidx_probe nb keys idx key k (fc_tidx_next nb b) (if free_bkt = nb then b else free_bkt)
         else if keys (v - 1) = key then (b, free_bkt)
         else fc_tidx_probe nb keys idx key k (fc_tidx_next nb b) free_bkt)"

definition tt_keys :: "fc_ttab \<Rightarrow> nat \<Rightarrow> u64" where
  "tt_keys tt i = t_key (tts tt ! i)"

definition fc_tidx_find :: "fc_ttab \<Rightarrow> u64 \<Rightarrow> nat \<times> nat" where
  "fc_tidx_find tt key =
     (let nb = fc_tidx_buckets tt
      in fc_tidx_probe nb (tt_keys tt) (tt_index tt) key nb (fc_tidx_home nb key) nb)"

text \<open>
  The loop \<open>while (index[b] != EMPTY) b = next (b)\<close>, for at most \<open>k\<close> rounds; \<open>fc_tidx_seek_empty\<close>
  shows that it stops at an empty bucket when the rounds are the buckets and one of them is empty.
\<close>

fun fc_tidx_seek :: "nat \<Rightarrow> nat list \<Rightarrow> nat \<Rightarrow> nat \<Rightarrow> nat" where
  "fc_tidx_seek nb idx 0 b = b"
| "fc_tidx_seek nb idx (Suc k) b =
     (if idx ! b \<noteq> FC_TIDX_EMPTY then fc_tidx_seek nb idx k (fc_tidx_next nb b) else b)"

definition fc_tidx_lay :: "nat \<Rightarrow> (nat \<Rightarrow> u64) \<Rightarrow> nat \<Rightarrow> nat list \<Rightarrow> nat list" where
  "fc_tidx_lay nb keys i idx = idx[fc_tidx_seek nb idx nb (fc_tidx_home nb (keys i)) := i + 1]"

definition fc_tidx_relay :: "fc_ttab \<Rightarrow> fc_ttab" where
  "fc_tidx_relay tt =
     (let nb = fc_tidx_buckets tt
      in tt\<lparr>tt_index := fold (\<lambda>i idx. if t_used (tts tt ! i) then fc_tidx_lay nb (tt_keys tt) i idx else idx)
                          [0..<tt_slots tt] (replicate nb FC_TIDX_EMPTY),
            tt_tombs := 0\<rparr>)"

text \<open>
  The loop that empties the tombstones right before a bucket: index, tombstones left. At most \<open>k\<close>
  rounds; it stops at the first bucket that is no tombstone (\<open>fc_tidx_unwind_ok\<close>).
\<close>

fun fc_tidx_unwind :: "nat \<Rightarrow> nat \<Rightarrow> nat list \<Rightarrow> nat \<Rightarrow> nat \<Rightarrow> nat list \<times> nat" where
  "fc_tidx_unwind nb 0 idx b tombs = (idx, tombs)"
| "fc_tidx_unwind nb (Suc k) idx b tombs =
     (let b = fc_tidx_prev nb b
      in if idx ! b \<noteq> FC_TIDX_TOMB then (idx, tombs)
         else fc_tidx_unwind nb k (idx[b := FC_TIDX_EMPTY]) b (tombs - 1))"

definition fc_tidx_drop :: "fc_ttab \<Rightarrow> u64 \<Rightarrow> fc_ttab" where
  "fc_tidx_drop tt key =
     (let nb = fc_tidx_buckets tt; b = fst (fc_tidx_find tt key)
      in if b = nb then tt
         else if tt_index tt ! fc_tidx_next nb b = FC_TIDX_EMPTY
              then let (idx, tombs) = fc_tidx_unwind nb nb ((tt_index tt)[b := FC_TIDX_EMPTY]) b (tt_tombs tt)
                   in tt\<lparr>tt_index := idx, tt_tombs := tombs\<rparr>
         else let tt = tt\<lparr>tt_index := (tt_index tt)[b := FC_TIDX_TOMB], tt_tombs := tt_tombs tt + 1\<rparr>
              in if tt_tombs tt > nb div 4 then fc_tidx_relay tt else tt)"

text \<open>
  The slot of a tenant, taken when it has none; -1 when the pool has no table. Anomalies counted
  on the way are returned as a list.
\<close>

definition fc_tenant_get ::
  "(nat \<Rightarrow> bool) \<Rightarrow> bool \<Rightarrow> fc_ttab \<Rightarrow> u64 \<Rightarrow> bool \<Rightarrow> int \<times> fc_ttab \<times> fc_anomaly list" where
  "fc_tenant_get ok dead tt key cnt =
     (let (rc, tt) = fc_tenant_table_ensure ok dead tt
      in if rc \<noteq> 0 then (-1, tt, [])
         else let nb = fc_tidx_buckets tt; (b, free_bkt) = fc_tidx_find tt key
              in if b \<noteq> nb then (int (tt_index tt ! b) - 1, tt, [])
                 else let slot = tt_free tt
                      in if slot \<ge> tt_slots tt
                         then let slot = tt_slots tt; an = (if cnt then [FC_A_TENANT_TABLE_FULL] else []);
                                  t = tts tt ! slot
                              in if \<not> t_used t
                                 then (int slot,
                                       (tt_set tt slot (t\<lparr>t_used := True, t_key := key, t_inflight := 0,
                                                          t_queued := 0, t_waiting_runnable := False\<rparr>))
                                         \<lparr>tt_used := tt_used tt + 1\<rparr>, an)
                                 else (int slot, tt, an)
                         else let t = tts tt ! slot;
                                  tt' = (tt_set tt slot (t\<lparr>t_used := True, t_key := key, t_inflight := 0,
                                                          t_queued := 0, t_waiting_runnable := False\<rparr>))
                                         \<lparr>tt_free := t_next_free t, tt_used := tt_used tt + 1\<rparr>;
                                  tt' = (if tt_index tt' ! free_bkt = FC_TIDX_TOMB
                                         then tt'\<lparr>tt_tombs := tt_tombs tt' - 1\<rparr> else tt')
                              in (int slot, tt'\<lparr>tt_index := (tt_index tt')[free_bkt := slot + 1]\<rparr>, []))"

definition fc_tenant_put :: "fc_ttab \<Rightarrow> int \<Rightarrow> fc_ttab" where
  "fc_tenant_put tt slot =
     (if tt_tenants tt = None \<or> slot < 0 \<or> nat slot > tt_slots tt then tt
      else let i = nat slot; t = tts tt ! i
           in if \<not> t_used t \<or> t_inflight t \<noteq> 0 \<or> t_queued t \<noteq> 0 then tt
              else let tt = (tt_set tt i (t\<lparr>t_used := False\<rparr>))\<lparr>tt_used := tt_used tt - 1\<rparr>
                   in if i = tt_slots tt then tt
                      else let tt = fc_tidx_drop tt (t_key t);
                               tt = (tt_set tt i ((tts tt ! i)\<lparr>t_next_free := tt_free tt\<rparr>))\<lparr>tt_free := i\<rparr>
                           in if tt_tombs tt \<noteq> 0 \<and>
                                 tt_used tt = (if t_used (tts tt ! tt_slots tt) then 1 else 0)
                              then fc_tidx_relay tt else tt)"

definition tenant_runnable :: "u32 \<Rightarrow> fc_tenant \<Rightarrow> bool" where
  "tenant_runnable bound t \<longleftrightarrow> t_used t \<and> t_queued t > 0 \<and> (bound = 0 \<or> t_inflight t < bound)"

definition fc_tenant_mark :: "fc_ttab \<Rightarrow> nat \<Rightarrow> fc_ttab" where
  "fc_tenant_mark tt i =
     (let t = tts tt ! i; runnable = tenant_runnable (tt_bound tt) t
      in if runnable = t_waiting_runnable t then tt
         else (tt_set tt i (t\<lparr>t_waiting_runnable := runnable\<rparr>))
                \<lparr>tt_runnable_waiting := (if runnable then tt_runnable_waiting tt + 1
                                         else tt_runnable_waiting tt - 1)\<rparr>)"

text \<open>One count of the slot down (\<open>queued\<close> or executing), never below zero.\<close>

definition fc_tenant_dec :: "fc_ttab \<Rightarrow> int \<Rightarrow> bool \<Rightarrow> fc_ttab \<times> fc_anomaly list" where
  "fc_tenant_dec tt slot queued =
     (if tt_tenants tt = None \<or> slot < 0 \<or> nat slot > tt_slots tt \<or> \<not> t_used (tts tt ! nat slot)
      then (tt, [])
      else let i = nat slot; t = tts tt ! i;
               ctr = (if queued then t_queued t else t_inflight t);
               an = (if ctr = 0 then [FC_A_UNDERFLOW] else []);
               tt = (if ctr = 0 then tt
                     else tt_set tt i (if queued then t\<lparr>t_queued := ctr - 1\<rparr> else t\<lparr>t_inflight := ctr - 1\<rparr>))
           in (fc_tenant_put (fc_tenant_mark tt i) slot, an))"

text \<open>One count of the slot up: the two places that count a request on its tenant.\<close>

definition fc_tenant_inc :: "fc_ttab \<Rightarrow> nat \<Rightarrow> bool \<Rightarrow> fc_ttab" where
  "fc_tenant_inc tt i queued =
     (let t = tts tt ! i
      in fc_tenant_mark (tt_set tt i (if queued then t\<lparr>t_queued := t_queued t + 1\<rparr>
                                      else t\<lparr>t_inflight := t_inflight t + 1\<rparr>)) i)"

definition fc_tenant_can_run :: "fc_ttab \<Rightarrow> int \<Rightarrow> u32 \<Rightarrow> bool" where
  "fc_tenant_can_run tt slot bound \<longleftrightarrow>
     slot < 0 \<or> bound = 0 \<or> tt_tenants tt = None \<or> t_inflight (tts tt ! nat slot) < bound"

text \<open>Whether anybody waiting could take a unit now; the count is taken again when the bound moved.\<close>

definition fc_tenant_recount :: "fc_ttab \<Rightarrow> nat \<Rightarrow> fc_ttab" where
  "fc_tenant_recount tt i =
     fc_tenant_mark (tt_set tt i ((tts tt ! i)\<lparr>t_waiting_runnable := False\<rparr>)) i"

definition fc_tenant_waiter_can_run :: "fc_ttab \<Rightarrow> u32 \<Rightarrow> bool \<times> fc_ttab" where
  "fc_tenant_waiter_can_run tt bound =
     (if tt_tenants tt = None then (False, tt)
      else let tt = (if bound \<noteq> tt_bound tt
                     then fold (\<lambda>i tt. fc_tenant_recount tt i) [0..<tt_slots tt + 1]
                            (tt\<lparr>tt_bound := bound, tt_runnable_waiting := 0\<rparr>)
                     else tt)
           in (tt_runnable_waiting tt > 0, tt))"

section \<open>The index\<close>

text \<open>Bucket positions along a probe run.\<close>

definition pos :: "nat \<Rightarrow> nat \<Rightarrow> nat \<Rightarrow> nat" where
  "pos nb h k = (h + k) mod nb"

lemma pos_less [simp]: "0 < nb \<Longrightarrow> pos nb h k < nb"
  by (simp add: pos_def)

lemma pos_0 [simp]: "h < nb \<Longrightarrow> pos nb h 0 = h"
  by (simp add: pos_def)

lemma next_pos: "0 < nb \<Longrightarrow> fc_tidx_next nb (pos nb h k) = pos nb h (Suc k)"
  by (simp add: pos_def fc_tidx_next_def mod_Suc)

lemma fc_tidx_home_less [simp]: "0 < nb \<Longrightarrow> fc_tidx_home nb key < nb"
  by (simp add: fc_tidx_home_def Let_def)

lemma next_less: "b < nb \<Longrightarrow> fc_tidx_next nb b < nb"
  by (auto simp: fc_tidx_next_def)

lemma prev_less: "b < nb \<Longrightarrow> fc_tidx_prev nb b < nb"
  by (auto simp: fc_tidx_prev_def)

lemma next_prev: "b < nb \<Longrightarrow> fc_tidx_next nb (fc_tidx_prev nb b) = b"
  by (auto simp: fc_tidx_next_def fc_tidx_prev_def)

text \<open>Every bucket lies on every probe run.\<close>

lemma pos_onto:
  assumes "b < nb" "h < nb" shows "\<exists>k < nb. b = pos nb h k"
proof -
  have "pos nb h ((b + (nb - h)) mod nb) = (h + (b + (nb - h))) mod nb"
    by (simp add: pos_def mod_add_right_eq)
  also have "h + (b + (nb - h)) = b + nb" using assms by simp
  finally have "b = pos nb h ((b + (nb - h)) mod nb)" using assms by simp
  then show ?thesis using assms by (intro exI [of _ "(b + (nb - h)) mod nb"]) simp
qed

text \<open>
  A value is reached on the run from \<open>h\<close> when no empty bucket stands before it. The index holds
  exactly the slots \<open>S\<close>, each once, each reached from the home of its key.
\<close>

definition reached :: "nat \<Rightarrow> nat list \<Rightarrow> nat \<Rightarrow> nat \<Rightarrow> bool" where
  "reached nb idx h v \<longleftrightarrow> (\<exists>k < nb. idx ! pos nb h k = v \<and> (\<forall>j < k. idx ! pos nb h j \<noteq> 0))"

definition idx_ok :: "nat \<Rightarrow> (nat \<Rightarrow> u64) \<Rightarrow> nat set \<Rightarrow> nat list \<Rightarrow> bool" where
  "idx_ok nb keys S idx \<longleftrightarrow> 0 < nb \<and> length idx = nb \<and> (\<forall>i \<in> S. i < 65534) \<and> inj_on keys S \<and>
     (\<forall>b < nb. idx ! b \<noteq> 0 \<and> idx ! b \<noteq> 65535 \<longrightarrow> (\<exists>i \<in> S. idx ! b = Suc i)) \<and>
     (\<forall>b < nb. \<forall>b' < nb. idx ! b \<noteq> 0 \<and> idx ! b \<noteq> 65535 \<and> idx ! b = idx ! b' \<longrightarrow> b = b') \<and>
     (\<forall>i \<in> S. reached nb idx (fc_tidx_home nb (keys i)) (Suc i))"

lemma idx_okD:
  assumes "idx_ok nb keys S idx"
  shows "0 < nb" "length idx = nb" "\<And>i. i \<in> S \<Longrightarrow> i < 65534" "inj_on keys S"
    "\<And>b. b < nb \<Longrightarrow> idx ! b \<noteq> 0 \<Longrightarrow> idx ! b \<noteq> 65535 \<Longrightarrow> \<exists>i \<in> S. idx ! b = Suc i"
    "\<And>b b'. b < nb \<Longrightarrow> b' < nb \<Longrightarrow> idx ! b \<noteq> 0 \<Longrightarrow> idx ! b \<noteq> 65535 \<Longrightarrow> idx ! b = idx ! b' \<Longrightarrow> b = b'"
    "\<And>i. i \<in> S \<Longrightarrow> reached nb idx (fc_tidx_home nb (keys i)) (Suc i)"
  using assms unfolding idx_ok_def by blast+

lemma idx_ok_cong:
  assumes "\<And>i. i \<in> S \<Longrightarrow> keys i = keys' i" shows "idx_ok nb keys S idx = idx_ok nb keys' S idx"
  using assms by (simp add: idx_ok_def cong: inj_on_cong)

text \<open>The probe loop from the \<open>m\<close>-th bucket of the run on, with the key in the index.\<close>

lemma fc_tidx_probe_found:
  assumes ok: "idx_ok nb keys S idx" and i: "i \<in> S" "keys i = key" and k: "k < nb"
    and at: "idx ! pos nb h k = Suc i" and path: "\<forall>j < k. idx ! pos nb h j \<noteq> 0"
  shows "m + d = k \<Longrightarrow> m + fuel = nb \<Longrightarrow>
     fst (fc_tidx_probe nb keys idx key fuel (pos nb h m) f) = pos nb h k"
proof (induction d arbitrary: m fuel f)
  case 0
  then obtain fuel' where "fuel = Suc fuel'" using k by (cases fuel) auto
  moreover have "Suc i \<noteq> 65535" using idx_okD(3) [OF ok i(1)] by simp
  ultimately show ?case using 0 at i by (simp add: Let_def)
next
  case (Suc d)
  note nb = idx_okD(1) [OF ok]
  obtain fuel' where fuel: "fuel = Suc fuel'" using Suc(2,3) k by (cases fuel) auto
  have IH: "fst (fc_tidx_probe nb keys idx key fuel' (pos nb h (Suc m)) f') = pos nb h k" for f'
    using Suc(1) [of "Suc m" fuel' f'] Suc(2,3) fuel by simp
  have ne: "idx ! pos nb h m \<noteq> 0" using path Suc(2) by simp
  show ?case
  proof (cases "idx ! pos nb h m = 65535")
    case True
    then show ?thesis using IH by (simp add: fuel next_pos [OF nb])
  next
    case False
    obtain i' where i': "i' \<in> S" "idx ! pos nb h m = Suc i'"
      using idx_okD(5) [OF ok _ ne False] nb by auto
    show ?thesis
    proof (cases "keys i' = key")
      case True
      then have "i' = i" using idx_okD(4) [OF ok] i i' by (auto dest: inj_onD)
      then have "pos nb h m = pos nb h k"
        using idx_okD(6) [OF ok _ _ ne False] i' at nb by simp
      then show ?thesis using True i' ne False by (simp add: fuel Let_def)
    next
      case False
      then show ?thesis using IH ne i' \<open>idx ! pos nb h m \<noteq> 65535\<close> by (simp add: fuel next_pos [OF nb] Let_def)
    qed
  qed
qed

text \<open>A bucket a new slot may take: not holding a slot, and reached from the home of the key.\<close>

definition takeable :: "nat \<Rightarrow> nat list \<Rightarrow> nat \<Rightarrow> nat \<Rightarrow> bool" where
  "takeable nb idx h b \<longleftrightarrow> (\<exists>k < nb. b = pos nb h k \<and> (idx ! b = 0 \<or> idx ! b = 65535) \<and>
     (\<forall>j < k. idx ! pos nb h j \<noteq> 0))"

lemma fc_tidx_probe_absent:
  assumes ok: "idx_ok nb keys S idx" and i: "\<forall>i \<in> S. keys i \<noteq> key" and k: "k < nb"
    and at: "idx ! pos nb h k = 0" and path: "\<forall>j < k. idx ! pos nb h j \<noteq> 0"
  shows "m + d = k \<Longrightarrow> m + fuel = nb \<Longrightarrow> f = nb \<or> takeable nb idx h f \<Longrightarrow>
     \<exists>f'. fc_tidx_probe nb keys idx key fuel (pos nb h m) f = (nb, f') \<and> takeable nb idx h f'"
proof (induction d arbitrary: m fuel f)
  case 0
  then obtain fuel' where "fuel = Suc fuel'" using k by (cases fuel) auto
  moreover have "takeable nb idx h (pos nb h k)" using k at path by (auto simp: takeable_def)
  ultimately show ?case using 0 at by auto
next
  case (Suc d)
  note nb = idx_okD(1) [OF ok]
  obtain fuel' where fuel: "fuel = Suc fuel'" using Suc(2,3) k by (cases fuel) auto
  have IH: "f' = nb \<or> takeable nb idx h f' \<Longrightarrow>
      \<exists>f''. fc_tidx_probe nb keys idx key fuel' (pos nb h (Suc m)) f' = (nb, f'') \<and> takeable nb idx h f''" for f'
    using Suc(1) [of "Suc m" fuel' f'] Suc(2,3) fuel by simp
  have ne: "idx ! pos nb h m \<noteq> 0" using path Suc(2) by simp
  show ?case
  proof (cases "idx ! pos nb h m = 65535")
    case True
    have "takeable nb idx h (pos nb h m)"
      unfolding takeable_def using True path Suc(2) k by (intro exI [of _ m]) simp
    then show ?thesis using IH [of "if f = nb then pos nb h m else f"] Suc(4) True
      by (auto simp: fuel next_pos [OF nb])
  next
    case False
    obtain i' where "i' \<in> S" "idx ! pos nb h m = Suc i'"
      using idx_okD(5) [OF ok _ ne False] nb by auto
    then show ?thesis using IH [of f] Suc(4) i ne False by (auto simp: fuel next_pos [OF nb] Let_def)
  qed
qed

text \<open>The first empty bucket of a run.\<close>

lemma first_empty:
  assumes "b < nb" "idx ! b = 0" "h < nb"
  obtains k where "k < nb" "idx ! pos nb h k = 0" "\<forall>j < k. idx ! pos nb h j \<noteq> 0"
proof -
  obtain k0 where "k0 < nb \<and> idx ! pos nb h k0 = 0" using pos_onto [OF assms(1,3)] assms(2) by auto
  then show thesis
    using that exists_least_iff [of "\<lambda>k. k < nb \<and> idx ! pos nb h k = 0"] by (metis order_less_trans)
qed

text \<open>Changes of the index: a slot put in, a slot's bucket left as a tombstone, a bucket emptied.\<close>

lemma reached_update:
  assumes "reached nb idx h v" "b < length idx" "0 < nb" "idx ! b \<noteq> v" "x \<noteq> 0"
  shows "reached nb (idx[b := x]) h v"
proof -
  from assms(1) obtain k where k: "k < nb" "idx ! pos nb h k = v" "\<forall>j < k. idx ! pos nb h j \<noteq> 0"
    by (auto simp: reached_def)
  then have "pos nb h k \<noteq> b" using assms(4) by auto
  then show ?thesis using k assms by (auto simp: reached_def nth_list_update intro!: exI [of _ k])
qed

lemma idx_ok_insert:
  assumes ok: "idx_ok nb keys S idx" and i: "i \<notin> S" "i < 65534" "keys i \<notin> keys ` S"
    and b: "takeable nb idx (fc_tidx_home nb (keys i)) b"
  shows "idx_ok nb keys (insert i S) (idx[b := Suc i])"
proof -
  note D = idx_okD [OF ok]
  let ?h = "fc_tidx_home nb (keys i)"
  obtain k where k: "k < nb" "b = pos nb ?h k" "idx ! b = 0 \<or> idx ! b = 65535"
      "\<forall>j < k. idx ! pos nb ?h j \<noteq> 0"
    using b by (auto simp: takeable_def)
  have blt: "b < nb" using k D(1) by simp
  have old: "idx ! c \<noteq> Suc i" if "c < nb" for c
    using D(5) [OF that] i by auto
  have "reached nb (idx[b := Suc i]) ?h (Suc i)"
    unfolding reached_def using k blt D(2) by (intro exI [of _ k]) (auto simp: nth_list_update)
  moreover have "reached nb (idx[b := Suc i]) (fc_tidx_home nb (keys j)) (Suc j)" if "j \<in> S" for j
  proof (rule reached_update)
    show "reached nb idx (fc_tidx_home nb (keys j)) (Suc j)" by (rule D(7) [OF that])
    show "idx ! b \<noteq> Suc j" using k(3) D(3) [OF that] by auto
  qed (use blt D in auto)
  moreover have "inj_on keys (insert i S)" using D(4) i by simp
  moreover have "\<exists>j \<in> insert i S. idx[b := Suc i] ! c = Suc j"
    if "c < nb" "idx[b := Suc i] ! c \<noteq> 0" "idx[b := Suc i] ! c \<noteq> 65535" for c
    using D(5) [of c] that blt D(2) by (cases "c = b") auto
  moreover have "c = c'" if "c < nb" "c' < nb" "idx[b := Suc i] ! c \<noteq> 0" "idx[b := Suc i] ! c \<noteq> 65535"
      "idx[b := Suc i] ! c = idx[b := Suc i] ! c'" for c c'
    using D(6) [of c c'] that old [of c] old [of c'] blt D(2)
    by (cases "c = b"; cases "c' = b") auto
  ultimately show ?thesis using D(1,2,3) i unfolding idx_ok_def by auto
qed

lemma idx_ok_tomb:
  assumes ok: "idx_ok nb keys S idx" and b: "b < nb" "idx ! b = Suc i" "i \<in> S"
  shows "idx_ok nb keys (S - {i}) (idx[b := 65535])"
proof -
  note D = idx_okD [OF ok]
  have ne: "Suc i \<noteq> 65535" using D(3) [OF b(3)] by simp
  have "reached nb (idx[b := 65535]) (fc_tidx_home nb (keys j)) (Suc j)" if "j \<in> S - {i}" for j
    using that D b by (intro reached_update) auto
  moreover have "\<exists>j \<in> S - {i}. idx[b := 65535] ! c = Suc j"
    if "c < nb" "idx[b := 65535] ! c \<noteq> 0" "idx[b := 65535] ! c \<noteq> 65535" for c
    using D(5) [of c] D(6) [of c b] that b D(2) by (cases "c = b") auto
  moreover have "c = c'" if "c < nb" "c' < nb" "idx[b := 65535] ! c \<noteq> 0" "idx[b := 65535] ! c \<noteq> 65535"
      "idx[b := 65535] ! c = idx[b := 65535] ! c'" for c c'
    using D(6) [of c c'] that b D(2) by (cases "c = b"; cases "c' = b") auto
  ultimately show ?thesis using D(1-4) unfolding idx_ok_def by (auto intro: inj_on_diff)
qed

text \<open>Emptying a tombstone in front of an empty bucket cuts no run.\<close>

lemma idx_ok_clear:
  assumes ok: "idx_ok nb keys S idx" and b: "b < nb" "idx ! b = 65535" "idx ! fc_tidx_next nb b = 0"
  shows "idx_ok nb keys S (idx[b := 0])"
proof -
  note D = idx_okD [OF ok]
  have "reached nb (idx[b := 0]) (fc_tidx_home nb (keys j)) (Suc j)" if j: "j \<in> S" for j
  proof -
    let ?h = "fc_tidx_home nb (keys j)"
    obtain k where k: "k < nb" "idx ! pos nb ?h k = Suc j" "\<forall>l < k. idx ! pos nb ?h l \<noteq> 0"
      using D(7) [OF j] by (auto simp: reached_def)
    have "pos nb ?h l \<noteq> b" if "l < k" for l
    proof
      assume "pos nb ?h l = b"
      then have z: "idx ! pos nb ?h (Suc l) = 0" using b(3) next_pos [OF D(1), of ?h l] by simp
      show False using z k(2,3) that by (cases "Suc l = k") auto
    qed
    then have "\<forall>l < k. idx[b := 0] ! pos nb ?h l \<noteq> 0" using k(3) by (metis nth_list_update_neq)
    moreover have "pos nb ?h k \<noteq> b" using k(2) b(2) D(3) [OF j] by auto
    ultimately show ?thesis using k by (auto simp: reached_def intro!: exI [of _ k])
  qed
  moreover have "\<exists>j \<in> S. idx[b := 0] ! c = Suc j"
    if "c < nb" "idx[b := 0] ! c \<noteq> 0" "idx[b := 0] ! c \<noteq> 65535" for c
    using D(5) [of c] that b D(2) by (cases "c = b") auto
  moreover have "c = c'" if "c < nb" "c' < nb" "idx[b := 0] ! c \<noteq> 0" "idx[b := 0] ! c \<noteq> 65535"
      "idx[b := 0] ! c = idx[b := 0] ! c'" for c c'
    using D(6) [of c c'] that b D(2) by (cases "c = b"; cases "c' = b") auto
  ultimately show ?thesis using D(1-4) unfolding idx_ok_def by auto
qed

text \<open>The tombstones of an index.\<close>

definition tombs :: "nat list \<Rightarrow> nat" where
  "tombs idx = card {b. b < length idx \<and> idx ! b = 65535}"

lemma tombs_update:
  assumes "b < length idx"
  shows "tombs (idx[b := x]) + (if idx ! b = 65535 then 1 else 0) = tombs idx + (if x = 65535 then 1 else 0)"
proof -
  let ?T = "{c. c < length idx \<and> idx ! c = 65535 \<and> c \<noteq> b}"
  have "{c. c < length idx \<and> idx ! c = 65535} = (if idx ! b = 65535 then insert b ?T else ?T)"
    using assms by auto
  moreover have "{c. c < length (idx[b := x]) \<and> idx[b := x] ! c = 65535} = (if x = 65535 then insert b ?T else ?T)"
    using assms by (auto simp: nth_list_update)
  moreover have "finite ?T" "b \<notin> ?T" by auto
  ultimately show ?thesis by (simp add: tombs_def)
qed

lemma tombs_replicate [simp]: "tombs (replicate n 0) = 0"
  by (simp add: tombs_def)

text \<open>An index with fewer slots and tombstones than buckets has an empty bucket.\<close>

lemma idx_ok_empty:
  assumes ok: "idx_ok nb keys S idx" and fin: "finite S" and few: "card S + tombs idx < nb"
  shows "\<exists>b < nb. idx ! b = 0"
proof (rule ccontr)
  assume full: "\<not> ?thesis"
  note D = idx_okD [OF ok]
  let ?T = "{b. b < nb \<and> idx ! b = 65535}" and ?V = "{b. b < nb \<and> idx ! b \<noteq> 65535}"
  have "inj_on (\<lambda>b. idx ! b - 1) ?V"
  proof (rule inj_onI)
    fix b c assume bc: "b \<in> ?V" "c \<in> ?V" "idx ! b - 1 = idx ! c - 1"
    then have "idx ! b = idx ! c" using full by (metis (no_types, lifting) One_nat_def mem_Collect_eq Suc_pred neq0_conv)
    then show "b = c" using D(6) [of b c] bc full by auto
  qed
  moreover have "(\<lambda>b. idx ! b - 1) ` ?V \<subseteq> S" using D(5) full by fastforce
  ultimately have "card ?V \<le> card S" by (rule card_inj_on_le [OF _ _ fin])
  moreover have "{..<nb} = ?T \<union> ?V" by auto
  then have "card {..<nb} = card ?T + card ?V" by (simp only:) (rule card_Un_disjoint, auto)
  ultimately show False using few D(2) by (simp add: tombs_def)
qed

text \<open>The seek ends at the first empty bucket of the run.\<close>

lemma fc_tidx_seek_pos:
  assumes nb: "0 < nb" and k: "idx ! pos nb h k = 0" "\<forall>j < k. idx ! pos nb h j \<noteq> 0"
  shows "m + d = k \<Longrightarrow> d \<le> fuel \<Longrightarrow> fc_tidx_seek nb idx fuel (pos nb h m) = pos nb h k"
proof (induction d arbitrary: m fuel)
  case 0
  then show ?case using k(1) by (cases fuel) simp_all
next
  case (Suc d)
  then obtain fuel' where "fuel = Suc fuel'" by (cases fuel) auto
  then show ?case using Suc k(2) by (simp add: next_pos [OF nb])
qed

lemma fc_tidx_seek_empty:
  assumes "b < nb" "idx ! b = 0" "h < nb"
  shows "idx ! fc_tidx_seek nb idx nb h = 0 \<and> takeable nb idx h (fc_tidx_seek nb idx nb h)"
proof -
  obtain k where k: "k < nb" "idx ! pos nb h k = 0" "\<forall>j < k. idx ! pos nb h j \<noteq> 0"
    using first_empty [OF assms] .
  then have "fc_tidx_seek nb idx nb (pos nb h 0) = pos nb h k"
    using fc_tidx_seek_pos [of nb idx h k 0 k nb] assms by simp
  then show ?thesis using k assms by (auto simp: takeable_def)
qed

text \<open>Laying the index out again from the slots in use.\<close>

lemma fc_tidx_lay_ok:
  assumes ok: "idx_ok nb keys S idx" and S: "finite S" "card S < nb" "tombs idx = 0"
    and i: "i \<notin> S" "i < 65534" "keys i \<notin> keys ` S"
  shows "idx_ok nb keys (insert i S) (fc_tidx_lay nb keys i idx)" "tombs (fc_tidx_lay nb keys i idx) = 0"
proof -
  let ?h = "fc_tidx_home nb (keys i)"
  obtain b where "b < nb" "idx ! b = 0" using idx_ok_empty [OF ok S(1)] S by auto
  then have t: "takeable nb idx ?h (fc_tidx_seek nb idx nb ?h)"
    using fc_tidx_seek_empty [of b nb idx ?h] idx_okD(1) [OF ok] by simp
  show "idx_ok nb keys (insert i S) (fc_tidx_lay nb keys i idx)"
    unfolding fc_tidx_lay_def using idx_ok_insert [OF ok i t] by simp
  have "fc_tidx_seek nb idx nb ?h < length idx"
    using t idx_okD(1,2) [OF ok] by (auto simp: takeable_def)
  from tombs_update [OF this, of "Suc i"] show "tombs (fc_tidx_lay nb keys i idx) = 0"
    using S i by (simp add: fc_tidx_lay_def)
qed

lemma idx_ok_blank: "0 < nb \<Longrightarrow> idx_ok nb keys {} (replicate nb 0)"
  by (simp add: idx_ok_def)

lemma relay_fold_ok:
  assumes nb: "n < nb" "n \<le> 65534" and inj: "inj_on keys {i. i < n \<and> used i}"
  shows "m \<le> n \<Longrightarrow>
     let idx = fold (\<lambda>i idx. if used i then fc_tidx_lay nb keys i idx else idx) [0..<m] (replicate nb 0)
     in idx_ok nb keys {i. i < m \<and> used i} idx \<and> tombs idx = 0"
proof (induction m)
  case 0
  then show ?case using nb by (simp add: Let_def idx_ok_blank)
next
  case (Suc m)
  define idx where "idx = fold (\<lambda>i idx. if used i then fc_tidx_lay nb keys i idx else idx) [0..<m] (replicate nb 0)"
  let ?S = "{i. i < m \<and> used i}"
  have IH: "idx_ok nb keys ?S idx" "tombs idx = 0" using Suc by (simp_all add: idx_def Let_def)
  show ?case
  proof (cases "used m")
    case True
    have "card ?S \<le> card {..<m}" by (rule card_mono) auto
    then have "card ?S < nb" using Suc(2) nb by simp
    moreover have "keys m \<notin> keys ` ?S"
      using inj True Suc(2) by (auto dest: inj_onD [where x = m])
    ultimately have "idx_ok nb keys (insert m ?S) (fc_tidx_lay nb keys m idx)"
        "tombs (fc_tidx_lay nb keys m idx) = 0"
      using fc_tidx_lay_ok [OF IH(1), of m] IH(2) Suc(2) nb by simp_all
    moreover have "insert m ?S = {i. i < Suc m \<and> used i}" using True by auto
    ultimately show ?thesis using True by (simp add: Let_def idx_def)
  next
    case False
    then have "?S = {i. i < Suc m \<and> used i}" by (auto simp: less_Suc_eq)
    then show ?thesis using IH False by (simp add: Let_def idx_def)
  qed
qed

text \<open>
  Unwinding the tombstones before an empty bucket keeps the index, counts what it removes, and
  ends because the bucket it started from is no tombstone.
\<close>

lemma fc_tidx_unwind_ok:
  "idx_ok nb keys S idx \<Longrightarrow> b < nb \<Longrightarrow> idx ! b = 0 \<Longrightarrow> fc_tidx_unwind nb k idx b tb = (idx', tb') \<Longrightarrow>
     tb = tombs idx \<Longrightarrow>
     idx_ok nb keys S idx' \<and> tb' = tombs idx' \<and> tb' \<le> tb"
proof (induction k arbitrary: idx b tb)
  case (Suc k)
  let ?p = "fc_tidx_prev nb b"
  have p: "?p < nb" using Suc(3) by (rule prev_less)
  show ?case
  proof (cases "idx ! ?p = 65535")
    case True
    have "idx_ok nb keys S (idx[?p := 0])"
      using idx_ok_clear [OF Suc(2) p True] Suc(3,4) by (simp add: next_prev)
    moreover have l: "?p < length idx" using p idx_okD(2) [OF Suc(2)] by simp
    moreover have "tb - 1 = tombs (idx[?p := 0])" using tombs_update [OF l, of 0] True Suc(6) by simp
    moreover have "fc_tidx_unwind nb k (idx[?p := 0]) ?p (tb - 1) = (idx', tb')"
      using Suc(5) True by (simp add: Let_def)
    ultimately show ?thesis using Suc(1) [of "idx[?p := 0]" ?p "tb - 1"] p by auto
  next
    case False
    then have "idx' = idx" "tb' = tb" using Suc(5) by (simp_all add: Let_def)
    then show ?thesis using Suc(2,6) by simp
  qed
qed simp

text \<open>More rounds than there are tombstones change nothing: the loop has ended by then.\<close>

lemma fc_tidx_unwind_fuel:
  "length idx = nb \<Longrightarrow> b < nb \<Longrightarrow> tombs idx \<le> k \<Longrightarrow> fc_tidx_unwind nb (k + d) idx b tb = fc_tidx_unwind nb k idx b tb"
proof (induction k arbitrary: idx b tb)
  case 0
  have "idx ! fc_tidx_prev nb b \<noteq> 65535"
    using 0 prev_less [OF 0(2)] by (auto simp: tombs_def)
  then show ?case by (cases d) (simp_all add: Let_def)
next
  case (Suc k)
  let ?p = "fc_tidx_prev nb b"
  have p: "?p < nb" "?p < length idx" using Suc(2,3) prev_less by simp_all
  have "tombs (idx[?p := 0]) \<le> k" if "idx ! ?p = 65535"
    using tombs_update [OF p(2), of 0] that Suc(4) by simp
  then show ?case using Suc(1) [of "idx[?p := 0]" ?p "tb - 1"] Suc(2) p by (simp add: Let_def)
qed

section \<open>The table invariant\<close>

lemma tt_set_simps [simp]:
  "tt_tenants (tt_set tt i t) = Some ((tts tt)[i := t])" "tts (tt_set tt i t) = (tts tt)[i := t]"
  "tt_index (tt_set tt i t) = tt_index tt" "tt_slots (tt_set tt i t) = tt_slots tt"
  "tt_used (tt_set tt i t) = tt_used tt" "tt_free (tt_set tt i t) = tt_free tt"
  "tt_tombs (tt_set tt i t) = tt_tombs tt" "tt_bound (tt_set tt i t) = tt_bound tt"
  "tt_runnable_waiting (tt_set tt i t) = tt_runnable_waiting tt"
  by (simp_all add: tt_set_def tts_def)

lemma tts_upd [simp]:
  "tts (tt\<lparr>tt_index := x\<rparr>) = tts tt" "tts (tt\<lparr>tt_slots := y\<rparr>) = tts tt" "tts (tt\<lparr>tt_used := y\<rparr>) = tts tt"
  "tts (tt\<lparr>tt_free := y\<rparr>) = tts tt" "tts (tt\<lparr>tt_tombs := y\<rparr>) = tts tt"
  "tts (tt\<lparr>tt_runnable_waiting := y\<rparr>) = tts tt" "tts (tt\<lparr>tt_bound := z\<rparr>) = tts tt"
  by (simp_all add: tts_def)

text \<open>The slots in use of the named part of the table.\<close>

definition tt_named :: "fc_ttab \<Rightarrow> nat set" where
  "tt_named tt = {i. i < tt_slots tt \<and> t_used (tts tt ! i)}"

definition tt_index_ok :: "fc_ttab \<Rightarrow> nat set \<Rightarrow> bool" where
  "tt_index_ok tt S \<longleftrightarrow> S \<subseteq> {..<tt_slots tt} \<and>
     idx_ok (fc_tidx_buckets tt) (tt_keys tt) S (tt_index tt) \<and>
     tt_tombs tt = tombs (tt_index tt) \<and> tt_tombs tt \<le> fc_tidx_buckets tt div 4"

text \<open>The free slots chained through \<open>next_free\<close>, ended by the slot count.\<close>

fun free_chain :: "fc_tenant list \<Rightarrow> nat \<Rightarrow> nat \<Rightarrow> nat list \<Rightarrow> bool" where
  "free_chain ts n f [] \<longleftrightarrow> f = n"
| "free_chain ts n f (i # js) \<longleftrightarrow> f = i \<and> i < n \<and> free_chain ts n (t_next_free (ts ! i)) js"

definition tt_free_ok :: "fc_ttab \<Rightarrow> nat set \<Rightarrow> bool" where
  "tt_free_ok tt F \<longleftrightarrow> (\<exists>fl. distinct fl \<and> set fl = F \<and> free_chain (tts tt) (tt_slots tt) (tt_free tt) fl)"

definition tt_marks_ok :: "fc_ttab \<Rightarrow> bool" where
  "tt_marks_ok tt \<longleftrightarrow>
     (\<forall>i \<le> tt_slots tt. t_waiting_runnable (tts tt ! i) = tenant_runnable (tt_bound tt) (tts tt ! i)) \<and>
     tt_runnable_waiting tt = card {i. i \<le> tt_slots tt \<and> t_waiting_runnable (tts tt ! i)}"

definition tt_ok :: "fc_ttab \<Rightarrow> bool" where
  "tt_ok tt \<longleftrightarrow> 0 < tt_slots tt \<and> tt_slots tt \<le> 4096 \<and> tt_tenants tt \<noteq> None \<and>
     length (tts tt) = tt_slots tt + 1 \<and>
     tt_index_ok tt (tt_named tt) \<and> tt_free_ok tt ({..<tt_slots tt} - tt_named tt) \<and>
     tt_used tt = card {i. i \<le> tt_slots tt \<and> t_used (tts tt ! i)} \<and>
     (\<forall>i \<le> tt_slots tt. \<not> t_used (tts tt ! i) \<longrightarrow> t_queued (tts tt ! i) = 0 \<and> t_inflight (tts tt ! i) = 0)"

text \<open>The invariant of the tenant fields of a pool, with or without a table.\<close>

definition tt_inv :: "fc_ttab \<Rightarrow> bool" where
  "tt_inv tt \<longleftrightarrow> tt_slots tt \<le> 4096 \<and> (tt_tenants tt \<noteq> None \<longrightarrow> tt_ok tt \<and> tt_marks_ok tt)"

lemma tt_okD:
  assumes "tt_ok tt"
  shows "0 < tt_slots tt" "tt_slots tt \<le> 4096" "tt_tenants tt \<noteq> None" "length (tts tt) = tt_slots tt + 1"
    "tt_index_ok tt (tt_named tt)" "tt_free_ok tt ({..<tt_slots tt} - tt_named tt)"
    "tt_used tt = card {i. i \<le> tt_slots tt \<and> t_used (tts tt ! i)}"
    "\<And>i. i \<le> tt_slots tt \<Longrightarrow> \<not> t_used (tts tt ! i) \<Longrightarrow> t_queued (tts tt ! i) = 0 \<and> t_inflight (tts tt ! i) = 0"
  using assms unfolding tt_ok_def by simp_all

lemma tt_namedD: "i \<in> tt_named tt \<Longrightarrow> i < tt_slots tt \<and> t_used (tts tt ! i)"
  by (simp add: tt_named_def)

lemma tt_index_empty:
  assumes "tt_index_ok tt S" shows "\<exists>b < fc_tidx_buckets tt. tt_index tt ! b = 0"
proof -
  have S: "S \<subseteq> {..<tt_slots tt}" and ok: "idx_ok (fc_tidx_buckets tt) (tt_keys tt) S (tt_index tt)"
    using assms by (simp_all add: tt_index_ok_def)
  have fin: "finite S" and "card S \<le> tt_slots tt"
    using S finite_subset card_mono [OF _ S] by auto
  then show ?thesis
    using idx_ok_empty [OF ok fin] assms idx_okD(1) [OF ok] by (auto simp: tt_index_ok_def fc_tidx_buckets_def)
qed

text \<open>The lookup finds the slot of a key in the index, or a bucket for a new one.\<close>

lemma fc_tidx_find_known:
  assumes ok: "tt_index_ok tt S" and i: "i \<in> S" "tt_keys tt i = key"
  shows "fst (fc_tidx_find tt key) < fc_tidx_buckets tt \<and> tt_index tt ! fst (fc_tidx_find tt key) = Suc i"
proof -
  let ?nb = "fc_tidx_buckets tt" and ?h = "fc_tidx_home (fc_tidx_buckets tt) key"
  have idx: "idx_ok ?nb (tt_keys tt) S (tt_index tt)" using ok by (simp add: tt_index_ok_def)
  note nb = idx_okD(1) [OF idx]
  obtain k where k: "k < ?nb" "tt_index tt ! pos ?nb ?h k = Suc i" "\<forall>j < k. tt_index tt ! pos ?nb ?h j \<noteq> 0"
    using idx_okD(7) [OF idx i(1)] i(2) by (auto simp: reached_def)
  have "fst (fc_tidx_find tt key) = pos ?nb ?h k"
    using fc_tidx_probe_found [OF idx i k, of 0 k ?nb ?nb] nb by (simp add: fc_tidx_find_def Let_def)
  then show ?thesis using k nb by simp
qed

lemma fc_tidx_find_absent:
  assumes ok: "tt_index_ok tt S" and i: "\<forall>i \<in> S. tt_keys tt i \<noteq> key"
  obtains f where "fc_tidx_find tt key = (fc_tidx_buckets tt, f)"
    "takeable (fc_tidx_buckets tt) (tt_index tt) (fc_tidx_home (fc_tidx_buckets tt) key) f"
proof -
  let ?nb = "fc_tidx_buckets tt" and ?h = "fc_tidx_home (fc_tidx_buckets tt) key"
  have idx: "idx_ok ?nb (tt_keys tt) S (tt_index tt)" using ok by (simp add: tt_index_ok_def)
  note nb = idx_okD(1) [OF idx]
  obtain b where "b < ?nb" "tt_index tt ! b = 0" using tt_index_empty [OF ok] by auto
  then obtain k where k: "k < ?nb" "tt_index tt ! pos ?nb ?h k = 0" "\<forall>j < k. tt_index tt ! pos ?nb ?h j \<noteq> 0"
    using first_empty [of b ?nb "tt_index tt" ?h] nb by auto
  show thesis
    using fc_tidx_probe_absent [OF idx i k, of 0 k ?nb ?nb] nb that by (auto simp: fc_tidx_find_def Let_def)
qed

text \<open>The re-layout holds exactly the slots in use, with no tombstone.\<close>

lemma fc_tidx_relay_frame [simp]:
  "tt_tenants (fc_tidx_relay tt) = tt_tenants tt" "tts (fc_tidx_relay tt) = tts tt"
  "tt_slots (fc_tidx_relay tt) = tt_slots tt" "tt_used (fc_tidx_relay tt) = tt_used tt"
  "tt_free (fc_tidx_relay tt) = tt_free tt" "tt_bound (fc_tidx_relay tt) = tt_bound tt"
  "tt_runnable_waiting (fc_tidx_relay tt) = tt_runnable_waiting tt"
  by (simp_all add: fc_tidx_relay_def Let_def)

lemma fc_tidx_relay_ok:
  assumes n: "0 < tt_slots tt" "tt_slots tt \<le> 4096" and inj: "inj_on (tt_keys tt) (tt_named tt)"
  shows "tt_index_ok (fc_tidx_relay tt) (tt_named tt)"
proof -
  let ?r = "fc_tidx_relay tt" and ?nb = "fc_tidx_buckets tt"
  have keys: "tt_keys ?r = tt_keys tt" by (simp add: tt_keys_def fun_eq_iff)
  have nb: "fc_tidx_buckets ?r = ?nb" "tt_slots tt < ?nb" using n by (simp_all add: fc_tidx_buckets_def)
  have "idx_ok ?nb (tt_keys tt) (tt_named tt) (tt_index ?r) \<and> tombs (tt_index ?r) = 0"
    using relay_fold_ok [of "tt_slots tt" ?nb "tt_keys tt" "\<lambda>i. t_used (tts tt ! i)" "tt_slots tt"] n nb inj
    by (simp add: fc_tidx_relay_def Let_def tt_named_def)
  moreover have "tt_tombs ?r = 0" by (simp add: fc_tidx_relay_def Let_def)
  ultimately show ?thesis using keys nb by (auto simp: tt_index_ok_def tt_named_def)
qed

text \<open>Dropping a freed slot from the index.\<close>

lemma fc_tidx_drop_frame [simp]:
  "tt_tenants (fc_tidx_drop tt key) = tt_tenants tt" "tts (fc_tidx_drop tt key) = tts tt"
  "tt_slots (fc_tidx_drop tt key) = tt_slots tt" "tt_used (fc_tidx_drop tt key) = tt_used tt"
  "tt_free (fc_tidx_drop tt key) = tt_free tt" "tt_bound (fc_tidx_drop tt key) = tt_bound tt"
  "tt_runnable_waiting (fc_tidx_drop tt key) = tt_runnable_waiting tt"
  by (simp_all add: fc_tidx_drop_def Let_def split: prod.splits)

lemma fc_tidx_drop_ok:
  assumes ok: "tt_index_ok tt S" and i: "i \<in> S" "tt_keys tt i = key"
    and n: "0 < tt_slots tt" "tt_slots tt \<le> 4096" and rest: "tt_named tt = S - {i}"
  shows "tt_index_ok (fc_tidx_drop tt key) (S - {i})"
proof -
  let ?nb = "fc_tidx_buckets tt" and ?d = "fc_tidx_drop tt key"
  define b where "b = fst (fc_tidx_find tt key)"
  have idx: "idx_ok ?nb (tt_keys tt) S (tt_index tt)" and tb: "tt_tombs tt = tombs (tt_index tt)"
    and S: "S - {i} \<subseteq> {..<tt_slots tt}" and few: "tombs (tt_index tt) \<le> ?nb div 4"
    using ok by (auto simp: tt_index_ok_def)
  have b: "b < ?nb" "tt_index tt ! b = Suc i" using fc_tidx_find_known [OF ok i] by (simp_all add: b_def)
  have len: "b < length (tt_index tt)" using b idx_okD(2) [OF idx] by simp
  have tomb: "idx_ok ?nb (tt_keys tt) (S - {i}) ((tt_index tt)[b := 65535])"
    using idx_ok_tomb [OF idx b i(1)] .
  have ni: "Suc i \<noteq> 65535" using idx_okD(3) [OF idx i(1)] by simp
  have keys: "tt_keys (fc_tidx_drop tt key) = tt_keys tt" by (simp add: tt_keys_def fun_eq_iff)
  have nb: "fc_tidx_buckets ?d = ?nb" by (simp add: fc_tidx_buckets_def)
  show ?thesis
  proof (cases "tt_index tt ! fc_tidx_next ?nb b = 0")
    case True
    obtain idx' tb' where u: "fc_tidx_unwind ?nb ?nb ((tt_index tt)[b := 0]) b (tt_tombs tt) = (idx', tb')"
      by fastforce
    have d: "?d = tt\<lparr>tt_index := idx', tt_tombs := tb'\<rparr>"
      using True b u by (simp add: fc_tidx_drop_def b_def [symmetric] Let_def)
    have "fc_tidx_next ?nb b \<noteq> b" using True b by auto
    then have "idx_ok ?nb (tt_keys tt) (S - {i}) ((tt_index tt)[b := 0])"
      using idx_ok_clear [OF tomb b(1)] True len by simp
    moreover have "tt_tombs tt = tombs ((tt_index tt)[b := 0])"
      using tombs_update [OF len, of 0] b tb ni by simp
    ultimately have "idx_ok ?nb (tt_keys tt) (S - {i}) idx' \<and> tb' = tombs idx' \<and> tb' \<le> tt_tombs tt"
      using fc_tidx_unwind_ok [where keys = "tt_keys tt" and S = "S - {i}", OF _ b(1) _ u] len by simp
    then show ?thesis using S keys nb tb few by (simp add: d tt_index_ok_def)
  next
    case False
    let ?t = "tt\<lparr>tt_index := (tt_index tt)[b := 65535], tt_tombs := tt_tombs tt + 1\<rparr>"
    have d: "?d = (if tt_tombs ?t > ?nb div 4 then fc_tidx_relay ?t else ?t)"
      using False b by (simp add: fc_tidx_drop_def b_def [symmetric] Let_def)
    have kt: "tt_keys ?t = tt_keys tt" by (simp add: tt_keys_def fun_eq_iff)
    have named: "tt_named ?t = S - {i}" using rest by (simp add: tt_named_def)
    show ?thesis
    proof (cases "tt_tombs ?t > ?nb div 4")
      case True
      have "inj_on (tt_keys tt) (S - {i})" by (rule idx_okD(4) [OF tomb])
      then show ?thesis using True fc_tidx_relay_ok [of ?t] n named kt by (simp add: d)
    next
      case False
      have "tt_tombs tt + 1 = tombs ((tt_index tt)[b := 65535])"
        using tombs_update [OF len, of 65535] b tb ni by simp
      then show ?thesis using False S tomb kt by (simp add: d tt_index_ok_def fc_tidx_buckets_def)
    qed
  qed
qed

section \<open>Taking and freeing slots\<close>

lemma free_chain_cong:
  "\<forall>i \<in> set fl. t_next_free (ts' ! i) = t_next_free (ts ! i) \<Longrightarrow> free_chain ts' n f fl = free_chain ts n f fl"
  by (induction fl arbitrary: f) auto

lemma tt_free_ok_head:
  assumes "tt_free_ok tt F"
  shows "(tt_free tt = tt_slots tt \<and> F = {}) \<or>
         (tt_free tt < tt_slots tt \<and> tt_free tt \<in> F \<and>
          (\<exists>fl. distinct fl \<and> set fl = F - {tt_free tt} \<and>
                free_chain (tts tt) (tt_slots tt) (t_next_free (tts tt ! tt_free tt)) fl))"
proof -
  obtain fl where fl: "distinct fl" "set fl = F" "free_chain (tts tt) (tt_slots tt) (tt_free tt) fl"
    using assms by (auto simp: tt_free_ok_def)
  show ?thesis
  proof (cases fl)
    case Nil
    then show ?thesis using fl by simp
  next
    case (Cons i js)
    then have "set js = F - {tt_free tt}" "distinct js" using fl by auto
    then show ?thesis using fl Cons by auto
  qed
qed

text \<open>The table as \<open>calloc\<close> and the free-list loop leave it.\<close>

lemma free_chain_fresh:
  assumes "\<forall>i < n. t_next_free (ts ! i) = i + 1"
  shows "d \<le> n \<Longrightarrow> free_chain ts n (n - d) [n - d..<n]"
proof (induction d)
  case (Suc d)
  then have "[n - Suc d..<n] = (n - Suc d) # [n - d..<n]" by (simp add: upt_rec Suc_diff_Suc)
  moreover have "t_next_free (ts ! (n - Suc d)) = n - d" using assms Suc(2) by (simp add: Suc_diff_Suc)
  ultimately show ?case using Suc by simp
qed simp

lemma fc_tenant_table_ensure_ok:
  assumes inv: "tt_inv tt" and res: "fc_tenant_table_ensure ok dead tt = (rc, tt')"
  shows "tt_inv tt' \<and> (rc = 0 \<longrightarrow> tt_ok tt' \<and> tt_marks_ok tt') \<and> (rc \<noteq> 0 \<longrightarrow> rc = -1 \<and> tt_tenants tt' = None)"
proof (cases "tt_tenants tt \<noteq> None \<or> dead")
  case True
  then show ?thesis using inv res by (auto simp: fc_tenant_table_ensure_def tt_inv_def split: if_splits)
next
  case False
  define n where "n = (if tt_slots tt = 0 then 64 else tt_slots tt)"
  define ts where "ts = map (\<lambda>i. fc_tenant_zero\<lparr>t_next_free := i + 1\<rparr>) [0..<n] @ [fc_tenant_zero]"
  have n: "0 < n" "n \<le> 4096" using inv by (auto simp: n_def tt_inv_def)
  show ?thesis
  proof (cases "ok (n + 1) \<and> ok (2 * n)")
    case no: False
    then have "rc = -1" "tt' = tt\<lparr>tt_slots := n\<rparr>" using False res
      by (auto simp: fc_tenant_table_ensure_def Let_def n_def split: if_splits)
    then show ?thesis using False n by (simp add: tt_inv_def)
  next
    case True
    then have rc: "rc = 0" and tt': "tt' = tt\<lparr>tt_tenants := Some ts, tt_index := replicate (2 * n) 0,
        tt_slots := n, tt_free := 0, tt_used := 0, tt_tombs := 0, tt_runnable_waiting := 0, tt_bound := 0\<rparr>"
      using False res by (auto simp: fc_tenant_table_ensure_def Let_def n_def ts_def split: if_splits)
    have nth: "ts ! i = fc_tenant_zero\<lparr>t_next_free := if i < n then i + 1 else 0\<rparr>" if "i \<le> n" for i
      using that by (auto simp: ts_def nth_append fc_tenant_zero_def)
    have z: "\<not> t_used (ts ! i) \<and> t_queued (ts ! i) = 0 \<and> t_inflight (ts ! i) = 0 \<and> \<not> t_waiting_runnable (ts ! i)"
      if "i \<le> n" for i using nth [OF that] by (simp add: fc_tenant_zero_def)
    have "free_chain ts n 0 [0..<n]" using free_chain_fresh [of n ts n] nth by simp
    then have "tt_free_ok tt' {..<n}"
      unfolding tt_free_ok_def by (intro exI [of _ "[0..<n]"]) (auto simp: tt' tts_def)
    moreover have "tt_named tt' = {}" using z by (auto simp: tt_named_def tt' tts_def)
    ultimately have "tt_ok tt'" using n z idx_ok_blank [of "2 * n"]
      by (auto simp: tt_ok_def tt_index_ok_def fc_tidx_buckets_def tt' tts_def ts_def)
    moreover have "tt_marks_ok tt'" using z by (auto simp: tt_marks_ok_def tenant_runnable_def tt' tts_def)
    ultimately show ?thesis using rc by (simp add: tt_inv_def tt' n)
  qed
qed

text \<open>A slot as it is taken.\<close>

definition fresh_tenant :: "u64 \<Rightarrow> fc_tenant \<Rightarrow> fc_tenant" where
  "fresh_tenant key t = t\<lparr>t_used := True, t_key := key, t_inflight := 0, t_queued := 0, t_waiting_runnable := False\<rparr>"

lemma fresh_tenant_simps [simp]:
  "t_used (fresh_tenant key t)" "t_key (fresh_tenant key t) = key" "t_inflight (fresh_tenant key t) = 0"
  "t_queued (fresh_tenant key t) = 0" "\<not> t_waiting_runnable (fresh_tenant key t)"
  "t_next_free (fresh_tenant key t) = t_next_free t" "\<not> tenant_runnable b (fresh_tenant key t)"
  by (simp_all add: fresh_tenant_def tenant_runnable_def)

lemma card_used_insert:
  assumes "i \<le> n" "\<not> t_used (ts ! i)" "length ts = Suc n" "t_used t"
  shows "card {j. j \<le> n \<and> t_used (ts[i := t] ! j)} = Suc (card {j. j \<le> n \<and> t_used (ts ! j)})"
proof -
  have "{j. j \<le> n \<and> t_used (ts[i := t] ! j)} = insert i {j. j \<le> n \<and> t_used (ts ! j)}"
    using assms by (auto simp: nth_list_update)
  then show ?thesis using assms by simp
qed

lemma card_used_remove:
  assumes "i \<le> n" "t_used (ts ! i)" "length ts = Suc n" "\<not> t_used t"
  shows "card {j. j \<le> n \<and> t_used (ts[i := t] ! j)} = card {j. j \<le> n \<and> t_used (ts ! j)} - 1"
proof -
  have "{j. j \<le> n \<and> t_used (ts[i := t] ! j)} = {j. j \<le> n \<and> t_used (ts ! j)} - {i}"
    using assms by (auto simp: nth_list_update)
  then show ?thesis using assms by simp
qed

text \<open>The named key of a slot; the map the index implements.\<close>

definition tt_slot_of :: "fc_ttab \<Rightarrow> u64 \<Rightarrow> nat option" where
  "tt_slot_of tt key =
     (if tt_tenants tt = None then None
      else find (\<lambda>i. t_used (tts tt ! i) \<and> t_key (tts tt ! i) = key) [0..<tt_slots tt])"

lemma tt_slot_of_None:
  "tt_tenants tt \<noteq> None \<Longrightarrow> tt_slot_of tt key = None \<longleftrightarrow> (\<forall>i \<in> tt_named tt. tt_keys tt i \<noteq> key)"
  by (auto simp: tt_slot_of_def find_None_iff tt_named_def tt_keys_def)

lemma tt_slot_of_Some:
  assumes "tt_ok tt"
  shows "tt_slot_of tt key = Some i \<longleftrightarrow> i \<in> tt_named tt \<and> tt_keys tt i = key"
proof -
  have inj: "inj_on (tt_keys tt) (tt_named tt)"
    using tt_okD(5) [OF assms] idx_okD(4) by (auto simp: tt_index_ok_def)
  have 1: "i \<in> tt_named tt \<and> tt_keys tt i = key" if "tt_slot_of tt key = Some i" for i
    using that assms by (auto simp: tt_slot_of_def find_Some_iff tt_named_def tt_keys_def tt_ok_def)
  moreover have "tt_slot_of tt key = Some i" if "i \<in> tt_named tt" "tt_keys tt i = key"
  proof -
    have "tt_slot_of tt key \<noteq> None" using that tt_slot_of_None [OF tt_okD(3) [OF assms], of key] by auto
    then obtain j where j: "tt_slot_of tt key = Some j" by auto
    then show ?thesis using 1 [OF j] that inj by (auto dest: inj_onD)
  qed
  ultimately show ?thesis by blast
qed

text \<open>A known tenant keeps its slot.\<close>

lemma fc_tenant_get_known:
  assumes ok: "tt_ok tt" and i: "tt_slot_of tt key = Some i"
  shows "fc_tenant_get calloc_ok dead tt key cnt = (int i, tt, [])"
proof -
  have "i \<in> tt_named tt" "tt_keys tt i = key" using i tt_slot_of_Some [OF ok] by simp_all
  from fc_tidx_find_known [OF tt_okD(5) [OF ok] this] tt_okD(3) [OF ok] show ?thesis
    by (auto simp: fc_tenant_get_def fc_tenant_table_ensure_def Let_def split: prod.splits)
qed

text \<open>A new tenant takes the first free slot, and the index finds it there.\<close>

lemma fc_tenant_get_new:
  assumes ok: "tt_ok tt" and mk: "tt_marks_ok tt" and key: "tt_slot_of tt key = None"
    and free: "tt_free tt < tt_slots tt"
  obtains tt' where "fc_tenant_get calloc_ok dead tt key cnt = (int (tt_free tt), tt', [])"
    "tt_ok tt'" "tt_marks_ok tt'" "\<not> t_used (tts tt ! tt_free tt)" "tt_slots tt' = tt_slots tt"
    "tt_bound tt' = tt_bound tt"
    "tts tt' = (tts tt)[tt_free tt := fresh_tenant key (tts tt ! tt_free tt)]"
proof -
  let ?s = "tt_free tt" and ?nb = "fc_tidx_buckets tt" and ?n = "tt_slots tt"
  let ?t = "fresh_tenant key (tts tt ! ?s)" and ?N = "tt_named tt"
  note D = tt_okD [OF ok]
  have absent: "\<forall>i \<in> ?N. tt_keys tt i \<noteq> key" using key tt_slot_of_None [OF D(3)] by simp
  obtain f where f: "fc_tidx_find tt key = (?nb, f)" "takeable ?nb (tt_index tt) (fc_tidx_home ?nb key) f"
    using fc_tidx_find_absent [OF D(5) absent] .
  have unused: "\<not> t_used (tts tt ! ?s)" "?s \<notin> ?N" and
    fl: "\<exists>fl. distinct fl \<and> set fl = {..<?n} - ?N - {?s} \<and> free_chain (tts tt) ?n (t_next_free (tts tt ! ?s)) fl"
    using tt_free_ok_head [OF D(6)] free by (auto simp: tt_named_def)
  define tt' where "tt' = tt\<lparr>tt_tenants := Some ((tts tt)[?s := ?t]), tt_free := t_next_free (tts tt ! ?s),
     tt_used := tt_used tt + 1, tt_tombs := (if tt_index tt ! f = 65535 then tt_tombs tt - 1 else tt_tombs tt),
     tt_index := (tt_index tt)[f := Suc ?s]\<rparr>"
  have get: "fc_tenant_get calloc_ok dead tt key cnt = (int ?s, tt', [])"
    using D(3) f(1) free by (simp add: fc_tenant_get_def fc_tenant_table_ensure_def Let_def tt'_def tt_set_def
        fresh_tenant_def)
  have ts': "tts tt' = (tts tt)[?s := ?t]" by (simp add: tt'_def tts_def)
  have sel: "tt_slots tt' = ?n" "fc_tidx_buckets tt' = ?nb" "tt_bound tt' = tt_bound tt"
      "tt_runnable_waiting tt' = tt_runnable_waiting tt" "tt_tenants tt' \<noteq> None"
      "tt_index tt' = (tt_index tt)[f := Suc ?s]" "tt_free tt' = t_next_free (tts tt ! ?s)"
      "tt_used tt' = Suc (tt_used tt)"
      "tt_tombs tt' = (if tt_index tt ! f = 65535 then tt_tombs tt - 1 else tt_tombs tt)"
    by (simp_all add: tt'_def fc_tidx_buckets_def)
  have len: "length (tts tt) = Suc ?n" using D(4) by simp
  have keys': "tt_keys tt' i = (if i = ?s then key else tt_keys tt i)" for i
    using free len by (simp add: tt_keys_def ts' nth_list_update)
  have named': "tt_named tt' = insert ?s ?N"
    using free len unused by (auto simp: tt_named_def ts' sel nth_list_update)
  have idx: "idx_ok ?nb (tt_keys tt) ?N (tt_index tt)" and tb: "tt_tombs tt = tombs (tt_index tt)"
    and few: "tt_tombs tt \<le> ?nb div 4"
    using D(5) by (simp_all add: tt_index_ok_def)
  have idxk: "idx_ok ?nb (tt_keys tt') ?N (tt_index tt)"
    using idx unused(2) by (subst idx_ok_cong [of _ _ "tt_keys tt"]) (auto simp: keys')
  have "idx_ok ?nb (tt_keys tt') (insert ?s ?N) ((tt_index tt)[f := Suc ?s])"
  proof (rule idx_ok_insert [OF idxk unused(2)])
    show "?s < 65534" using free D(2) by simp
    show "tt_keys tt' ?s \<notin> tt_keys tt' ` ?N" using absent unused(2) by (auto simp: keys')
    show "takeable ?nb (tt_index tt) (fc_tidx_home ?nb (tt_keys tt' ?s)) f" using f(2) by (simp add: keys')
  qed
  moreover have "f < length (tt_index tt)" using f(2) idx_okD(1,2) [OF idx] by (auto simp: takeable_def)
  then have "tt_tombs tt' = tombs (tt_index tt')" "tt_tombs tt' \<le> ?nb div 4"
    using tombs_update [of f "tt_index tt" "Suc ?s"] tb few free D(2) by (auto simp: sel)
  moreover have "insert ?s ?N \<subseteq> {..<?n}" using free by (auto simp: tt_named_def)
  ultimately have "tt_index_ok tt' (tt_named tt')"
    unfolding tt_index_ok_def named' sel(1,2,6) by blast
  moreover have "tt_free_ok tt' ({..<?n} - tt_named tt')"
  proof -
    obtain fl where fl: "distinct fl" "set fl = {..<?n} - ?N - {?s}"
        "free_chain (tts tt) ?n (t_next_free (tts tt ! ?s)) fl" using fl by blast
    have "free_chain (tts tt') ?n (t_next_free (tts tt ! ?s)) fl = free_chain (tts tt) ?n (t_next_free (tts tt ! ?s)) fl"
      by (rule free_chain_cong) (use fl(2) in \<open>auto simp: ts' nth_list_update\<close>)
    then show ?thesis using fl unfolding tt_free_ok_def sel(1,7) named' by (intro exI [of _ fl]) auto
  qed
  moreover have "tt_used tt' = card {i. i \<le> ?n \<and> t_used (tts tt' ! i)}"
    using card_used_insert [of ?s ?n "tts tt" ?t] free unused D(7) len by (simp add: ts' sel)
  moreover have "t_queued (tts tt' ! i) = 0 \<and> t_inflight (tts tt' ! i) = 0"
    if "i \<le> ?n" "\<not> t_used (tts tt' ! i)" for i
    using D(8) [OF that(1)] that(2) len free by (cases "i = ?s") (simp_all add: ts')
  moreover have "length (tts tt') = ?n + 1" by (simp add: ts' len)
  ultimately have "tt_ok tt'" unfolding tt_ok_def sel(1) using D(1,2) sel(5) by blast
  moreover have "tt_marks_ok tt'"
  proof -
    have w: "t_waiting_runnable (tts tt' ! i) = t_waiting_runnable (tts tt ! i)" if "i \<le> ?n" for i
      using mk that unused(1) len free
      by (cases "i = ?s") (simp_all add: ts' tt_marks_ok_def tenant_runnable_def)
    have r: "tenant_runnable (tt_bound tt) (tts tt' ! i) = tenant_runnable (tt_bound tt) (tts tt ! i)" for i
      using unused(1) len free by (cases "i = ?s") (simp_all add: ts' tenant_runnable_def)
    have "{i. i \<le> ?n \<and> t_waiting_runnable (tts tt' ! i)} = {i. i \<le> ?n \<and> t_waiting_runnable (tts tt ! i)}"
      using w by auto
    then show ?thesis using mk w r by (simp add: tt_marks_ok_def sel)
  qed
  ultimately show thesis using get unused(1) sel ts' by (intro that)
qed

text \<open>A change of a slot's counts alone keeps the shape of the table.\<close>

lemma tt_ok_cong:
  assumes "tts tt' = tts tt" "tt_tenants tt' \<noteq> None \<longleftrightarrow> tt_tenants tt \<noteq> None" "tt_index tt' = tt_index tt"
    "tt_slots tt' = tt_slots tt" "tt_used tt' = tt_used tt" "tt_free tt' = tt_free tt" "tt_tombs tt' = tt_tombs tt"
  shows "tt_ok tt' = tt_ok tt"
proof -
  have "tt_keys tt' = tt_keys tt" "tt_named tt' = tt_named tt" "fc_tidx_buckets tt' = fc_tidx_buckets tt"
    using assms by (simp_all add: tt_keys_def tt_named_def fc_tidx_buckets_def fun_eq_iff)
  then show ?thesis using assms by (simp add: tt_ok_def tt_index_ok_def tt_free_ok_def)
qed

lemma tt_ok_set_counts:
  assumes ok: "tt_ok tt" and i: "i \<le> tt_slots tt"
    and t: "t_used t = t_used (tts tt ! i)" "t_key t = t_key (tts tt ! i)" "t_next_free t = t_next_free (tts tt ! i)"
      "\<not> t_used t \<longrightarrow> t_queued t = 0 \<and> t_inflight t = 0"
  shows "tt_ok (tt_set tt i t)"
proof -
  let ?tt = "tt_set tt i t"
  note D = tt_okD [OF ok]
  have nth: "tts ?tt ! j = (if j = i then t else tts tt ! j)" for j using i D(4) by (simp add: nth_list_update)
  have keys: "tt_keys ?tt = tt_keys tt" using t by (simp add: tt_keys_def fun_eq_iff nth del: tt_set_simps(2))
  have used: "t_used (tts ?tt ! j) = t_used (tts tt ! j)" for j using t by (simp add: nth del: tt_set_simps(2))
  have named: "tt_named ?tt = tt_named tt" using used by (simp add: tt_named_def del: tt_set_simps(2))
  have "free_chain (tts ?tt) n f fl = free_chain (tts tt) n f fl" for n f fl
    using t by (intro free_chain_cong) (simp add: nth del: tt_set_simps(2))
  then have "tt_free_ok ?tt F = tt_free_ok tt F" for F by (simp add: tt_free_ok_def)
  moreover have "tt_index_ok ?tt S = tt_index_ok tt S" for S
    using keys by (simp add: tt_index_ok_def fc_tidx_buckets_def)
  moreover have "t_queued (tts ?tt ! j) = 0 \<and> t_inflight (tts ?tt ! j) = 0"
    if "j \<le> tt_slots tt" "\<not> t_used (tts ?tt ! j)" for j
    using t(4) D(8) [OF that(1)] that(2) by (auto simp: nth split: if_splits simp del: tt_set_simps(2))
  moreover have "tt_used tt = card {j. j \<le> tt_slots tt \<and> t_used (tts ?tt ! j)}"
    using D(7) by (simp only: used)
  ultimately show ?thesis using D named unfolding tt_ok_def by (simp del: tt_set_simps(2)) simp
qed

section \<open>Tenants that wait and could run\<close>

text \<open>The marks of every slot but one are right, and the marks are counted.\<close>

definition tt_marks_but :: "fc_ttab \<Rightarrow> nat \<Rightarrow> bool" where
  "tt_marks_but tt i \<longleftrightarrow>
     (\<forall>j \<le> tt_slots tt. j \<noteq> i \<longrightarrow> t_waiting_runnable (tts tt ! j) = tenant_runnable (tt_bound tt) (tts tt ! j)) \<and>
     tt_runnable_waiting tt = card {j. j \<le> tt_slots tt \<and> t_waiting_runnable (tts tt ! j)}"

lemma tt_marks_but_set:
  assumes "tt_marks_ok tt" "length (tts tt) = tt_slots tt + 1" "i \<le> tt_slots tt"
    "t_waiting_runnable t = t_waiting_runnable (tts tt ! i)"
  shows "tt_marks_but (tt_set tt i t) i"
proof -
  have "t_waiting_runnable ((tts tt)[i := t] ! j) = t_waiting_runnable (tts tt ! j)" for j
    using assms by (cases "j = i") simp_all
  then show ?thesis using assms by (auto simp: tt_marks_but_def tt_marks_ok_def)
qed

lemma fc_tenant_mark_frame [simp]:
  "tt_index (fc_tenant_mark tt i) = tt_index tt" "tt_slots (fc_tenant_mark tt i) = tt_slots tt"
  "tt_used (fc_tenant_mark tt i) = tt_used tt" "tt_free (fc_tenant_mark tt i) = tt_free tt"
  "tt_tombs (fc_tenant_mark tt i) = tt_tombs tt" "tt_bound (fc_tenant_mark tt i) = tt_bound tt"
  "length (tts (fc_tenant_mark tt i)) = length (tts tt)"
  by (simp_all add: fc_tenant_mark_def Let_def)

lemma nth_update_same:
  assumes "f t = f (ts ! i)" shows "f (ts[i := t] ! j) = f (ts ! j)"
proof (cases "i < length ts")
  case True
  then show ?thesis using assms by (cases "j = i") simp_all
next
  case False
  then show ?thesis by (simp add: list_update_beyond)
qed

lemma fc_tenant_mark_slot [simp]:
  "t_key (tts (fc_tenant_mark tt i) ! j) = t_key (tts tt ! j)"
  "t_used (tts (fc_tenant_mark tt i) ! j) = t_used (tts tt ! j)"
  "t_inflight (tts (fc_tenant_mark tt i) ! j) = t_inflight (tts tt ! j)"
  "t_queued (tts (fc_tenant_mark tt i) ! j) = t_queued (tts tt ! j)"
  "t_next_free (tts (fc_tenant_mark tt i) ! j) = t_next_free (tts tt ! j)"
  by (simp_all add: fc_tenant_mark_def Let_def nth_update_same)

lemma fc_tenant_mark_marks:
  assumes but: "tt_marks_but tt i" and i: "i \<le> tt_slots tt" and len: "length (tts tt) = tt_slots tt + 1"
  shows "tt_marks_ok (fc_tenant_mark tt i)"
proof -
  let ?t = "tts tt ! i" and ?r = "tenant_runnable (tt_bound tt) (tts tt ! i)"
  let ?W = "{j. j \<le> tt_slots tt \<and> t_waiting_runnable (tts tt ! j)}"
  show ?thesis
  proof (cases "?r = t_waiting_runnable ?t")
    case True
    then show ?thesis using but by (auto simp: fc_tenant_mark_def tt_marks_ok_def tt_marks_but_def Let_def)
  next
    case False
    define tt' where "tt' = fc_tenant_mark tt i"
    have tt': "tts tt' = (tts tt)[i := ?t\<lparr>t_waiting_runnable := ?r\<rparr>]"
        "tt_runnable_waiting tt' = (if ?r then tt_runnable_waiting tt + 1 else tt_runnable_waiting tt - 1)"
        "tt_slots tt' = tt_slots tt" "tt_bound tt' = tt_bound tt"
      using False by (simp_all add: tt'_def fc_tenant_mark_def Let_def)
    have nth: "tts tt' ! j = (if j = i then ?t\<lparr>t_waiting_runnable := ?r\<rparr> else tts tt ! j)" for j
      using i len by (simp add: tt'(1) nth_list_update)
    have "{j. j \<le> tt_slots tt \<and> t_waiting_runnable (tts tt' ! j)} = (if ?r then insert i ?W else ?W - {i})"
      using i by (auto simp: nth)
    moreover have "i \<in> ?W \<longleftrightarrow> \<not> ?r" using False i by auto
    moreover have "finite ?W" by simp
    ultimately have "card {j. j \<le> tt_slots tt \<and> t_waiting_runnable (tts tt' ! j)} =
        (if ?r then card ?W + 1 else card ?W - 1)"
      by (cases ?r) (simp_all add: card_Diff_singleton)
    moreover have "tenant_runnable b (?t\<lparr>t_waiting_runnable := x\<rparr>) = tenant_runnable b ?t" for b x
      by (simp add: tenant_runnable_def)
    ultimately show ?thesis
      using but by (simp add: tt_marks_ok_def tt_marks_but_def tt'(2-4) nth tt'_def [symmetric])
  qed
qed

lemma fc_tenant_mark_ok:
  assumes "tt_ok tt" "i \<le> tt_slots tt" shows "tt_ok (fc_tenant_mark tt i)"
proof -
  let ?t = "(tts tt ! i)\<lparr>t_waiting_runnable := tenant_runnable (tt_bound tt) (tts tt ! i)\<rparr>"
  have "tt_ok (tt_set tt i ?t)" using tt_okD(8) [OF assms] assms by (intro tt_ok_set_counts) auto
  moreover have "tt_ok (fc_tenant_mark tt i) = tt_ok (tt_set tt i ?t)"
    if "tenant_runnable (tt_bound tt) (tts tt ! i) \<noteq> t_waiting_runnable (tts tt ! i)"
    using that by (intro tt_ok_cong) (simp_all add: fc_tenant_mark_def Let_def)
  ultimately show ?thesis
    using assms(1) by (cases "tenant_runnable (tt_bound tt) (tts tt ! i) = t_waiting_runnable (tts tt ! i)")
      (simp_all add: fc_tenant_mark_def Let_def)
qed

section \<open>Slots given back\<close>

text \<open>What a change of the table leaves of the counts: every slot holds what it held.\<close>

definition tt_counts_kept :: "fc_ttab \<Rightarrow> fc_ttab \<Rightarrow> bool" where
  "tt_counts_kept tt tt' \<longleftrightarrow> tt_slots tt' = tt_slots tt \<and> tt_bound tt' = tt_bound tt \<and>
     (tt_tenants tt' = None \<longleftrightarrow> tt_tenants tt = None) \<and>
     (\<forall>j. t_key (tts tt' ! j) = t_key (tts tt ! j) \<and> t_inflight (tts tt' ! j) = t_inflight (tts tt ! j) \<and>
          t_queued (tts tt' ! j) = t_queued (tts tt ! j) \<and>
          t_waiting_runnable (tts tt' ! j) = t_waiting_runnable (tts tt ! j))"

lemma tt_counts_kept_refl [simp]: "tt_counts_kept tt tt"
  by (simp add: tt_counts_kept_def)

lemma tt_marks_kept:
  assumes "tt_marks_ok tt" "tt_counts_kept tt tt'" "tt_runnable_waiting tt' = tt_runnable_waiting tt"
    "\<And>j. j \<le> tt_slots tt \<Longrightarrow> t_queued (tts tt ! j) > 0 \<Longrightarrow> t_used (tts tt' ! j) = t_used (tts tt ! j)"
  shows "tt_marks_ok tt'"
proof -
  have "tenant_runnable b (tts tt' ! j) = tenant_runnable b (tts tt ! j)" if "j \<le> tt_slots tt" for b j
    using assms(2) assms(4) [OF that] by (auto simp: tenant_runnable_def tt_counts_kept_def)
  then show ?thesis using assms(1-3) by (simp add: tt_marks_ok_def tt_counts_kept_def)
qed

text \<open>The fields after the slot has gone back on the free list, before the last re-layout.\<close>

lemma put_named_ok:
  assumes ok: "tt_ok tt" and i: "i < tt_slots tt" and t: "t = tts tt ! i" "t_used t" "t_inflight t = 0" "t_queued t = 0"
    and tt1: "tt1 = (tt_set tt i (t\<lparr>t_used := False\<rparr>))\<lparr>tt_used := tt_used tt - 1\<rparr>"
    and tt2: "tt2 = fc_tidx_drop tt1 (t_key t)"
    and tt3: "tt3 = (tt_set tt2 i ((tts tt2 ! i)\<lparr>t_next_free := tt_free tt2\<rparr>))\<lparr>tt_free := i\<rparr>"
  shows "tt_ok tt3" and "tt_ok (fc_tidx_relay tt3)"
proof -
  note D = tt_okD [OF ok]
  let ?n = "tt_slots tt" and ?N = "tt_named tt"
  have iN: "i \<in> ?N" using i t by (simp add: tt_named_def)
  have len: "length (tts tt) = Suc ?n" using D(4) by simp
  have ts3: "tts tt3 = (tts tt)[i := t\<lparr>t_used := False, t_next_free := tt_free tt\<rparr>]"
    using i len by (simp add: tt3 tt2 tt1)
  have sel: "tt_slots tt3 = ?n" "tt_tenants tt3 \<noteq> None" "tt_used tt3 = tt_used tt - 1" "tt_free tt3 = i"
      "tt_index tt3 = tt_index tt2" "tt_tombs tt3 = tt_tombs tt2"
    by (simp_all add: tt3 tt2 tt1)
  have named: "tt_named tt1 = ?N - {i}" "tt_named tt3 = ?N - {i}"
    using i len by (auto simp: tt_named_def ts3 sel tt1 nth_list_update)
  have keys: "tt_keys tt1 = tt_keys tt" "tt_keys tt2 = tt_keys tt" "tt_keys tt3 = tt_keys tt"
    using t by (simp_all add: tt_keys_def fun_eq_iff ts3 tt2 tt1 nth_update_same)
  have nb: "fc_tidx_buckets tt1 = fc_tidx_buckets tt" "fc_tidx_buckets tt3 = fc_tidx_buckets tt2"
    by (simp_all add: fc_tidx_buckets_def tt1 sel) (simp add: tt2 tt1)
  have "tt_index_ok tt1 ?N" using D(5) keys nb by (simp add: tt_index_ok_def tt1)
  then have "tt_index_ok tt2 (?N - {i})"
    unfolding tt2 using iN keys D(1,2) named t
    by (intro fc_tidx_drop_ok) (simp_all add: tt_keys_def tt1)
  then have idx: "tt_index_ok tt3 (tt_named tt3)"
    using keys nb sel by (simp add: tt_index_ok_def named) (simp add: tt2 tt1)
  have free: "tt_free_ok tt3 ({..<?n} - tt_named tt3)"
  proof -
    obtain fl where fl: "distinct fl" "set fl = {..<?n} - ?N" "free_chain (tts tt) ?n (tt_free tt) fl"
      using D(6) by (auto simp: tt_free_ok_def)
    have "free_chain (tts tt3) ?n (tt_free tt) fl = free_chain (tts tt) ?n (tt_free tt) fl"
    proof (rule free_chain_cong, rule ballI)
      fix j assume "j \<in> set fl"
      then have "j \<noteq> i" using fl(2) iN by blast
      then show "t_next_free (tts tt3 ! j) = t_next_free (tts tt ! j)" by (simp add: ts3)
    qed
    then have "free_chain (tts tt3) ?n (tt_free tt) fl" using fl(3) by simp
    moreover have "t_next_free (tts tt3 ! i) = tt_free tt" using i len by (simp add: ts3)
    ultimately have "free_chain (tts tt3) ?n i (i # fl)" using i by simp
    moreover have "set (i # fl) = {..<?n} - (?N - {i})" "distinct (i # fl)" using fl i iN by auto
    ultimately show ?thesis unfolding tt_free_ok_def sel named by blast
  qed
  have used: "tt_used tt3 = card {j. j \<le> ?n \<and> t_used (tts tt3 ! j)}"
    using card_used_remove [of i ?n "tts tt"] i t len D(7) by (simp add: sel ts3)
  have zero: "t_queued (tts tt3 ! j) = 0 \<and> t_inflight (tts tt3 ! j) = 0"
    if "j \<le> ?n" "\<not> t_used (tts tt3 ! j)" for j
    using D(8) [OF that(1)] that(2) t len i by (cases "j = i") (simp_all add: ts3)
  have len3: "length (tts tt3) = ?n + 1" by (simp add: ts3 len)
  show "tt_ok tt3"
    unfolding tt_ok_def sel(1) using D(1,2) sel(2) len3 idx free used zero by blast
  have "tt_index_ok (fc_tidx_relay tt3) (tt_named tt3)"
    using idx idx_okD(4) D(1,2) by (intro fc_tidx_relay_ok) (auto simp: tt_index_ok_def sel)
  moreover have "tt_named (fc_tidx_relay tt3) = tt_named tt3" by (simp add: tt_named_def)
  moreover have "tt_free_ok (fc_tidx_relay tt3) F = tt_free_ok tt3 F" for F by (simp add: tt_free_ok_def)
  ultimately show "tt_ok (fc_tidx_relay tt3)"
    unfolding tt_ok_def using D(1,2) sel len3 free used zero by simp
qed

lemma put_shared_ok:
  assumes ok: "tt_ok tt" and t: "t = tts tt ! tt_slots tt" "t_used t" "t_inflight t = 0" "t_queued t = 0"
  shows "tt_ok ((tt_set tt (tt_slots tt) (t\<lparr>t_used := False\<rparr>))\<lparr>tt_used := tt_used tt - 1\<rparr>)" (is "tt_ok ?tt")
proof -
  note D = tt_okD [OF ok]
  let ?n = "tt_slots tt"
  have ts: "tts ?tt = (tts tt)[?n := t\<lparr>t_used := False\<rparr>]" by simp
  have nth: "tts ?tt ! j = tts tt ! j" if "j < ?n" for j using that by simp
  have keys: "tt_keys ?tt = tt_keys tt" using t by (simp add: tt_keys_def fun_eq_iff nth_update_same)
  have named: "tt_named ?tt = tt_named tt" by (auto simp: tt_named_def)
  have "tt_index_ok ?tt (tt_named ?tt)" using D(5) keys named by (simp add: tt_index_ok_def fc_tidx_buckets_def)
  moreover have "free_chain (tts ?tt) ?n f fl = free_chain (tts tt) ?n f fl" for f fl
    using t by (intro free_chain_cong) (simp add: nth_update_same)
  then have "tt_free_ok ?tt F = tt_free_ok tt F" for F by (simp add: tt_free_ok_def)
  moreover have "tt_used ?tt = card {j. j \<le> ?n \<and> t_used (tts ?tt ! j)}"
    using card_used_remove [of ?n ?n "tts tt"] t D(4,7) by simp
  moreover have "t_queued (tts ?tt ! j) = 0 \<and> t_inflight (tts ?tt ! j) = 0" if "j \<le> ?n" "\<not> t_used (tts ?tt ! j)" for j
    using D(8) [OF that(1)] that(2) t D(4) by (cases "j = ?n") simp_all
  moreover have "length (tts ?tt) = ?n + 1" using D(4) by simp
  ultimately show ?thesis unfolding tt_ok_def using D(1,2,6) named by (simp del: tt_set_simps(2))
qed

text \<open>
  A slot given back while it holds nothing is free again and leaves the index; nobody's counts move.
\<close>

lemma fc_tenant_put_ok:
  assumes ok: "tt_ok tt" and mk: "tt_marks_ok tt"
  shows "tt_ok (fc_tenant_put tt slot)" "tt_marks_ok (fc_tenant_put tt slot)"
    "tt_counts_kept tt (fc_tenant_put tt slot)"
    "t_used (tts (fc_tenant_put tt slot) ! j) \<longleftrightarrow>
       t_used (tts tt ! j) \<and> \<not> (int j = slot \<and> j \<le> tt_slots tt \<and> t_inflight (tts tt ! j) = 0 \<and> t_queued (tts tt ! j) = 0)"
proof -
  note D = tt_okD [OF ok]
  define i where "i = nat slot"
  define t where "t = tts tt ! i"
  have "tt_ok (fc_tenant_put tt slot) \<and> tt_counts_kept tt (fc_tenant_put tt slot) \<and>
      tt_runnable_waiting (fc_tenant_put tt slot) = tt_runnable_waiting tt \<and>
      (\<forall>j. t_used (tts (fc_tenant_put tt slot) ! j) \<longleftrightarrow>
        t_used (tts tt ! j) \<and> \<not> (int j = slot \<and> j \<le> tt_slots tt \<and> t_inflight (tts tt ! j) = 0 \<and> t_queued (tts tt ! j) = 0))"
  proof (cases "0 \<le> slot \<and> i \<le> tt_slots tt \<and> t_used t \<and> t_inflight t = 0 \<and> t_queued t = 0")
    case False
    then have "fc_tenant_put tt slot = tt"
      by (auto simp: fc_tenant_put_def i_def t_def Let_def)
    then show ?thesis using ok False by (auto simp: i_def t_def)
  next
    case True
    then have i: "i \<le> tt_slots tt" "int i = slot" and t: "t_used t" "t_inflight t = 0" "t_queued t = 0"
      by (auto simp: i_def)
    have len: "i < length (tts tt)" using i D(4) by simp
    define tt1 where "tt1 = (tt_set tt i (t\<lparr>t_used := False\<rparr>))\<lparr>tt_used := tt_used tt - 1\<rparr>"
    define tt2 where "tt2 = fc_tidx_drop tt1 (t_key t)"
    define tt3 where "tt3 = (tt_set tt2 i ((tts tt2 ! i)\<lparr>t_next_free := tt_free tt2\<rparr>))\<lparr>tt_free := i\<rparr>"
    have c: "(tt_tenants tt = None \<or> slot < 0 \<or> tt_slots tt < i) = False"
        "(\<not> t_used t \<or> t_inflight t \<noteq> 0 \<or> t_queued t \<noteq> 0) = False" "tt_slots tt1 = tt_slots tt"
      using True D(3) by (auto simp: tt1_def)
    have put: "fc_tenant_put tt slot =
        (if i = tt_slots tt then tt1
         else if tt_tombs tt3 \<noteq> 0 \<and> tt_used tt3 = (if t_used (tts tt3 ! tt_slots tt3) then 1 else 0)
              then fc_tidx_relay tt3 else tt3)"
      unfolding fc_tenant_put_def Let_def i_def [symmetric] t_def [symmetric] tt1_def [symmetric]
        tt2_def [symmetric] tt3_def [symmetric] by (simp only: c if_False)
    have ts: "tts tt1 = (tts tt)[i := t\<lparr>t_used := False\<rparr>]"
        "tts tt3 = (tts tt)[i := t\<lparr>t_used := False, t_next_free := tt_free tt\<rparr>]"
      using len by (simp_all add: tt3_def tt2_def tt1_def)
    have kept: "tt_counts_kept tt tt1" "tt_counts_kept tt tt3"
      using D(3) by (simp_all add: tt_counts_kept_def ts nth_update_same t_def) (simp_all add: tt3_def tt2_def tt1_def)
    have rw: "tt_runnable_waiting tt1 = tt_runnable_waiting tt" "tt_runnable_waiting tt3 = tt_runnable_waiting tt"
      by (simp_all add: tt3_def tt2_def tt1_def)
    have used: "t_used (tts tt1 ! j) = (t_used (tts tt ! j) \<and> j \<noteq> i)"
        "t_used (tts tt3 ! j) = (t_used (tts tt ! j) \<and> j \<noteq> i)" for j
      using len by (cases "j = i"; simp add: ts)+
    have ok1: "tt_ok tt1" if "i = tt_slots tt"
      using put_shared_ok [OF ok, of t] t that by (simp add: tt1_def t_def)
    have ok3: "tt_ok tt3" "tt_ok (fc_tidx_relay tt3)" if "i < tt_slots tt"
      using put_named_ok [OF ok that t_def t tt1_def tt2_def tt3_def] by simp_all
    have keptr: "tt_counts_kept tt (fc_tidx_relay tt3)" using kept(2) by (simp add: tt_counts_kept_def)
    have gone: "(int j = slot \<and> j \<le> tt_slots tt \<and> t_inflight (tts tt ! j) = 0 \<and> t_queued (tts tt ! j) = 0)
        \<longleftrightarrow> j = i" for j using i t by (auto simp: t_def)
    have "tt_ok tt' \<and> tt_counts_kept tt tt' \<and> tt_runnable_waiting tt' = tt_runnable_waiting tt \<and>
        (\<forall>j. t_used (tts tt' ! j) \<longleftrightarrow> t_used (tts tt ! j) \<and> j \<noteq> i)" if e: "tt' = fc_tenant_put tt slot" for tt'
    proof -
      consider "i = tt_slots tt" "tt' = tt1" | "i < tt_slots tt" "tt' = tt3"
        | "i < tt_slots tt" "tt' = fc_tidx_relay tt3" using e i(1) unfolding put by (metis nat_less_le)
      then show ?thesis
        by cases (simp_all add: ok1 ok3 kept keptr rw used)
    qed
    then show ?thesis unfolding gone by blast
  qed
  then have ok': "tt_ok (fc_tenant_put tt slot)" and kept: "tt_counts_kept tt (fc_tenant_put tt slot)"
      and used: "\<And>j. t_used (tts (fc_tenant_put tt slot) ! j) \<longleftrightarrow>
       t_used (tts tt ! j) \<and> \<not> (int j = slot \<and> j \<le> tt_slots tt \<and> t_inflight (tts tt ! j) = 0 \<and> t_queued (tts tt ! j) = 0)"
      and rw: "tt_runnable_waiting (fc_tenant_put tt slot) = tt_runnable_waiting tt"
    by blast+
  show "tt_ok (fc_tenant_put tt slot)" by (rule ok')
  show "tt_counts_kept tt (fc_tenant_put tt slot)" by (rule kept)
  show "t_used (tts (fc_tenant_put tt slot) ! j) \<longleftrightarrow>
       t_used (tts tt ! j) \<and> \<not> (int j = slot \<and> j \<le> tt_slots tt \<and> t_inflight (tts tt ! j) = 0 \<and> t_queued (tts tt ! j) = 0)"
    by (rule used)
  show "tt_marks_ok (fc_tenant_put tt slot)"
    by (rule tt_marks_kept [OF mk kept rw]) (unfold used, auto)
qed

section \<open>The counts of the tenants\<close>

text \<open>The queue entries and the executing units a slot number holds; 0 where there is no such slot.\<close>

definition tt_has :: "fc_ttab \<Rightarrow> int \<Rightarrow> bool" where
  "tt_has tt s \<longleftrightarrow> tt_tenants tt \<noteq> None \<and> 0 \<le> s \<and> nat s \<le> tt_slots tt"

definition tq :: "fc_ttab \<Rightarrow> int \<Rightarrow> nat" where
  "tq tt s = (if tt_has tt s then unat (t_queued (tts tt ! nat s)) else 0)"

definition ti :: "fc_ttab \<Rightarrow> int \<Rightarrow> nat" where
  "ti tt s = (if tt_has tt s then unat (t_inflight (tts tt ! nat s)) else 0)"

lemma tt_counts_kept_tq: "tt_counts_kept tt tt' \<Longrightarrow> tq tt' = tq tt \<and> ti tt' = ti tt"
  by (auto simp: tt_counts_kept_def tq_def ti_def tt_has_def fun_eq_iff)

lemma tt_used_of_count:
  assumes "tt_inv tt" "tq tt s > 0 \<or> ti tt s > 0" shows "tt_has tt s \<and> t_used (tts tt ! nat s)"
proof -
  have has: "tt_has tt s" using assms(2) by (auto simp: tq_def ti_def split: if_splits)
  then have "tt_ok tt" "nat s \<le> tt_slots tt" using assms(1) by (simp_all add: tt_inv_def tt_has_def)
  note zero = tt_okD(8) [OF this]
  have "t_used (tts tt ! nat s)"
  proof (rule ccontr)
    assume "\<not> ?thesis"
    from zero [OF this] assms(2) has show False by (simp add: tq_def ti_def)
  qed
  with has show ?thesis ..
qed

text \<open>A count of a slot set to a value, with its mark kept.\<close>

lemma tt_recount_slot:
  assumes ok: "tt_ok tt" and mk: "tt_marks_ok tt" and i: "i \<le> tt_slots tt" and u: "t_used (tts tt ! i)"
    and t: "t_used t" "t_key t = t_key (tts tt ! i)" "t_next_free t = t_next_free (tts tt ! i)"
      "t_waiting_runnable t = t_waiting_runnable (tts tt ! i)"
    and tt': "tt' = fc_tenant_mark (tt_set tt i t) i"
  shows "tt_ok tt'" "tt_marks_ok tt'" "tt_slots tt' = tt_slots tt" "tt_bound tt' = tt_bound tt" "tt_tenants tt' \<noteq> None"
    "t_queued (tts tt' ! j) = (if j = i then t_queued t else t_queued (tts tt ! j))"
    "t_inflight (tts tt' ! j) = (if j = i then t_inflight t else t_inflight (tts tt ! j))"
    "t_used (tts tt' ! j) = t_used (tts tt ! j)" "t_key (tts tt' ! j) = t_key (tts tt ! j)"
proof -
  note len = tt_okD(4) [OF ok]
  have ok1: "tt_ok (tt_set tt i t)" using ok i u t by (intro tt_ok_set_counts) simp_all
  have sl: "i \<le> tt_slots (tt_set tt i t)" "length (tts (tt_set tt i t)) = tt_slots (tt_set tt i t) + 1"
    using i len by simp_all
  show "tt_ok tt'" unfolding tt' by (rule fc_tenant_mark_ok [OF ok1 sl(1)])
  then show "tt_tenants tt' \<noteq> None" by (rule tt_okD(3))
  show "tt_marks_ok tt'" unfolding tt' using fc_tenant_mark_marks [OF tt_marks_but_set [OF mk len i t(4)] sl] .
  show "t_queued (tts tt' ! j) = (if j = i then t_queued t else t_queued (tts tt ! j))"
    "t_inflight (tts tt' ! j) = (if j = i then t_inflight t else t_inflight (tts tt ! j))"
    "t_used (tts tt' ! j) = t_used (tts tt ! j)" "t_key (tts tt' ! j) = t_key (tts tt ! j)"
    using i len t u by (simp_all add: tt' nth_update_same)
qed (simp_all add: tt')

lemma fc_tenant_inc_ok:
  assumes inv: "tt_inv tt" and s: "tt_has tt s" "t_used (tts tt ! nat s)"
    and room: "(if queued then tq tt s else ti tt s) + 1 < 2 ^ 32"
  shows "tt_inv (fc_tenant_inc tt (nat s) queued)"
    "tq (fc_tenant_inc tt (nat s) queued) = (if queued then (tq tt)(s := tq tt s + 1) else tq tt)"
    "ti (fc_tenant_inc tt (nat s) queued) = (if queued then ti tt else (ti tt)(s := ti tt s + 1))"
    "tt_slots (fc_tenant_inc tt (nat s) queued) = tt_slots tt" "tt_bound (fc_tenant_inc tt (nat s) queued) = tt_bound tt"
proof -
  let ?i = "nat s" and ?t = "tts tt ! nat s"
  define t where "t = (if queued then ?t\<lparr>t_queued := t_queued ?t + 1\<rparr> else ?t\<lparr>t_inflight := t_inflight ?t + 1\<rparr>)"
  have ok: "tt_ok tt" "tt_marks_ok tt" "?i \<le> tt_slots tt" using inv s(1) by (simp_all add: tt_inv_def tt_has_def)
  have f: "t_used t" "t_key t = t_key ?t" "t_next_free t = t_next_free ?t" "t_waiting_runnable t = t_waiting_runnable ?t"
    using s(2) by (simp_all add: t_def)
  have inc: "fc_tenant_inc tt ?i queued = fc_tenant_mark (tt_set tt ?i t) ?i"
    by (simp add: fc_tenant_inc_def Let_def t_def)
  define tt' where "tt' = fc_tenant_inc tt ?i queued"
  note R = tt_recount_slot [OF ok s(2) f refl, folded inc, folded tt'_def]
  show "tt_inv (fc_tenant_inc tt ?i queued)" using R(1-3) inv by (simp add: tt_inv_def tt'_def)
  have has: "tt_has tt' s' = tt_has tt s'" for s'
    using R(3,5) tt_okD(3) [OF ok(1)] by (simp add: tt_has_def)
  have eq: "nat s' = ?i \<longleftrightarrow> s' = s" if "tt_has tt s'" for s' using that s(1) by (auto simp: tt_has_def)
  have q: "unat (t_queued ?t + 1) = unat (t_queued ?t) + 1" if queued
    using room s(1) that by (simp add: tq_def unat_word_ariths)
  have f: "unat (t_inflight ?t + 1) = unat (t_inflight ?t) + 1" if "\<not> queued"
    using room s(1) that by (simp add: ti_def unat_word_ariths)
  have "tq tt' = (if queued then (tq tt)(s := tq tt s + 1) else tq tt)"
    using q s(1) by (auto simp: fun_eq_iff tq_def has R(6) eq t_def)
  moreover have "ti tt' = (if queued then ti tt else (ti tt)(s := ti tt s + 1))"
    using f s(1) by (auto simp: fun_eq_iff ti_def has R(7) eq t_def)
  ultimately show "tq (fc_tenant_inc tt ?i queued) = (if queued then (tq tt)(s := tq tt s + 1) else tq tt)"
      "ti (fc_tenant_inc tt ?i queued) = (if queued then ti tt else (ti tt)(s := ti tt s + 1))"
      "tt_slots (fc_tenant_inc tt ?i queued) = tt_slots tt" "tt_bound (fc_tenant_inc tt ?i queued) = tt_bound tt"
    using R(3,4) by (simp_all add: tt'_def)
qed

text \<open>Giving back a slot moves no count.\<close>

lemma fc_tenant_put_inv:
  assumes "tt_inv tt"
  shows "tt_inv (fc_tenant_put tt s)" "tq (fc_tenant_put tt s) = tq tt" "ti (fc_tenant_put tt s) = ti tt"
    "tt_slots (fc_tenant_put tt s) = tt_slots tt" "tt_bound (fc_tenant_put tt s) = tt_bound tt"
    "tt_tenants (fc_tenant_put tt s) = None \<longleftrightarrow> tt_tenants tt = None"
proof -
  have "tt_inv (fc_tenant_put tt s) \<and> tt_counts_kept tt (fc_tenant_put tt s)"
  proof (cases "tt_tenants tt = None")
    case True
    then show ?thesis using assms by (simp add: fc_tenant_put_def)
  next
    case False
    then have "tt_ok tt" "tt_marks_ok tt" using assms by (simp_all add: tt_inv_def)
    from fc_tenant_put_ok(1-3) [OF this] assms show ?thesis
      by (auto simp: tt_inv_def tt_counts_kept_def)
  qed
  then show "tt_inv (fc_tenant_put tt s)" "tq (fc_tenant_put tt s) = tq tt" "ti (fc_tenant_put tt s) = ti tt"
      "tt_slots (fc_tenant_put tt s) = tt_slots tt" "tt_bound (fc_tenant_put tt s) = tt_bound tt"
      "tt_tenants (fc_tenant_put tt s) = None \<longleftrightarrow> tt_tenants tt = None"
    using tt_counts_kept_tq by (auto simp: tt_counts_kept_def)
qed

text \<open>One count down: exactly one, never below zero, an underflow counted where there was none.\<close>

lemma fc_tenant_dec_ok:
  assumes inv: "tt_inv tt" and res: "fc_tenant_dec tt s queued = (tt', an)"
  shows "tt_inv tt'"
    "tq tt' = (if queued then (tq tt)(s := tq tt s - 1) else tq tt)"
    "ti tt' = (if queued then ti tt else (ti tt)(s := ti tt s - 1))"
    "tt_slots tt' = tt_slots tt" "tt_bound tt' = tt_bound tt" "tt_tenants tt' = None \<longleftrightarrow> tt_tenants tt = None"
    "(if queued then tq tt s else ti tt s) > 0 \<longrightarrow> an = []"
proof -
  let ?i = "nat s" and ?t = "tts tt ! nat s"
  let ?ctr = "if queued then t_queued ?t else t_inflight ?t"
  have *: "tt_inv tt' \<and> tq tt' = (if queued then (tq tt)(s := tq tt s - 1) else tq tt) \<and>
    ti tt' = (if queued then ti tt else (ti tt)(s := ti tt s - 1)) \<and>
    tt_slots tt' = tt_slots tt \<and> tt_bound tt' = tt_bound tt \<and> (tt_tenants tt' = None \<longleftrightarrow> tt_tenants tt = None) \<and>
    ((if queued then tq tt s else ti tt s) > 0 \<longrightarrow> an = [])"
  proof (cases "tt_has tt s \<and> t_used ?t")
    case False
    then have e: "tt' = tt" "an = []" using res by (auto simp: fc_tenant_dec_def tt_has_def not_le)
    moreover have "tq tt s = 0" "ti tt s = 0" using False tt_used_of_count [OF inv, of s] by (meson gr0I)+
    ultimately show ?thesis using inv by auto
  next
    case True
    then have ok: "tt_ok tt" "tt_marks_ok tt" "?i \<le> tt_slots tt" "tt_tenants tt \<noteq> None" "\<not> s < 0"
      using inv by (simp_all add: tt_inv_def tt_has_def)
    define t where "t = (if ?ctr = 0 then ?t else if queued then ?t\<lparr>t_queued := ?ctr - 1\<rparr> else ?t\<lparr>t_inflight := ?ctr - 1\<rparr>)"
    define tt1 where "tt1 = fc_tenant_mark (tt_set tt ?i t) ?i"
    have "tt_set tt ?i ?t = tt"
      using ok(4) by (auto simp: tt_set_def tts_def)
    then have d: "tt' = fc_tenant_put tt1 s" "an = (if ?ctr = 0 then [FC_A_UNDERFLOW] else [])"
      using True ok res by (auto simp: fc_tenant_dec_def Let_def t_def tt1_def)
    have f: "t_used t" "t_key t = t_key ?t" "t_next_free t = t_next_free ?t" "t_waiting_runnable t = t_waiting_runnable ?t"
      using True by (simp_all add: t_def)
    note R = tt_recount_slot [OF ok(1-3) _ f tt1_def]
    have inv1: "tt_inv tt1" using R(1-3) True inv by (simp add: tt_inv_def)
    have has: "tt_has tt1 s' = tt_has tt s'" for s' using R(3,5) True ok by (simp add: tt_has_def)
    have eq: "nat s' = ?i \<longleftrightarrow> s' = s" if "tt_has tt s'" for s' using that True by (auto simp: tt_has_def)
    have q1: "tq tt1 = (if queued then (tq tt)(s := tq tt s - 1) else tq tt)"
      using True by (auto simp: fun_eq_iff tq_def has R(6) eq t_def unat_dec)
    have i1: "ti tt1 = (if queued then ti tt else (ti tt)(s := ti tt s - 1))"
      using True by (auto simp: fun_eq_iff ti_def has R(7) eq t_def unat_dec)
    show ?thesis
      using fc_tenant_put_inv [OF inv1, of s] inv1 q1 i1 R(3-5) True ok(4) d
      by (auto simp: tq_def ti_def)
  qed
  then show "tt_inv tt'" "tt_slots tt' = tt_slots tt" "tt_bound tt' = tt_bound tt"
    "tt_tenants tt' = None \<longleftrightarrow> tt_tenants tt = None" "(if queued then tq tt s else ti tt s) > 0 \<longrightarrow> an = []"
    by blast+
  show "tq tt' = (if queued then (tq tt)(s := tq tt s - 1) else tq tt)" using * by blast
  show "ti tt' = (if queued then ti tt else (ti tt)(s := ti tt s - 1))" using * by blast
qed

text \<open>Taking a slot moves no count either, and the slot is in use afterwards.\<close>

lemma fc_tenant_get_shared:
  assumes ok: "tt_ok tt" and mk: "tt_marks_ok tt" and key: "tt_slot_of tt key = None" and full: "\<not> tt_free tt < tt_slots tt"
  obtains tt' where "fc_tenant_get calloc_ok dead tt key cnt = (int (tt_slots tt), tt', if cnt then [FC_A_TENANT_TABLE_FULL] else [])"
    "tt_ok tt'" "tt_marks_ok tt'" "tt_slots tt' = tt_slots tt" "tt_bound tt' = tt_bound tt" "t_used (tts tt' ! tt_slots tt)"
    "tts tt' = (tts tt)[tt_slots tt := (if t_used (tts tt ! tt_slots tt) then tts tt ! tt_slots tt
                                        else fresh_tenant key (tts tt ! tt_slots tt))]"
proof -
  note D = tt_okD [OF ok]
  let ?n = "tt_slots tt" and ?t = "tts tt ! tt_slots tt"
  let ?f = "fresh_tenant key ?t"
  have absent: "\<forall>i \<in> tt_named tt. tt_keys tt i \<noteq> key" using key tt_slot_of_None [OF D(3)] by simp
  obtain f where f: "fc_tidx_find tt key = (fc_tidx_buckets tt, f)" using fc_tidx_find_absent [OF D(5) absent] by metis
  define tt' where "tt' = (if t_used ?t then tt else (tt_set tt ?n ?f)\<lparr>tt_used := tt_used tt + 1\<rparr>)"
  have get: "fc_tenant_get calloc_ok dead tt key cnt = (int ?n, tt', if cnt then [FC_A_TENANT_TABLE_FULL] else [])"
    using D(3) f full by (simp add: fc_tenant_get_def fc_tenant_table_ensure_def Let_def tt'_def fresh_tenant_def)
  have ts: "tts tt' = (tts tt)[?n := (if t_used ?t then ?t else ?f)]" by (simp add: tt'_def)
  show thesis
  proof (cases "t_used ?t")
    case True
    then show ?thesis using that [of tt] get ok mk ts by (simp add: tt'_def)
  next
    case False
    have sel: "tt_slots tt' = ?n" "tt_bound tt' = tt_bound tt" "tt_tenants tt' \<noteq> None" "tt_index tt' = tt_index tt"
        "tt_free tt' = tt_free tt" "tt_tombs tt' = tt_tombs tt" "tt_used tt' = Suc (tt_used tt)"
        "tt_runnable_waiting tt' = tt_runnable_waiting tt" "fc_tidx_buckets tt' = fc_tidx_buckets tt"
      using False by (simp_all add: tt'_def fc_tidx_buckets_def)
    have len: "?n < length (tts tt)" using D(4) by simp
    have low: "tts tt' ! j = tts tt ! j" if "j \<noteq> ?n" for j using that by (simp add: ts)
    have top: "tts tt' ! ?n = ?f" using len False by (simp add: ts)
    have named: "tt_named tt' = tt_named tt" using low by (auto simp: tt_named_def sel)
    have "idx_ok (fc_tidx_buckets tt) (tt_keys tt') (tt_named tt) (tt_index tt) =
        idx_ok (fc_tidx_buckets tt) (tt_keys tt) (tt_named tt) (tt_index tt)"
      by (rule idx_ok_cong) (use low in \<open>auto simp: tt_keys_def tt_named_def\<close>)
    then have "tt_index_ok tt' (tt_named tt')" using D(5) named by (simp add: tt_index_ok_def sel)
    moreover have "free_chain (tts tt') ?n g fl = free_chain (tts tt) ?n g fl" for g fl
      using len False by (intro free_chain_cong) (simp add: ts nth_update_same)
    then have "tt_free_ok tt' F = tt_free_ok tt F" for F by (simp add: tt_free_ok_def sel)
    moreover have "tt_used tt' = card {j. j \<le> ?n \<and> t_used (tts tt' ! j)}"
      using card_used_insert [of ?n ?n "tts tt" ?f] D(4,7) False by (simp add: sel ts)
    moreover have "t_queued (tts tt' ! j) = 0 \<and> t_inflight (tts tt' ! j) = 0" if "j \<le> ?n" "\<not> t_used (tts tt' ! j)" for j
      using D(8) [OF that(1)] that(2) low [of j] top by (cases "j = ?n") auto
    moreover have "length (tts tt') = ?n + 1" using D(4) by (simp add: ts)
    ultimately have "tt_ok tt'" unfolding tt_ok_def sel(1) using D(1,2,6) sel(3) named by simp
    moreover have "tt_marks_ok tt'"
    proof -
      have w: "\<not> t_waiting_runnable ?t" using mk False by (simp add: tt_marks_ok_def tenant_runnable_def)
      have "{j. j \<le> ?n \<and> t_waiting_runnable (tts tt' ! j)} = {j. j \<le> ?n \<and> t_waiting_runnable (tts tt ! j)}"
        using w low top by (metis fresh_tenant_simps(5))
      moreover have "t_waiting_runnable (tts tt' ! j) = tenant_runnable (tt_bound tt) (tts tt' ! j)" if "j \<le> ?n" for j
        using mk that low [of j] top by (cases "j = ?n") (simp_all add: tt_marks_ok_def)
      ultimately show ?thesis using mk by (simp add: tt_marks_ok_def sel)
    qed
    ultimately show ?thesis using that [of tt'] get sel ts top by simp
  qed
qed

lemma tq_fresh:
  assumes "tt_ok tt" "i \<le> tt_slots tt" "\<not> t_used (tts tt ! i)" "tt_tenants tt' \<noteq> None" "tt_slots tt' = tt_slots tt"
    "tts tt' = (tts tt)[i := fresh_tenant key (tts tt ! i)]"
  shows "tq tt' = tq tt \<and> ti tt' = ti tt"
proof -
  have "t_queued (tts tt' ! j) = t_queued (tts tt ! j)" "t_inflight (tts tt' ! j) = t_inflight (tts tt ! j)" for j
    using tt_okD(8) [OF assms(1-3)] by (simp_all add: assms(6) nth_update_same)
  then show ?thesis using tt_okD(3) [OF assms(1)] assms(4,5) by (simp add: fun_eq_iff tq_def ti_def tt_has_def)
qed

lemma fc_tenant_get_ok:
  assumes ok: "tt_ok tt" and mk: "tt_marks_ok tt" and res: "fc_tenant_get calloc_ok dead tt key cnt = (s, tt', an)"
  shows "tt_ok tt' \<and> tt_marks_ok tt' \<and> tq tt' = tq tt \<and> ti tt' = ti tt \<and> tt_has tt' s \<and> t_used (tts tt' ! nat s) \<and>
    tt_slots tt' = tt_slots tt \<and> tt_bound tt' = tt_bound tt \<and>
    (s = int (tt_slots tt) \<or> tt_slot_of tt' key = Some (nat s))"
proof (cases "tt_slot_of tt key")
  case (Some i)
  then have i: "i \<in> tt_named tt" using tt_slot_of_Some [OF ok] by simp
  have "s = int i" "tt' = tt" using res fc_tenant_get_known [OF ok Some] by auto
  with Some i ok mk tt_okD(3) [OF ok] show ?thesis by (auto simp: tt_named_def tt_has_def)
next
  case None
  show ?thesis
  proof (cases "tt_free tt < tt_slots tt")
    case True
    let ?i = "tt_free tt"
    obtain tt1 where g: "fc_tenant_get calloc_ok dead tt key cnt = (int ?i, tt1, [])" "tt_ok tt1" "tt_marks_ok tt1"
        "\<not> t_used (tts tt ! ?i)" "tt_slots tt1 = tt_slots tt" "tt_bound tt1 = tt_bound tt"
        "tts tt1 = (tts tt)[?i := fresh_tenant key (tts tt ! ?i)]"
      using fc_tenant_get_new [OF ok mk None True] .
    have e: "s = int ?i" "tt' = tt1" using res g(1) by auto
    have u: "t_used (tts tt1 ! ?i)" "t_key (tts tt1 ! ?i) = key" using True tt_okD(4) [OF ok] by (simp_all add: g(7))
    then have "tt_slot_of tt1 key = Some ?i"
      using tt_slot_of_Some [OF g(2), of key ?i] True by (simp add: tt_named_def tt_keys_def g(5))
    moreover have "tq tt1 = tq tt \<and> ti tt1 = ti tt"
      using tq_fresh [OF ok _ g(4) tt_okD(3) [OF g(2)] g(5,7)] True by simp
    ultimately show ?thesis using g(2,3,5,6) u True tt_okD(3) [OF g(2)] by (simp add: e tt_has_def)
  next
    case False
    let ?n = "tt_slots tt"
    obtain tt1 where g: "fc_tenant_get calloc_ok dead tt key cnt = (int ?n, tt1, if cnt then [FC_A_TENANT_TABLE_FULL] else [])"
        "tt_ok tt1" "tt_marks_ok tt1" "tt_slots tt1 = ?n" "tt_bound tt1 = tt_bound tt" "t_used (tts tt1 ! ?n)"
        "tts tt1 = (tts tt)[?n := (if t_used (tts tt ! ?n) then tts tt ! ?n else fresh_tenant key (tts tt ! ?n))]"
      using fc_tenant_get_shared [OF ok mk None False] .
    have e: "s = int ?n" "tt' = tt1" using res g(1) by auto
    have "tq tt1 = tq tt \<and> ti tt1 = ti tt"
    proof (cases "t_used (tts tt ! ?n)")
      case True
      then show ?thesis using g(4,7) tt_okD(3) [OF ok] tt_okD(3) [OF g(2)]
        by (simp add: fun_eq_iff tq_def ti_def tt_has_def)
    next
      case False
      then show ?thesis using tq_fresh [OF ok _ False tt_okD(3) [OF g(2)] g(4)] g(7) by simp
    qed
    then show ?thesis using g(2-6) tt_okD(3) [OF g(2)] by (simp add: e tt_has_def)
  qed
qed

lemma fc_tenant_get_inv:
  assumes inv: "tt_inv tt" and res: "fc_tenant_get calloc_ok dead tt key cnt = (s, tt', an)"
  shows "tt_inv tt' \<and> tq tt' = tq tt \<and> ti tt' = ti tt \<and>
    (s < 0 \<longrightarrow> s = -1 \<and> tt_tenants tt' = None \<and> an = []) \<and>
    (0 \<le> s \<longrightarrow> tt_has tt' s \<and> t_used (tts tt' ! nat s) \<and>
              (s = int (tt_slots tt') \<or> tt_slot_of tt' key = Some (nat s)))"
proof -
  obtain rc tt1 where en: "fc_tenant_table_ensure calloc_ok dead tt = (rc, tt1)" by fastforce
  note E = fc_tenant_table_ensure_ok [OF inv en]
  have cnt1: "tq tt1 = tq tt \<and> ti tt1 = ti tt"
  proof (cases "tt_tenants tt = None")
    case True
    have z: "t_queued (ts ! i) = 0 \<and> t_inflight (ts ! i) = 0"
      if "ts = map (\<lambda>i. fc_tenant_zero\<lparr>t_next_free := i + 1\<rparr>) [0..<n] @ [fc_tenant_zero]" "i \<le> n" for ts i n
      using that by (auto simp: nth_append fc_tenant_zero_def)
    have "tt_has tt1 s' \<longrightarrow> t_queued (tts tt1 ! nat s') = 0 \<and> t_inflight (tts tt1 ! nat s') = 0" for s'
      using en True by (auto simp: fc_tenant_table_ensure_def Let_def tt_has_def tts_def z split: if_splits)
    then show ?thesis using True by (auto simp: fun_eq_iff tq_def ti_def tt_has_def)
  next
    case False
    then show ?thesis using en by (auto simp: fc_tenant_table_ensure_def)
  qed
  show ?thesis
  proof (cases "rc = 0")
    case False
    then have "s = -1" "tt' = tt1" "an = []" using res en by (auto simp: fc_tenant_get_def)
    then show ?thesis using E False cnt1 by simp
  next
    case True
    then have ok1: "tt_ok tt1" "tt_marks_ok tt1" using E by simp_all
    have "fc_tenant_get calloc_ok dead tt1 key cnt = (s, tt', an)"
      using res en True tt_okD(3) [OF ok1(1)] by (simp add: fc_tenant_get_def fc_tenant_table_ensure_def)
    from fc_tenant_get_ok [OF ok1 this] E cnt1 show ?thesis by (auto simp: tt_inv_def tt_has_def)
  qed
qed

section \<open>Whether a waiter could run\<close>

lemma fc_tenant_recount_eq:
  "fc_tenant_recount tt i =
     (tt_set tt i ((tts tt ! i)\<lparr>t_waiting_runnable := tenant_runnable (tt_bound tt) (tts tt ! i)\<rparr>))
       \<lparr>tt_runnable_waiting := tt_runnable_waiting tt + (if tenant_runnable (tt_bound tt) (tts tt ! i) then 1 else 0)\<rparr>"
  if "i < length (tts tt)"
proof -
  have r: "tenant_runnable b (t\<lparr>t_waiting_runnable := x\<rparr>) = tenant_runnable b t" for b t x
    by (simp add: tenant_runnable_def)
  show ?thesis using that by (simp add: fc_tenant_recount_def fc_tenant_mark_def Let_def r tt_set_def tts_def)
qed

text \<open>The recount loop up to slot \<open>m\<close>.\<close>

lemma fc_tenant_recount_fold:
  assumes ok: "tt_ok tt0"
  shows "m \<le> tt_slots tt0 + 1 \<Longrightarrow>
     let tt = fold (\<lambda>i tt. fc_tenant_recount tt i) [0..<m] (tt0\<lparr>tt_bound := b, tt_runnable_waiting := 0\<rparr>)
     in tt_ok tt \<and> tt_slots tt = tt_slots tt0 \<and> tt_bound tt = b \<and>
        (\<forall>j. t_used (tts tt ! j) = t_used (tts tt0 ! j) \<and> t_queued (tts tt ! j) = t_queued (tts tt0 ! j) \<and>
             t_inflight (tts tt ! j) = t_inflight (tts tt0 ! j) \<and> t_key (tts tt ! j) = t_key (tts tt0 ! j)) \<and>
        (\<forall>j < m. t_waiting_runnable (tts tt ! j) = tenant_runnable b (tts tt0 ! j)) \<and>
        tt_runnable_waiting tt = card {j. j < m \<and> tenant_runnable b (tts tt0 ! j)}"
proof (induction m)
  case 0
  have "tt_ok (tt0\<lparr>tt_bound := b, tt_runnable_waiting := 0\<rparr>) = tt_ok tt0" by (rule tt_ok_cong) simp_all
  then show ?case using ok by simp
next
  case (Suc m)
  define tt where "tt = fold (\<lambda>i tt. fc_tenant_recount tt i) [0..<m] (tt0\<lparr>tt_bound := b, tt_runnable_waiting := 0\<rparr>)"
  have IH: "tt_ok tt" "tt_slots tt = tt_slots tt0" "tt_bound tt = b"
      "\<And>j. t_used (tts tt ! j) = t_used (tts tt0 ! j) \<and> t_queued (tts tt ! j) = t_queued (tts tt0 ! j) \<and>
             t_inflight (tts tt ! j) = t_inflight (tts tt0 ! j) \<and> t_key (tts tt ! j) = t_key (tts tt0 ! j)"
      "\<And>j. j < m \<Longrightarrow> t_waiting_runnable (tts tt ! j) = tenant_runnable b (tts tt0 ! j)"
      "tt_runnable_waiting tt = card {j. j < m \<and> tenant_runnable b (tts tt0 ! j)}"
    using Suc by (simp_all add: Let_def tt_def)
  let ?r = "tenant_runnable b (tts tt0 ! m)"
  let ?t = "(tts tt ! m)\<lparr>t_waiting_runnable := ?r\<rparr>"
  have m: "m < length (tts tt)" "m \<le> tt_slots tt" using Suc(2) tt_okD(4) [OF IH(1)] IH(2) by simp_all
  have r: "tenant_runnable b (tts tt ! m) = ?r" using IH(4) [of m] by (simp add: tenant_runnable_def)
  have tt': "fc_tenant_recount tt m = (tt_set tt m ?t)\<lparr>tt_runnable_waiting := tt_runnable_waiting tt + (if ?r then 1 else 0)\<rparr>"
    using fc_tenant_recount_eq [OF m(1)] IH(3) r by simp
  have "tt_ok (tt_set tt m ?t)" using tt_okD(8) [OF IH(1) m(2)] IH(1) m by (intro tt_ok_set_counts) simp_all
  moreover have "tt_ok (fc_tenant_recount tt m) = tt_ok (tt_set tt m ?t)" unfolding tt' by (rule tt_ok_cong) simp_all
  moreover have "t_waiting_runnable ((tts tt)[m := ?t] ! j) = tenant_runnable b (tts tt0 ! j)" if "j < Suc m" for j
    using IH(5) [of j] that m by (cases "j = m") simp_all
  moreover have "{j. j < Suc m \<and> tenant_runnable b (tts tt0 ! j)} =
      {j. j < m \<and> tenant_runnable b (tts tt0 ! j)} \<union> (if ?r then {m} else {})"
    by (auto simp: less_Suc_eq)
  then have "card {j. j < Suc m \<and> tenant_runnable b (tts tt0 ! j)} = tt_runnable_waiting tt + (if ?r then 1 else 0)"
    using IH(6) by (simp add: card_insert_if)
  ultimately show ?case using IH(2-4) by (simp add: Let_def tt_def [symmetric] tt' nth_update_same)
qed

lemma fc_tenant_waiter_can_run_ok:
  assumes inv: "tt_inv tt" and res: "fc_tenant_waiter_can_run tt b = (r, tt')"
  shows "tt_inv tt'" "tq tt' = tq tt" "ti tt' = ti tt" "tt_slots tt' = tt_slots tt"
    "tt_tenants tt' = None \<longleftrightarrow> tt_tenants tt = None" "tt_tenants tt \<noteq> None \<longrightarrow> tt_bound tt' = b"
    "r \<longleftrightarrow> tt_tenants tt \<noteq> None \<and> (\<exists>i \<le> tt_slots tt. tenant_runnable b (tts tt ! i))"
proof -
  have "tt_inv tt' \<and> tq tt' = tq tt \<and> ti tt' = ti tt \<and> tt_slots tt' = tt_slots tt \<and>
    (tt_tenants tt' = None \<longleftrightarrow> tt_tenants tt = None) \<and> (tt_tenants tt \<noteq> None \<longrightarrow> tt_bound tt' = b) \<and>
    (r \<longleftrightarrow> tt_tenants tt \<noteq> None \<and> (\<exists>i \<le> tt_slots tt. tenant_runnable b (tts tt ! i)))"
  proof (cases "tt_tenants tt = None")
    case True
    then show ?thesis using inv res by (auto simp: fc_tenant_waiter_can_run_def)
  next
    case False
    then have ok: "tt_ok tt" "tt_marks_ok tt" using inv by (simp_all add: tt_inv_def)
    show ?thesis
    proof (cases "b = tt_bound tt")
      case True
      then have "tt' = tt" "r \<longleftrightarrow> tt_runnable_waiting tt > 0"
        using res False by (auto simp: fc_tenant_waiter_can_run_def)
      then show ?thesis using ok inv True False by (auto simp: tt_marks_ok_def card_gt_0_iff)
    next
      case neq: False
      define n where "n = tt_slots tt"
      note F = fc_tenant_recount_fold [OF ok(1), of "n + 1" b, unfolded Let_def]
      have t': "tt' = fold (\<lambda>i tt. fc_tenant_recount tt i) [0..<n + 1] (tt\<lparr>tt_bound := b, tt_runnable_waiting := 0\<rparr>)"
        and r: "r \<longleftrightarrow> tt_runnable_waiting tt' > 0"
        using res False neq by (auto simp: fc_tenant_waiter_can_run_def n_def Let_def)
      have G: "tt_ok tt'" "tt_slots tt' = n" "tt_bound tt' = b"
        "\<And>j. t_used (tts tt' ! j) = t_used (tts tt ! j) \<and> t_queued (tts tt' ! j) = t_queued (tts tt ! j) \<and>
              t_inflight (tts tt' ! j) = t_inflight (tts tt ! j) \<and> t_key (tts tt' ! j) = t_key (tts tt ! j)"
        "\<And>j. j \<le> n \<Longrightarrow> t_waiting_runnable (tts tt' ! j) = tenant_runnable b (tts tt ! j)"
        "tt_runnable_waiting tt' = card {j. j \<le> n \<and> tenant_runnable b (tts tt ! j)}"
        using F unfolding t' [symmetric] by (simp_all add: n_def less_Suc_eq_le)
      have run: "tenant_runnable b (tts tt' ! j) = tenant_runnable b (tts tt ! j)" for j
        using G(4) [of j] by (simp add: tenant_runnable_def)
      have "{j. j \<le> n \<and> t_waiting_runnable (tts tt' ! j)} = {j. j \<le> n \<and> tenant_runnable b (tts tt ! j)}"
        using G(5) by auto
      then have "tt_marks_ok tt'" using G(2,3,5,6) run by (simp add: tt_marks_ok_def)
      then have "tt_inv tt'" using G(1,2) inv by (simp add: tt_inv_def n_def)
      moreover have "tq tt' = tq tt \<and> ti tt' = ti tt"
        using G(2,4) False tt_okD(3) [OF G(1)] by (simp add: fun_eq_iff tq_def ti_def tt_has_def n_def)
      moreover have "r \<longleftrightarrow> (\<exists>i \<le> n. tenant_runnable b (tts tt ! i))" using r G(6) by (auto simp: card_gt_0_iff)
      ultimately show ?thesis using G(2,3) False tt_okD(3) [OF G(1)] by (auto simp: n_def)
    qed
  qed
  then show "tt_inv tt'" "tq tt' = tq tt" "ti tt' = ti tt" "tt_slots tt' = tt_slots tt"
    "tt_tenants tt' = None \<longleftrightarrow> tt_tenants tt = None" "tt_tenants tt \<noteq> None \<longrightarrow> tt_bound tt' = b"
    "r \<longleftrightarrow> tt_tenants tt \<noteq> None \<and> (\<exists>i \<le> tt_slots tt. tenant_runnable b (tts tt ! i))" by blast+
qed

section \<open>The table as an interface\<close>

lemma tt_slot_of_update:
  assumes "tt_ok tt" "tt_ok tt'" "tt_slots tt' = tt_slots tt" "i < tt_slots tt" "\<not> t_used (tts tt ! i)"
    "tts tt' = (tts tt)[i := fresh_tenant key (tts tt ! i)]" "tt_slot_of tt key = None"
  shows "tt_slot_of tt' = (tt_slot_of tt)(key \<mapsto> i)"
proof
  fix k
  have nth: "tts tt' ! j = (if j = i then fresh_tenant key (tts tt ! i) else tts tt ! j)" for j
    using assms tt_okD(4) [OF assms(1)] by (simp add: nth_list_update)
  have iff: "tt_slot_of tt' k = Some j \<longleftrightarrow> (j = i \<and> k = key) \<or> tt_slot_of tt k = Some j" for j
    using assms(3-5) unfolding tt_slot_of_Some [OF assms(1)] tt_slot_of_Some [OF assms(2)] tt_named_def tt_keys_def
    by (auto simp: nth)
  show "tt_slot_of tt' k = ((tt_slot_of tt)(key \<mapsto> i)) k"
  proof (cases "k = key")
    case True
    then show ?thesis using iff [of i] by simp
  next
    case False
    then show ?thesis using iff by (metis fun_upd_other option.exhaust)
  qed
qed

text \<open>
  What the admission and the queue rely on: a tenant with a slot keeps it, a new one is given a slot
  of its own as long as one is free, and a slot names one tenant.
\<close>

locale slot_table =
  fixes inv :: "'s \<Rightarrow> bool" and slot_of :: "'s \<Rightarrow> u64 \<Rightarrow> nat option" and full :: "'s \<Rightarrow> bool"
    and get :: "'s \<Rightarrow> u64 \<Rightarrow> int \<times> 's"
  assumes slot_unique: "inv s \<Longrightarrow> slot_of s k = Some i \<Longrightarrow> slot_of s k' = Some i \<Longrightarrow> k = k'"
    and get_known: "inv s \<Longrightarrow> slot_of s k = Some i \<Longrightarrow> get s k = (int i, s)"
    and get_new: "inv s \<Longrightarrow> slot_of s k = None \<Longrightarrow> \<not> full s \<Longrightarrow> get s k = (j, s') \<Longrightarrow>
                    inv s' \<and> 0 \<le> j \<and> slot_of s' = (slot_of s)(k \<mapsto> nat j)"

context slot_table
begin

lemma get_slot:
  assumes "inv s" "\<not> full s" "get s k = (j, s')"
  shows "inv s' \<and> 0 \<le> j \<and> slot_of s' k = Some (nat j)"
proof (cases "slot_of s k")
  case None
  then show ?thesis using get_new [OF assms(1) None assms(2,3)] by simp
next
  case (Some i)
  then show ?thesis using get_known [OF assms(1) Some] assms by auto
qed

lemma get_again:
  assumes "inv s" "\<not> full s" "get s k = (j, s')"
  shows "get s' k = (j, s')"
  using get_slot [OF assms] get_known [of s' k "nat j"] by simp

lemma get_other:
  assumes "inv s" "\<not> full s" "get s k = (j, s1)" "\<not> full s1" "get s1 k' = (j', s2)" "k \<noteq> k'"
  shows "j \<noteq> j' \<and> slot_of s2 k = Some (nat j)"
proof -
  note a = get_slot [OF assms(1-3)]
  note b = get_slot [of s1 k', OF _ assms(4,5)]
  have "slot_of s2 k = slot_of s1 k"
    using a get_new [of s1 k' j' s2] get_known [of s1 k'] assms(4-6)
    by (cases "slot_of s1 k'") auto
  then show ?thesis using a b slot_unique [of s2 k "nat j" k'] assms(6) by auto
qed

end

definition tt_full :: "fc_ttab \<Rightarrow> bool" where
  "tt_full tt \<longleftrightarrow> tt_free tt \<ge> tt_slots tt"

definition tt_get :: "fc_ttab \<Rightarrow> u64 \<Rightarrow> int \<times> fc_ttab" where
  "tt_get tt key = (let (s, tt', _) = fc_tenant_get (\<lambda>_. True) False tt key True in (s, tt'))"

interpretation tenants: slot_table "\<lambda>tt. tt_ok tt \<and> tt_marks_ok tt" tt_slot_of tt_full tt_get
proof
  fix tt k k' i j tt'
  show "k = k'" if "tt_ok tt \<and> tt_marks_ok tt" "tt_slot_of tt k = Some i" "tt_slot_of tt k' = Some i"
    using that tt_slot_of_Some [of tt] by auto
  show "tt_get tt k = (int i, tt)" if "tt_ok tt \<and> tt_marks_ok tt" "tt_slot_of tt k = Some i"
    using that by (simp add: tt_get_def fc_tenant_get_known)
  show "(tt_ok tt' \<and> tt_marks_ok tt') \<and> 0 \<le> j \<and> tt_slot_of tt' = (tt_slot_of tt)(k \<mapsto> nat j)"
    if h: "tt_ok tt \<and> tt_marks_ok tt" "tt_slot_of tt k = None" "\<not> tt_full tt" "tt_get tt k = (j, tt')"
  proof -
    have ok: "tt_ok tt" "tt_marks_ok tt" "tt_free tt < tt_slots tt" using h by (auto simp: tt_full_def)
    obtain tt1 where g: "fc_tenant_get (\<lambda>_. True) False tt k True = (int (tt_free tt), tt1, [])" "tt_ok tt1"
        "tt_marks_ok tt1" "\<not> t_used (tts tt ! tt_free tt)" "tt_slots tt1 = tt_slots tt"
        "tts tt1 = (tts tt)[tt_free tt := fresh_tenant k (tts tt ! tt_free tt)]"
      using fc_tenant_get_new [OF ok(1,2) h(2) ok(3)] by metis
    then have "tt' = tt1" "j = int (tt_free tt)" using h(4) by (simp_all add: tt_get_def)
    then show ?thesis using g(2,3) tt_slot_of_update [OF ok(1) g(2,5) ok(3) g(4,6) h(2)] by simp
  qed
qed

end
