(* ===== verification/FC_Units.thy ===== *)
theory FC_Units
  imports FC_Types
begin

text \<open>
  The unit counters of \<open>common/sockproxy_fc.c\<close> (section "units"): one unit reserved under a ceiling,
  one handed back, both compare-and-swap loops on a 32-bit atomic counter. The loops are first
  given as the atomic operations they implement, which the rest of the library uses, then as a
  step relation with every interleaving of any number of threads, in which the ceiling holds, no
  unit is lost and no release wraps the counter.
\<close>

section \<open>The operations\<close>

text \<open>\<open>Some\<close> is the counter after a unit was reserved, \<open>None\<close> the refusal (-1).\<close>

definition fc_unit_take :: "u32 \<Rightarrow> u32 \<Rightarrow> u32 option" where
  "fc_unit_take ctr cap = (if cap \<noteq> 0 \<and> ctr \<ge> cap then None else Some (ctr + 1))"

definition fc_unit_give :: "u32 \<Rightarrow> u32 \<times> fc_anomaly list" where
  "fc_unit_give ctr = (if ctr = 0 then (ctr, [FC_A_UNDERFLOW]) else (ctr - 1, []))"

lemma fc_unit_take_Some:
  "fc_unit_take ctr cap = Some ctr' \<longleftrightarrow> ctr' = ctr + 1 \<and> (cap = 0 \<or> ctr < cap)"
  by (auto simp: fc_unit_take_def not_le)

lemma fc_unit_take_None: "fc_unit_take ctr cap = None \<longleftrightarrow> cap \<noteq> 0 \<and> cap \<le> ctr"
  by (simp add: fc_unit_take_def)

lemma fc_unit_take_zero [simp]: "fc_unit_take ctr 0 = Some (ctr + 1)"
  by (simp add: fc_unit_take_def)

section \<open>The counter as an interface\<close>

text \<open>
  A state with a counter in it: what a taker and a releaser rely on. Interpreted on every counter
  of a pool: the service units, an endpoint's units for a role, the units of a band.
\<close>

locale unit_counter =
  fixes val :: "'s \<Rightarrow> u32" and take_unit :: "u32 \<Rightarrow> 's \<Rightarrow> 's option"
    and give_unit :: "'s \<Rightarrow> 's \<times> fc_anomaly list"
  assumes take_refused: "take_unit cap s = None \<longleftrightarrow> cap \<noteq> 0 \<and> cap \<le> val s"
    and take_val: "take_unit cap s = Some s' \<Longrightarrow> val s' = val s + 1"
    and give_val: "val s \<noteq> 0 \<Longrightarrow> give_unit s = (s', an) \<Longrightarrow> val s' = val s - 1 \<and> an = []"
    and give_none: "val s = 0 \<Longrightarrow> give_unit s = (s, [FC_A_UNDERFLOW])"
    and give_taken: "take_unit cap s = Some s' \<Longrightarrow> val s' \<noteq> 0 \<Longrightarrow> fst (give_unit s') = s"

context unit_counter
begin

lemma take_room: "take_unit cap s = Some s' \<Longrightarrow> cap = 0 \<or> val s < cap"
  using take_refused [of cap s] by (auto simp: not_le)

text \<open>A ceiling that holds still holds, and the counter does not wrap under it.\<close>

lemma take_keeps_ceiling:
  assumes "take_unit cap s = Some s'" "cap \<noteq> 0"
  shows "val s' \<le> cap" and "unat (val s') = Suc (unat (val s))"
proof -
  have "val s < cap" using take_room [OF assms(1)] assms(2) by simp
  then show "val s' \<le> cap" "unat (val s') = Suc (unat (val s))"
    using take_val [OF assms(1)] by (simp_all add: word_inc_le unat_inc)
qed

lemma give_below: "fst (give_unit s) = s' \<Longrightarrow> val s' \<le> val s"
proof (cases "val s = 0")
  case True
  then show "fst (give_unit s) = s' \<Longrightarrow> val s' \<le> val s" using give_none by simp
next
  case False
  assume "fst (give_unit s) = s'"
  then have "val s' = val s - 1" using give_val [OF False, of s' "snd (give_unit s)"] by auto
  then show "val s' \<le> val s" using False by (simp add: word_le_nat_alt unat_dec)
qed

lemma give_after_take:
  assumes "take_unit cap s = Some s'" "cap \<noteq> 0"
  shows "give_unit s' = (s, [])"
proof -
  have "val s' \<noteq> 0" using take_keeps_ceiling(2) [OF assms] by auto
  then show ?thesis using give_taken [OF assms(1)] give_val [of s' "fst (give_unit s')" "snd (give_unit s')"]
    by (metis prod.collapse)
qed

end

interpretation ctr: unit_counter "\<lambda>c. c" "\<lambda>cap c. fc_unit_take c cap" fc_unit_give
  by unfold_locales (auto simp: fc_unit_take_def fc_unit_give_def split: if_splits)

section \<open>The loops, interleaved\<close>

text \<open>
  A thread runs \<open>fc_unit_take\<close> under some ceiling or \<open>fc_unit_give\<close>: it has not loaded the counter
  yet, it has loaded a value its exchange will compare with, or it has returned.
\<close>

datatype unit_op = Take u32 | Give

datatype unit_pc = Start unit_op | Loaded unit_op u32 | Took | Refused | Gave | Underflowed

record unit_sys =
  us_ctr :: u32
  us_pc :: "nat \<Rightarrow> unit_pc"
  us_anomaly :: nat

text \<open>One atomic action of thread \<open>i\<close>. A weak exchange may fail with the counter unchanged.\<close>

inductive unit_step :: "unit_sys \<Rightarrow> unit_sys \<Rightarrow> bool" where
  load: "us_pc s i = Start op \<Longrightarrow> unit_step s (s\<lparr>us_pc := (us_pc s)(i := Loaded op (us_ctr s))\<rparr>)"
| refuse: "us_pc s i = Loaded (Take cap) cur \<Longrightarrow> cap \<noteq> 0 \<Longrightarrow> cap \<le> cur \<Longrightarrow>
     unit_step s (s\<lparr>us_pc := (us_pc s)(i := Refused)\<rparr>)"
| take_cas: "us_pc s i = Loaded (Take cap) cur \<Longrightarrow> \<not> (cap \<noteq> 0 \<and> cap \<le> cur) \<Longrightarrow> us_ctr s = cur \<Longrightarrow>
     unit_step s (s\<lparr>us_ctr := cur + 1, us_pc := (us_pc s)(i := Took)\<rparr>)"
| take_retry: "us_pc s i = Loaded (Take cap) cur \<Longrightarrow> \<not> (cap \<noteq> 0 \<and> cap \<le> cur) \<Longrightarrow>
     unit_step s (s\<lparr>us_pc := (us_pc s)(i := Loaded (Take cap) (us_ctr s))\<rparr>)"
| underflow: "us_pc s i = Loaded Give 0 \<Longrightarrow>
     unit_step s (s\<lparr>us_pc := (us_pc s)(i := Underflowed), us_anomaly := us_anomaly s + 1\<rparr>)"
| give_cas: "us_pc s i = Loaded Give cur \<Longrightarrow> cur \<noteq> 0 \<Longrightarrow> us_ctr s = cur \<Longrightarrow>
     unit_step s (s\<lparr>us_ctr := cur - 1, us_pc := (us_pc s)(i := Gave)\<rparr>)"
| give_retry: "us_pc s i = Loaded Give cur \<Longrightarrow> cur \<noteq> 0 \<Longrightarrow>
     unit_step s (s\<lparr>us_pc := (us_pc s)(i := Loaded Give (us_ctr s))\<rparr>)"

inductive unit_run :: "unit_sys \<Rightarrow> unit_sys \<Rightarrow> bool" where
  refl: "unit_run s s"
| step: "unit_run s s' \<Longrightarrow> unit_step s' s'' \<Longrightarrow> unit_run s s''"

text \<open>Every action leaves the counter alone or is one of the atomic operations on it.\<close>

lemma unit_step_atomic:
  assumes "unit_step s s'"
  shows "us_ctr s' = us_ctr s \<or>
         (\<exists>i cap. us_pc s' i = Took \<and> fc_unit_take (us_ctr s) cap = Some (us_ctr s')) \<or>
         (\<exists>i. us_pc s' i = Gave \<and> us_ctr s \<noteq> 0 \<and> fc_unit_give (us_ctr s) = (us_ctr s', []))"
  using assms by (cases rule: unit_step.cases) (auto simp: fc_unit_take_def fc_unit_give_def)

text \<open>The ceilings a thread may still take under.\<close>

fun caps_within :: "u32 \<Rightarrow> unit_pc \<Rightarrow> bool" where
  "caps_within m (Start (Take cap)) \<longleftrightarrow> cap \<noteq> 0 \<and> cap \<le> m"
| "caps_within m (Loaded (Take cap) cur) \<longleftrightarrow> cap \<noteq> 0 \<and> cap \<le> m"
| "caps_within m _ \<longleftrightarrow> True"

lemma unit_step_ceiling:
  assumes "unit_step s s'" "us_ctr s \<le> m" "\<forall>i. caps_within m (us_pc s i)"
  shows "us_ctr s' \<le> m \<and> (\<forall>i. caps_within m (us_pc s' i))"
  using assms
proof (cases rule: unit_step.cases)
  case (load i op)
  then show ?thesis using assms(2,3) by (cases op) (auto dest: spec [where x = i])
next
  case (take_cas i cap cur)
  then have "cap \<noteq> 0" "cap \<le> m" "cur < cap" using assms(3) by (auto dest!: spec [where x = i])
  then have "cur + 1 \<le> m" using word_inc_le [of cur cap] by simp
  then show ?thesis using take_cas assms(3) by auto
next
  case (give_cas i cur)
  then have "cur - 1 \<le> m" using assms(2) by (simp add: word_le_nat_alt unat_dec)
  then show ?thesis using give_cas assms(3) by auto
next
  case (take_retry i cap cur)
  then have "cap \<noteq> 0" "cap \<le> m" using assms(3) by (auto dest!: spec [where x = i])
  then show ?thesis using take_retry assms(2,3) by auto
qed (use assms(2,3) in auto)

lemma unit_run_ceiling:
  assumes "unit_run s s'" "us_ctr s \<le> m" "\<forall>i. caps_within m (us_pc s i)"
  shows "us_ctr s' \<le> m \<and> (\<forall>i. caps_within m (us_pc s' i))"
  using assms by (induction rule: unit_run.induct) (auto dest: unit_step_ceiling)

text \<open>Units taken and units given back by a set of threads.\<close>

definition took :: "nat set \<Rightarrow> unit_sys \<Rightarrow> nat" where
  "took T s = card {i \<in> T. us_pc s i = Took}"

definition gave :: "nat set \<Rightarrow> unit_sys \<Rightarrow> nat" where
  "gave T s = card {i \<in> T. us_pc s i = Gave}"

text \<open>Only the threads of \<open>T\<close> run; the others have returned.\<close>

fun returned :: "unit_pc \<Rightarrow> bool" where
  "returned (Start op) \<longleftrightarrow> False"
| "returned (Loaded op cur) \<longleftrightarrow> False"
| "returned _ \<longleftrightarrow> True"

definition quiet_outside :: "nat set \<Rightarrow> unit_sys \<Rightarrow> bool" where
  "quiet_outside T s \<longleftrightarrow> (\<forall>i. i \<notin> T \<longrightarrow> returned (us_pc s i))"

lemma quiet_outsideD: "quiet_outside T s \<Longrightarrow> \<not> returned (us_pc s i) \<Longrightarrow> i \<in> T"
  by (auto simp: quiet_outside_def)

lemma quiet_outside_upd: "quiet_outside T s \<Longrightarrow> i \<in> T \<Longrightarrow> us_pc s' = (us_pc s)(i := pc) \<Longrightarrow> quiet_outside T s'"
  by (auto simp: quiet_outside_def)

lemma card_pc_insert:
  assumes "finite T" "i \<in> T" "pc i \<noteq> x"
  shows "card {j \<in> T. (pc(i := x)) j = x} = Suc (card {j \<in> T. pc j = x})"
proof -
  have "{j \<in> T. (pc(i := x)) j = x} = insert i {j \<in> T. pc j = x}" using assms(2) by auto
  then show ?thesis using assms by simp
qed

lemma card_pc_other:
  assumes "y \<noteq> x" "pc i \<noteq> x"
  shows "card {j \<in> T. (pc(i := y)) j = x} = card {j \<in> T. pc j = x}"
proof -
  have "{j \<in> T. (pc(i := y)) j = x} = {j \<in> T. pc j = x}" using assms by auto
  then show ?thesis by simp
qed

lemma unit_step_thread:
  assumes "unit_step s s'" shows "\<exists>i pc. \<not> returned (us_pc s i) \<and> us_pc s' = (us_pc s)(i := pc)"
  using assms by (cases rule: unit_step.cases) (metis returned.simps(1,2) unit_sys.select_convs(2) unit_sys.surjective
      unit_sys.update_convs(1-3))+

lemma unit_step_quiet:
  assumes "unit_step s s'" "quiet_outside T s" shows "quiet_outside T s'"
  using unit_step_thread [OF assms(1)] assms(2) quiet_outsideD quiet_outside_upd by metis

text \<open>No unit is lost and none appears: the counter is what was taken less what was given back.\<close>

lemma unit_step_conserves:
  assumes st: "unit_step s s'" and T: "finite T" "quiet_outside T s"
    and lim: "\<forall>i. caps_within m (us_pc s i)"
  shows "unat (us_ctr s') + gave T s' + took T s = unat (us_ctr s) + gave T s + took T s'"
  using st
proof (cases rule: unit_step.cases)
  case (take_cas i cap cur)
  then have i: "i \<in> T" and lt: "cur < cap" using quiet_outsideD [OF T(2), of i] lim by (auto dest!: spec [where x = i])
  have "unat (cur + 1) = Suc (unat cur)" using lt by (rule unat_inc)
  moreover have "took T s' = Suc (took T s)" "gave T s' = gave T s"
    using take_cas i T(1) by (simp_all add: took_def gave_def card_pc_insert card_pc_other del: fun_upd_apply)
  ultimately show ?thesis using take_cas by simp
next
  case (give_cas i cur)
  then have i: "i \<in> T" using quiet_outsideD [OF T(2), of i] by simp
  have "Suc (unat (cur - 1)) = unat cur" using give_cas by (simp add: unat_dec unat_gt_0)
  moreover have "took T s' = took T s" "gave T s' = Suc (gave T s)"
    using give_cas i T(1) by (simp_all add: took_def gave_def card_pc_insert card_pc_other del: fun_upd_apply)
  ultimately show ?thesis using give_cas by simp
qed (simp_all add: took_def gave_def card_pc_other del: fun_upd_apply)

lemma unit_run_conserves:
  assumes "unit_run s s'" "finite T" "quiet_outside T s" "us_ctr s \<le> m" "\<forall>i. caps_within m (us_pc s i)"
  shows "quiet_outside T s' \<and> unat (us_ctr s') + gave T s' + took T s = unat (us_ctr s) + gave T s + took T s'"
  using assms
proof (induction rule: unit_run.induct)
  case (step s s' s'')
  have "\<forall>i. caps_within m (us_pc s' i)" using unit_run_ceiling [OF step(1)] step(6,7) by blast
  then show ?case using step unit_step_conserves [OF step(2), of T m] unit_step_quiet [OF step(2), of T] by simp
qed simp

end
