(* ===== verification/FC_Pool.thy ===== *)
theory FC_Pool
  imports FC_Config FC_Ring FC_Tenants FC_Units
begin

text \<open>
  What the gate and the queue read of a pool: the accessors of \<open>common/sockproxy_fc.h\<close>, the names
  and counters of the decisions, the classification of a request, the shares of a ceiling, and the
  floors and the reserve of the bands with what they hold back (\<open>common/sockproxy_fc.c\<close>, sections
  "tenant share", "classification" and "floors and the reserve").
\<close>

section \<open>Names\<close>

text \<open>The wire names of the decisions, anomalies and adaptive states, by enum value.\<close>

definition fc_reason_names :: "string list" where
  "fc_reason_names = [''admitted'', ''capacity_shed'', ''no_healthy_capacity'', ''observe_would_shed'',
     ''bypass_non_inference'', ''queued'', ''queue_full'', ''queue_timeout'', ''cancelled'', ''drained'',
     ''observe_would_queue'', ''draining'', ''tenant_share'', ''shed'']"

definition fc_anomaly_names :: "string list" where
  "fc_anomaly_names = [''underflow'', ''unknown_permit'', ''tenant_table_full'', ''h2_deny_headers'']"

definition fc_adapt_state_names :: "string list" where
  "fc_adapt_state_names = [''off'', ''open'', ''tightened'', ''frozen'']"

definition fc_adapt_reason_names :: "string list" where
  "fc_adapt_reason_names = [''none'', ''queued'', ''ttft'', ''clear'', ''stale'']"

definition fc_band_outcome_names :: "string list" where
  "fc_band_outcome_names = [''admitted'', ''queued'', ''shed'', ''expired'', ''cancelled'']"

text \<open>The lookup the name functions share: anything out of range is \<open>unknown\<close>.\<close>

definition name_at :: "string list \<Rightarrow> int \<Rightarrow> string" where
  "name_at names i = (if i < 0 \<or> i \<ge> int (length names) then ''unknown'' else names ! nat i)"

definition fc_reason_name :: "int \<Rightarrow> string" where
  "fc_reason_name reason = name_at fc_reason_names reason"

definition fc_anomaly_name :: "int \<Rightarrow> string" where
  "fc_anomaly_name a = name_at fc_anomaly_names a"

definition fc_adapt_state_name :: "u8 \<Rightarrow> string" where
  "fc_adapt_state_name state = name_at fc_adapt_state_names (uint state)"

definition fc_adapt_reason_name :: "u8 \<Rightarrow> string" where
  "fc_adapt_reason_name reason = name_at fc_adapt_reason_names (uint reason)"

definition fc_band_outcome_name :: "int \<Rightarrow> string" where
  "fc_band_outcome_name outcome = name_at fc_band_outcome_names outcome"

lemma name_at_inj:
  assumes "distinct names" "''unknown'' \<notin> set names" "name_at names i = name_at names j" "name_at names i \<noteq> ''unknown''"
  shows "i = j"
proof -
  have r: "0 \<le> i" "i < int (length names)" "0 \<le> j" "j < int (length names)"
    using assms(2-4) by (auto simp: name_at_def split: if_splits)
  then have "names ! nat i = names ! nat j" using assms(3) by (simp add: name_at_def)
  then have "nat i = nat j" using r assms(1) by (simp add: nth_eq_iff_index_eq)
  then show ?thesis using r by simp
qed

section \<open>Bands\<close>

text \<open>A class constant as a band: anything out of range is standard.\<close>

definition fc_band_of :: "int \<Rightarrow> fc_band" where
  "fc_band_of cls = (if cls = 1 then FC_BAND_CRITICAL else if cls = 2 then FC_BAND_SHEDDABLE else FC_BAND_STANDARD)"

text \<open>The bands by rank, highest first.\<close>

definition fc_band_at_rank :: "int \<Rightarrow> fc_band" where
  "fc_band_at_rank rank =
     (if rank \<ge> 0 \<and> rank < 3
      then [FC_BAND_CRITICAL, FC_BAND_STANDARD, FC_BAND_SHEDDABLE] ! nat rank else FC_BAND_STANDARD)"

definition fc_ranks :: "int list" where
  "fc_ranks = [0, 1, 2]"

definition fc_band_rank :: "fc_band \<Rightarrow> int" where
  "fc_band_rank band = (case find (\<lambda>r. fc_band_at_rank r = band) fc_ranks of Some r \<Rightarrow> r | None \<Rightarrow> 2)"

lemma fc_band_at_rank_simps [simp]:
  "fc_band_at_rank 0 = FC_BAND_CRITICAL" "fc_band_at_rank 1 = FC_BAND_STANDARD" "fc_band_at_rank 2 = FC_BAND_SHEDDABLE"
  by (simp_all add: fc_band_at_rank_def)

lemma fc_band_rank_simps [simp]:
  "fc_band_rank FC_BAND_CRITICAL = 0" "fc_band_rank FC_BAND_STANDARD = 1" "fc_band_rank FC_BAND_SHEDDABLE = 2"
  by (simp_all add: fc_band_rank_def fc_ranks_def)

lemma fc_band_rank_inverse [simp]: "fc_band_at_rank (fc_band_rank b) = b"
  by (cases b) simp_all

lemma fc_band_rank_inj: "fc_band_rank b = fc_band_rank b' \<longleftrightarrow> b = b'"
  by (metis fc_band_rank_inverse)

text \<open>The bands are ordered by rank: the one served first is the least.\<close>

instantiation fc_band :: linorder
begin

definition less_eq_fc_band :: "fc_band \<Rightarrow> fc_band \<Rightarrow> bool" where
  "less_eq_fc_band b b' \<longleftrightarrow> fc_band_rank b \<le> fc_band_rank b'"

definition less_fc_band :: "fc_band \<Rightarrow> fc_band \<Rightarrow> bool" where
  "less_fc_band b b' \<longleftrightarrow> fc_band_rank b < fc_band_rank b'"

instance
proof
  fix x y z :: fc_band
  show "(x < y) = (x \<le> y \<and> \<not> y \<le> x)" by (auto simp: less_eq_fc_band_def less_fc_band_def)
  show "x \<le> x" by (simp add: less_eq_fc_band_def)
  show "x \<le> z" if "x \<le> y" "y \<le> z" using that by (simp add: less_eq_fc_band_def)
  show "x = y" if "x \<le> y" "y \<le> x" using that by (simp add: less_eq_fc_band_def flip: fc_band_rank_inj)
  show "x \<le> y \<or> y \<le> x" by (auto simp: less_eq_fc_band_def)
qed

end

definition fc_band_derive :: "u32 \<Rightarrow> u32 \<Rightarrow> u32 \<Rightarrow> fc_band \<Rightarrow> u32" where
  "fc_band_derive tot crit shed band =
     (case band of FC_BAND_CRITICAL \<Rightarrow> crit | FC_BAND_SHEDDABLE \<Rightarrow> shed
      | FC_BAND_STANDARD \<Rightarrow> if tot > crit + shed then tot - crit - shed else 0)"

definition fc_band_inflight :: "fc_state \<Rightarrow> fc_band \<Rightarrow> u32" where
  "fc_band_inflight s band =
     fc_band_derive (s_inflight s) (s_band_inflight s FC_BAND_CRITICAL) (s_band_inflight s FC_BAND_SHEDDABLE) band"

definition fc_band_queued :: "fc_state \<Rightarrow> fc_band \<Rightarrow> u32" where
  "fc_band_queued s band =
     fc_band_derive (s_queued s) (s_band_queued s FC_BAND_CRITICAL) (s_band_queued s FC_BAND_SHEDDABLE) band"

section \<open>Accessors\<close>

definition fc_active :: "fc_state \<Rightarrow> bool" where
  "fc_active s \<longleftrightarrow> c_mode (s_cfg s) \<noteq> FC_MODE_OFF"

definition fc_queue_enabled :: "fc_state \<Rightarrow> bool" where
  "fc_queue_enabled s \<longleftrightarrow> c_mode (s_cfg s) = FC_MODE_ENFORCE \<and> c_max_queue_depth (s_cfg s) > 0 \<and>
     q_cap (s_queue s) > 0"

definition fc_svc_cap :: "fc_state \<Rightarrow> u32" where
  "fc_svc_cap s =
     (if c_adaptive (s_cfg s) \<and> c_max_outstanding (s_cfg s) \<noteq> 0 then s_eff_max s else c_max_outstanding (s_cfg s))"

definition fc_has_room :: "fc_state \<Rightarrow> bool" where
  "fc_has_room s \<longleftrightarrow> (let cap = fc_svc_cap s in cap = 0 \<or> s_inflight s < cap)"

definition fc_share_active :: "fc_state \<Rightarrow> bool" where
  "fc_share_active s \<longleftrightarrow> c_mode (s_cfg s) \<noteq> FC_MODE_OFF \<and> c_tenant_share_pct (s_cfg s) > 0 \<and>
     c_tenant_share_pct (s_cfg s) < 100"

definition fc_tenants_tracked :: "fc_state \<Rightarrow> bool" where
  "fc_tenants_tracked s \<longleftrightarrow> fc_share_active s \<or>
     (c_mode (s_cfg s) \<noteq> FC_MODE_OFF \<and> c_tenant_wake (s_cfg s) = FC_TENANT_WAKE_RR)"

definition fc_wake_strict :: "fc_state \<Rightarrow> bool" where
  "fc_wake_strict s \<longleftrightarrow> c_wake_policy (s_cfg s) = FC_WAKE_STRICT"

definition role_of :: "int \<Rightarrow> fc_role option" where
  "role_of role = (if role = 0 then Some FC_ROLE_NORMAL else if role = 1 then Some FC_ROLE_PREFILL
                   else if role = 2 then Some FC_ROLE_DECODE else None)"

definition ep_ok :: "int \<Rightarrow> bool" where
  "ep_ok ep \<longleftrightarrow> 0 \<le> ep \<and> ep < int FC_MAX_EP"

definition fc_ep_inflight :: "fc_state \<Rightarrow> int \<Rightarrow> int \<Rightarrow> u32" where
  "fc_ep_inflight s ep role =
     (case role_of role of None \<Rightarrow> 0 | Some r \<Rightarrow> if ep_ok ep then s_ep_inflight s (nat ep) r else 0)"

definition fc_limit_for :: "fc_state \<Rightarrow> int \<Rightarrow> u32" where
  "fc_limit_for s role =
     (case role_of role of None \<Rightarrow> fc_svc_cap s
      | Some r \<Rightarrow> if c_ep_cap (s_cfg s) r \<noteq> 0 then c_ep_cap (s_cfg s) r else fc_svc_cap s)"

definition fc_band_wait_ms :: "fc_state \<Rightarrow> fc_band \<Rightarrow> u32" where
  "fc_band_wait_ms s band =
     (let own = c_band_wait_ms (s_cfg s) band
      in if own \<noteq> 0 \<and> own < c_max_queue_wait_ms (s_cfg s) then own else c_max_queue_wait_ms (s_cfg s))"

definition fc_queue_publish :: "fc_state \<Rightarrow> fc_state" where
  "fc_queue_publish s =
     s\<lparr>s_queued := of_nat (q_count (s_queue s)),
       s_band_queued := (s_band_queued s)
         (FC_BAND_CRITICAL := of_nat (q_band_count (s_queue s) FC_BAND_CRITICAL),
          FC_BAND_SHEDDABLE := of_nat (q_band_count (s_queue s) FC_BAND_SHEDDABLE))\<rparr>"

definition fc_band_live :: "fc_queue \<Rightarrow> fc_band \<Rightarrow> nat" where
  "fc_band_live q band =
     (let crit = q_band_count q FC_BAND_CRITICAL; shed = q_band_count q FC_BAND_SHEDDABLE
      in if fc_band_counted band then q_band_count q band
         else if q_count q > crit + shed then q_count q - crit - shed else 0)"

definition fc_ring_band_n :: "fc_queue \<Rightarrow> fc_band \<Rightarrow> nat" where
  "fc_ring_band_n q band =
     (let crit = q_band_count q FC_BAND_CRITICAL; shed = q_band_count q FC_BAND_SHEDDABLE
      in case band of FC_BAND_CRITICAL \<Rightarrow> crit | FC_BAND_SHEDDABLE \<Rightarrow> shed
         | FC_BAND_STANDARD \<Rightarrow> if q_count q > crit + shed then q_count q - crit - shed else 0)"

section \<open>Shares of a ceiling\<close>

text \<open>\<open>((uint64_t)whole * pct + 99) / 100\<close>, cut to 32 bits, at least one.\<close>

definition fc_share_of :: "u32 \<Rightarrow> u8 \<Rightarrow> u32" where
  "fc_share_of whole pct =
     (if whole = 0 then 0
      else let n = ((ucast whole :: u64) * ucast pct + 99) div 100 in if n \<noteq> 0 then ucast n else 1)"

definition fc_tenant_svc_bound :: "fc_state \<Rightarrow> u32" where
  "fc_tenant_svc_bound s =
     (if \<not> fc_share_active s then 0 else fc_share_of (fc_svc_cap s) (c_tenant_share_pct (s_cfg s)))"

definition fc_tenant_queue_bound :: "fc_state \<Rightarrow> u32" where
  "fc_tenant_queue_bound s =
     (if \<not> fc_share_active s then 0 else fc_share_of (c_max_queue_depth (s_cfg s)) (c_tenant_share_pct (s_cfg s)))"

definition fc_band_queue_bound :: "fc_state \<Rightarrow> fc_band \<Rightarrow> u32" where
  "fc_band_queue_bound s band =
     (if c_band_queue_pct (s_cfg s) band = 0 then 0
      else fc_share_of (c_max_queue_depth (s_cfg s)) (c_band_queue_pct (s_cfg s) band))"

definition fc_tenants_active :: "fc_state \<Rightarrow> nat" where
  "fc_tenants_active s = tt_used (s_tt s)"

definition fc_tenant_slots_from_env :: "getenv_fn \<Rightarrow> u32" where
  "fc_tenant_slots_from_env env = fc_tenant_slots_clamp (fst (fc_env_u32 env ''LLB_FC_TENANT_SLOTS'' 256 FC_SRC_DEFAULT))"

definition fc_tenant_slots :: "fc_state \<Rightarrow> nat" where
  "fc_tenant_slots s = (if tt_slots (s_tt s) \<noteq> 0 then tt_slots (s_tt s) else FC_TENANT_SLOTS)"

text \<open>The percentage of a ceiling as a natural number, at widths where nothing is cut.\<close>

lemma pct_units:
  assumes "unat pct \<le> 255"
  shows "unat (((ucast (whole :: u32) :: u64) * ucast (pct :: u8) + 99) div 100) = (unat whole * unat pct + 99) div 100"
proof -
  have "unat whole * unat pct \<le> 4294967296 * 255"
    using u32_less [of whole] assms by (intro mult_mono) simp_all
  then have "unat ((ucast whole :: u64) * ucast pct + 99) = unat whole * unat pct + 99"
    by (simp add: u64_add u64_mult)
  then show ?thesis by (simp add: unat_div)
qed

lemma pct_units_le:
  assumes "pct \<le> (100 :: nat)" shows "(w * pct + 99) div 100 \<le> w"
proof -
  have "w * pct + 99 \<le> w * 100 + 99" using assms by simp
  then have "(w * pct + 99) div 100 \<le> (w * 100 + 99) div 100" by (rule div_le_mono)
  then show ?thesis by simp
qed

text \<open>A share is at least one unit and at most the whole.\<close>

lemma fc_share_of_bounds:
  assumes "whole \<noteq> 0" "pct \<le> 100"
  shows "0 < fc_share_of whole pct" and "fc_share_of whole pct \<le> whole"
    and "unat (fc_share_of whole pct) = max 1 ((unat whole * unat pct + 99) div 100)"
proof -
  let ?n = "((ucast whole :: u64) * ucast pct + 99) div 100"
  have p: "unat pct \<le> 100" using assms(2) by (simp add: word_le_nat_alt)
  have n: "unat ?n = (unat whole * unat pct + 99) div 100" using pct_units [of pct whole] p by simp
  then have le: "unat ?n \<le> unat whole" using pct_units_le [OF p] by simp
  then have "unat (ucast ?n :: u32) = unat ?n"
    using u32_less [of whole] by (intro unat_u64_u32) simp
  then have u: "unat (fc_share_of whole pct) = (if ?n \<noteq> 0 then unat ?n else 1)"
    using assms(1) by (simp add: fc_share_of_def)
  show e: "unat (fc_share_of whole pct) = max 1 ((unat whole * unat pct + 99) div 100)"
  proof (cases "?n = 0")
    case True
    then show ?thesis using u n by simp
  next
    case False
    then have "unat ?n \<noteq> 0" by (simp add: unat_eq_zero)
    then show ?thesis using u n False by simp
  qed
  show "0 < fc_share_of whole pct" using e by (simp add: word_less_nat_alt)
  have "1 \<le> unat whole" using assms(1) by (simp add: Suc_le_eq unat_gt_0)
  then show "fc_share_of whole pct \<le> whole" using e n le by (simp add: word_le_nat_alt)
qed

section \<open>Counting\<close>

definition fc_count :: "fc_state \<Rightarrow> fc_reason \<Rightarrow> fc_state" where
  "fc_count s reason = s\<lparr>s_decisions := (s_decisions s)(reason := s_decisions s reason + 1)\<rparr>"

definition fc_band_outcomes :: "fc_band_outcome_t list" where
  "fc_band_outcomes = [FC_BO_ADMITTED, FC_BO_QUEUED, FC_BO_SHED, FC_BO_EXPIRED, FC_BO_CANCELLED]"

definition fc_band_outcome_reason :: "fc_band_outcome_t \<Rightarrow> fc_reason" where
  "fc_band_outcome_reason o' =
     (case o' of FC_BO_ADMITTED \<Rightarrow> FC_R_ADMITTED | FC_BO_QUEUED \<Rightarrow> FC_R_QUEUED | FC_BO_SHED \<Rightarrow> FC_R_SHED
      | FC_BO_EXPIRED \<Rightarrow> FC_R_QUEUE_TIMEOUT | FC_BO_CANCELLED \<Rightarrow> FC_R_CANCELLED)"

definition fc_band_outcome_of :: "fc_reason \<Rightarrow> fc_band_outcome_t option" where
  "fc_band_outcome_of reason = find (\<lambda>o'. fc_band_outcome_reason o' = reason) fc_band_outcomes"

definition fc_count_band :: "fc_state \<Rightarrow> fc_reason \<Rightarrow> fc_band \<Rightarrow> fc_state" where
  "fc_count_band s reason band =
     (let s = fc_count s reason
      in if \<not> fc_band_counted band then s
         else case fc_band_outcome_of reason of None \<Rightarrow> s
              | Some o' \<Rightarrow> s\<lparr>s_band_outcome := (s_band_outcome s)
                  (band := (s_band_outcome s band)(o' := s_band_outcome s band o' + 1))\<rparr>)"

text \<open>The standard count is derived; a reader never returns less than a value read before.\<close>

definition fc_band_outcome :: "fc_state \<Rightarrow> fc_band \<Rightarrow> fc_band_outcome_t \<Rightarrow> u64 \<times> fc_state" where
  "fc_band_outcome s band outcome =
     (if fc_band_counted band then (s_band_outcome s band outcome, s)
      else let tot = s_decisions s (fc_band_outcome_reason outcome);
               crit = s_band_outcome s FC_BAND_CRITICAL outcome;
               shed = s_band_outcome s FC_BAND_SHEDDABLE outcome;
               std = (if tot > crit + shed then tot - crit - shed else 0);
               seen = s_band_std_read s outcome
           in if std > seen then (std, s\<lparr>s_band_std_read := (s_band_std_read s)(outcome := std)\<rparr>)
              else (seen, s))"

definition fc_band_may_wait :: "fc_state \<Rightarrow> fc_permit \<Rightarrow> bool" where
  "fc_band_may_wait s p \<longleftrightarrow> c_mode (s_cfg s) \<noteq> FC_MODE_ENFORCE \<or> p_band p \<noteq> FC_BAND_SHEDDABLE \<or> c_shed_queue (s_cfg s)"

definition fc_band_verdict :: "fc_state \<Rightarrow> fc_permit \<Rightarrow> fc_verdict \<Rightarrow> fc_verdict" where
  "fc_band_verdict s p v =
     (if (v = FC_QUEUE \<or> v = FC_SHED) \<and> \<not> fc_band_may_wait s p then FC_BAND_SHED else v)"

section \<open>Classification\<close>

definition fc_inference_paths :: "string list" where
  "fc_inference_paths = [''/v1/chat/completions'', ''/v1/completions'', ''/v1/embeddings'', ''/v1/rerank'',
     ''/v1/messages'', ''/v1/responses'', ''/generate'', ''/generate_stream'']"

text \<open>The length of the path once trailing slashes are dropped, never below one.\<close>

fun strip_slashes :: "string \<Rightarrow> nat \<Rightarrow> nat" where
  "strip_slashes path 0 = 0"
| "strip_slashes path (Suc n) = (if Suc n > 1 \<and> path ! n = CHR ''/'' then strip_slashes path n else Suc n)"

text \<open>\<open>None\<close> is a null path.\<close>

definition fc_is_inference_request :: "bool \<Rightarrow> string option \<Rightarrow> bool" where
  "fc_is_inference_request is_post path =
     (case path of None \<Rightarrow> False
      | Some path \<Rightarrow>
        if \<not> is_post \<or> path = [] \<or> hd path \<noteq> CHR ''/'' then False
        else let plen = length (takeWhile (\<lambda>c. c \<noteq> CHR ''?'') path);
                 plen = strip_slashes path plen
             in list_ex (\<lambda>want. length want = plen \<and> want = take plen path) fc_inference_paths)"

section \<open>Floors and the reserve\<close>

definition fc_floors_on :: "fc_cfg \<Rightarrow> bool" where
  "fc_floors_on c \<longleftrightarrow> (c_band_min_share_pct c FC_BAND_STANDARD OR c_band_min_share_pct c FC_BAND_CRITICAL OR
     c_band_min_share_pct c FC_BAND_SHEDDABLE OR c_critical_reserve_pct c) \<noteq> 0"

definition fc_floor_units :: "u32 \<Rightarrow> u8 \<Rightarrow> u32" where
  "fc_floor_units cap pct =
     (if cap = 0 \<or> pct = 0 then 0
      else if pct \<ge> 100 then cap
      else let u = ((ucast cap :: u64) * ucast pct + 99) div 100 in if u \<ge> ucast cap then cap - 1 else ucast u)"

text \<open>The floor of every band and the reserve; critical's claim is settled first, then by rank.\<close>

definition fc_floor_claims :: "fc_cfg \<Rightarrow> u32 \<Rightarrow> (fc_band \<Rightarrow> u32) \<times> u32" where
  "fc_floor_claims c cap =
     (let left = cap; res = fc_floor_units cap (c_critical_reserve_pct c);
          crit = fc_floor_units cap (c_band_min_share_pct c FC_BAND_CRITICAL);
          claim = (if res > crit then res else crit);
          floor = (\<lambda>_. 0)(FC_BAND_CRITICAL := crit);
          left = left - claim;
          (floor, left) = fold (\<lambda>r (floor, left).
            let b = fc_band_at_rank r; u = fc_floor_units cap (c_band_min_share_pct c b);
                f = (if u < left then u else left)
            in (floor(b := f), left - f)) [1, 2] (floor, left)
      in (floor, res))"

record fc_floor_view =
  v_cap :: u32
  v_total :: u32
  v_reserve :: u32
  v_floor :: "fc_band \<Rightarrow> u32"
  v_claim :: "fc_band \<Rightarrow> u32"
  v_in :: "fc_band \<Rightarrow> u32"
  v_wait :: "fc_band \<Rightarrow> bool"

text \<open>\<open>pend\<close>: units promised by a wake loop; \<open>wait\<close>: the bands with a waiter that could run, when known.\<close>

definition fc_floor_view_load ::
  "fc_state \<Rightarrow> u32 \<Rightarrow> (fc_band \<Rightarrow> u32) option \<Rightarrow> (fc_band \<Rightarrow> bool) option \<Rightarrow> fc_floor_view" where
  "fc_floor_view_load s cap pend wait =
     (let pt = (case pend of None \<Rightarrow> 0
                | Some n \<Rightarrow> n FC_BAND_STANDARD + n FC_BAND_CRITICAL + n FC_BAND_SHEDDABLE);
          crit = s_band_inflight s FC_BAND_CRITICAL + (case pend of None \<Rightarrow> 0 | Some n \<Rightarrow> n FC_BAND_CRITICAL);
          shed = s_band_inflight s FC_BAND_SHEDDABLE + (case pend of None \<Rightarrow> 0 | Some n \<Rightarrow> n FC_BAND_SHEDDABLE);
          tot = s_inflight s + pt;
          (floor, reserve) = fc_floor_claims (s_cfg s) cap
      in \<lparr>v_cap = cap, v_total = tot, v_reserve = reserve, v_floor = floor,
          v_claim = (if reserve > floor FC_BAND_CRITICAL then floor(FC_BAND_CRITICAL := reserve) else floor),
          v_in = fc_band_derive tot crit shed,
          v_wait = (case wait of Some w \<Rightarrow> w | None \<Rightarrow> (\<lambda>b. fc_band_queued s b > 0))\<rparr>)"

text \<open>What one other band holds back from a request of \<open>band\<close>.\<close>

definition fc_floor_owed :: "fc_floor_view \<Rightarrow> bool \<Rightarrow> fc_band \<Rightarrow> u32" where
  "fc_floor_owed v below y =
     (let rd = (if y = FC_BAND_CRITICAL \<and> v_reserve v > v_in v y then v_reserve v - v_in v y else 0);
          fd = (if \<not> below \<and> v_wait v y \<and> v_floor v y > v_in v y then v_floor v y - v_in v y else 0)
      in if rd > fd then rd else fd)"

definition fc_floor_held_back :: "fc_floor_view \<Rightarrow> fc_band \<Rightarrow> u32" where
  "fc_floor_held_back v band =
     (let below = v_in v band < v_claim v band
      in fold (\<lambda>y held. if y = band then held else held + fc_floor_owed v below y) fc_bands_all 0)"

definition fc_floor_may_take :: "fc_floor_view \<Rightarrow> fc_band \<Rightarrow> bool" where
  "fc_floor_may_take v band \<longleftrightarrow>
     (let held = fc_floor_held_back v band in held < v_cap v \<and> v_total v < v_cap v - held)"

definition fc_floors_apply :: "fc_state \<Rightarrow> u32 \<Rightarrow> bool" where
  "fc_floors_apply s cap \<longleftrightarrow> cap \<noteq> 0 \<and> c_mode (s_cfg s) = FC_MODE_ENFORCE \<and> fc_floors_on (s_cfg s)"

text \<open>One service unit for a request of \<open>band\<close>; \<open>None\<close> is the refusal.\<close>

definition take_inflight :: "u32 \<Rightarrow> fc_state \<Rightarrow> fc_state option" where
  "take_inflight cap s = map_option (\<lambda>c. s\<lparr>s_inflight := c\<rparr>) (fc_unit_take (s_inflight s) cap)"

definition give_inflight :: "fc_state \<Rightarrow> fc_state \<times> fc_anomaly list" where
  "give_inflight s = (let (c, an) = fc_unit_give (s_inflight s) in (s\<lparr>s_inflight := c\<rparr>, an))"

definition fc_unit_take_band ::
  "fc_state \<Rightarrow> fc_band \<Rightarrow> u32 \<Rightarrow> (fc_band \<Rightarrow> bool) option \<Rightarrow> fc_state option" where
  "fc_unit_take_band s band cap wait =
     (if \<not> fc_floors_apply s cap then take_inflight cap s
      else let held = fc_floor_held_back (fc_floor_view_load s cap None wait) band
           in if held \<ge> cap then None else take_inflight (cap - held) s)"

definition fc_band_below_claim :: "fc_state \<Rightarrow> fc_band \<Rightarrow> bool" where
  "fc_band_below_claim s band =
     (let cap = fc_svc_cap s
      in if \<not> fc_floors_apply s cap then False
         else let v = fc_floor_view_load s cap None None in v_in v band < v_claim v band)"

text \<open>The waiters in order of the ring, whose tenant could take a unit now.\<close>

definition ent_runnable :: "fc_ttab \<Rightarrow> u32 \<Rightarrow> fc_queue_ent \<Rightarrow> bool" where
  "ent_runnable tt bound e \<longleftrightarrow> e_live e \<and> fc_tenant_can_run tt (e_tslot e) bound"

definition fc_floor_waiting_runnable :: "fc_state \<Rightarrow> u32 \<Rightarrow> fc_band \<Rightarrow> bool" where
  "fc_floor_waiting_runnable s bound =
     fold (\<lambda>i wait. let e = q_ring (s_queue s) ! i
                    in if ent_runnable (s_tt s) bound e then wait(e_band e := True) else wait)
       (fc_ring_span (s_queue s)) (\<lambda>_. False)"

definition fc_waiters_ahead :: "fc_state \<Rightarrow> fc_band \<Rightarrow> bool" where
  "fc_waiters_ahead s band =
     (let rank = fc_band_rank band
      in if s_queued s = 0 then False
         else if fc_band_below_claim s band then fc_band_queued s band > 0
         else if \<not> fc_wake_strict s \<or> rank = 2 then True
         else list_ex (\<lambda>r. r \<le> rank \<and> fc_band_queued s (fc_band_at_rank r) > 0) fc_ranks)"

text \<open>Whether a waiter that could take the unit now is ahead of a newcomer of \<open>band\<close>.\<close>

definition fc_band_waiter_can_run :: "fc_state \<Rightarrow> fc_band \<Rightarrow> u32 \<Rightarrow> bool \<times> fc_state" where
  "fc_band_waiter_can_run s band bound =
     (let q = s_queue s; rank = fc_band_rank band;
          (any, tt) = fc_tenant_waiter_can_run (s_tt s) bound;
          s = s\<lparr>s_tt := tt\<rparr>;
          ents = map (\<lambda>i. q_ring q ! i) (fc_ring_span q)
      in (if \<not> any then False
          else if fc_band_below_claim s band
               then list_ex (\<lambda>e. ent_runnable (s_tt s) bound e \<and> e_band e = band) ents
          else if \<not> fc_wake_strict s \<or> rank = 2 then True
          else let ahead = list_ex (\<lambda>r. fc_ring_band_n q (fc_band_at_rank r) \<noteq> 0 \<and> r \<le> rank) fc_ranks;
                   below = list_ex (\<lambda>r. fc_ring_band_n q (fc_band_at_rank r) \<noteq> 0 \<and> r > rank) fc_ranks
               in if \<not> ahead then False
                  else if \<not> below then True
                  else list_ex (\<lambda>e. ent_runnable (s_tt s) bound e \<and> fc_band_rank (e_band e) \<le> rank) ents, s))"

lemma fc_floor_units_le: "fc_floor_units cap pct \<le> cap"
proof (cases "cap = 0 \<or> pct = 0 \<or> pct \<ge> 100")
  case True
  then show ?thesis by (auto simp: fc_floor_units_def)
next
  case False
  let ?u = "((ucast cap :: u64) * ucast pct + 99) div 100"
  show ?thesis
  proof (cases "?u \<ge> ucast cap")
    case True
    then have "fc_floor_units cap pct = cap - 1" using False by (simp add: fc_floor_units_def Let_def)
    then show ?thesis using False by (simp add: word_le_nat_alt unat_dec)
  next
    case small: False
    then have lt: "unat ?u < unat cap" by (simp add: word_le_nat_alt not_le)
    then have "unat (ucast ?u :: u32) = unat ?u" using u32_less [of cap] by (intro unat_u64_u32) simp
    moreover have "fc_floor_units cap pct = ucast ?u" using False small by (simp add: fc_floor_units_def Let_def)
    ultimately show ?thesis using lt by (simp add: word_le_nat_alt)
  qed
qed

text \<open>Less than the whole for a share under 100 percent.\<close>

lemma fc_floor_units_less:
  assumes "cap \<noteq> 0" "pct < 100" shows "fc_floor_units cap pct < cap"
proof -
  let ?u = "((ucast cap :: u64) * ucast pct + 99) div 100"
  have dec: "cap - 1 < cap" using assms(1) by (simp add: word_less_nat_alt unat_dec unat_gt_0)
  show ?thesis
  proof (cases "pct = 0 \<or> ?u \<ge> ucast cap")
    case True
    then show ?thesis using assms dec by (auto simp: fc_floor_units_def Let_def word_neq_0_conv)
  next
    case False
    then have lt: "unat ?u < unat cap" by (simp add: word_le_nat_alt not_le)
    then have "unat (ucast ?u :: u32) = unat ?u" using u32_less [of cap] by (intro unat_u64_u32) simp
    moreover have "\<not> 100 \<le> pct" using assms(2) by simp
    ultimately show ?thesis using lt assms(1) False by (simp add: fc_floor_units_def Let_def word_less_nat_alt)
  qed
qed

text \<open>The claims fit the ceiling together, whatever percentages are configured.\<close>

lemma unat_minus_le: "(y :: 'a::len word) \<le> x \<Longrightarrow> unat (x - y) = unat x - unat y"
  by (rule unat_sub)

lemma fc_floor_claims_fit:
  assumes "fc_floor_claims c cap = (floor, res)"
  shows "max (unat res) (unat (floor FC_BAND_CRITICAL)) + unat (floor FC_BAND_STANDARD) +
         unat (floor FC_BAND_SHEDDABLE) \<le> unat cap"
proof -
  let ?u = "\<lambda>b. fc_floor_units cap (c_band_min_share_pct c b)"
  define r where "r = fc_floor_units cap (c_critical_reserve_pct c)"
  define claim where "claim = (if r > ?u FC_BAND_CRITICAL then r else ?u FC_BAND_CRITICAL)"
  define l1 where "l1 = cap - claim"
  define f1 where "f1 = (if ?u FC_BAND_STANDARD < l1 then ?u FC_BAND_STANDARD else l1)"
  define l2 where "l2 = l1 - f1"
  define f2 where "f2 = (if ?u FC_BAND_SHEDDABLE < l2 then ?u FC_BAND_SHEDDABLE else l2)"
  have "fc_floor_claims c cap = ((\<lambda>_. 0)(FC_BAND_CRITICAL := ?u FC_BAND_CRITICAL,
      FC_BAND_STANDARD := f1, FC_BAND_SHEDDABLE := f2), r)"
    unfolding fc_floor_claims_def Let_def
    by (simp add: r_def claim_def l1_def f1_def l2_def f2_def cong: if_cong split del: if_split)
  then have fl: "res = r" "floor FC_BAND_CRITICAL = ?u FC_BAND_CRITICAL" "floor FC_BAND_STANDARD = f1"
      "floor FC_BAND_SHEDDABLE = f2"
    using assms by auto
  have "claim \<le> cap" by (simp add: claim_def r_def fc_floor_units_le)
  moreover have "f1 \<le> l1" "f2 \<le> l2" by (auto simp: f1_def f2_def)
  ultimately have a: "unat l1 = unat cap - unat claim" "unat l2 = unat l1 - unat f1" "unat f1 \<le> unat l1"
      "unat f2 \<le> unat l2" "unat claim \<le> unat cap"
    by (simp_all add: l1_def l2_def unat_sub word_le_nat_alt)
  have m: "max (unat r) (unat (?u FC_BAND_CRITICAL)) = unat claim"
    by (auto simp: claim_def max_def word_less_nat_alt)
  show ?thesis unfolding fl m using a by linarith
qed

lemma fc_floor_view_load_simps:
  assumes "v = fc_floor_view_load s cap None w"
  shows "v_cap v = cap" "v_total v = s_inflight s" "v_reserve v = snd (fc_floor_claims (s_cfg s) cap)"
    "v_floor v = fst (fc_floor_claims (s_cfg s) cap)" "v_in v = fc_band_inflight s"
    "v_claim v FC_BAND_CRITICAL = max (v_reserve v) (v_floor v FC_BAND_CRITICAL)"
    "b \<noteq> FC_BAND_CRITICAL \<Longrightarrow> v_claim v b = v_floor v b"
  using assms
  by (auto simp: fc_floor_view_load_def Let_def fc_band_inflight_def fun_eq_iff max_def split: prod.splits)

text \<open>What the other bands hold back, as a sum that never wraps.\<close>

lemma fc_floor_owed_le:
  "unat (fc_floor_owed v below y) \<le>
     (if y = FC_BAND_CRITICAL then max (unat (v_reserve v)) (unat (v_floor v y)) else unat (v_floor v y))"
  by (auto simp: fc_floor_owed_def Let_def word_less_nat_alt unat_sub word_le_nat_alt max_def split: if_splits)

definition owed_sum :: "fc_floor_view \<Rightarrow> fc_band \<Rightarrow> nat" where
  "owed_sum v band =
     (\<Sum>y \<leftarrow> fc_bands_all. if y = band then 0 else unat (fc_floor_owed v (v_in v band < v_claim v band) y))"

lemma fc_floor_held_back_sum:
  assumes "v = fc_floor_view_load s cap None w"
  shows "unat (fc_floor_held_back v band) = owed_sum v band" and "owed_sum v band \<le> unat cap"
proof -
  let ?o = "fc_floor_owed v (v_in v band < v_claim v band)"
  have fit: "max (unat (v_reserve v)) (unat (v_floor v FC_BAND_CRITICAL)) + unat (v_floor v FC_BAND_STANDARD) +
      unat (v_floor v FC_BAND_SHEDDABLE) \<le> unat cap"
    using fc_floor_claims_fit [of "s_cfg s" cap "v_floor v" "v_reserve v"] fc_floor_view_load_simps(3,4) [OF assms]
    by simp
  have o: "unat (?o FC_BAND_CRITICAL) \<le> max (unat (v_reserve v)) (unat (v_floor v FC_BAND_CRITICAL))"
      "unat (?o FC_BAND_STANDARD) \<le> unat (v_floor v FC_BAND_STANDARD)"
      "unat (?o FC_BAND_SHEDDABLE) \<le> unat (v_floor v FC_BAND_SHEDDABLE)"
    using fc_floor_owed_le [of v "v_in v band < v_claim v band" FC_BAND_CRITICAL]
      fc_floor_owed_le [of v "v_in v band < v_claim v band" FC_BAND_STANDARD]
      fc_floor_owed_le [of v "v_in v band < v_claim v band" FC_BAND_SHEDDABLE] by simp_all
  have "unat (?o FC_BAND_CRITICAL) + unat (?o FC_BAND_STANDARD) + unat (?o FC_BAND_SHEDDABLE) \<le> unat cap"
    using fit o by linarith
  moreover have "unat cap < 4294967296" by (rule u32_less)
  ultimately show "unat (fc_floor_held_back v band) = owed_sum v band" "owed_sum v band \<le> unat cap"
    by (cases band; simp add: fc_floor_held_back_def owed_sum_def fc_bands_all_def Let_def u32_add)+
qed

text \<open>
  A unit taken leaves free, under the ceiling, what the view owed the other bands.
\<close>

lemma take_inflight_Some:
  "take_inflight cap s = Some s' \<longleftrightarrow> s' = s\<lparr>s_inflight := s_inflight s + 1\<rparr> \<and> (cap = 0 \<or> s_inflight s < cap)"
  by (auto simp: take_inflight_def fc_unit_take_Some)

lemma take_inflight_zero [simp]: "take_inflight 0 s = Some (s\<lparr>s_inflight := s_inflight s + 1\<rparr>)"
  by (simp add: take_inflight_def)

interpretation svc: unit_counter s_inflight take_inflight give_inflight
  by unfold_locales
    (auto simp: take_inflight_def give_inflight_def fc_unit_take_def fc_unit_give_def Let_def split: if_splits)

lemma fc_unit_take_band_Some:
  assumes "fc_unit_take_band s b cap w = Some s'"
  shows "s' = s\<lparr>s_inflight := s_inflight s + 1\<rparr>" and "cap = 0 \<or> s_inflight s < cap"
proof -
  have "s' = s\<lparr>s_inflight := s_inflight s + 1\<rparr> \<and> (cap = 0 \<or> s_inflight s < cap)"
  proof (cases "fc_floors_apply s cap")
    case False
    then show ?thesis using assms by (simp add: fc_unit_take_band_def take_inflight_Some)
  next
    case True
    let ?h = "fc_floor_held_back (fc_floor_view_load s cap None w) b"
    have h: "\<not> ?h \<ge> cap" and t: "take_inflight (cap - ?h) s = Some s'"
      using assms True by (auto simp: fc_unit_take_band_def Let_def split: if_splits)
    have "cap - ?h \<noteq> 0" using h by auto
    then have "s_inflight s < cap - ?h" using t by (simp add: take_inflight_Some)
    moreover have "cap - ?h \<le> cap" using h by (simp add: word_le_nat_alt unat_sub)
    ultimately have "s_inflight s < cap" by (rule order_less_le_trans)
    then show ?thesis using t by (simp add: take_inflight_Some)
  qed
  then show "s' = s\<lparr>s_inflight := s_inflight s + 1\<rparr>" "cap = 0 \<or> s_inflight s < cap" by simp_all
qed

lemma fc_unit_take_band_held:
  assumes "fc_unit_take_band s b cap w = Some s'" "fc_floors_apply s cap" "v = fc_floor_view_load s cap None w"
  shows "unat (s_inflight s') + owed_sum v b \<le> unat cap"
proof -
  let ?h = "fc_floor_held_back v b"
  have h: "\<not> ?h \<ge> cap" and t: "take_inflight (cap - ?h) s = Some s'"
    using assms by (auto simp: fc_unit_take_band_def Let_def split: if_splits)
  have "cap - ?h \<noteq> 0" using h by auto
  then have lt: "s_inflight s < cap - ?h" and s': "s_inflight s' = s_inflight s + 1"
    using t by (auto simp: take_inflight_Some)
  then have "unat (s_inflight s') \<le> unat (cap - ?h)" using word_inc_le [OF lt] by (simp add: word_le_nat_alt)
  moreover have "unat (cap - ?h) = unat cap - unat ?h" using h by (simp add: unat_sub)
  moreover have "unat ?h = owed_sum v b" using fc_floor_held_back_sum [OF assms(3)] by simp
  moreover have "owed_sum v b \<le> unat cap" using fc_floor_held_back_sum [OF assms(3)] by simp
  ultimately show ?thesis by simp
qed

text \<open>The reserve is part of what is owed to critical.\<close>

lemma owed_reserve:
  assumes "b \<noteq> FC_BAND_CRITICAL"
  shows "unat (v_reserve v) - unat (v_in v FC_BAND_CRITICAL) \<le> owed_sum v b"
proof -
  have "unat (v_reserve v) - unat (v_in v FC_BAND_CRITICAL) \<le>
      unat (fc_floor_owed v (v_in v b < v_claim v b) FC_BAND_CRITICAL)"
    by (auto simp: fc_floor_owed_def Let_def word_less_nat_alt unat_sub word_le_nat_alt)
  also have "\<dots> \<le> owed_sum v b" using assms by (cases b) (simp_all add: owed_sum_def fc_bands_all_def)
  finally show ?thesis .
qed

text \<open>Critical below its claim is owed everything that is free.\<close>

lemma owed_critical_below:
  assumes "v_in v FC_BAND_CRITICAL < v_claim v FC_BAND_CRITICAL"
  shows "owed_sum v FC_BAND_CRITICAL = 0"
  using assms by (simp add: owed_sum_def fc_bands_all_def fc_floor_owed_def)

text \<open>
  The reserve in force: what critical has not taken of it is free. \<open>fc_reserve\<close> is the reserve of
  the configuration against a ceiling, in units.
\<close>

definition fc_reserve :: "fc_cfg \<Rightarrow> u32 \<Rightarrow> u32" where
  "fc_reserve c cap = snd (fc_floor_claims c cap)"

definition reserve_kept :: "fc_state \<Rightarrow> u32 \<Rightarrow> bool" where
  "reserve_kept s cap \<longleftrightarrow>
     unat (s_inflight s) + (unat (fc_reserve (s_cfg s) cap) - unat (s_band_inflight s FC_BAND_CRITICAL)) \<le> unat cap"

lemma fc_reserve_le: "fc_reserve c cap \<le> cap"
  by (simp add: fc_reserve_def fc_floor_claims_def Let_def fc_floor_units_le split: prod.splits)

lemma reserve_kept_take:
  assumes kept: "reserve_kept s cap" and fl: "fc_floors_apply s cap" and t: "fc_unit_take_band s b cap w = Some s'"
    and crit: "s_band_inflight s'' FC_BAND_CRITICAL =
       (if b = FC_BAND_CRITICAL then s_band_inflight s FC_BAND_CRITICAL + 1 else s_band_inflight s FC_BAND_CRITICAL)"
      "s_inflight s'' = s_inflight s'" "s_cfg s'' = s_cfg s"
    and small: "b = FC_BAND_CRITICAL \<longrightarrow> s_band_inflight s FC_BAND_CRITICAL \<noteq> -1"
  shows "reserve_kept s'' cap"
proof -
  define v where "v = fc_floor_view_load s cap None w"
  note V = fc_floor_view_load_simps [OF v_def]
  have vin: "v_in v FC_BAND_CRITICAL = s_band_inflight s FC_BAND_CRITICAL"
    by (simp add: V(5) fc_band_inflight_def fc_band_derive_def)
  have inc: "unat (s_inflight s') + owed_sum v b \<le> unat cap" by (rule fc_unit_take_band_held [OF t fl v_def])
  show ?thesis
  proof (cases "b = FC_BAND_CRITICAL")
    case False
    then show ?thesis using inc owed_reserve [OF False, of v] crit vin by (simp add: reserve_kept_def fc_reserve_def V(3))
  next
    case True
    have i1: "unat (s_inflight s') \<le> unat (s_inflight s) + 1"
      using fc_unit_take_band_Some(1) [OF t] by (simp add: unat_word_ariths)
    have b1: "unat (s_band_inflight s FC_BAND_CRITICAL + 1) = unat (s_band_inflight s FC_BAND_CRITICAL) + 1"
    proof -
      have "s_band_inflight s FC_BAND_CRITICAL < -1" using small True by (simp add: word_order.not_eq_extremum)
      then show ?thesis by (simp add: unat_inc)
    qed
    show ?thesis
      using True kept i1 b1 crit inc by (simp add: reserve_kept_def)
  qed
qed

text \<open>A critical request within the reserve is never refused for want of a unit.\<close>

lemma reserve_kept_admits:
  assumes kept: "reserve_kept s cap" and fl: "fc_floors_apply s cap"
    and low: "s_band_inflight s FC_BAND_CRITICAL < fc_reserve (s_cfg s) cap"
  shows "fc_unit_take_band s FC_BAND_CRITICAL cap w = Some (s\<lparr>s_inflight := s_inflight s + 1\<rparr>)"
proof -
  define v where "v = fc_floor_view_load s cap None w"
  note V = fc_floor_view_load_simps [OF v_def]
  have vin: "v_in v FC_BAND_CRITICAL = s_band_inflight s FC_BAND_CRITICAL"
    by (simp add: V(5) fc_band_inflight_def fc_band_derive_def)
  have "v_in v FC_BAND_CRITICAL < v_claim v FC_BAND_CRITICAL"
    using low by (simp add: V(6) vin fc_reserve_def V(3) less_max_iff_disj)
  then have "unat (fc_floor_held_back v FC_BAND_CRITICAL) = 0"
    using owed_critical_below fc_floor_held_back_sum(1) [OF v_def] by simp
  then have "fc_floor_held_back v FC_BAND_CRITICAL = 0" by (simp add: unat_eq_zero)
  moreover have "s_inflight s < cap"
    using kept low by (simp add: reserve_kept_def word_less_nat_alt)
  moreover have "cap \<noteq> 0" using fl by (simp add: fc_floors_apply_def)
  ultimately show ?thesis using fl
    by (simp add: fc_unit_take_band_def Let_def take_inflight_Some v_def [symmetric] not_le word_neq_0_conv)
qed

end
