(* ===== verification/FC_Adapt.thy ===== *)
theory FC_Adapt
  imports FC_Pool
begin

text \<open>
  Warm-up, time-to-first-token estimates, the adaptive ceiling and the queue-wait figures of
  \<open>common/sockproxy_fc.c\<close> (section "adaptive ceiling and warm-up", \<open>fc_adapt_reset\<close>, \<open>fc_note_wait\<close>,
  \<open>fc_retry_after_s\<close>). The clock reading \<open>fc_now_ns()\<close> is the parameter \<open>clock\<close>.
\<close>

section \<open>Warm-up\<close>

text \<open>An endpoint's ceiling for a role; \<open>now_ns = 0\<close> reads the clock.\<close>

definition fc_ep_cap_now :: "fc_state \<Rightarrow> u64 \<Rightarrow> int \<Rightarrow> int \<Rightarrow> u64 \<Rightarrow> u32" where
  "fc_ep_cap_now s clock ep role now_ns =
     (case role_of role of None \<Rightarrow> 0
      | Some r \<Rightarrow>
        let cap = c_ep_cap (s_cfg s) r; win = c_warmup_ms (s_cfg s)
        in if cap = 0 \<or> win = 0 \<or> \<not> ep_ok ep then cap
           else let since = s_warm_since_ns s (nat ep)
                in if since = 0 then cap
                   else let now_ns = (if now_ns = 0 then clock else now_ns);
                            elapsed_ms = (if now_ns \<le> since then 0 else (now_ns - since) div 1000000)
                        in if elapsed_ms \<ge> ucast win then cap
                           else let floor = (if cap div 4 \<noteq> 0 then cap div 4 else 1)
                                in floor + ucast ((ucast (cap - floor) :: u64) * elapsed_ms div ucast win))"

definition fc_ep_warm_start :: "fc_state \<Rightarrow> u64 \<Rightarrow> int \<Rightarrow> u64 \<Rightarrow> fc_state" where
  "fc_ep_warm_start s clock ep now_ns =
     (if \<not> ep_ok ep \<or> c_warmup_ms (s_cfg s) = 0 then s
      else let now_ns = (if now_ns = 0 then clock else now_ns)
           in s\<lparr>s_warm_since_ns := (s_warm_since_ns s)(nat ep := now_ns)\<rparr>)"

definition fc_warming_eps :: "fc_state \<Rightarrow> u64 \<Rightarrow> nat" where
  "fc_warming_eps s now_ns =
     (if c_warmup_ms (s_cfg s) = 0 then 0
      else let win_ns = (ucast (c_warmup_ms (s_cfg s)) :: u64) * 1000000
           in fold (\<lambda>e n. let since = s_warm_since_ns s e
                          in if since \<noteq> 0 \<and> (now_ns \<le> since \<or> now_ns - since < win_ns) then n + 1 else n)
                [0..<FC_MAX_EP] 0)"

section \<open>Time to first token\<close>

definition fc_ttft_fresh :: "fc_state \<Rightarrow> int \<Rightarrow> u64 \<Rightarrow> bool" where
  "fc_ttft_fresh s ep now_ns =
     (if \<not> ep_ok ep then False
      else let ts = s_ttft_ts_ns s (nat ep)
           in if ts = 0 then False
              else now_ns \<le> ts \<or> now_ns - ts \<le> ucast (c_telemetry_stale_ms (s_cfg s)) * 1000000)"

definition fc_ttft_sample :: "fc_state \<Rightarrow> u64 \<Rightarrow> int \<Rightarrow> u32 \<Rightarrow> u64 \<Rightarrow> fc_state" where
  "fc_ttft_sample s clock ep ms now_ns =
     (if \<not> ep_ok ep then s
      else let now_ns = (if now_ns = 0 then clock else now_ns);
               old = s_ttft_ewma_ms s (nat ep);
               nxt = (if old = 0 \<or> \<not> fc_ttft_fresh s ep now_ns then (if ms \<noteq> 0 then ms else 1)
                      else ucast (((ucast old :: u64) * 7 + ucast ms + 7) div 8))
           in s\<lparr>s_ttft_ewma_ms := (s_ttft_ewma_ms s)(nat ep := nxt),
                s_ttft_ts_ns := (s_ttft_ts_ns s)(nat ep := now_ns)\<rparr>)"

text \<open>The answer and whether the estimate is fresh.\<close>

definition fc_ttft_over :: "fc_state \<Rightarrow> int \<Rightarrow> u64 \<Rightarrow> bool \<times> bool" where
  "fc_ttft_over s ep now_ns =
     (if c_ttft_target_ms (s_cfg s) = 0 then (False, False)
      else let f = fc_ttft_fresh s ep now_ns
           in (f \<and> s_ttft_ewma_ms s (nat ep) > c_ttft_target_ms (s_cfg s), f))"

text \<open>The sample of a request's first token, taken on the pool its permit is bound to.\<close>

definition fc_permit_ttft :: "fc_world \<Rightarrow> fc_permit \<Rightarrow> fc_world" where
  "fc_permit_ttft w p =
     (case p_fc p of None \<Rightarrow> w
      | Some f \<Rightarrow>
        let s = w_pools w f;
            ep = (if p_ep p FC_ROLE_DECODE \<ge> 0 then p_ep p FC_ROLE_DECODE else p_ep p FC_ROLE_NORMAL);
            now = w_clock w
        in if p_state p \<noteq> FC_P_EXECUTING \<or> p_admit_ns p = 0 \<or> c_ttft_target_ms (s_cfg s) = 0 \<or> ep < 0 \<or>
              now \<le> p_admit_ns p
           then w
           else w\<lparr>w_pools := (w_pools w)
                    (f := fc_ttft_sample s (w_clock w) ep (ucast ((now - p_admit_ns p) div 1000000)) now)\<rparr>)"

section \<open>The adaptive ceiling\<close>

text \<open>Where the ceiling stands after a configuration change from \<open>old\<close>.\<close>

definition fc_adapt_reset :: "fc_state \<Rightarrow> fc_cfg \<Rightarrow> fc_state" where
  "fc_adapt_reset s old =
     (let ceil = c_max_outstanding (s_cfg s); eff = s_eff_max s
      in if \<not> c_adaptive (s_cfg s) \<or> ceil = 0
         then s\<lparr>s_eff_max := ceil, s_adapt_state := FC_AS_OFF, s_adapt_reason := FC_AR_NONE\<rparr>
         else let eff = (if \<not> c_adaptive old \<or> c_max_outstanding old = 0 \<or> eff = 0 \<or> eff > ceil \<or>
                            eff \<ge> c_max_outstanding old then ceil else eff)
              in s\<lparr>s_eff_max := eff, s_adapt_state := (if eff < ceil then FC_AS_TIGHTENED else FC_AS_OPEN)\<rparr>)"

text \<open>
  One tick up to its wake: the new state and whether the tick reaches \<open>fc_queue_wake_room\<close>.
\<close>

definition fc_adapt_step :: "fc_state \<Rightarrow> fc_signal \<Rightarrow> fc_state \<times> bool" where
  "fc_adapt_step s sig =
     (if \<not> c_adaptive (s_cfg s) \<or> c_max_outstanding (s_cfg s) = 0 then (s, False)
      else let ceil = c_max_outstanding (s_cfg s);
               eff = (if s_eff_max s = 0 \<or> s_eff_max s > ceil then ceil else s_eff_max s);
               floor = (if ceil div 4 \<noteq> 0 then ceil div 4 else 1)
           in if \<not> sig_fresh sig
              then let s = s\<lparr>s_adapt_state := (if eff < ceil then FC_AS_FROZEN else FC_AS_OPEN)\<rparr>
                   in (if eff < ceil then s\<lparr>s_adapt_reason := FC_AR_STALE\<rparr> else s, False)
              else if sig_queued sig \<or> sig_ttft_over sig
              then let reason = (if sig_queued sig then FC_AR_QUEUED else FC_AR_TTFT);
                       nxt = ucast ((ucast eff :: u64) * 4 div 5);
                       nxt = (if nxt < floor then floor else nxt);
                       s = (if nxt < eff
                            then s\<lparr>s_eff_max := nxt, s_adapt_moves := (fst (s_adapt_moves s) + 1, snd (s_adapt_moves s))\<rparr>
                            else s)
                   in (s\<lparr>s_adapt_reason := reason,
                         s_adapt_state := (if nxt < ceil then FC_AS_TIGHTENED else FC_AS_OPEN)\<rparr>, False)
              else let s' = (if eff < ceil
                             then s\<lparr>s_eff_max := eff + 1,
                                    s_adapt_moves := (fst (s_adapt_moves s), snd (s_adapt_moves s) + 1),
                                    s_adapt_reason := FC_AR_CLEAR\<rparr> else s);
                       eff = (if eff < ceil then eff + 1 else eff)
                   in (s'\<lparr>s_adapt_state := (if eff < ceil then FC_AS_TIGHTENED else FC_AS_OPEN)\<rparr>, True))"

section \<open>Queue waits\<close>

definition fc_qwait_bounds_ms :: "u64 list" where
  "fc_qwait_bounds_ms = [10, 50, 100, 250, 500, 1000, 2500, 5000]"

definition fc_note_wait :: "fc_state \<Rightarrow> u64 \<Rightarrow> fc_state" where
  "fc_note_wait s wait_ms =
     (let s = (case find (\<lambda>i. wait_ms \<le> fc_qwait_bounds_ms ! i) [0..<8] of
                 None \<Rightarrow> s
               | Some i \<Rightarrow> s\<lparr>s_qwait_bucket := (s_qwait_bucket s)(i := s_qwait_bucket s i + 1)\<rparr>)
      in s\<lparr>s_qwait_sum_ms := s_qwait_sum_ms s + wait_ms, s_qwait_count := s_qwait_count s + 1\<rparr>)"

definition fc_retry_after_s :: "fc_state \<Rightarrow> u32" where
  "fc_retry_after_s s =
     (let n = s_qwait_count s; sum = s_qwait_sum_ms s
      in if n = 0 then 1
         else let mean_ms = sum div n; x = (mean_ms + 999) div 1000;
                  x = (if x < 1 then 1 else x); x = (if x > 30 then 30 else x)
              in ucast x)"

definition fc_queue_memory_bytes :: "u32 \<Rightarrow> u64" where
  "fc_queue_memory_bytes depth = push_bit 20 (ucast depth)"

text \<open>\<open>sysconf\<close> gives the number of pages and their size.\<close>

definition fc_node_memory_bytes :: "int \<Rightarrow> int \<Rightarrow> u64" where
  "fc_node_memory_bytes pages psize =
     (if pages \<le> 0 \<or> psize \<le> 0 then 0 else word_of_int pages * word_of_int psize)"

section \<open>Bounds\<close>

text \<open>A quarter of a ceiling, at least one.\<close>

definition quarter :: "u32 \<Rightarrow> u32" where
  "quarter c = (if c div 4 \<noteq> 0 then c div 4 else 1)"

lemma quarter_bounds: "c \<noteq> 0 \<Longrightarrow> 0 < quarter c \<and> quarter c \<le> c"
proof -
  assume "c \<noteq> 0"
  then have "1 \<le> unat c" by (simp add: Suc_le_eq unat_gt_0)
  moreover have "unat (quarter c) = max 1 (unat c div 4)"
  proof (cases "c div 4 = 0")
    case True
    have "unat c div 4 = unat (c div 4)" by (simp add: unat_div)
    also have "\<dots> = 0" using True by simp
    finally show ?thesis using True by (simp add: quarter_def)
  next
    case False
    then have "unat (c div 4) \<noteq> 0" by (simp add: unat_eq_zero)
    then show ?thesis using False by (simp add: quarter_def unat_div)
  qed
  ultimately show ?thesis by (simp add: word_less_nat_alt word_le_nat_alt)
qed

text \<open>The ramp of a warming endpoint as natural-number arithmetic.\<close>

lemma ramp_unat:
  assumes "f \<le> (cap :: u32)" "e < ucast (win :: u32)"
  shows "unat (f + ucast ((ucast (cap - f) :: u64) * e div ucast win)) = unat f + (unat cap - unat f) * unat e div unat win"
    and "unat f + (unat cap - unat f) * unat e div unat win \<le> unat cap"
proof -
  have w: "unat e < unat win" using assms(2) by (simp add: word_less_nat_alt)
  have d: "unat (cap - f) = unat cap - unat f" using assms(1) by (simp add: unat_sub)
  have "(unat cap - unat f) * unat e < 4294967296 * 4294967296"
    using u32_less [of cap] u32_less [of win] w by (intro mult_strict_mono) simp_all
  then have m: "unat ((ucast (cap - f) :: u64) * e) = (unat cap - unat f) * unat e"
    by (subst u64_mult) (simp_all add: d)
  have le: "(unat cap - unat f) * unat e div unat win \<le> unat cap - unat f"
  proof -
    have "(unat cap - unat f) * unat e \<le> (unat cap - unat f) * unat win" using w by simp
    then have "(unat cap - unat f) * unat e div unat win \<le> (unat cap - unat f) * unat win div unat win"
      by (rule div_le_mono)
    then show ?thesis using w by simp
  qed
  have "unat f \<le> unat cap" using assms(1) by (simp add: word_le_nat_alt)
  then show b: "unat f + (unat cap - unat f) * unat e div unat win \<le> unat cap" using le by simp
  have "unat ((ucast (cap - f) :: u64) * e div ucast win) = (unat cap - unat f) * unat e div unat win"
    by (simp add: unat_div m)
  then have "unat (ucast ((ucast (cap - f) :: u64) * e div ucast win) :: u32) = (unat cap - unat f) * unat e div unat win"
    using le u32_less [of cap] by (subst unat_u64_u32) simp_all
  then show "unat (f + ucast ((ucast (cap - f) :: u64) * e div ucast win)) = unat f + (unat cap - unat f) * unat e div unat win"
    using b u32_less [of cap] by (subst u32_add) simp_all
qed

definition elapsed_of :: "u64 \<Rightarrow> u64 \<Rightarrow> u64" where
  "elapsed_of now since = (if now \<le> since then 0 else (now - since) div 1000000)"

lemma elapsed_of_mono: "now \<le> now' \<Longrightarrow> elapsed_of now since \<le> elapsed_of now' since"
proof -
  assume le: "now \<le> now'"
  have "unat (now - since) \<le> unat (now' - since)" if "since < now"
    using le that by (simp add: unat_sub word_le_nat_alt word_less_nat_alt)
  then show ?thesis using le
    by (auto simp: elapsed_of_def word_le_nat_alt unat_div not_le word_less_nat_alt intro: div_le_mono)
qed

text \<open>An endpoint that is warming up, and what its ceiling is then.\<close>

lemma fc_ep_cap_now_eq:
  assumes "role_of role = Some r" "c_ep_cap (s_cfg s) r \<noteq> 0" "c_warmup_ms (s_cfg s) \<noteq> 0" "ep_ok ep"
    "s_warm_since_ns s (nat ep) \<noteq> 0" "now \<noteq> 0"
  shows "fc_ep_cap_now s clock ep role now =
    (let cap = c_ep_cap (s_cfg s) r; win = c_warmup_ms (s_cfg s); e = elapsed_of now (s_warm_since_ns s (nat ep))
     in if e \<ge> ucast win then cap
        else quarter cap + ucast ((ucast (cap - quarter cap) :: u64) * e div ucast win))"
  using assms by (simp add: fc_ep_cap_now_def Let_def elapsed_of_def quarter_def)

lemma fc_ep_cap_now_cases:
  assumes "role_of role = Some r"
  shows "fc_ep_cap_now s clock ep role now = c_ep_cap (s_cfg s) r \<or>
    (c_ep_cap (s_cfg s) r \<noteq> 0 \<and> c_warmup_ms (s_cfg s) \<noteq> 0 \<and> (\<exists>e < ucast (c_warmup_ms (s_cfg s)).
      fc_ep_cap_now s clock ep role now = quarter (c_ep_cap (s_cfg s) r) +
        ucast ((ucast (c_ep_cap (s_cfg s) r - quarter (c_ep_cap (s_cfg s) r)) :: u64) * e div ucast (c_warmup_ms (s_cfg s)))))"
  using assms by (auto simp: fc_ep_cap_now_def Let_def quarter_def not_le)

lemma fc_ep_cap_now_bounds:
  assumes "role_of role = Some r" "c_ep_cap (s_cfg s) r \<noteq> 0"
  shows "quarter (c_ep_cap (s_cfg s) r) \<le> fc_ep_cap_now s clock ep role now"
    and "fc_ep_cap_now s clock ep role now \<le> c_ep_cap (s_cfg s) r"
    and "fc_ep_cap_now s clock ep role now \<noteq> 0"
proof -
  let ?c = "c_ep_cap (s_cfg s) r"
  note q = quarter_bounds [OF assms(2)]
  have "quarter ?c \<le> fc_ep_cap_now s clock ep role now \<and> fc_ep_cap_now s clock ep role now \<le> ?c"
    using fc_ep_cap_now_cases [OF assms(1), of s clock ep now]
  proof
    assume "fc_ep_cap_now s clock ep role now = ?c"
    then show ?thesis using q by simp
  next
    assume "?c \<noteq> 0 \<and> c_warmup_ms (s_cfg s) \<noteq> 0 \<and> (\<exists>e < ucast (c_warmup_ms (s_cfg s)).
      fc_ep_cap_now s clock ep role now = quarter ?c + ucast ((ucast (?c - quarter ?c) :: u64) * e div ucast (c_warmup_ms (s_cfg s))))"
    then obtain e where e: "e < ucast (c_warmup_ms (s_cfg s))"
      "fc_ep_cap_now s clock ep role now = quarter ?c + ucast ((ucast (?c - quarter ?c) :: u64) * e div ucast (c_warmup_ms (s_cfg s)))"
      by blast
    have le: "quarter ?c \<le> ?c" using q by simp
    show ?thesis unfolding e(2) word_le_nat_alt ramp_unat(1) [OF le e(1)] using ramp_unat(2) [OF le e(1)] by simp
  qed
  then show "quarter ?c \<le> fc_ep_cap_now s clock ep role now" "fc_ep_cap_now s clock ep role now \<le> ?c"
    "fc_ep_cap_now s clock ep role now \<noteq> 0" using q by auto
qed

lemma fc_ep_cap_now_mono:
  assumes "role_of role = Some r" "now \<noteq> 0" "now \<le> now'"
  shows "fc_ep_cap_now s clock ep role now \<le> fc_ep_cap_now s clock ep role now'"
proof (cases "c_ep_cap (s_cfg s) r = 0 \<or> c_warmup_ms (s_cfg s) = 0 \<or> \<not> ep_ok ep \<or> s_warm_since_ns s (nat ep) = 0")
  case True
  then show ?thesis using assms(1) by (auto simp: fc_ep_cap_now_def Let_def)
next
  case False
  let ?c = "c_ep_cap (s_cfg s) r" and ?w = "c_warmup_ms (s_cfg s)" and ?since = "s_warm_since_ns s (nat ep)"
  have n': "now' \<noteq> 0" using assms(2,3) by auto
  have le: "quarter ?c \<le> ?c" using quarter_bounds [of ?c] False by simp
  note E = fc_ep_cap_now_eq [OF assms(1), of s ep, unfolded Let_def] 
  have el: "elapsed_of now ?since \<le> elapsed_of now' ?since" by (rule elapsed_of_mono [OF assms(3)])
  show ?thesis
  proof (cases "elapsed_of now' ?since \<ge> ucast ?w")
    case True
    then have "fc_ep_cap_now s clock ep role now' = ?c" using E [of now'] False n' by simp
    then show ?thesis using fc_ep_cap_now_bounds(2) [OF assms(1)] False by simp
  next
    case small: False
    then have e: "elapsed_of now ?since < ucast ?w" "elapsed_of now' ?since < ucast ?w" using el by auto
    have "fc_ep_cap_now s clock ep role n = quarter ?c + ucast ((ucast (?c - quarter ?c) :: u64) * elapsed_of n ?since div ucast ?w)"
      if "n \<noteq> 0" "elapsed_of n ?since < ucast ?w" for n
      using E [of n] False that by auto
    then have u: "unat (fc_ep_cap_now s clock ep role n) =
        unat (quarter ?c) + (unat ?c - unat (quarter ?c)) * unat (elapsed_of n ?since) div unat ?w"
      if "n \<noteq> 0" "elapsed_of n ?since < ucast ?w" for n
      using ramp_unat(1) [OF le that(2)] that by simp
    have "unat (elapsed_of now ?since) \<le> unat (elapsed_of now' ?since)" using el by (simp add: word_le_nat_alt)
    then show ?thesis unfolding word_le_nat_alt u [OF assms(2) e(1)] u [OF n' e(2)]
      by (simp add: div_le_mono mult_le_mono2)
  qed
qed

text \<open>The estimate stays between the old one and the sample, and never reads as "no sample".\<close>

lemma ewma_unat: "unat (ucast (((ucast (old :: u32) :: u64) * 7 + ucast (ms :: u32) + 7) div 8) :: u32) = (unat old * 7 + unat ms + 7) div 8"
proof -
  have o: "unat old < 4294967296" "unat ms < 4294967296" by (rule u32_less)+
  have "unat ((ucast old :: u64) * 7) = unat old * 7" using o by (subst u64_mult) simp_all
  then have "unat ((ucast old :: u64) * 7 + ucast ms + 7) = unat old * 7 + unat ms + 7"
    using o by (simp add: u64_add)
  then have "unat (((ucast old :: u64) * 7 + ucast ms + 7) div 8) = (unat old * 7 + unat ms + 7) div 8"
    by (simp add: unat_div)
  moreover have "(unat old * 7 + unat ms + 7) div 8 < 4294967296" using o by simp
  ultimately show ?thesis by (simp add: unat_u64_u32)
qed

lemma fc_ttft_sample_bounds:
  assumes "ep_ok ep" "ms \<noteq> 0"
  shows "min (s_ttft_ewma_ms s (nat ep)) ms \<le> s_ttft_ewma_ms (fc_ttft_sample s clock ep ms now) (nat ep)"
    and "s_ttft_ewma_ms (fc_ttft_sample s clock ep ms now) (nat ep) \<le> max (s_ttft_ewma_ms s (nat ep)) ms"
    and "s_ttft_ewma_ms (fc_ttft_sample s clock ep ms now) (nat ep) \<noteq> 0"
proof -
  define old where "old = s_ttft_ewma_ms s (nat ep)"
  define nxt :: u32 where "nxt = ucast (((ucast old :: u64) * 7 + ucast ms + 7) div 8)"
  have e: "s_ttft_ewma_ms (fc_ttft_sample s clock ep ms now) (nat ep) =
      (if old = 0 \<or> \<not> fc_ttft_fresh s ep (if now = 0 then clock else now) then ms else nxt)"
    using assms by (simp add: fc_ttft_sample_def Let_def old_def nxt_def)
  have n: "unat nxt = (unat old * 7 + unat ms + 7) div 8" unfolding nxt_def by (rule ewma_unat)
  have "min (unat old) (unat ms) \<le> unat nxt" "unat nxt \<le> max (unat old) (unat ms)"
    unfolding n by linarith+
  then have b: "min old ms \<le> nxt" "nxt \<le> max old ms"
    by (auto simp: word_le_nat_alt min_def max_def split: if_splits)
  have "nxt \<noteq> 0" if "old \<noteq> 0" using b(1) that assms(2) by (auto simp: min_def split: if_splits)
  then show "min (s_ttft_ewma_ms s (nat ep)) ms \<le> s_ttft_ewma_ms (fc_ttft_sample s clock ep ms now) (nat ep)"
    "s_ttft_ewma_ms (fc_ttft_sample s clock ep ms now) (nat ep) \<le> max (s_ttft_ewma_ms s (nat ep)) ms"
    "s_ttft_ewma_ms (fc_ttft_sample s clock ep ms now) (nat ep) \<noteq> 0"
    unfolding e using b assms(2) by (auto simp: old_def [symmetric])
qed

text \<open>The adaptive ceiling lies between a quarter of the configured one and all of it.\<close>

definition adapt_ok :: "fc_state \<Rightarrow> bool" where
  "adapt_ok s \<longleftrightarrow> (c_adaptive (s_cfg s) \<and> c_max_outstanding (s_cfg s) \<noteq> 0 \<longrightarrow>
     s_eff_max s \<noteq> 0 \<and> s_eff_max s \<le> c_max_outstanding (s_cfg s))"

lemma fc_adapt_reset_ok: "adapt_ok (fc_adapt_reset s old)"
  by (auto simp: adapt_ok_def fc_adapt_reset_def Let_def)

lemma four_fifths: "unat (ucast ((ucast (eff :: u32) :: u64) * 4 div 5) :: u32) = unat eff * 4 div 5"
proof -
  have o: "unat eff < 4294967296" by (rule u32_less)
  then have "unat ((ucast eff :: u64) * 4) = unat eff * 4" by (subst u64_mult) simp_all
  then have "unat ((ucast eff :: u64) * 4 div 5) = unat eff * 4 div 5" by (simp add: unat_div)
  then show ?thesis using o by (simp add: unat_u64_u32)
qed

lemma fc_adapt_step_cfg [simp]: "s_cfg (fst (fc_adapt_step s sig)) = s_cfg s"
  by (simp add: fc_adapt_step_def Let_def)

text \<open>The ceiling in force after a tick, on each branch.\<close>

lemma fc_adapt_step_eff:
  assumes "c_adaptive (s_cfg s)" "c_max_outstanding (s_cfg s) \<noteq> 0" "adapt_ok s"
  shows "s_eff_max (fst (fc_adapt_step s sig)) =
    (if \<not> sig_fresh sig then s_eff_max s
     else if sig_queued sig \<or> sig_ttft_over sig
     then min (s_eff_max s) (max (quarter (c_max_outstanding (s_cfg s))) (ucast ((ucast (s_eff_max s) :: u64) * 4 div 5)))
     else if s_eff_max s < c_max_outstanding (s_cfg s) then s_eff_max s + 1 else s_eff_max s)"
proof -
  let ?c = "c_max_outstanding (s_cfg s)" and ?e = "s_eff_max s"
  have e: "(if ?e = 0 \<or> ?e > ?c then ?c else ?e) = ?e" using assms by (auto simp: adapt_ok_def)
  have q: "(if ?c div 4 \<noteq> 0 then ?c div 4 else 1) = quarter ?c" by (simp add: quarter_def)
  define n :: u32 where "n = ucast ((ucast ?e :: u64) * 4 div 5)"
  define m where "m = max (quarter ?c) n"
  have m: "(if n < quarter ?c then quarter ?c else n) = m" by (auto simp: m_def max_def)
  show ?thesis using assms(1,2)
    unfolding fc_adapt_step_def Let_def e q n_def [symmetric] m m_def [symmetric] by (auto simp: min_def not_less)
qed

lemma fc_adapt_step_ok:
  assumes "adapt_ok s" shows "adapt_ok (fst (fc_adapt_step s sig))"
proof (cases "c_adaptive (s_cfg s) \<and> c_max_outstanding (s_cfg s) \<noteq> 0")
  case False
  then show ?thesis by (auto simp: adapt_ok_def)
next
  case True
  let ?c = "c_max_outstanding (s_cfg s)" and ?e = "s_eff_max s"
  have e: "?e \<noteq> 0" "?e \<le> ?c" using True assms by (simp_all add: adapt_ok_def)
  have "0 < quarter ?c" using quarter_bounds True by simp
  then have "min ?e (max (quarter ?c) x) \<noteq> 0" "min ?e (max (quarter ?c) x) \<le> ?c" for x
    using e by (auto simp: min_def max_def split: if_splits)
  moreover have "?e + 1 \<noteq> 0 \<and> ?e + 1 \<le> ?c" if "?e < ?c"
    using word_inc_le [OF that] word_inc_gt [OF that] e by auto
  ultimately show ?thesis using e fc_adapt_step_eff [of s sig] True assms by (auto simp: adapt_ok_def)
qed

text \<open>The advice to a refused client.\<close>

lemma fc_retry_after_s_bounds: "1 \<le> fc_retry_after_s s \<and> fc_retry_after_s s \<le> 30"
proof -
  define x where "x = (s_qwait_sum_ms s div s_qwait_count s + 999) div 1000"
  define y where "y = (if (if x < 1 then 1 else x) > 30 then 30 else if x < 1 then 1 else x)"
  have r: "fc_retry_after_s s = (if s_qwait_count s = 0 then 1 else ucast y)"
    by (simp add: fc_retry_after_s_def Let_def x_def y_def)
  have "1 \<le> x" if "x \<noteq> 0" using that by (simp add: word_le_nat_alt Suc_le_eq unat_gt_0)
  then have "1 \<le> y \<and> y \<le> 30" by (auto simp: y_def not_less)
  then have "1 \<le> unat y \<and> unat y \<le> 30" by (simp add: word_le_nat_alt)
  moreover have "unat (ucast y :: u32) = unat y" using calculation by (intro unat_u64_u32) simp
  ultimately show ?thesis by (simp add: r word_le_nat_alt)
qed

end
