(* ===== verification/FC_World.thy ===== *)
theory FC_World
  imports FC_Adapt
begin

text \<open>
  The process around the pools: the permit of a request and its binding to a pool
  (\<open>fc_permit_reset\<close>, \<open>fc_permit_bind\<close>, \<open>fc_permit_unbind\<close>, \<open>fc_permit_init\<close>, \<open>fc_permit_settle\<close>),
  the drain flag and the deadline timer of \<open>common/sockproxy_fc.c\<close>. A permit is passed by value and
  returned updated; a pool is named by its address.
\<close>

section \<open>State of the process\<close>

definition w_set :: "fc_world \<Rightarrow> pool_ref \<Rightarrow> fc_state \<Rightarrow> fc_world" where
  "w_set w f s = w\<lparr>w_pools := (w_pools w)(f := s)\<rparr>"

definition w_call :: "fc_world \<Rightarrow> fc_call \<Rightarrow> fc_world" where
  "w_call w c = w\<lparr>w_calls := w_calls w @ [c]\<rparr>"

definition w_note :: "fc_world \<Rightarrow> fc_anomaly list \<Rightarrow> fc_world" where
  "w_note w an = fold (\<lambda>a w. w\<lparr>w_anomaly := (w_anomaly w)(a := w_anomaly w a + 1)\<rparr>) an w"

lemma w_set_simps [simp]:
  "w_pools (w_set w f s) = (w_pools w)(f := s)" "w_anomaly (w_set w f s) = w_anomaly w"
  "w_drain_flag (w_set w f s) = w_drain_flag w" "w_timer (w_set w f s) = w_timer w"
  "w_clock (w_set w f s) = w_clock w" "w_calloc (w_set w f s) = w_calloc w" "w_calls (w_set w f s) = w_calls w"
  "w_owner_hold (w_set w f s) = w_owner_hold w" "w_owner_drop (w_set w f s) = w_owner_drop w"
  "w_wake_hook (w_set w f s) = w_wake_hook w"
  by (simp_all add: w_set_def)

lemma w_call_simps [simp]:
  "w_pools (w_call w c) = w_pools w" "w_anomaly (w_call w c) = w_anomaly w" "w_calloc (w_call w c) = w_calloc w"
  "w_drain_flag (w_call w c) = w_drain_flag w" "w_timer (w_call w c) = w_timer w" "w_clock (w_call w c) = w_clock w"
  "w_owner_hold (w_call w c) = w_owner_hold w" "w_owner_drop (w_call w c) = w_owner_drop w"
  "w_wake_hook (w_call w c) = w_wake_hook w" "w_calls (w_call w c) = w_calls w @ [c]"
  by (simp_all add: w_call_def)

lemma w_note_Nil [simp]: "w_note w [] = w"
  by (simp add: w_note_def)

lemma w_note_simps [simp]:
  "w_pools (w_note w an) = w_pools w" "w_calloc (w_note w an) = w_calloc w"
  "w_drain_flag (w_note w an) = w_drain_flag w" "w_timer (w_note w an) = w_timer w" "w_clock (w_note w an) = w_clock w"
  "w_owner_hold (w_note w an) = w_owner_hold w" "w_owner_drop (w_note w an) = w_owner_drop w"
  "w_wake_hook (w_note w an) = w_wake_hook w" "w_calls (w_note w an) = w_calls w"
  by (induction an arbitrary: w; simp add: w_note_def)+

definition fc_drain_set :: "fc_world \<Rightarrow> bool \<Rightarrow> fc_world" where
  "fc_drain_set w on = w\<lparr>w_drain_flag := on\<rparr>"

definition fc_draining :: "fc_world \<Rightarrow> bool" where
  "fc_draining w = w_drain_flag w"

text \<open>The hooks are installed once at start.\<close>

definition fc_set_owner_hooks :: "fc_world \<Rightarrow> bool \<Rightarrow> bool \<Rightarrow> fc_world" where
  "fc_set_owner_hooks w hold drp = w\<lparr>w_owner_hold := hold, w_owner_drop := drp\<rparr>"

definition fc_set_wake_hook :: "fc_world \<Rightarrow> (fc_call list \<Rightarrow> int \<Rightarrow> u64 \<Rightarrow> bool) option \<Rightarrow> fc_world" where
  "fc_set_wake_hook w fn = w\<lparr>w_wake_hook := fn\<rparr>"

text \<open>The wake hook: the call is recorded; \<open>True\<close> when it was delivered.\<close>

definition wake_call :: "fc_world \<Rightarrow> int \<Rightarrow> u64 \<Rightarrow> bool \<times> fc_world" where
  "wake_call w fd gen =
     (case w_wake_hook w of None \<Rightarrow> (False, w)
      | Some hook \<Rightarrow> (hook (w_calls w) fd gen, w_call w (Wake fd gen)))"

section \<open>Permits\<close>

definition fc_permit_reset :: "fc_permit \<Rightarrow> fc_permit" where
  "fc_permit_reset p =
     \<lparr>p_fc = None, p_state = FC_P_NONE, p_svc_held = False, p_woken = False, p_band = FC_BAND_STANDARD,
      p_q_parked = False, p_q_ttl_cut = False, p_q_ttl_ms = 0, p_ep = (\<lambda>_. -1), p_q_fd = -1, p_q_slot = 0,
      p_q_gen = 0, p_q_enqueue_ns = 0, p_q_deadline_ns = 0, p_q_first_ns = 0, p_admit_ns = 0, p_tkey = 0,
      p_tslot = -1\<rparr>"

definition fc_permit_unbind :: "fc_world \<Rightarrow> fc_permit \<Rightarrow> fc_world \<times> fc_permit" where
  "fc_permit_unbind w p =
     (if \<not> w_owner_drop w then (w, p)
      else (case p_fc p of None \<Rightarrow> w | Some old \<Rightarrow> w_call w (OwnerDrop old), p\<lparr>p_fc := None\<rparr>))"

definition fc_permit_init :: "fc_world \<Rightarrow> fc_permit \<Rightarrow> fc_world \<times> fc_permit" where
  "fc_permit_init w p = (let (w, p) = fc_permit_unbind w p in (w, fc_permit_reset p))"

definition fc_permit_bind :: "fc_world \<Rightarrow> fc_permit \<Rightarrow> pool_ref option \<Rightarrow> fc_world \<times> fc_permit" where
  "fc_permit_bind w p fc =
     (let old = (if w_owner_drop w then p_fc p else None);
          w = (case fc of Some f \<Rightarrow> if w_owner_hold w then w_call w (OwnerHold f) else w | None \<Rightarrow> w);
          p = (fc_permit_reset p)\<lparr>p_fc := fc\<rparr>;
          w = (case old of Some o' \<Rightarrow> w_call w (OwnerDrop o') | None \<Rightarrow> w)
      in (w, p))"

text \<open>QUEUED to another state, once: whether this caller made the transition.\<close>

definition fc_permit_settle :: "fc_permit \<Rightarrow> fc_permit_state \<Rightarrow> bool \<times> fc_permit" where
  "fc_permit_settle p to' = (if p_state p = FC_P_QUEUED then (True, p\<lparr>p_state := to'\<rparr>) else (False, p))"

lemma fc_permit_bind_permit:
  "snd (fc_permit_bind w p fc) = (fc_permit_reset p)\<lparr>p_fc := fc\<rparr>"
  by (simp add: fc_permit_bind_def Let_def)

lemma fc_permit_bind_world [simp]:
  "w_pools (fst (fc_permit_bind w p fc)) = w_pools w" "w_anomaly (fst (fc_permit_bind w p fc)) = w_anomaly w"
  "w_drain_flag (fst (fc_permit_bind w p fc)) = w_drain_flag w" "w_timer (fst (fc_permit_bind w p fc)) = w_timer w"
  "w_clock (fst (fc_permit_bind w p fc)) = w_clock w" "w_calloc (fst (fc_permit_bind w p fc)) = w_calloc w"
  "w_wake_hook (fst (fc_permit_bind w p fc)) = w_wake_hook w"
  "w_owner_hold (fst (fc_permit_bind w p fc)) = w_owner_hold w" "w_owner_drop (fst (fc_permit_bind w p fc)) = w_owner_drop w"
  by (simp_all add: fc_permit_bind_def Let_def split: option.splits)

text \<open>
  The owner's references: what the calls so far hold of a pool. Every permit bound to a pool
  accounts for one.
\<close>

fun owner_refs :: "pool_ref \<Rightarrow> fc_call list \<Rightarrow> int" where
  "owner_refs f [] = 0"
| "owner_refs f (OwnerHold g # cs) = (if g = f then 1 else 0) + owner_refs f cs"
| "owner_refs f (OwnerDrop g # cs) = (if g = f then -1 else 0) + owner_refs f cs"
| "owner_refs f (Wake fd gen # cs) = owner_refs f cs"

lemma owner_refs_append [simp]: "owner_refs f (cs @ ds) = owner_refs f cs + owner_refs f ds"
  by (induction f cs rule: owner_refs.induct) auto

definition bound_to :: "pool_ref \<Rightarrow> fc_permit \<Rightarrow> int" where
  "bound_to f p = (if p_fc p = Some f then 1 else 0)"

lemma fc_permit_bind_refs:
  assumes "w_owner_hold w" "w_owner_drop w" "fc_permit_bind w p fc = (w', p')"
  shows "owner_refs f (w_calls w') - bound_to f p' = owner_refs f (w_calls w) - bound_to f p"
  using assms by (auto simp: fc_permit_bind_def Let_def bound_to_def fc_permit_reset_def split: option.splits)

lemma fc_permit_init_refs:
  assumes "w_owner_drop w" "fc_permit_init w p = (w', p')"
  shows "owner_refs f (w_calls w') - bound_to f p' = owner_refs f (w_calls w) - bound_to f p" "p_fc p' = None"
  using assms
  by (auto simp: fc_permit_init_def fc_permit_unbind_def Let_def bound_to_def fc_permit_reset_def split: option.splits)

text \<open>A rebind never drops the count of a pool that stays bound below its count before.\<close>

lemma fc_permit_bind_hold_first:
  assumes "w_owner_hold w" "w_owner_drop w" "p_fc p = Some f"
  shows "w_calls (fst (fc_permit_bind w p (Some f))) = w_calls w @ [OwnerHold f, OwnerDrop f]"
  using assms by (simp add: fc_permit_bind_def Let_def)

section \<open>The deadline timer\<close>

text \<open>\<open>timerfd_create\<close> gives the descriptor \<open>tfd\<close>.\<close>

definition fc_deadline_init :: "fc_deadline \<Rightarrow> int \<Rightarrow> int \<times> fc_deadline" where
  "fc_deadline_init d tfd =
     (if tfd > 0 then 0 else -1,
      d\<lparr>d_armed_ns := 0, d_last_fire_ns := 0, d_wakeups := 0, d_passes := 0, d_tfd := tfd\<rparr>)"

definition fc_deadline_close :: "fc_deadline \<Rightarrow> fc_deadline" where
  "fc_deadline_close d = d\<lparr>d_tfd := 0, d_armed_ns := 0\<rparr>"

text \<open>
  \<open>fc_deadline_arm\<close>, with \<open>fc_deadline_settime\<close> run by one thread: the timer is set to the target
  and \<open>armed_ns\<close> reads back as the target.
\<close>

definition fc_deadline_settime :: "fc_deadline \<Rightarrow> u64 \<Rightarrow> fc_deadline" where
  "fc_deadline_settime d target =
     (let d = d\<lparr>d_set_ns := target\<rparr>; cur = d_armed_ns d
      in if cur = target \<or> cur = 0 then d else d\<lparr>d_set_ns := cur\<rparr>)"

definition fc_deadline_arm :: "fc_deadline \<Rightarrow> u64 \<Rightarrow> fc_deadline" where
  "fc_deadline_arm d deadline_ns =
     (if d_tfd d \<le> 0 \<or> deadline_ns = 0 then d
      else let floor = (if d_last_fire_ns d \<noteq> 0 then d_last_fire_ns d + FC_DEADLINE_GRAIN_NS else 0);
               target = (if deadline_ns > floor then deadline_ns else floor);
               cur = d_armed_ns d
           in if cur \<noteq> 0 \<and> cur \<le> target then d
              else fc_deadline_settime (d\<lparr>d_armed_ns := target\<rparr>) target)"

lemma fc_deadline_arm_frame [simp]:
  "d_tfd (fc_deadline_arm d t) = d_tfd d" "d_last_fire_ns (fc_deadline_arm d t) = d_last_fire_ns d"
  "d_passes (fc_deadline_arm d t) = d_passes d"
  by (simp_all add: fc_deadline_arm_def fc_deadline_settime_def Let_def)

text \<open>The timer agrees with what it is armed for, and is never set inside the grain after a firing.\<close>

definition timer_ok :: "fc_deadline \<Rightarrow> bool" where
  "timer_ok d \<longleftrightarrow> (d_armed_ns d \<noteq> 0 \<longrightarrow> d_set_ns d = d_armed_ns d \<and>
     (d_last_fire_ns d \<noteq> 0 \<longrightarrow> d_last_fire_ns d + FC_DEADLINE_GRAIN_NS \<le> d_armed_ns d))"

lemma fc_deadline_arm_ok: "timer_ok d \<Longrightarrow> timer_ok (fc_deadline_arm d t)"
  by (auto simp: timer_ok_def fc_deadline_arm_def fc_deadline_settime_def Let_def)

text \<open>After arming, the timer fires by the deadline or, where that is later, by the grain.\<close>

lemma fc_deadline_arm_covers:
  assumes "0 < d_tfd d" "t \<noteq> 0"
  shows "d_armed_ns (fc_deadline_arm d t) \<noteq> 0"
    and "d_armed_ns (fc_deadline_arm d t) \<le>
      max t (if d_last_fire_ns d \<noteq> 0 then d_last_fire_ns d + FC_DEADLINE_GRAIN_NS else 0)"
    and "d_armed_ns d \<noteq> 0 \<longrightarrow> d_armed_ns (fc_deadline_arm d t) \<le> d_armed_ns d"
proof -
  define fl where "fl = (if d_last_fire_ns d \<noteq> 0 then d_last_fire_ns d + FC_DEADLINE_GRAIN_NS else 0)"
  define tg where "tg = (if t > fl then t else fl)"
  have "tg \<noteq> 0" using assms(2) by (auto simp: tg_def not_less)
  moreover have "tg \<le> max t fl" by (simp add: tg_def)
  moreover have "d_armed_ns (fc_deadline_arm d t) = (if d_armed_ns d \<noteq> 0 \<and> d_armed_ns d \<le> tg then d_armed_ns d else tg)"
    using assms(1,2) by (simp add: fc_deadline_arm_def fc_deadline_settime_def Let_def fl_def tg_def)
  ultimately show "d_armed_ns (fc_deadline_arm d t) \<noteq> 0"
    "d_armed_ns (fc_deadline_arm d t) \<le> max t (if d_last_fire_ns d \<noteq> 0 then d_last_fire_ns d + FC_DEADLINE_GRAIN_NS else 0)"
    "d_armed_ns d \<noteq> 0 \<longrightarrow> d_armed_ns (fc_deadline_arm d t) \<le> d_armed_ns d"
    unfolding fl_def [symmetric] by auto
qed

text \<open>The timer of the process.\<close>

definition w_arm :: "fc_world \<Rightarrow> u64 \<Rightarrow> fc_world" where
  "w_arm w t = w\<lparr>w_timer := fc_deadline_arm (w_timer w) t\<rparr>"

lemma w_arm_simps [simp]:
  "w_pools (w_arm w t) = w_pools w" "w_anomaly (w_arm w t) = w_anomaly w" "w_calloc (w_arm w t) = w_calloc w"
  "w_drain_flag (w_arm w t) = w_drain_flag w" "w_clock (w_arm w t) = w_clock w" "w_calls (w_arm w t) = w_calls w"
  "w_owner_hold (w_arm w t) = w_owner_hold w" "w_owner_drop (w_arm w t) = w_owner_drop w"
  "w_wake_hook (w_arm w t) = w_wake_hook w" "w_timer (w_arm w t) = fc_deadline_arm (w_timer w) t"
  by (simp_all add: w_arm_def)

end
