(* ===== verification/FC_Wake.thy ===== *)
theory FC_Wake
  imports FC_World "HOL-Library.Product_Lexorder"
begin

text \<open>
  Whose turn it is: the entry a wake takes out of the queue (\<open>fc_ring_pick_in_band\<close>, \<open>fc_drr_pick\<close>,
  \<open>fc_ring_pop_banded\<close>, \<open>fc_ring_pop_runnable\<close>) and the entry an arrival evicts
  (\<open>fc_ring_evict_pick\<close>) of \<open>common/sockproxy_fc.c\<close>, section "the queue".
\<close>

section \<open>Operations\<close>

text \<open>The waiter an arrival of \<open>band\<close> would evict: the youngest sheddable entry.\<close>

fun fc_ring_walk_back :: "fc_queue \<Rightarrow> nat \<Rightarrow> nat \<Rightarrow> nat list" where
  "fc_ring_walk_back q i 0 = []"
| "fc_ring_walk_back q i (Suc k) = i # fc_ring_walk_back q (if i = 0 then q_cap q - 1 else i - 1) k"

definition fc_ring_evict_pick :: "fc_state \<Rightarrow> fc_band \<Rightarrow> nat option" where
  "fc_ring_evict_pick s band =
     (let q = s_queue s
      in if \<not> c_shed_queue (s_cfg s) \<or> band = FC_BAND_SHEDDABLE \<or> q_band_count q FC_BAND_SHEDDABLE = 0 \<or>
            length (q_evicted q) \<ge> FC_EVICT_PENDING \<or> q_used q = 0
         then None
         else find (\<lambda>i. e_live (q_ring q ! i) \<and> e_band (q_ring q ! i) = FC_BAND_SHEDDABLE)
                (fc_ring_walk_back q (fc_ring_wrap q (q_head q + q_used q - 1)) (q_used q)))"

text \<open>The tenant order of the round-robin wake; an entry with no slot is one more tenant, last.\<close>

definition fc_rr_key :: "fc_queue_ent \<Rightarrow> nat" where
  "fc_rr_key e = (if e_tslot e < 0 then 0x7fffffff else nat (e_tslot e))"

text \<open>
  One round of the loop of \<open>fc_ring_pick_in_band\<close> under round robin: the best slot from the cursor on
  and the best slot of all, each with its key.
\<close>

definition rr_step :: "nat \<Rightarrow> fc_queue_ent \<Rightarrow> nat \<Rightarrow> (nat \<times> nat) option \<times> (nat \<times> nat) option \<Rightarrow>
    (nat \<times> nat) option \<times> (nat \<times> nat) option" where
  "rr_step cursor e i st =
     (let (after, wrap) = st; key = fc_rr_key e;
          after = (if key \<ge> cursor \<and> (case after of None \<Rightarrow> True | Some (_, k) \<Rightarrow> key < k) then Some (i, key) else after);
          wrap = (if case wrap of None \<Rightarrow> True | Some (_, k) \<Rightarrow> key < k then Some (i, key) else wrap)
      in (after, wrap))"

definition fc_ring_pick_in_band :: "fc_state \<Rightarrow> fc_band \<Rightarrow> u32 \<Rightarrow> nat option" where
  "fc_ring_pick_in_band s band bound =
     (let q = s_queue s; ok = (\<lambda>i. ent_runnable (s_tt s) bound (q_ring q ! i) \<and> e_band (q_ring q ! i) = band)
      in if c_tenant_wake (s_cfg s) \<noteq> FC_TENANT_WAKE_RR then find ok (fc_ring_span q)
         else let (after, wrap) = fold (\<lambda>i st. if ok i then rr_step (q_rr_next q band) (q_ring q ! i) i st else st)
                                    (fc_ring_span q) (None, None)
              in case after of Some (i, _) \<Rightarrow> Some i | None \<Rightarrow> map_option fst wrap)"

text \<open>
  Deficit round robin: the highest band with a candidate and credit left spends one; with none left
  the round starts again. The result is the band, the credits and whether one was spent.
\<close>

definition drr_serve :: "(fc_band \<Rightarrow> bool) \<Rightarrow> (fc_band \<Rightarrow> nat) \<Rightarrow> fc_band option" where
  "drr_serve cand credit =
     map_option fc_band_at_rank (find (\<lambda>r. cand (fc_band_at_rank r) \<and> credit (fc_band_at_rank r) > 0) fc_ranks)"

definition drr_round :: "fc_cfg \<Rightarrow> (fc_band \<Rightarrow> bool) \<Rightarrow> fc_band \<Rightarrow> nat" where
  "drr_round c cand b =
     (if cand b then (if c_band_weight c b \<noteq> 0 then unat (c_band_weight c b) else 1) else 0)"

definition fc_drr_pick :: "fc_cfg \<Rightarrow> fc_queue \<Rightarrow> (fc_band \<Rightarrow> bool) \<Rightarrow> fc_band option \<times> fc_queue" where
  "fc_drr_pick c q cand =
     (case drr_serve cand (q_drr_credit q) of
        Some b \<Rightarrow> (Some b, q\<lparr>q_drr_credit := (q_drr_credit q)(b := q_drr_credit q b - 1)\<rparr>)
      | None \<Rightarrow>
        let credit = drr_round c cand
        in case drr_serve cand credit of
             Some b \<Rightarrow> (Some b, q\<lparr>q_drr_credit := credit(b := credit b - 1)\<rparr>)
           | None \<Rightarrow> (None, q\<lparr>q_drr_credit := credit\<rparr>))"

text \<open>What a pick spent, so that a wake that cannot be delivered gives it back.\<close>

record fc_pick_undo =
  u_band :: "fc_band option"
  u_credit :: bool
  u_rr :: bool
  u_rr_before :: nat
  u_rr_after :: nat

definition undo_none :: fc_pick_undo where
  "undo_none = \<lparr>u_band = None, u_credit = False, u_rr = False, u_rr_before = 0, u_rr_after = 0\<rparr>"

text \<open>
  The band the next unit goes to: a band below its floor first, then by the policy. The bands with a
  runnable waiter are \<open>wait\<close>; \<open>pend\<close> counts the units the wake loop has already promised.
\<close>

definition fc_pick_band ::
  "fc_state \<Rightarrow> (fc_band \<Rightarrow> bool) \<Rightarrow> (fc_band \<Rightarrow> u32) \<Rightarrow> bool \<Rightarrow> fc_band option \<times> fc_queue \<times> bool" where
  "fc_pick_band s wait pend floors =
     (let q = s_queue s;
          v = fc_floor_view_load s (fc_svc_cap s) (Some pend) (Some wait);
          ok = (\<lambda>b. wait b \<and> (\<not> floors \<or> fc_floor_may_take v b));
          pick = (if floors
                  then map_option fc_band_at_rank
                         (find (\<lambda>r. let b = fc_band_at_rank r
                                    in wait b \<and> v_in v b < v_claim v b \<and> fc_floor_may_take v b) fc_ranks)
                  else None)
      in case pick of Some b \<Rightarrow> (Some b, q, False)
         | None \<Rightarrow>
           if fc_wake_strict s
           then (map_option fc_band_at_rank (find (\<lambda>r. ok (fc_band_at_rank r)) fc_ranks), q, False)
           else let (b, q) = fc_drr_pick (s_cfg s) q ok in (b, q, b \<noteq> None))"

definition fc_ring_pop_banded ::
  "fc_state \<Rightarrow> (fc_band \<Rightarrow> u32) \<Rightarrow> bool \<Rightarrow> fc_queue_ent option \<times> fc_state \<times> fc_pick_undo" where
  "fc_ring_pop_banded s pend floors =
     (let bound = fc_tenant_svc_bound s;
          wait = fc_floor_waiting_runnable s bound;
          (pick, q, credit) = fc_pick_band s wait pend floors;
          s = s\<lparr>s_queue := q\<rparr>; u = undo_none\<lparr>u_credit := credit\<rparr>
      in case pick of None \<Rightarrow> (None, s, u)
         | Some b \<Rightarrow>
           (case fc_ring_pick_in_band s b bound of None \<Rightarrow> (None, s, u)
            | Some idx \<Rightarrow>
              let (e, q) = fc_ring_take_at q idx; u = u\<lparr>u_band := Some b\<rparr>
              in if c_tenant_wake (s_cfg s) = FC_TENANT_WAKE_RR
                 then (Some e, s\<lparr>s_queue := q\<lparr>q_rr_next := (q_rr_next q)(b := fc_rr_key e + 1)\<rparr>\<rparr>,
                       u\<lparr>u_rr := True, u_rr_before := q_rr_next q b, u_rr_after := fc_rr_key e + 1\<rparr>)
                 else (Some e, s\<lparr>s_queue := q\<rparr>, u)))"

text \<open>
  The scan of the plain pool: the oldest runnable entry of the best rank; a rank of 0 ends it.
\<close>

fun best_scan :: "(nat \<Rightarrow> bool) \<Rightarrow> (nat \<Rightarrow> int) \<Rightarrow> nat list \<Rightarrow> (nat \<times> int) option \<Rightarrow> (nat \<times> int) option" where
  "best_scan ok rank [] best = best"
| "best_scan ok rank (i # rest) best =
     (if ok i \<and> rank i < (case best of None \<Rightarrow> 3 | Some (_, r) \<Rightarrow> r)
      then if rank i = 0 then Some (i, 0) else best_scan ok rank rest (Some (i, rank i))
      else best_scan ok rank rest best)"

definition fc_ring_pop_runnable ::
  "fc_state \<Rightarrow> (fc_band \<Rightarrow> u32) \<Rightarrow> fc_queue_ent option \<times> fc_state \<times> fc_pick_undo" where
  "fc_ring_pop_runnable s pend =
     (let q = s_queue s; bound = fc_tenant_svc_bound s;
          banded = (q_band_count q FC_BAND_CRITICAL \<noteq> 0 \<or> q_band_count q FC_BAND_SHEDDABLE \<noteq> 0);
          floors = fc_floors_apply s (fc_svc_cap s)
      in if floors \<or> \<not> fc_wake_strict s \<or> c_tenant_wake (s_cfg s) = FC_TENANT_WAKE_RR
         then fc_ring_pop_banded s pend floors
         else case best_scan (\<lambda>i. ent_runnable (s_tt s) bound (q_ring q ! i))
                     (\<lambda>i. if banded then fc_band_rank (e_band (q_ring q ! i)) else 0) (fc_ring_span q) None of
                None \<Rightarrow> (None, s, undo_none)
              | Some (best, _) \<Rightarrow>
                let (e, q) = fc_ring_take_at q best in (Some e, s\<lparr>s_queue := q\<rparr>, undo_none))"

section \<open>The first of the best\<close>

text \<open>
  What every scan of this file looks for: the first element of those allowed among the ones with the
  least key.
\<close>

definition first_best :: "('a \<Rightarrow> bool) \<Rightarrow> ('a \<Rightarrow> 'k :: linorder) \<Rightarrow> 'a list \<Rightarrow> 'a option \<Rightarrow> bool" where
  "first_best ok key xs r \<longleftrightarrow>
     (case r of None \<Rightarrow> \<forall>x \<in> set xs. \<not> ok x
      | Some x \<Rightarrow> \<exists>us vs. xs = us @ x # vs \<and> ok x \<and> (\<forall>u \<in> set us. ok u \<longrightarrow> key x < key u) \<and>
                          (\<forall>v \<in> set vs. ok v \<longrightarrow> key x \<le> key v))"

lemma first_best_Nil [simp]: "first_best ok key [] r \<longleftrightarrow> r = None"
  by (auto simp: first_best_def split: option.splits)

lemma first_bestI:
  "xs = us @ x # vs \<Longrightarrow> ok x \<Longrightarrow> (\<And>u. u \<in> set us \<Longrightarrow> ok u \<Longrightarrow> key x < key u) \<Longrightarrow>
     (\<And>v. v \<in> set vs \<Longrightarrow> ok v \<Longrightarrow> key x \<le> key v) \<Longrightarrow> first_best ok key xs (Some x)"
  unfolding first_best_def option.case by blast

lemma first_best_snoc:
  assumes "first_best ok key xs r"
  shows "first_best ok key (xs @ [x])
    (if ok x \<and> (case r of None \<Rightarrow> True | Some y \<Rightarrow> key x < key y) then Some x else r)"
proof (cases r)
  case None
  with assms show ?thesis
    using first_bestI [of "xs @ [x]" xs x "[]" ok key] by (cases "ok x") (auto simp: first_best_def)
next
  case (Some y)
  then obtain us vs where y: "xs = us @ y # vs" "ok y" "\<forall>u \<in> set us. ok u \<longrightarrow> key y < key u"
    "\<forall>v \<in> set vs. ok v \<longrightarrow> key y \<le> key v"
    using assms by (auto simp: first_best_def)
  show ?thesis
  proof (cases "ok x \<and> key x < key y")
    case True
    then have "\<forall>u \<in> set xs. ok u \<longrightarrow> key x < key u" using y by auto
    with True Some first_bestI [of "xs @ [x]" xs x "[]" ok key] show ?thesis by simp
  next
    case False
    then have x: "ok x \<longrightarrow> key y \<le> key x" by auto
    have "first_best ok key (xs @ [x]) (Some y)"
      by (rule first_bestI [of _ us y "vs @ [x]"]) (use x y in auto)
    with False Some show ?thesis by auto
  qed
qed

lemma first_best_find: "first_best ok (\<lambda>_. k) xs (find ok xs)"
proof (induction xs rule: rev_induct)
  case (snoc x xs)
  have "find ok (xs @ [x]) = (if ok x \<and> (case find ok xs of None \<Rightarrow> True | Some y \<Rightarrow> k < k) then Some x else find ok xs)"
    by (induction xs) auto
  with first_best_snoc [OF snoc, of x] show ?case by simp
qed simp

lemma first_best_least:
  assumes "first_best ok key xs (Some x)" "\<forall>y \<in> set ys. ok y \<longrightarrow> key x \<le> key y"
  shows "first_best ok key (xs @ ys) (Some x)"
proof -
  from assms(1) obtain us vs where x: "xs = us @ x # vs" "ok x" "\<forall>u \<in> set us. ok u \<longrightarrow> key x < key u"
    "\<forall>v \<in> set vs. ok v \<longrightarrow> key x \<le> key v"
    by (auto simp: first_best_def)
  with assms(2) have "xs @ ys = us @ x # (vs @ ys) \<and> ok x \<and> (\<forall>u \<in> set us. ok u \<longrightarrow> key x < key u) \<and>
      (\<forall>v \<in> set (vs @ ys). ok v \<longrightarrow> key x \<le> key v)" by auto
  then show ?thesis unfolding first_best_def option.case by blast
qed

lemma first_best_ok:
  assumes "first_best ok key xs (Some x)"
  shows "ok x" "x \<in> set xs" "\<forall>y \<in> set xs. ok y \<longrightarrow> key x \<le> key y"
proof -
  from assms obtain us vs where x: "xs = us @ x # vs" "ok x" "\<forall>u \<in> set us. ok u \<longrightarrow> key x < key u"
    "\<forall>v \<in> set vs. ok v \<longrightarrow> key x \<le> key v"
    by (auto simp: first_best_def)
  then show "ok x" "x \<in> set xs" by simp_all
  show "\<forall>y \<in> set xs. ok y \<longrightarrow> key x \<le> key y"
    using x by (auto dest: less_imp_le)
qed

lemma first_best_None: "first_best ok key xs r \<Longrightarrow> r = None \<longleftrightarrow> (\<forall>x \<in> set xs. \<not> ok x)"
  by (cases r) (auto simp: first_best_def)

lemma first_best_cong:
  assumes "\<And>x. x \<in> set xs \<Longrightarrow> ok x = ok' x" "\<And>x y. x \<in> set xs \<Longrightarrow> y \<in> set xs \<Longrightarrow> ok' x \<Longrightarrow> ok' y \<Longrightarrow>
      key x \<le> key y \<longleftrightarrow> key' x \<le> key' y"
  shows "first_best ok key xs r \<longleftrightarrow> first_best ok' key' xs r"
proof (cases r)
  case None
  with assms(1) show ?thesis by (simp add: first_best_def)
next
  case (Some x)
  have "(ok x \<and> (\<forall>u \<in> set us. ok u \<longrightarrow> key x < key u) \<and> (\<forall>v \<in> set vs. ok v \<longrightarrow> key x \<le> key v)) \<longleftrightarrow>
      (ok' x \<and> (\<forall>u \<in> set us. ok' u \<longrightarrow> key' x < key' u) \<and> (\<forall>v \<in> set vs. ok' v \<longrightarrow> key' x \<le> key' v))"
    if "xs = us @ x # vs" for us vs
    using that assms by (simp flip: not_le) blast
  then show ?thesis unfolding first_best_def Some option.case by (intro ex_cong1) blast
qed

text \<open>The scan of the plain pool.\<close>

lemma best_scan_first:
  assumes "first_best ok rank ys (map_option fst best)" "\<forall>i r. best = Some (i, r) \<longrightarrow> r = rank i"
    and "\<forall>i. 0 \<le> rank i \<and> rank i < 3"
  shows "first_best ok rank (ys @ xs) (map_option fst (best_scan ok rank xs best))"
  using assms(1,2)
proof (induction xs arbitrary: ys best)
  case (Cons x xs)
  define better where "better \<longleftrightarrow> ok x \<and> rank x < (case best of None \<Rightarrow> 3 | Some (_, r) \<Rightarrow> r)"
  have b: "better \<longleftrightarrow> ok x \<and> (case map_option fst best of None \<Rightarrow> True | Some y \<Rightarrow> rank x < rank y)"
    using Cons(3) assms(3) by (auto simp: better_def split: option.splits prod.splits)
  have fb: "first_best ok rank (ys @ [x]) (if better then Some x else map_option fst best)"
    using first_best_snoc [OF Cons(2), of x] b by simp
  have step: "best_scan ok rank (x # xs) best =
      (if better then if rank x = 0 then Some (x, 0) else best_scan ok rank xs (Some (x, rank x))
       else best_scan ok rank xs best)"
    by (simp only: best_scan.simps better_def)
  consider (stop) "better" "rank x = 0" | (move) "better" "rank x \<noteq> 0" | (keep) "\<not> better" by blast
  then show ?case
  proof cases
    case stop
    have "first_best ok rank ((ys @ [x]) @ xs) (Some x)"
      by (rule first_best_least) (use fb stop assms(3) in auto)
    with stop step show ?thesis by simp
  next
    case move
    have "first_best ok rank ((ys @ [x]) @ xs) (map_option fst (best_scan ok rank xs (Some (x, rank x))))"
      by (rule Cons(1)) (use fb move in auto)
    with move step show ?thesis by simp
  next
    case keep
    have "first_best ok rank ((ys @ [x]) @ xs) (map_option fst (best_scan ok rank xs best))"
      by (rule Cons(1)) (use fb keep Cons(3) in auto)
    with keep step show ?thesis by simp
  qed
qed simp

text \<open>The two running bests of the round robin, and the turn they decide.\<close>

definition rr_turn :: "nat \<Rightarrow> nat \<Rightarrow> bool \<times> nat" where
  "rr_turn cursor key = (key < cursor, key)"

lemma rr_fold_first:
  assumes "\<And>i. key i = fc_rr_key (ent i)"
  shows "\<exists>a w. fold (\<lambda>i st. if ok i then rr_step cursor (ent i) i st else st) xs (None, None) =
      (map_option (\<lambda>i. (i, key i)) a, map_option (\<lambda>i. (i, key i)) w) \<and>
    first_best (\<lambda>i. ok i \<and> cursor \<le> key i) key xs a \<and> first_best ok key xs w"
proof (induction xs rule: rev_induct)
  case (snoc x xs)
  then obtain a w where IH:
    "fold (\<lambda>i st. if ok i then rr_step cursor (ent i) i st else st) xs (None, None) =
      (map_option (\<lambda>i. (i, key i)) a, map_option (\<lambda>i. (i, key i)) w)"
    "first_best (\<lambda>i. ok i \<and> cursor \<le> key i) key xs a" "first_best ok key xs w"
    by auto
  define a' where "a' = (if (ok x \<and> cursor \<le> key x) \<and> (case a of None \<Rightarrow> True | Some y \<Rightarrow> key x < key y) then Some x else a)"
  define w' where "w' = (if ok x \<and> (case w of None \<Rightarrow> True | Some y \<Rightarrow> key x < key y) then Some x else w)"
  have "fold (\<lambda>i st. if ok i then rr_step cursor (ent i) i st else st) (xs @ [x]) (None, None) =
      (map_option (\<lambda>i. (i, key i)) a', map_option (\<lambda>i. (i, key i)) w')"
    by (cases a; cases w) (simp_all add: IH(1) rr_step_def Let_def assms [symmetric] a'_def w'_def)
  with first_best_snoc [OF IH(2), of x] first_best_snoc [OF IH(3), of x] show ?case
    unfolding a'_def [symmetric] w'_def [symmetric] by blast
qed simp

lemma rr_first:
  assumes a: "first_best (\<lambda>i. ok i \<and> cursor \<le> key i) key xs a" and w: "first_best ok key xs w"
  shows "first_best ok (\<lambda>i. rr_turn cursor (key i)) xs (case a of Some i \<Rightarrow> Some i | None \<Rightarrow> w)"
proof (cases a)
  case None
  then have "\<forall>x \<in> set xs. ok x \<longrightarrow> key x < cursor" using a by (auto simp: first_best_def not_le)
  then have "first_best ok (\<lambda>i. rr_turn cursor (key i)) xs w \<longleftrightarrow> first_best ok key xs w"
    by (intro first_best_cong) (auto simp: rr_turn_def)
  with None w show ?thesis by simp
next
  case (Some i)
  then obtain us vs where i: "xs = us @ i # vs" "ok i" "cursor \<le> key i"
    "\<forall>u \<in> set us. ok u \<and> cursor \<le> key u \<longrightarrow> key i < key u" "\<forall>v \<in> set vs. ok v \<and> cursor \<le> key v \<longrightarrow> key i \<le> key v"
    using a by (auto simp: first_best_def)
  have "first_best ok (\<lambda>i. rr_turn cursor (key i)) xs (Some i)"
    by (rule first_bestI [OF i(1)]) (use i(2-) in \<open>auto simp: rr_turn_def not_le [symmetric]\<close>)
  with Some show ?thesis by simp
qed

section \<open>Taking the chosen waiter out\<close>

text \<open>A slot of the span that holds a waiter.\<close>

definition live_slot :: "fc_queue \<Rightarrow> nat \<Rightarrow> bool" where
  "live_slot q i \<longleftrightarrow> i \<in> set (fc_ring_span q) \<and> e_live (q_ring q ! i)"


text \<open>A choice among the slots of the ring is a choice among the waiters.\<close>

lemma fc_ring_take_at_split:
  assumes inv: "ring_inv q" and sp: "fc_ring_span q = us @ i # vs" and live: "e_live (q_ring q ! i)"
    and res: "fc_ring_take_at q i = (e, q')"
  defines "waiters \<equiv> (\<lambda>xs. filter e_live (map (\<lambda>i. q_ring q ! i) xs))"
  shows "e = q_ring q ! i" "ring_live q = waiters us @ e # waiters vs" "ring_live q' = waiters us @ waiters vs"
    "ring_inv q'" "ring_aside q q'" "q_cap q' = q_cap q"
proof -
  have rok: "ring_ok q" by (rule ring_invD(1) [OF inv])
  have j: "length us < q_used q"
    using arg_cong [OF sp, of length] by (simp add: fc_ring_span_eq [OF rok])
  have at: "i = (q_head q + length us) mod q_cap q"
    using arg_cong [OF sp, of "\<lambda>xs. xs ! length us"] j by (simp add: fc_ring_span_eq [OF rok] nth_append)
  note T = fc_ring_take_at_live [OF inv j at live res]
  have "ring_seq q = map (\<lambda>i. q_ring q ! i) us @ q_ring q ! i # map (\<lambda>i. q_ring q ! i) vs"
    using map_span [OF rok] sp by simp
  then have "take (length us) (ring_seq q) = map (\<lambda>i. q_ring q ! i) us"
    "drop (Suc (length us)) (ring_seq q) = map (\<lambda>i. q_ring q ! i) vs" by simp_all
  with T show "e = q_ring q ! i" "ring_live q = waiters us @ e # waiters vs" "ring_live q' = waiters us @ waiters vs"
    "ring_inv q'" "ring_aside q q'" "q_cap q' = q_cap q" by (simp_all add: waiters_def)
qed

lemma fc_ring_take_at_slot:
  assumes inv: "ring_inv q" and slot: "live_slot q i" and res: "fc_ring_take_at q i = (e, q')"
  shows "e = q_ring q ! i" "\<exists>pre post. ring_live q = pre @ e # post \<and> ring_live q' = pre @ post"
    "ring_inv q'" "ring_aside q q'" "q_cap q' = q_cap q"
proof -
  obtain us vs where sp: "fc_ring_span q = us @ i # vs" using slot by (auto simp: live_slot_def dest: split_list)
  have live: "e_live (q_ring q ! i)" using slot by (simp add: live_slot_def)
  note T = fc_ring_take_at_split [OF inv sp live res]
  from T(2,3) show "\<exists>pre post. ring_live q = pre @ e # post \<and> ring_live q' = pre @ post" by blast
  show "e = q_ring q ! i" "ring_inv q'" "ring_aside q q'" "q_cap q' = q_cap q" by (rule T)+
qed

lemma first_best_taken:
  assumes inv: "ring_inv q"
    and best: "first_best (\<lambda>i. ok (q_ring q ! i)) (\<lambda>i. key (q_ring q ! i)) (fc_ring_span q) (Some i)"
    and live: "\<And>e. ok e \<Longrightarrow> e_live e" and res: "fc_ring_take_at q i = (e, q')"
  shows "first_best ok key (ring_live q) (Some e)" "ring_live q' = remove1 e (ring_live q)"
    "ring_inv q'" "ring_aside q q'" "q_cap q' = q_cap q"
proof -
  obtain us vs where i: "fc_ring_span q = us @ i # vs" "ok (q_ring q ! i)"
    "\<forall>u \<in> set us. ok (q_ring q ! u) \<longrightarrow> key (q_ring q ! i) < key (q_ring q ! u)"
    "\<forall>v \<in> set vs. ok (q_ring q ! v) \<longrightarrow> key (q_ring q ! i) \<le> key (q_ring q ! v)"
    using best by (auto simp: first_best_def)
  note T = fc_ring_take_at_split [OF inv i(1) live [OF i(2)] res]
  define pre where "pre = filter e_live (map (\<lambda>i. q_ring q ! i) us)"
  define post where "post = filter e_live (map (\<lambda>i. q_ring q ! i) vs)"
  have L: "ring_live q = pre @ e # post" "ring_live q' = pre @ post" using T(2,3) by (simp_all add: pre_def post_def)
  have pre: "\<And>u. u \<in> set pre \<Longrightarrow> ok u \<Longrightarrow> key e < key u" using i(3) by (auto simp: pre_def T(1))
  have post: "\<And>v. v \<in> set post \<Longrightarrow> ok v \<Longrightarrow> key e \<le> key v" using i(4) by (auto simp: post_def T(1))
  have "ok e" using i(2) T(1) by simp
  then show "first_best ok key (ring_live q) (Some e)" using L(1) pre post by (auto intro!: first_bestI)
  have "e \<notin> set pre" using pre \<open>ok e\<close> by blast
  then show "ring_live q' = remove1 e (ring_live q)" using L by (simp add: remove1_append)
  show "ring_inv q'" "ring_aside q q'" "q_cap q' = q_cap q" by (rule T)+
qed

lemma first_best_nobody:
  assumes "ring_inv q" "first_best (\<lambda>i. ok (q_ring q ! i)) key (fc_ring_span q) None" "\<And>e. ok e \<Longrightarrow> e_live e"
  shows "\<forall>e \<in> set (ring_live q). \<not> ok e"
  using assms(2) map_span [OF ring_invD(1) [OF assms(1)]]
  by (auto simp: first_best_def ring_live_def simp flip: map_span [OF ring_invD(1) [OF assms(1)]])

lemma span_live:
  assumes "ring_ok q" "\<And>e. ok e \<Longrightarrow> e_live e"
  shows "(\<exists>i \<in> set (fc_ring_span q). ok (q_ring q ! i)) \<longleftrightarrow> (\<exists>e \<in> set (ring_live q). ok e)"
  using assms(2) by (auto simp: ring_live_def simp flip: map_span [OF assms(1)])

text \<open>The bands with a waiter that can run.\<close>

lemma waiting_fold:
  "fold (\<lambda>i wait. let e = f i in if ok e then wait(e_band e := True) else wait) xs w b \<longleftrightarrow>
     w b \<or> (\<exists>i \<in> set xs. ok (f i) \<and> e_band (f i) = b)"
  by (induction xs arbitrary: w) (auto simp: Let_def)

lemma fc_floor_waiting_runnable_iff:
  assumes "ring_inv (s_queue s)"
  shows "fc_floor_waiting_runnable s bound b \<longleftrightarrow>
    (\<exists>e \<in> set (ring_live (s_queue s)). ent_runnable (s_tt s) bound e \<and> e_band e = b)"
  unfolding fc_floor_waiting_runnable_def waiting_fold
  using span_live [OF ring_invD(1) [OF assms], of "\<lambda>e. ent_runnable (s_tt s) bound e \<and> e_band e = b"]
  by (auto simp: ent_runnable_def)

text \<open>The entry inside a band: the oldest, or the oldest of the next tenant in turn.\<close>

definition wake_key :: "fc_state \<Rightarrow> fc_band \<Rightarrow> fc_queue_ent \<Rightarrow> bool \<times> nat" where
  "wake_key s b e =
     (if c_tenant_wake (s_cfg s) = FC_TENANT_WAKE_RR then rr_turn (q_rr_next (s_queue s) b) (fc_rr_key e) else (False, 0))"

lemma fc_ring_pick_in_band_first:
  "first_best (\<lambda>i. ent_runnable (s_tt s) bound (q_ring (s_queue s) ! i) \<and> e_band (q_ring (s_queue s) ! i) = b)
     (\<lambda>i. wake_key s b (q_ring (s_queue s) ! i)) (fc_ring_span (s_queue s)) (fc_ring_pick_in_band s b bound)"
proof (cases "c_tenant_wake (s_cfg s) = FC_TENANT_WAKE_RR")
  case True
  let ?q = "s_queue s"
  let ?ok = "\<lambda>i. ent_runnable (s_tt s) bound (q_ring ?q ! i) \<and> e_band (q_ring ?q ! i) = b"
  obtain a w where aw: "fold (\<lambda>i st. if ?ok i then rr_step (q_rr_next ?q b) (q_ring ?q ! i) i st else st)
      (fc_ring_span ?q) (None, None) =
        (map_option (\<lambda>i. (i, fc_rr_key (q_ring ?q ! i))) a, map_option (\<lambda>i. (i, fc_rr_key (q_ring ?q ! i))) w)"
    "first_best (\<lambda>i. ?ok i \<and> q_rr_next ?q b \<le> fc_rr_key (q_ring ?q ! i)) (\<lambda>i. fc_rr_key (q_ring ?q ! i)) (fc_ring_span ?q) a"
    "first_best ?ok (\<lambda>i. fc_rr_key (q_ring ?q ! i)) (fc_ring_span ?q) w"
    using rr_fold_first [of "\<lambda>i. fc_rr_key (q_ring ?q ! i)" "\<lambda>i. q_ring ?q ! i" ?ok "q_rr_next ?q b" "fc_ring_span ?q"]
    by blast
  have "fc_ring_pick_in_band s b bound = (case a of Some i \<Rightarrow> Some i | None \<Rightarrow> w)"
    using True aw(1) by (cases a; cases w) (simp_all add: fc_ring_pick_in_band_def Let_def)
  with rr_first [OF aw(2,3)] True show ?thesis by (simp add: wake_key_def)
next
  case False
  with first_best_find show ?thesis by (simp add: fc_ring_pick_in_band_def wake_key_def Let_def)
qed

section \<open>Deficit round robin\<close>

definition all_bands :: "fc_band list" where
  "all_bands = [FC_BAND_CRITICAL, FC_BAND_STANDARD, FC_BAND_SHEDDABLE]"

lemma all_bands [simp]: "b \<in> set all_bands" "distinct all_bands"
  by (cases b; simp add: all_bands_def)+

lemma ranks_bands: "map fc_band_at_rank fc_ranks = all_bands"
  by (simp add: fc_ranks_def all_bands_def)

lemma find_map_option: "map_option f (find (\<lambda>x. P (f x)) xs) = find P (map f xs)"
  by (induction xs) auto

lemma find_rank: "map_option fc_band_at_rank (find (\<lambda>r. P (fc_band_at_rank r)) fc_ranks) = find P all_bands"
  using find_map_option [of fc_band_at_rank P fc_ranks] by (simp add: ranks_bands)

lemma find_bands_None: "find P all_bands = None \<longleftrightarrow> (\<forall>b. \<not> P b)"
  by (auto simp: find_None_iff)

lemma find_bands_Some: "find P all_bands = Some b \<Longrightarrow> P b \<and> (P b' \<longrightarrow> fc_band_rank b \<le> fc_band_rank b')"
  by (cases b; cases b') (auto simp: all_bands_def split: if_splits)

lemma drr_serve_eq: "drr_serve cand credit = find (\<lambda>b. cand b \<and> 0 < credit b) all_bands"
  unfolding drr_serve_def by (rule find_rank)

lemma fc_drr_pick_Some:
  assumes "fc_drr_pick c q cand = (Some b, q')"
  shows "cand b" "\<exists>cr. q' = q\<lparr>q_drr_credit := cr\<rparr>"
  using assms by (auto simp: fc_drr_pick_def drr_serve_eq Let_def split: option.splits dest!: find_bands_Some)

lemma fc_drr_pick_None:
  assumes "fc_drr_pick c q cand = (None, q')"
  shows "\<not> cand b" "\<exists>cr. q' = q\<lparr>q_drr_credit := cr\<rparr>"
proof -
  from assms have n: "drr_serve cand (drr_round c cand) = None" and q: "\<exists>cr. q' = q\<lparr>q_drr_credit := cr\<rparr>"
    by (auto simp: fc_drr_pick_def Let_def split: option.splits)
  from n have "\<not> (cand b \<and> 0 < drr_round c cand b)" by (simp add: drr_serve_eq find_bands_None)
  then show "\<not> cand b" by (auto simp: drr_round_def unat_eq_zero split: if_splits)
  show "\<exists>cr. q' = q\<lparr>q_drr_credit := cr\<rparr>" by (rule q)
qed

lemma fc_drr_pick_queue: "\<exists>cr. snd (fc_drr_pick c q cand) = q\<lparr>q_drr_credit := cr\<rparr>"
  using fc_drr_pick_Some(2) [of c q cand] fc_drr_pick_None(2) [of c q cand]
  by (cases "fc_drr_pick c q cand"; cases "fst (fc_drr_pick c q cand)") auto

text \<open>The bands served by \<open>n\<close> picks in a row with the same bands waiting.\<close>

fun drr_served :: "fc_cfg \<Rightarrow> (fc_band \<Rightarrow> bool) \<Rightarrow> nat \<Rightarrow> fc_queue \<Rightarrow> fc_band list \<times> fc_queue" where
  "drr_served c cand 0 q = ([], q)"
| "drr_served c cand (Suc n) q =
     (case fc_drr_pick c q cand of (None, q') \<Rightarrow> ([], q')
      | (Some b, q') \<Rightarrow> let (bs, q'') = drr_served c cand n q' in (b # bs, q''))"

definition credit_left :: "(fc_band \<Rightarrow> bool) \<Rightarrow> (fc_band \<Rightarrow> nat) \<Rightarrow> nat" where
  "credit_left cand credit = sum_list (map (\<lambda>b. if cand b then credit b else 0) all_bands)"

lemma credit_left_0: "credit_left cand credit = 0 \<longleftrightarrow> (\<forall>b. cand b \<longrightarrow> credit b = 0)"
  by (auto simp: credit_left_def)

lemma credit_left_spend:
  "cand b \<Longrightarrow> 0 < credit b \<Longrightarrow> credit_left cand (credit(b := credit b - 1)) = credit_left cand credit - 1"
  by (cases b) (auto simp: credit_left_def all_bands_def)

lemma drr_served_credit:
  assumes "credit_left cand (q_drr_credit q) = n" "drr_served c cand n q = (bs, q')"
  shows "count_list bs b = (if cand b then q_drr_credit q b else 0) \<and> credit_left cand (q_drr_credit q') = 0"
  using assms
proof (induction n arbitrary: q bs)
  case 0
  then show ?case by (simp add: credit_left_0)
next
  case (Suc n)
  obtain r where r: "drr_serve cand (q_drr_credit q) = Some r"
    using Suc(2) by (cases "drr_serve cand (q_drr_credit q)")
      (use credit_left_0 [of cand "q_drr_credit q"] in \<open>auto simp: drr_serve_eq find_bands_None\<close>)
  then have cand: "cand r" "0 < q_drr_credit q r" by (auto simp: drr_serve_eq dest: find_bands_Some)
  define q1 where "q1 = q\<lparr>q_drr_credit := (q_drr_credit q)(r := q_drr_credit q r - 1)\<rparr>"
  obtain bs1 where bs: "drr_served c cand n q1 = (bs1, q')" "bs = r # bs1"
    using Suc(3) r by (auto simp: fc_drr_pick_def q1_def split: prod.splits)
  have "credit_left cand (q_drr_credit q1) = n"
    using credit_left_spend [of cand r "q_drr_credit q"] cand Suc(2) by (simp add: q1_def)
  from Suc(1) [OF this bs(1)] cand bs(2) show ?case by (auto simp: q1_def)
qed

lemma drr_served_refill:
  assumes "credit_left cand (q_drr_credit q) = 0"
  shows "drr_served c cand (Suc n) q = drr_served c cand (Suc n) (q\<lparr>q_drr_credit := drr_round c cand\<rparr>)"
proof -
  have "drr_serve cand (q_drr_credit q) = None"
    using assms by (auto simp: drr_serve_eq find_bands_None credit_left_0)
  then have "fc_drr_pick c q cand = fc_drr_pick c (q\<lparr>q_drr_credit := drr_round c cand\<rparr>) cand"
    by (simp add: fc_drr_pick_def Let_def split: option.splits)
  then show ?thesis by simp
qed

text \<open>One round serves every band with a waiter as often as its weight says, and ends as it began.\<close>

lemma drr_one_round:
  assumes "credit_left cand (q_drr_credit q) = 0" "drr_served c cand (credit_left cand (drr_round c cand)) q = (bs, q')"
  shows "count_list bs b = drr_round c cand b \<and> credit_left cand (q_drr_credit q') = 0"
proof (cases "credit_left cand (drr_round c cand)")
  case 0
  then have "drr_round c cand b = 0" by (auto simp: credit_left_0 drr_round_def)
  with 0 assms show ?thesis by simp
next
  case (Suc n)
  then have "drr_served c cand (credit_left cand (drr_round c cand)) (q\<lparr>q_drr_credit := drr_round c cand\<rparr>) = (bs, q')"
    using assms drr_served_refill [OF assms(1), of c n] by simp
  from drr_served_credit [OF _ this, of b] show ?thesis by (auto simp: drr_round_def)
qed

lemma drr_served_add:
  "drr_served c cand (m + n) q =
     (let (bs, q1) = drr_served c cand m q
      in if length bs < m then (bs, q1) else let (bs', q2) = drr_served c cand n q1 in (bs @ bs', q2))"
  by (induction m arbitrary: q) (auto split: prod.splits option.splits)

section \<open>What a wake takes out\<close>

lemma fc_pick_band_ok:
  assumes "fc_pick_band s wait pend floors = (r, q', cr)"
  defines "v \<equiv> fc_floor_view_load s (fc_svc_cap s) (Some pend) (Some wait)"
  shows "\<exists>cr. q' = (s_queue s)\<lparr>q_drr_credit := cr\<rparr>"
    and "r = Some b \<Longrightarrow> wait b \<and> (floors \<longrightarrow> fc_floor_may_take v b)"
    and "r = None \<Longrightarrow> \<not> (wait b \<and> (floors \<longrightarrow> fc_floor_may_take v b))"
    and "floors \<Longrightarrow> wait b \<Longrightarrow> v_in v b < v_claim v b \<Longrightarrow> fc_floor_may_take v b \<Longrightarrow>
      \<exists>b'. r = Some b' \<and> v_in v b' < v_claim v b'"
    and "\<not> floors \<Longrightarrow> fc_wake_strict s \<Longrightarrow> r = find wait all_bands"
proof -
  define fl where "fl = (if floors then find (\<lambda>b. wait b \<and> v_in v b < v_claim v b \<and> fc_floor_may_take v b) all_bands else None)"
  define ok where "ok = (\<lambda>b. wait b \<and> (\<not> floors \<or> fc_floor_may_take v b))"
  have eq: "fc_pick_band s wait pend floors =
      (case fl of Some b \<Rightarrow> (Some b, s_queue s, False)
       | None \<Rightarrow> if fc_wake_strict s then (find ok all_bands, s_queue s, False)
                else let (b, q) = fc_drr_pick (s_cfg s) (s_queue s) ok in (b, q, b \<noteq> None))"
    unfolding fc_pick_band_def Let_def v_def [symmetric] fl_def ok_def
    using find_rank [of "\<lambda>b. wait b \<and> v_in v b < v_claim v b \<and> fc_floor_may_take v b"]
      find_rank [of "\<lambda>b. wait b \<and> (\<not> floors \<or> fc_floor_may_take v b)"]
    by (simp only:)
  note e = assms(1) [unfolded eq]
  show "\<exists>cr. q' = (s_queue s)\<lparr>q_drr_credit := cr\<rparr>"
  proof -
    obtain cr' where "snd (fc_drr_pick (s_cfg s) (s_queue s) ok) = (s_queue s)\<lparr>q_drr_credit := cr'\<rparr>"
      using fc_drr_pick_queue by blast
    then have "q' = (s_queue s)\<lparr>q_drr_credit := q_drr_credit (s_queue s)\<rparr> \<or> q' = (s_queue s)\<lparr>q_drr_credit := cr'\<rparr>"
      using e by (cases fl) (auto simp: prod.case_eq_if Let_def split: if_splits)
    then show ?thesis by blast
  qed
  show "wait b \<and> (floors \<longrightarrow> fc_floor_may_take v b)" if "r = Some b"
  proof (cases fl)
    case None
    then have "ok b"
      using e that fc_drr_pick_Some(1) [of "s_cfg s" "s_queue s" ok b]
      by (auto split: if_splits prod.splits dest: find_bands_Some)
    then show ?thesis by (auto simp: ok_def)
  next
    case (Some b')
    with e that show ?thesis by (auto simp: fl_def split: if_splits dest: find_bands_Some)
  qed
  show "\<not> (wait b \<and> (floors \<longrightarrow> fc_floor_may_take v b))" if "r = None"
  proof -
    have "\<not> ok b"
      using e that fc_drr_pick_None(1) [of "s_cfg s" "s_queue s" ok]
      by (cases fl) (auto simp: find_bands_None split: if_splits prod.splits)
    then show ?thesis by (auto simp: ok_def)
  qed
  show "\<exists>b'. r = Some b' \<and> v_in v b' < v_claim v b'"
    if "floors" "wait b" "v_in v b < v_claim v b" "fc_floor_may_take v b"
  proof (cases fl)
    case None
    with that show ?thesis by (auto simp: fl_def find_bands_None)
  next
    case (Some b')
    then have "r = Some b'" using e by simp
    moreover have "v_in v b' < v_claim v b'"
      using Some that(1) find_bands_Some [of "\<lambda>b. wait b \<and> v_in v b < v_claim v b \<and> fc_floor_may_take v b" b']
      by (simp add: fl_def)
    ultimately show ?thesis by blast
  qed
  show "r = find wait all_bands" if "\<not> floors" "fc_wake_strict s"
    using e that by (simp add: fl_def ok_def)
qed

text \<open>What stays of a pool when a waiter is taken out.\<close>

definition queue_only :: "fc_state \<Rightarrow> fc_state \<Rightarrow> bool" where
  "queue_only s s' \<longleftrightarrow> s' = s\<lparr>s_queue := s_queue s'\<rparr> \<and> q_dead (s_queue s') = q_dead (s_queue s) \<and>
     q_evicted (s_queue s') = q_evicted (s_queue s) \<and> q_cap (s_queue s') = q_cap (s_queue s)"

lemma ring_credit [simp]:
  "ring_live (q\<lparr>q_drr_credit := cr\<rparr>) = ring_live q" "ring_live (q\<lparr>q_rr_next := rr\<rparr>) = ring_live q"
  "ring_ok (q\<lparr>q_drr_credit := cr\<rparr>) = ring_ok q" "ring_ok (q\<lparr>q_rr_next := rr\<rparr>) = ring_ok q"
  "ring_inv (q\<lparr>q_drr_credit := cr\<rparr>) = ring_inv q" "ring_inv (q\<lparr>q_rr_next := rr\<rparr>) = ring_inv q"
  by (simp_all add: ring_inv_def ring_live_def ring_seq_def ring_ok_def)

lemma fc_ring_pop_banded_ok:
  assumes inv: "ring_inv (s_queue s)" and res: "fc_ring_pop_banded s pend floors = (r, s', u)"
  defines "bound \<equiv> fc_tenant_svc_bound s"
  shows "queue_only s s'" "ring_inv (s_queue s')"
    "case r of
       None \<Rightarrow> fst (fc_pick_band s (fc_floor_waiting_runnable s bound) pend floors) = None \<and>
               ring_live (s_queue s') = ring_live (s_queue s)
     | Some e \<Rightarrow> \<exists>b. fst (fc_pick_band s (fc_floor_waiting_runnable s bound) pend floors) = Some b \<and>
               first_best (\<lambda>e. ent_runnable (s_tt s) bound e \<and> e_band e = b) (wake_key s b) (ring_live (s_queue s)) (Some e) \<and>
               ring_live (s_queue s') = remove1 e (ring_live (s_queue s))"
proof -
  define wait where "wait = fc_floor_waiting_runnable s bound"
  obtain pick q1 cr where p: "fc_pick_band s wait pend floors = (pick, q1, cr)" by (metis surj_pair)
  note P = fc_pick_band_ok [OF p]
  obtain cr' where q1: "q1 = (s_queue s)\<lparr>q_drr_credit := cr'\<rparr>" using P(1) by blast
  define s1 where "s1 = s\<lparr>s_queue := q1\<rparr>"
  have inv1: "ring_inv q1" using inv by (simp add: q1)
  have s1: "queue_only s s1" "ring_live (s_queue s1) = ring_live (s_queue s)" "s_tt s1 = s_tt s" "s_queue s1 = q1"
    by (simp_all add: queue_only_def s1_def q1)
  have *: "queue_only s s' \<and> ring_inv (s_queue s') \<and> (case r of None \<Rightarrow> pick = None \<and> ring_live (s_queue s') = ring_live (s_queue s)
     | Some e \<Rightarrow> \<exists>b. pick = Some b \<and>
         first_best (\<lambda>e. ent_runnable (s_tt s) bound e \<and> e_band e = b) (wake_key s b) (ring_live (s_queue s)) (Some e) \<and>
         ring_live (s_queue s') = remove1 e (ring_live (s_queue s)))"
  proof (cases pick)
    case None
    with res have "r = None" "s' = s1"
      by (auto simp: fc_ring_pop_banded_def Let_def bound_def [symmetric] wait_def [symmetric] p s1_def)
    with None s1 inv1 show ?thesis by simp
  next
    case (Some b)
    let ?run = "\<lambda>e. ent_runnable (s_tt s) bound e \<and> e_band e = b"
    have live: "\<And>e. ?run e \<Longrightarrow> e_live e" by (simp add: ent_runnable_def)
    have fb: "first_best (\<lambda>i. ?run (q_ring q1 ! i)) (\<lambda>i. wake_key s b (q_ring q1 ! i)) (fc_ring_span q1)
        (fc_ring_pick_in_band s1 b bound)"
    proof -
      have "wake_key s1 b = wake_key s b" by (simp add: fun_eq_iff wake_key_def s1_def q1)
      with fc_ring_pick_in_band_first [of s1 bound b] show ?thesis by (simp add: s1(3,4))
    qed
    have "wait b" using P(2) Some by simp
    then obtain e0 where "e0 \<in> set (ring_live q1)" "?run e0"
      using fc_floor_waiting_runnable_iff [OF inv] by (auto simp: wait_def q1)
    moreover have "\<forall>e \<in> set (ring_live q1). \<not> ?run e" if "fc_ring_pick_in_band s1 b bound = None"
      using first_best_nobody [OF inv1 fb [unfolded that]] live by blast
    ultimately have "fc_ring_pick_in_band s1 b bound \<noteq> None" by blast
    then obtain idx where idx: "fc_ring_pick_in_band s1 b bound = Some idx" by auto
    obtain e q2 where t: "fc_ring_take_at q1 idx = (e, q2)" by fastforce
    note T = first_best_taken [OF inv1 fb [unfolded idx] live t]
    have r: "r = Some e" and s': "\<exists>rr. s' = s1\<lparr>s_queue := q2\<lparr>q_rr_next := rr\<rparr>\<rparr>"
      using res Some idx t
      by (auto simp: fc_ring_pop_banded_def Let_def bound_def [symmetric] wait_def [symmetric] p s1_def [symmetric]
          split: if_splits) (metis fc_queue.surjective fc_queue.update_convs(9))
    from s' T(3-5) s1(1) have "queue_only s s'" "ring_inv (s_queue s')" "ring_live (s_queue s') = ring_live q2"
      by (auto simp: queue_only_def ring_aside_def s1_def q1)
    with r Some T(1,2) show ?thesis by (simp add: q1)
  qed
  then show "queue_only s s'" "ring_inv (s_queue s')" by blast+
  show "case r of
       None \<Rightarrow> fst (fc_pick_band s (fc_floor_waiting_runnable s bound) pend floors) = None \<and>
               ring_live (s_queue s') = ring_live (s_queue s)
     | Some e \<Rightarrow> \<exists>b. fst (fc_pick_band s (fc_floor_waiting_runnable s bound) pend floors) = Some b \<and>
               first_best (\<lambda>e. ent_runnable (s_tt s) bound e \<and> e_band e = b) (wake_key s b) (ring_live (s_queue s)) (Some e) \<and>
               ring_live (s_queue s') = remove1 e (ring_live (s_queue s))"
    unfolding wait_def [symmetric] p fst_conv using * by blast
qed

text \<open>The plain pool: strict, first in first out, no floor that applies.\<close>

definition fc_plain :: "fc_state \<Rightarrow> bool" where
  "fc_plain s \<longleftrightarrow> \<not> fc_floors_apply s (fc_svc_cap s) \<and> fc_wake_strict s \<and> c_tenant_wake (s_cfg s) \<noteq> FC_TENANT_WAKE_RR"

lemma fc_band_rank_bounds: "0 \<le> fc_band_rank b \<and> fc_band_rank b < 3"
  by (cases b) simp_all

lemma plain_rank:
  assumes inv: "ring_inv q" and none: "\<not> (q_band_count q FC_BAND_CRITICAL \<noteq> 0 \<or> q_band_count q FC_BAND_SHEDDABLE \<noteq> 0)"
    and e: "e \<in> set (ring_live q)"
  shows "e_band e = FC_BAND_STANDARD"
proof -
  have "band_len b (ring_live q) = 0" if "b \<noteq> FC_BAND_STANDARD" for b
    using ring_invD(3) [OF inv, of b] none that by (cases b) (auto simp: fc_band_counted_def)
  with e show ?thesis by (auto simp: band_len_def filter_empty_conv)
qed

lemma fc_ring_pop_runnable_plain:
  assumes inv: "ring_inv (s_queue s)" and plain: "fc_plain s" and res: "fc_ring_pop_runnable s pend = (r, s', u)"
  defines "bound \<equiv> fc_tenant_svc_bound s"
  shows "queue_only s s'" "ring_inv (s_queue s')"
    "first_best (ent_runnable (s_tt s) bound) (\<lambda>e. fc_band_rank (e_band e)) (ring_live (s_queue s)) r"
    "ring_live (s_queue s') = (case r of None \<Rightarrow> ring_live (s_queue s) | Some e \<Rightarrow> remove1 e (ring_live (s_queue s)))"
proof -
  let ?q = "s_queue s"
  define banded where "banded \<longleftrightarrow> q_band_count ?q FC_BAND_CRITICAL \<noteq> 0 \<or> q_band_count ?q FC_BAND_SHEDDABLE \<noteq> 0"
  define rank where "rank = (\<lambda>e :: fc_queue_ent. if banded then fc_band_rank (e_band e) else 0)"
  define run where "run = ent_runnable (s_tt s) bound"
  have live: "\<And>e. run e \<Longrightarrow> e_live e" by (simp add: run_def ent_runnable_def)
  define best where "best = best_scan (\<lambda>i. run (q_ring ?q ! i)) (\<lambda>i. rank (q_ring ?q ! i)) (fc_ring_span ?q) None"
  have fb: "first_best (\<lambda>i. run (q_ring ?q ! i)) (\<lambda>i. rank (q_ring ?q ! i)) (fc_ring_span ?q) (map_option fst best)"
    using best_scan_first [of "\<lambda>i. run (q_ring ?q ! i)" "\<lambda>i. rank (q_ring ?q ! i)" "[]" None "fc_ring_span ?q"]
      fc_band_rank_bounds by (simp add: best_def rank_def)
  have ranks: "first_best run rank (ring_live ?q) r \<longleftrightarrow> first_best run (\<lambda>e. fc_band_rank (e_band e)) (ring_live ?q) r" for r
    by (rule first_best_cong) (auto simp: rank_def banded_def plain_rank [OF inv] simp del: fc_band_rank_simps(1,3))
  have eq: "fc_ring_pop_runnable s pend =
      (case best of None \<Rightarrow> (None, s, undo_none)
       | Some (i, _) \<Rightarrow> let (e, q) = fc_ring_take_at ?q i in (Some e, s\<lparr>s_queue := q\<rparr>, undo_none))"
    using plain unfolding fc_ring_pop_runnable_def fc_plain_def Let_def bound_def [symmetric] run_def [symmetric]
      banded_def [symmetric] best_def rank_def by simp
  have *: "queue_only s s' \<and> ring_inv (s_queue s') \<and> first_best run rank (ring_live ?q) r \<and>
    ring_live (s_queue s') = (case r of None \<Rightarrow> ring_live ?q | Some e \<Rightarrow> remove1 e (ring_live ?q))"
  proof (cases best)
    case None
    with res eq have "r = None" "s' = s" by simp_all
    moreover have "first_best run rank (ring_live ?q) None"
      using first_best_nobody [OF inv, of run] fb None live by (simp add: first_best_def)
    ultimately show ?thesis using inv by (simp add: queue_only_def)
  next
    case (Some ir)
    obtain i rk where ir: "ir = (i, rk)" by fastforce
    obtain e q' where t: "fc_ring_take_at ?q i = (e, q')" by fastforce
    with res eq Some ir have r: "r = Some e" "s' = s\<lparr>s_queue := q'\<rparr>" by simp_all
    have "first_best (\<lambda>i. run (q_ring ?q ! i)) (\<lambda>i. rank (q_ring ?q ! i)) (fc_ring_span ?q) (Some i)"
      using fb Some ir by simp
    from first_best_taken [OF inv this live t] r show ?thesis by (simp add: queue_only_def ring_aside_def)
  qed
  then show "queue_only s s'" "ring_inv (s_queue s')"
    "ring_live (s_queue s') = (case r of None \<Rightarrow> ring_live ?q | Some e \<Rightarrow> remove1 e (ring_live ?q))" by blast+
  show "first_best (ent_runnable (s_tt s) bound) (\<lambda>e. fc_band_rank (e_band e)) (ring_live (s_queue s)) r"
    using * ranks unfolding run_def by blast
qed

text \<open>
  Every pool: at most the entry handed out leaves the queue, its tenant can run, and without floors
  someone is handed out whenever anybody can run.
\<close>

lemma fc_ring_pop_runnable_ok:
  assumes inv: "ring_inv (s_queue s)" and res: "fc_ring_pop_runnable s pend = (r, s', u)"
  shows "queue_only s s'" "ring_inv (s_queue s')"
    "ring_live (s_queue s') = (case r of None \<Rightarrow> ring_live (s_queue s) | Some e \<Rightarrow> remove1 e (ring_live (s_queue s)))"
    "r = Some e \<Longrightarrow> e \<in> set (ring_live (s_queue s)) \<and> ent_runnable (s_tt s) (fc_tenant_svc_bound s) e"
    "r = None \<Longrightarrow> \<not> fc_floors_apply s (fc_svc_cap s) \<Longrightarrow> e \<in> set (ring_live (s_queue s)) \<Longrightarrow>
       \<not> ent_runnable (s_tt s) (fc_tenant_svc_bound s) e"
proof -
  let ?q = "s_queue s" and ?run = "ent_runnable (s_tt s) (fc_tenant_svc_bound s)"
  have "queue_only s s' \<and> ring_inv (s_queue s') \<and>
    ring_live (s_queue s') = (case r of None \<Rightarrow> ring_live ?q | Some e \<Rightarrow> remove1 e (ring_live ?q)) \<and>
    (r = Some e \<longrightarrow> e \<in> set (ring_live ?q) \<and> ?run e) \<and>
    (r = None \<longrightarrow> \<not> fc_floors_apply s (fc_svc_cap s) \<longrightarrow> e \<in> set (ring_live ?q) \<longrightarrow> \<not> ?run e)"
  proof (cases "fc_plain s")
    case True
    note P = fc_ring_pop_runnable_plain [OF inv True res]
    from P(3) have "r = Some e \<longrightarrow> e \<in> set (ring_live ?q) \<and> ?run e" by (auto dest: first_best_ok)
    moreover have "r = None \<longrightarrow> e \<in> set (ring_live ?q) \<longrightarrow> \<not> ?run e" using first_best_None [OF P(3)] by blast
    ultimately show ?thesis using P(1,2,4) by blast
  next
    case False
    define floors where "floors \<longleftrightarrow> fc_floors_apply s (fc_svc_cap s)"
    have res': "fc_ring_pop_banded s pend floors = (r, s', u)"
      using res False by (auto simp: fc_ring_pop_runnable_def fc_plain_def floors_def Let_def)
    note B = fc_ring_pop_banded_ok [OF inv res']
    obtain pick q1 cr where p: "fc_pick_band s (fc_floor_waiting_runnable s (fc_tenant_svc_bound s)) pend floors = (pick, q1, cr)"
      by (metis surj_pair)
    have none: "\<not> ?run e" if "r = None" "\<not> floors" "e \<in> set (ring_live ?q)"
      using fc_pick_band_ok(3) [OF p, of "e_band e"] B(3) p that fc_floor_waiting_runnable_iff [OF inv] by auto
    show ?thesis
    proof (cases r)
      case None
      with B none show ?thesis by (auto simp: floors_def)
    next
      case (Some e')
      with B(3) obtain b where b: "first_best (\<lambda>e. ?run e \<and> e_band e = b) (wake_key s b) (ring_live ?q) (Some e')"
        "ring_live (s_queue s') = remove1 e' (ring_live ?q)" by auto
      from first_best_ok(1,2) [OF b(1)] b(2) B(1,2) Some show ?thesis by auto
    qed
  qed
  then show "queue_only s s'" "ring_inv (s_queue s')"
    "ring_live (s_queue s') = (case r of None \<Rightarrow> ring_live (s_queue s) | Some e \<Rightarrow> remove1 e (ring_live (s_queue s)))"
    "r = Some e \<Longrightarrow> e \<in> set (ring_live (s_queue s)) \<and> ?run e"
    "r = None \<Longrightarrow> \<not> fc_floors_apply s (fc_svc_cap s) \<Longrightarrow> e \<in> set (ring_live (s_queue s)) \<Longrightarrow> \<not> ?run e"
    by blast+
qed

section \<open>Whom an arrival evicts\<close>

lemma walk_back_rev:
  assumes "0 < q_cap q" "k \<le> q_cap q"
  shows "fc_ring_walk_back q ((h + k - 1) mod q_cap q) k = rev (map (\<lambda>j. (h + j) mod q_cap q) [0..<k])"
  using assms(2)
proof (induction k)
  case (Suc k)
  define i where "i = (h + k) mod q_cap q"
  have prv: "(if i = 0 then q_cap q - 1 else i - 1) = (h + k - 1) mod q_cap q" if "0 < k"
  proof -
    have "h + k = Suc (h + k - 1)" using that by simp
    then have "i = Suc (h + k - 1) mod q_cap q" by (simp add: i_def)
    then show ?thesis using assms(1) by (auto simp: mod_Suc split: if_splits)
  qed
  have step: "fc_ring_walk_back q i (Suc k) = i # fc_ring_walk_back q (if i = 0 then q_cap q - 1 else i - 1) k"
    by (simp only: fc_ring_walk_back.simps)
  have "(h + Suc k - 1) mod q_cap q = i" by (simp add: i_def)
  moreover have "fc_ring_walk_back q i (Suc k) = i # rev (map (\<lambda>j. (h + j) mod q_cap q) [0..<k])"
  proof (cases "k = 0")
    case False
    with Suc prv step show ?thesis by simp
  qed simp
  ultimately show ?case by (simp add: i_def)
qed simp

lemma fc_ring_walk_back_span:
  assumes ok: "ring_ok q" and used: "0 < q_used q"
  shows "fc_ring_walk_back q (fc_ring_wrap q (q_head q + q_used q - 1)) (q_used q) = rev (fc_ring_span q)"
proof -
  have cap: "0 < q_cap q" "q_used q \<le> q_cap q" "q_head q < q_cap q" using ok used by (auto simp: ring_ok_def)
  then have "fc_ring_wrap q (q_head q + q_used q - 1) = (q_head q + q_used q - 1) mod q_cap q"
    by (auto simp: fc_ring_wrap_def mod_if)
  with walk_back_rev [OF cap(1,2), of "q_head q"] show ?thesis by (simp add: fc_ring_span_eq [OF ok])
qed

lemma fc_ring_evict_pick_Some:
  assumes inv: "ring_inv (s_queue s)" and pick: "fc_ring_evict_pick s band = Some i"
  shows "c_shed_queue (s_cfg s)" "band \<noteq> FC_BAND_SHEDDABLE" "length (q_evicted (s_queue s)) < FC_EVICT_PENDING"
    "live_slot (s_queue s) i" "e_band (q_ring (s_queue s) ! i) = FC_BAND_SHEDDABLE"
    "\<exists>us vs. fc_ring_span (s_queue s) = us @ i # vs \<and>
      (\<forall>v \<in> set vs. e_live (q_ring (s_queue s) ! v) \<longrightarrow> e_band (q_ring (s_queue s) ! v) \<noteq> FC_BAND_SHEDDABLE)"
proof -
  let ?q = "s_queue s"
  let ?shed = "\<lambda>i. e_live (q_ring ?q ! i) \<and> e_band (q_ring ?q ! i) = FC_BAND_SHEDDABLE"
  have g: "c_shed_queue (s_cfg s)" "band \<noteq> FC_BAND_SHEDDABLE" "length (q_evicted ?q) < FC_EVICT_PENDING" "0 < q_used ?q"
    and f: "find ?shed (fc_ring_walk_back ?q (fc_ring_wrap ?q (q_head ?q + q_used ?q - 1)) (q_used ?q)) = Some i"
    using pick by (auto simp: fc_ring_evict_pick_def Let_def split: if_splits)
  from f have "find ?shed (rev (fc_ring_span ?q)) = Some i"
    by (simp only: fc_ring_walk_back_span [OF ring_invD(1) [OF inv] g(4)])
  then have "first_best ?shed (\<lambda>_. 0 :: nat) (rev (fc_ring_span ?q)) (Some i)"
    using first_best_find [of ?shed "0 :: nat" "rev (fc_ring_span ?q)"] by simp
  then obtain us vs where uv: "rev (fc_ring_span ?q) = us @ i # vs" "?shed i" "\<forall>u \<in> set us. \<not> ?shed u"
    by (auto simp: first_best_def)
  have sp: "fc_ring_span ?q = rev vs @ i # rev us" using arg_cong [OF uv(1), of rev] by simp
  show "c_shed_queue (s_cfg s)" "band \<noteq> FC_BAND_SHEDDABLE" "length (q_evicted ?q) < FC_EVICT_PENDING"
    by (rule g)+
  show "live_slot ?q i" "e_band (q_ring ?q ! i) = FC_BAND_SHEDDABLE" using sp uv(2) by (simp_all add: live_slot_def)
  have "\<forall>v \<in> set (rev us). e_live (q_ring ?q ! v) \<longrightarrow> e_band (q_ring ?q ! v) \<noteq> FC_BAND_SHEDDABLE"
    using uv(3) by simp
  with sp show "\<exists>us vs. fc_ring_span ?q = us @ i # vs \<and>
      (\<forall>v \<in> set vs. e_live (q_ring ?q ! v) \<longrightarrow> e_band (q_ring ?q ! v) \<noteq> FC_BAND_SHEDDABLE)" by blast
qed

end
