(* ===== verification/FC_Queue.thy ===== *)
theory FC_Queue
  imports FC_Wake
begin

text \<open>
  The bounded queue of a pool (\<open>common/sockproxy_fc.c\<close>, section "the queue"): eviction and the list
  of answers it owes, \<open>fc_queue_push\<close>, \<open>fc_queue_take\<close>, \<open>fc_queue_holds\<close>, \<open>fc_queue_pop\<close>, the owner's
  resume, the wakes and the drain. Operations of one pool take and return its state and list the
  anomalies they count; those that reach the permit binding, the timer or the wake hook take the
  process. The part of a function that runs under the queue lock is one step.
\<close>

section \<open>Eviction and the answers it owes\<close>

definition fc_ring_evict :: "fc_state \<Rightarrow> nat \<Rightarrow> u64 \<Rightarrow> fc_evicted_t \<times> fc_state \<times> fc_anomaly list" where
  "fc_ring_evict s slot now_ns =
     (let (e, q) = fc_ring_take_at (s_queue s) slot;
          gone = \<lparr>ev_fd = e_fd e, ev_gen = e_gen e, ev_at_ns = now_ns\<rparr>;
          (tt, an) = fc_tenant_dec (s_tt s) (e_tslot e) True
      in (gone, s\<lparr>s_queue := q\<lparr>q_evicted := q_evicted q @ [gone]\<rparr>, s_tt := tt\<rparr>, an))"

definition fc_queue_evicted :: "fc_state \<Rightarrow> nat" where
  "fc_queue_evicted s = length (q_evicted (s_queue s))"

fun fc_evicted_drop :: "fc_evicted_t list \<Rightarrow> nat \<Rightarrow> fc_evicted_t list" where
  "fc_evicted_drop [] i = []"
| "fc_evicted_drop (x # xs) 0 = xs"
| "fc_evicted_drop (x # xs) (Suc i) = x # fc_evicted_drop xs i"

text \<open>
  The position of the first entry of the list that answers \<open>P\<close>: the loops over \<open>evicted[]\<close> that end
  with a \<open>break\<close>.
\<close>

fun evicted_at :: "(fc_evicted_t \<Rightarrow> bool) \<Rightarrow> fc_evicted_t list \<Rightarrow> nat option" where
  "evicted_at P [] = None"
| "evicted_at P (x # xs) = (if P x then Some 0 else map_option Suc (evicted_at P xs))"

definition ev_is :: "int \<Rightarrow> u64 \<Rightarrow> fc_evicted_t \<Rightarrow> bool" where
  "ev_is fd gen x \<longleftrightarrow> ev_fd x = fd \<and> ev_gen x = gen"

definition fc_evicted_take :: "fc_state \<Rightarrow> int \<Rightarrow> u64 \<Rightarrow> fc_permit option \<Rightarrow> bool \<times> fc_state \<times> fc_permit option" where
  "fc_evicted_take s fd gen p =
     (if fd < 0 \<or> fc_queue_evicted s = 0 then (False, s, p)
      else case evicted_at (ev_is fd gen) (q_evicted (s_queue s)) of
        None \<Rightarrow> (False, s, p)
      | Some i \<Rightarrow>
        let s = s\<lparr>s_queue := (s_queue s)\<lparr>q_evicted := fc_evicted_drop (q_evicted (s_queue s)) i\<rparr>\<rparr>
        in case p of None \<Rightarrow> (True, s, None)
           | Some p \<Rightarrow> let (won, p) = fc_permit_settle p FC_P_EVICTED in (won, s, Some p))"

definition fc_queue_evicted_claim :: "fc_state \<Rightarrow> int \<Rightarrow> u64 \<Rightarrow> bool \<times> fc_state" where
  "fc_queue_evicted_claim s fd gen = (let (won, s, _) = fc_evicted_take s fd gen None in (won, s))"

definition fc_queue_evicted_settle :: "fc_state \<Rightarrow> fc_permit \<Rightarrow> int \<Rightarrow> u64 \<Rightarrow> bool \<times> fc_state \<times> fc_permit" where
  "fc_queue_evicted_settle s p fd gen =
     (let (won, s, p') = fc_evicted_take s fd gen (Some p) in (won, s, case p' of Some p' \<Rightarrow> p' | None \<Rightarrow> p))"

text \<open>
  The sweep of the 1 Hz pass: the callback decides each waiter whose eviction is old enough (it
  gets the process and returns it), then every one of them leaves the list.
\<close>

definition ev_ent :: "fc_evicted_t \<Rightarrow> fc_queue_ent" where
  "ev_ent x = \<lparr>e_fd = ev_fd x, e_live = False, e_band = FC_BAND_SHEDDABLE, e_tslot = -1, e_gen = ev_gen x,
                e_enqueue_ns = 0, e_deadline_ns = 0\<rparr>"

fun sweep_ask :: "(fc_queue_ent \<Rightarrow> fc_world \<Rightarrow> bool \<times> fc_world) option \<Rightarrow> fc_evicted_t list \<Rightarrow> fc_world \<Rightarrow> nat \<times> fc_world" where
  "sweep_ask fn [] w = (0, w)"
| "sweep_ask fn (x # xs) w =
     (let (won, w) = (case fn of None \<Rightarrow> (False, w) | Some f \<Rightarrow> f (ev_ent x) w);
          (n, w) = sweep_ask fn xs w
      in (if won then Suc n else n, w))"

fun sweep_drop :: "fc_evicted_t list \<Rightarrow> fc_evicted_t list \<Rightarrow> fc_evicted_t list" where
  "sweep_drop [] evs = evs"
| "sweep_drop (x # xs) evs =
     sweep_drop xs (case evicted_at (\<lambda>y. y = x) evs of None \<Rightarrow> evs | Some k \<Rightarrow> fc_evicted_drop evs k)"

definition fc_queue_evicted_sweep ::
  "fc_world \<Rightarrow> pool_ref option \<Rightarrow> u64 \<Rightarrow> (fc_queue_ent \<Rightarrow> fc_world \<Rightarrow> bool \<times> fc_world) option \<Rightarrow> nat \<times> fc_world" where
  "fc_queue_evicted_sweep w fc before_ns fn =
     (case fc of None \<Rightarrow> (0, w)
      | Some f \<Rightarrow>
        if fc_queue_evicted (w_pools w f) = 0 then (0, w)
        else let take = filter (\<lambda>x. ev_at_ns x \<le> before_ns) (q_evicted (s_queue (w_pools w f)));
                 (answered, w) = sweep_ask fn take w;
                 s = w_pools w f
             in (answered,
                 w_set w f (s\<lparr>s_queue := (s_queue s)\<lparr>q_evicted := sweep_drop take (q_evicted (s_queue s))\<rparr>\<rparr>)))"

section \<open>Push\<close>

text \<open>The window of a wait: the band's, shortened by a client's TTL; a woken request keeps its own.\<close>

definition fc_push_window :: "fc_state \<Rightarrow> fc_band \<Rightarrow> u32 \<Rightarrow> u64 \<Rightarrow> u64 \<Rightarrow> bool \<Rightarrow> u64 \<times> bool" where
  "fc_push_window s band ttl_ms now_ns first_deadline ttl_cut =
     (if first_deadline \<noteq> 0 then (first_deadline, ttl_cut)
      else let window_ms = fc_band_wait_ms s band;
               cut = (c_llmd_headers (s_cfg s) \<and> ttl_ms \<noteq> 0 \<and> ttl_ms < window_ms);
               window_ms = (if cut then ttl_ms else window_ms)
           in (now_ns + ucast window_ms * 1000000, ttl_cut \<or> cut))"

definition fc_push_band_full :: "fc_state \<Rightarrow> fc_band \<Rightarrow> bool \<Rightarrow> bool" where
  "fc_push_band_full s band front \<longleftrightarrow>
     \<not> front \<and> \<not> q_dead (s_queue s) \<and> fc_queue_enabled s \<and>
     fc_band_queue_bound s band \<noteq> 0 \<and> fc_band_live (s_queue s) band \<ge> unat (fc_band_queue_bound s band)"

definition fc_push_evict :: "fc_state \<Rightarrow> fc_band \<Rightarrow> bool \<Rightarrow> u64 \<Rightarrow> u64 \<Rightarrow> nat option" where
  "fc_push_evict s band front deadline at_ns =
     (if \<not> front \<and> \<not> q_dead (s_queue s) \<and> fc_queue_enabled s \<and>
         q_count (s_queue s) \<ge> unat (c_max_queue_depth (s_cfg s)) \<and> deadline > at_ns
      then fc_ring_evict_pick s band else None)"

text \<open>
  The part of \<open>fc_queue_push\<close> under the queue lock, for the entry \<open>e\<close>: the return code, the slot
  taken, what was evicted with the time it had been waiting since, the pool and the anomalies.
\<close>

definition fc_push_locked ::
  "(nat \<Rightarrow> bool) \<Rightarrow> fc_state \<Rightarrow> fc_queue_ent \<Rightarrow> u64 \<Rightarrow> bool \<Rightarrow> bool \<Rightarrow> u64 \<Rightarrow>
   int \<times> nat \<times> (fc_evicted_t \<times> u64) option \<times> fc_state \<times> fc_anomaly list" where
  "fc_push_locked ok s e tkey front ordered at_ns =
     (let evict = fc_push_evict s (e_band e) front (e_deadline_ns e) at_ns
      in if fc_push_band_full s (e_band e) front \<or> q_dead (s_queue s) \<or> \<not> fc_queue_enabled s \<or>
            \<not> (front \<or> q_count (s_queue s) < unat (c_max_queue_depth (s_cfg s)) \<or> evict \<noteq> None)
         then (-1, 0, None, s, [])
         else
           let (tslot, tt, an) = (if fc_tenants_tracked s
                                  then fc_tenant_get ok (q_dead (s_queue s)) (s_tt s) tkey False
                                  else (-1, s_tt s, []));
               s = s\<lparr>s_tt := tt\<rparr>; qbound = fc_tenant_queue_bound s; e = e\<lparr>e_tslot := tslot\<rparr>
           in if tslot \<ge> 0 \<and> \<not> front \<and> qbound \<noteq> 0 \<and> t_queued (tts tt ! nat tslot) \<ge> qbound
              then (-2, 0, None, s\<lparr>s_tt := fc_tenant_put tt tslot\<rparr>, an)
              else
                let (gone, s, an) =
                      (case evict of None \<Rightarrow> (None, s, an)
                       | Some i \<Rightarrow> let enq = e_enqueue_ns (q_ring (s_queue s) ! i);
                                      (g, s, an') = fc_ring_evict s i at_ns
                                  in (Some (g, enq), s, an @ an'));
                    (slot, q) = fc_ring_insert ok (s_queue s) e front ordered;
                    s = s\<lparr>s_queue := q\<rparr>
                in case slot of
                     Some i \<Rightarrow>
                       (0, i, gone,
                        fc_queue_publish (if tslot \<ge> 0 then s\<lparr>s_tt := fc_tenant_inc (s_tt s) (nat tslot) True\<rparr> else s), an)
                   | None \<Rightarrow>
                       let s = (if tslot \<ge> 0 then s\<lparr>s_tt := fc_tenant_put (s_tt s) tslot\<rparr> else s)
                       in (-1, 0, gone, if gone \<noteq> None then fc_queue_publish s else s, an))"

text \<open>What an eviction does outside the lock: counted, its park observed, its owner woken.\<close>

definition fc_push_evicted :: "fc_world \<Rightarrow> pool_ref \<Rightarrow> fc_evicted_t \<Rightarrow> u64 \<Rightarrow> u64 \<Rightarrow> fc_world" where
  "fc_push_evicted w f gone gone_enq_ns at_ns =
     (let s = fc_count_band (w_pools w f) FC_R_SHED FC_BAND_SHEDDABLE;
          s = fc_note_wait s (if at_ns > gone_enq_ns then (at_ns - gone_enq_ns) div 1000000 else 0)
      in snd (wake_call (w_set w f s) (ev_fd gone) (ev_gen gone)))"

definition fc_queue_push ::
  "fc_world \<Rightarrow> pool_ref option \<Rightarrow> fc_permit \<Rightarrow> int \<Rightarrow> u64 \<Rightarrow> u64 \<Rightarrow> bool \<Rightarrow> int \<times> fc_world \<times> fc_permit" where
  "fc_queue_push w fc p fd gen now_ns front =
     (case fc of None \<Rightarrow> (-1, w, p)
      | Some f \<Rightarrow>
        if fd < 0 then (-1, w, p)
        else
          let at_ns = now_ns; tkey = p_tkey p; band = p_band p; first_ns = p_q_first_ns p;
              ordered = (\<not> front \<and> first_ns \<noteq> 0 \<and> first_ns < now_ns);
              now_ns = (if ordered then first_ns else now_ns);
              ttl_ms = p_q_ttl_ms p;
              ttl_cut = (if front then p_q_ttl_cut p else False);
              parked = (if front then p_q_parked p else True);
              again = (front \<and> p_q_deadline_ns p \<noteq> 0);
              now_ns = (if again then p_q_enqueue_ns p else now_ns);
              first_deadline = (if again then p_q_deadline_ns p else 0);
              (w, p) = fc_permit_bind w p fc;
              p = p\<lparr>p_state := FC_P_QUEUED, p_q_fd := fd, p_q_gen := gen, p_q_enqueue_ns := now_ns,
                    p_tkey := tkey, p_band := band, p_q_parked := parked\<rparr>;
              (deadline, ttl_cut) = fc_push_window (w_pools w f) band ttl_ms now_ns first_deadline ttl_cut;
              p = p\<lparr>p_q_deadline_ns := deadline, p_q_ttl_cut := ttl_cut\<rparr>;
              e = \<lparr>e_fd = fd, e_live = True, e_band = band, e_tslot = -1, e_gen = gen,
                   e_enqueue_ns = now_ns, e_deadline_ns = deadline\<rparr>;
              (rc, slot, gone, s, an) = fc_push_locked (w_calloc w) (w_pools w f) e tkey front ordered at_ns;
              w = w_note (w_set w f s) an;
              p = (if rc = 0 then p\<lparr>p_q_slot := slot\<rparr> else p);
              w = (if rc = 0 then w_arm w deadline else w);
              w = (case gone of None \<Rightarrow> w | Some (g, enq) \<Rightarrow> fc_push_evicted w f g enq at_ns)
          in if rc \<noteq> 0
             then let (w, p) = fc_permit_bind w p fc;
                      p = p\<lparr>p_tkey := tkey, p_band := band, p_q_parked := (if front then parked else False)\<rparr>;
                      s = fc_count (w_pools w f) (if rc = -2 then FC_R_TENANT_SHARE else FC_R_QUEUE_FULL)
                  in (if rc = -2 then -2 else -1, w_set w f s, p)
             else (0, if front then w else w_set w f (fc_count_band (w_pools w f) FC_R_QUEUED band), p))"

section \<open>Leaving the queue\<close>

definition fc_queue_take :: "fc_state \<Rightarrow> fc_permit \<Rightarrow> bool \<times> fc_state \<times> fc_permit \<times> fc_anomaly list" where
  "fc_queue_take s p =
     (if p_state p \<noteq> FC_P_QUEUED then (False, s, p, [])
      else case fc_ring_find (s_queue s) (p_q_fd p) (p_q_gen p) (p_q_slot p) of
        None \<Rightarrow> (False, s, p, [])
      | Some slot \<Rightarrow>
        let (won, p) = fc_permit_settle p FC_P_ENDED
        in if \<not> won then (False, s, p, [])
           else let (e, q) = fc_ring_take_at (s_queue s) slot;
                    (tt, an) = fc_tenant_dec (s_tt s) (e_tslot e) True
                in (True, fc_queue_publish (s\<lparr>s_queue := q, s_tt := tt\<rparr>), p, an))"

definition fc_queue_holds :: "fc_state \<Rightarrow> fc_permit \<Rightarrow> bool" where
  "fc_queue_holds s p \<longleftrightarrow> p_state p = FC_P_QUEUED \<and>
     fc_ring_find (s_queue s) (p_q_fd p) (p_q_gen p) (p_q_slot p) \<noteq> None"

definition fc_queue_pop :: "fc_state \<Rightarrow> fc_queue_ent option \<times> fc_state \<times> fc_anomaly list" where
  "fc_queue_pop s =
     (case fc_ring_pop (s_queue s) of
        (None, q) \<Rightarrow> (None, fc_queue_publish (s\<lparr>s_queue := q\<rparr>), [])
      | (Some e, q) \<Rightarrow>
        let (tt, an) = fc_tenant_dec (s_tt s) (e_tslot e) True
        in (Some e, fc_queue_publish (s\<lparr>s_queue := q, s_tt := tt\<rparr>), an))"

definition fc_queue_resumed :: "fc_permit \<Rightarrow> bool \<times> fc_permit" where
  "fc_queue_resumed p =
     (let (won, p) = fc_permit_settle p FC_P_NONE in if won then (True, p\<lparr>p_woken := True\<rparr>) else (False, p))"

definition fc_queue_owner_resume ::
  "fc_world \<Rightarrow> pool_ref option \<Rightarrow> fc_permit \<Rightarrow> fc_resume \<times> fc_world \<times> fc_permit" where
  "fc_queue_owner_resume w fc p =
     (let st = p_state p
      in if st = FC_P_EVICTED \<or> st = FC_P_ENDED then (FC_RESUME_DECIDED, w, p)
         else case fc of None \<Rightarrow> (FC_RESUME_NOT_QUEUED, w, p)
         | Some f \<Rightarrow>
           if st \<noteq> FC_P_QUEUED then (FC_RESUME_NOT_QUEUED, w, p)
           else let (claimed, s) = fc_queue_evicted_claim (w_pools w f) (p_q_fd p) (p_q_gen p); w = w_set w f s
                in if claimed
                   then let (won, p) = fc_permit_settle p FC_P_NONE
                        in if \<not> won then (FC_RESUME_DECIDED, w, p)
                           else (FC_RESUME_EVICTED, w, p\<lparr>p_woken := False, p_q_parked := False\<rparr>)
                   else if fc_queue_holds (w_pools w f) p then (FC_RESUME_WAIT, w, p)
                   else let (won, p) = fc_queue_resumed p
                        in (if won then FC_RESUME_TURN else FC_RESUME_DECIDED, w, p))"

definition fc_queue_wait_end :: "fc_world \<Rightarrow> pool_ref option \<Rightarrow> fc_permit \<Rightarrow> u64 \<Rightarrow> fc_world \<times> fc_permit" where
  "fc_queue_wait_end w fc p now_ns =
     (case fc of None \<Rightarrow> (w, p)
      | Some f \<Rightarrow>
        if \<not> p_q_parked p then (w, p)
        else let enq = p_q_enqueue_ns p
             in (w_set w f (fc_note_wait (w_pools w f) (if now_ns > enq then (now_ns - enq) div 1000000 else 0)),
                 p\<lparr>p_q_parked := False\<rparr>))"

section \<open>Wakes\<close>

text \<open>A wake that was not delivered: the entry goes back to the head and what the pick spent is given back.\<close>

definition fc_pick_give_back :: "fc_queue \<Rightarrow> fc_pick_undo \<Rightarrow> fc_queue" where
  "fc_pick_give_back q u =
     (case u_band u of None \<Rightarrow> q
      | Some b \<Rightarrow>
        let q = (if u_credit u \<and> q_drr_credit q b < unat FC_BAND_WEIGHT_MAX + 2
                 then q\<lparr>q_drr_credit := (q_drr_credit q)(b := q_drr_credit q b + 1)\<rparr> else q)
        in if u_rr u \<and> q_rr_next q b = u_rr_after u
           then q\<lparr>q_rr_next := (q_rr_next q)(b := u_rr_before u)\<rparr> else q)"

definition fc_wake_undo :: "fc_world \<Rightarrow> pool_ref \<Rightarrow> fc_queue_ent \<Rightarrow> fc_pick_undo \<Rightarrow> fc_world" where
  "fc_wake_undo w f e u =
     (let s = w_pools w f; (slot, q) = fc_ring_insert (w_calloc w) (s_queue s) e True False
      in case slot of
           None \<Rightarrow> let (tt, an) = fc_tenant_dec (s_tt s) (e_tslot e) True
                   in w_note (w_set w f (fc_queue_publish (s\<lparr>s_queue := fc_pick_give_back q u, s_tt := tt\<rparr>))) an
         | Some _ \<Rightarrow> w_set (w_arm w (e_deadline_ns e)) f (fc_queue_publish (s\<lparr>s_queue := fc_pick_give_back q u\<rparr>)))"

definition fc_queue_wake_head ::
  "fc_world \<Rightarrow> pool_ref \<Rightarrow> (fc_band \<Rightarrow> u32) \<Rightarrow> bool \<times> fc_world \<times> (fc_band \<Rightarrow> u32)" where
  "fc_queue_wake_head w f pend =
     (let (r, s, u) = fc_ring_pop_runnable (w_pools w f) pend; w = w_set w f (fc_queue_publish s)
      in case r of None \<Rightarrow> (False, w, pend)
         | Some e \<Rightarrow>
           let (delivered, w) = wake_call w (e_fd e) (e_gen e)
           in if \<not> delivered then (False, fc_wake_undo w f e u, pend)
              else let s = w_pools w f; (tt, an) = fc_tenant_dec (s_tt s) (e_tslot e) True
                   in (True, w_note (w_set w f (s\<lparr>s_tt := tt\<rparr>)) an, pend(e_band e := pend (e_band e) + 1)))"

definition fc_queue_wake_one :: "fc_world \<Rightarrow> pool_ref option \<Rightarrow> fc_world" where
  "fc_queue_wake_one w fc =
     (case fc of None \<Rightarrow> w
      | Some f \<Rightarrow>
        if w_wake_hook w = None \<or> s_queued (w_pools w f) = 0 \<or> \<not> fc_has_room (w_pools w f) then w
        else let (_, w, _) = fc_queue_wake_head w f (\<lambda>_. 0) in w)"

fun wake_loop :: "nat \<Rightarrow> fc_world \<Rightarrow> pool_ref \<Rightarrow> (fc_band \<Rightarrow> u32) \<Rightarrow> fc_world" where
  "wake_loop 0 w f pend = w"
| "wake_loop (Suc n) w f pend =
     (let (woken, w, pend) = fc_queue_wake_head w f pend in if woken then wake_loop n w f pend else w)"

definition fc_queue_wake_room :: "fc_world \<Rightarrow> pool_ref option \<Rightarrow> fc_world" where
  "fc_queue_wake_room w fc =
     (case fc of None \<Rightarrow> w
      | Some f \<Rightarrow>
        if w_wake_hook w = None then w
        else let s = w_pools w f; n = s_queued s; cap = fc_svc_cap s; inflight = s_inflight s
             in if n = 0 then w
                else if c_mode (s_cfg s) = FC_MODE_ENFORCE \<and> cap \<noteq> 0
                then if inflight \<ge> cap then w
                     else wake_loop (unat (if cap - inflight < n then cap - inflight else n)) w f (\<lambda>_. 0)
                else wake_loop (unat n) w f (\<lambda>_. 0))"

section \<open>Drain and visit\<close>

text \<open>
  \<open>while (fc_queue_pop (fc, &e))\<close>: every waiter is handed to the callback, which gets the process and
  says whether it answered. The loop runs once per waiter (and ends when none is left): \<open>fuel\<close> bounds
  the rounds.
\<close>

fun drain_loop ::
  "nat \<Rightarrow> fc_world \<Rightarrow> pool_ref \<Rightarrow> (fc_queue_ent \<Rightarrow> fc_world \<Rightarrow> bool \<times> fc_world) option \<Rightarrow> fc_world option" where
  "drain_loop fuel w f fn =
     (let (r, s, an) = fc_queue_pop (w_pools w f); w = w_note (w_set w f s) an
      in case r of None \<Rightarrow> Some w
         | Some e \<Rightarrow>
           let (answered, w) = (case fn of None \<Rightarrow> (True, w) | Some g \<Rightarrow> g e w);
               w = (if answered then w_set w f (fc_count (w_pools w f) FC_R_DRAINED) else w)
           in case fuel of 0 \<Rightarrow> None | Suc fuel \<Rightarrow> drain_loop fuel w f fn)"

definition fc_queue_drain ::
  "fc_world \<Rightarrow> pool_ref option \<Rightarrow> (fc_queue_ent \<Rightarrow> fc_world \<Rightarrow> bool \<times> fc_world) option \<Rightarrow> nat \<Rightarrow> fc_world option" where
  "fc_queue_drain w fc fn fuel = (case fc of None \<Rightarrow> Some w | Some f \<Rightarrow> drain_loop fuel w f fn)"

text \<open>The live entries in queue order, as handed to the callback.\<close>

definition fc_queue_visit :: "fc_state \<Rightarrow> (fc_queue_ent \<Rightarrow> 'c \<Rightarrow> 'c) \<Rightarrow> 'c \<Rightarrow> nat \<times> 'c" where
  "fc_queue_visit s fn ctx =
     (let q = s_queue s
      in if q_cap q = 0 then (0, ctx)
         else fold (\<lambda>i (n, ctx). let e = q_ring q ! i in if e_live e then (n + 1, fn e ctx) else (n, ctx))
                (fc_ring_span q) (0, ctx))"

declare drain_loop.simps [simp del]

section \<open>The invariant of a pool\<close>

text \<open>
  Every tenant slot counts the waiters that hold it. The entries in \<open>hand\<close> were taken out of the ring
  and are still counted (a wake in delivery); \<open>h\<close> are the tenants' units in flight, which the queue
  never touches.
\<close>

definition slot_len :: "int \<Rightarrow> fc_queue_ent list \<Rightarrow> nat" where
  "slot_len sl es = length (filter (\<lambda>e. e_tslot e = sl) es)"

definition pool_core :: "(int \<Rightarrow> nat) \<Rightarrow> fc_queue_ent list \<Rightarrow> fc_state \<Rightarrow> bool" where
  "pool_core h hand s \<longleftrightarrow> ring_inv (s_queue s) \<and> tt_inv (s_tt s) \<and> ti (s_tt s) = h \<and>
     (\<forall>sl \<ge> 0. tq (s_tt s) sl = slot_len sl (hand @ ring_live (s_queue s))) \<and>
     length (q_evicted (s_queue s)) \<le> FC_EVICT_PENDING"

definition pool_mirrors :: "fc_state \<Rightarrow> bool" where
  "pool_mirrors s \<longleftrightarrow> s_queued s = of_nat (q_count (s_queue s)) \<and>
     (\<forall>b. fc_band_counted b \<longrightarrow> s_band_queued s b = of_nat (q_band_count (s_queue s) b))"

definition pool_inv :: "(int \<Rightarrow> nat) \<Rightarrow> fc_state \<Rightarrow> bool" where
  "pool_inv h s \<longleftrightarrow> pool_core h [] s \<and> pool_mirrors s"

abbreviation waiters :: "fc_state \<Rightarrow> fc_queue_ent list" where
  "waiters s \<equiv> ring_live (s_queue s)"

lemma slot_len_simps [simp]:
  "slot_len sl [] = 0" "slot_len sl (xs @ ys) = slot_len sl xs + slot_len sl ys"
  "slot_len sl (e # es) = (if e_tslot e = sl then 1 else 0) + slot_len sl es"
  by (simp_all add: slot_len_def)

lemma slot_len_queue_insert [simp]:
  "slot_len sl (queue_insert f r e es) = (if e_tslot e = sl then 1 else 0) + slot_len sl es"
proof -
  have "slot_len sl es = slot_len sl (before_of e es) + slot_len sl (after_of e es)"
    by (metis before_after slot_len_simps(2))
  moreover have "slot_len sl es =
      slot_len sl (takeWhile (front_pass e) es) + slot_len sl (dropWhile (front_pass e) es)"
    by (metis takeWhile_dropWhile_id slot_len_simps(2))
  ultimately show ?thesis by (simp add: queue_insert_def)
qed

lemma slot_len_le: "slot_len sl es \<le> length es"
  by (simp add: slot_len_def)

lemma slot_len_remove1: "e \<in> set es \<Longrightarrow> slot_len sl es = (if e_tslot e = sl then 1 else 0) + slot_len sl (remove1 e es)"
  by (induction es) auto

lemma tq_neg [simp]: "sl < 0 \<Longrightarrow> tq tt sl = 0"
  by (simp add: tq_def tt_has_def)

lemma pool_coreD:
  assumes "pool_core h hand s"
  shows "ring_inv (s_queue s)" "tt_inv (s_tt s)" "0 \<le> sl \<Longrightarrow> tq (s_tt s) sl = slot_len sl hand + slot_len sl (waiters s)"
    "length (q_evicted (s_queue s)) \<le> FC_EVICT_PENDING" "ti (s_tt s) = h"
  using assms by (simp_all add: pool_core_def)

lemma pool_invD:
  assumes "pool_inv h s"
  shows "pool_core h [] s" "pool_mirrors s" "ring_inv (s_queue s)" "tt_inv (s_tt s)"
  using assms by (simp_all add: pool_inv_def pool_core_def)

lemma waiters_bound: "ring_inv q \<Longrightarrow> length (ring_live q) \<le> 65536"
  using ring_invD(1) [of q] length_filter_le [of e_live "ring_seq q"]
  by (simp add: ring_live_def ring_ok_def ring_seq_def seg_def)

lemma fc_queue_publish_simps [simp]:
  "s_queue (fc_queue_publish s) = s_queue s" "s_tt (fc_queue_publish s) = s_tt s" "s_cfg (fc_queue_publish s) = s_cfg s"
  "pool_core h hand (fc_queue_publish s) = pool_core h hand s" "pool_mirrors (fc_queue_publish s)"
  by (simp_all add: fc_queue_publish_def pool_core_def pool_mirrors_def fc_band_counted_def)

text \<open>An entry leaves the ring for somebody's hand, and comes back from it.\<close>

lemma pool_core_take:
  assumes "pool_core h hand s" "ring_inv q'" "waiters s = pre @ e # post" "ring_live q' = pre @ post"
    "q_evicted q' = q_evicted (s_queue s)"
  shows "pool_core h (e # hand) (s\<lparr>s_queue := q'\<rparr>)"
  using assms by (auto simp: pool_core_def)

lemma pool_core_insert:
  assumes "pool_core h (e # hand) s" "ring_inv q'" "ring_live q' = queue_insert f r (e\<lparr>e_live := True\<rparr>) (waiters s)"
    "q_evicted q' = q_evicted (s_queue s)"
  shows "pool_core h hand (s\<lparr>s_queue := q'\<rparr>)"
  using assms by (auto simp: pool_core_def)

text \<open>The waiter in hand gives its tenant's count back.\<close>

lemma fc_tenant_dec_neg: "sl < 0 \<Longrightarrow> fc_tenant_dec tt sl b = (tt, [])"
  by (simp add: fc_tenant_dec_def)

lemma pool_core_dec:
  assumes core: "pool_core h (e # hand) s" and dec: "fc_tenant_dec (s_tt s) (e_tslot e) True = (tt', an)"
  shows "pool_core h hand (s\<lparr>s_tt := tt'\<rparr>)" "an = []"
proof -
  note D = fc_tenant_dec_ok [OF pool_coreD(2) [OF core] dec]
  show "pool_core h hand (s\<lparr>s_tt := tt'\<rparr>)"
    using core D(1,2,3) by (auto simp: pool_core_def)
  show "an = []"
  proof (cases "e_tslot e < 0")
    case True
    with dec show ?thesis by (simp add: fc_tenant_dec_neg)
  next
    case False
    then have "0 < tq (s_tt s) (e_tslot e)" using pool_coreD(3) [OF core, of "e_tslot e"] by simp
    with D(7) show ?thesis by simp
  qed
qed

text \<open>A new waiter is counted before it has its place.\<close>

lemma pool_core_inc:
  assumes core: "pool_core h hand s" and has: "tt_has (s_tt s) sl" "t_used (tts (s_tt s) ! nat sl)"
    and e: "e_tslot e = sl" and few: "length hand \<le> 65536"
  shows "pool_core h (e # hand) (s\<lparr>s_tt := fc_tenant_inc (s_tt s) (nat sl) True\<rparr>)"
proof -
  have "0 \<le> sl" using has(1) by (simp add: tt_has_def)
  then have "tq (s_tt s) sl \<le> 131072"
    using pool_coreD(3) [OF core, of sl] slot_len_le [of sl hand] slot_len_le [of sl "waiters s"]
      waiters_bound [OF pool_coreD(1) [OF core]] few by simp
  then have "(if True then tq (s_tt s) sl else ti (s_tt s) sl) + 1 < 2 ^ 32" by simp
  from fc_tenant_inc_ok [OF pool_coreD(2) [OF core] has this] core e show ?thesis
    by (auto simp: pool_core_def)
qed

lemma pool_core_tt:
  assumes "pool_core h hand s" "tt_inv tt'" "tq tt' = tq (s_tt s)" "ti tt' = ti (s_tt s)"
  shows "pool_core h hand (s\<lparr>s_tt := tt'\<rparr>)"
  using assms by (simp add: pool_core_def)

text \<open>A count given back frees no slot but its own, and that one only with its last hold.\<close>

lemma fc_tenant_put_used_other:
  assumes "int j \<noteq> sl"
  shows "t_used (tts (fc_tenant_put tt sl) ! j) = t_used (tts tt ! j)"
proof -
  have "nat sl \<noteq> j" if "\<not> sl < 0" using assms that by auto
  then show ?thesis by (auto simp: fc_tenant_put_def Let_def)
qed

lemma fc_tenant_dec_used_other:
  assumes "fc_tenant_dec tt sl q = (tt', an)" "int j \<noteq> sl"
  shows "t_used (tts tt' ! j) = t_used (tts tt ! j)"
proof -
  have "nat sl \<noteq> j" if "\<not> sl < 0" using assms that by auto
  with assms show ?thesis
    by (auto simp: fc_tenant_dec_def Let_def fc_tenant_put_used_other split: if_splits)
qed

lemma fc_tenant_dec_used:
  assumes inv: "tt_inv tt" and dec: "fc_tenant_dec tt sl' True = (tt', an)" and has: "tt_has tt sl" "t_used (tts tt ! nat sl)"
    and more: "sl = sl' \<longrightarrow> 1 < tq tt sl + ti tt sl"
  shows "tt_has tt' sl" "t_used (tts tt' ! nat sl)"
proof -
  note D = fc_tenant_dec_ok [OF inv dec]
  show has': "tt_has tt' sl" using has(1) D(4,6) by (auto simp: tt_has_def)
  show "t_used (tts tt' ! nat sl)"
  proof (cases "sl = sl'")
    case True
    then have "0 < tq tt' sl \<or> 0 < ti tt' sl" using more D(2,3) by auto
    then show ?thesis using tt_used_of_count [OF D(1), of sl] by auto
  next
    case False
    then have "int (nat sl) \<noteq> sl'" using has(1) by (auto simp: tt_has_def)
    with has(2) fc_tenant_dec_used_other [OF dec] show ?thesis by simp
  qed
qed

section \<open>Each operation keeps the invariant\<close>

subsection \<open>Eviction\<close>

lemma fc_ring_evict_ok:
  assumes core: "pool_core h hand s" and slot: "live_slot (s_queue s) i" and few: "length (q_evicted (s_queue s)) < FC_EVICT_PENDING"
    and res: "fc_ring_evict s i now = (g, s', an)"
  defines "e \<equiv> q_ring (s_queue s) ! i"
  shows "pool_core h hand s'" "an = []" "s' = s\<lparr>s_queue := s_queue s', s_tt := s_tt s'\<rparr>"
    "g = \<lparr>ev_fd = e_fd e, ev_gen = e_gen e, ev_at_ns = now\<rparr>" "q_evicted (s_queue s') = q_evicted (s_queue s) @ [g]"
    "fc_tenant_dec (s_tt s) (e_tslot e) True = (s_tt s', [])"
    "q_dead (s_queue s') = q_dead (s_queue s)" "q_cap (s_queue s') = q_cap (s_queue s)"
    "fc_ring_take_at (s_queue s) i = (e, (s_queue s')\<lparr>q_evicted := q_evicted (s_queue s)\<rparr>)"
proof -
  obtain e' q' where t: "fc_ring_take_at (s_queue s) i = (e', q')" by fastforce
  note T = fc_ring_take_at_slot [OF pool_coreD(1) [OF core] slot t]
  obtain tt' an' where d: "fc_tenant_dec (s_tt s) (e_tslot e) True = (tt', an')" by fastforce
  have e': "e' = e" by (simp add: T(1) e_def)
  have r: "g = \<lparr>ev_fd = e_fd e, ev_gen = e_gen e, ev_at_ns = now\<rparr>"
    "s' = s\<lparr>s_queue := q'\<lparr>q_evicted := q_evicted q' @ [g]\<rparr>, s_tt := tt'\<rparr>" "an = an'"
    using res d by (auto simp: fc_ring_evict_def t e' Let_def)
  have ev: "q_evicted q' = q_evicted (s_queue s)" using T(4) by (simp add: ring_aside_def)
  obtain pre post where "waiters s = pre @ e # post" "ring_live q' = pre @ post" using T(2) e' by blast
  from pool_core_take [OF core T(3) this ev] have "pool_core h (e # hand) (s\<lparr>s_queue := q'\<rparr>)" .
  note P = pool_core_dec [OF this, of tt' an', simplified, OF d]
  have rl: "ring_live (q'\<lparr>q_evicted := x\<rparr>) = ring_live q'" "ring_inv (q'\<lparr>q_evicted := x\<rparr>) = ring_inv q'" for x
    by (simp_all add: ring_inv_def ring_live_def ring_seq_def ring_ok_def)
  show "pool_core h hand s'" using P(1) few by (simp add: pool_core_def r(2) rl ev)
  show "an = []" using r(3) P(2) by simp
  show "fc_tenant_dec (s_tt s) (e_tslot e) True = (s_tt s', [])" using d P(2) r(2) by simp
  show "g = \<lparr>ev_fd = e_fd e, ev_gen = e_gen e, ev_at_ns = now\<rparr>" by (rule r)
  show "s' = s\<lparr>s_queue := s_queue s', s_tt := s_tt s'\<rparr>" "q_evicted (s_queue s') = q_evicted (s_queue s) @ [g]"
    "q_dead (s_queue s') = q_dead (s_queue s)" "q_cap (s_queue s') = q_cap (s_queue s)"
    using r(2) ev T(4,5) by (simp_all add: ring_aside_def)
  have "q'\<lparr>q_evicted := q_evicted (s_queue s)\<rparr> = q'" using ev by simp
  then show "fc_ring_take_at (s_queue s) i = (e, (s_queue s')\<lparr>q_evicted := q_evicted (s_queue s)\<rparr>)"
    using t e' r(2) by simp
qed

subsection \<open>Leaving\<close>

lemma fc_queue_pop_ok:
  assumes inv: "pool_inv h s" and res: "fc_queue_pop s = (r, s', an)"
  shows "pool_inv h s'" "an = []" "case r of None \<Rightarrow> waiters s = [] \<and> waiters s' = [] | Some e \<Rightarrow> waiters s = e # waiters s'"
    "q_evicted (s_queue s') = q_evicted (s_queue s)"
proof -
  obtain r0 q' where p: "fc_ring_pop (s_queue s) = (r0, q')" by fastforce
  note P = fc_ring_pop_live [OF pool_invD(3) [OF inv] p]
  have ev: "q_evicted q' = q_evicted (s_queue s)" using P by (simp add: ring_aside_def)
  have "pool_inv h s' \<and> an = [] \<and> (case r of None \<Rightarrow> waiters s = [] \<and> waiters s' = [] | Some e \<Rightarrow> waiters s = e # waiters s') \<and>
      q_evicted (s_queue s') = q_evicted (s_queue s)"
  proof (cases r0)
    case None
    then have "r = None" "s' = fc_queue_publish (s\<lparr>s_queue := q'\<rparr>)" "an = []"
      using res p by (simp_all add: fc_queue_pop_def)
    moreover have "pool_core h [] (s\<lparr>s_queue := q'\<rparr>)"
      using pool_invD(1) [OF inv] P None ev by (simp add: pool_core_def)
    ultimately show ?thesis using P None ev by (simp add: pool_inv_def)
  next
    case (Some e)
    obtain tt' an' where d: "fc_tenant_dec (s_tt s) (e_tslot e) True = (tt', an')" by fastforce
    have live: "waiters s = [] @ e # ring_live q'" using P Some by simp
    have "pool_core h [e] (s\<lparr>s_queue := q'\<rparr>)"
      using pool_core_take [OF pool_invD(1) [OF inv] _ live _ ev] P by simp
    note C = pool_core_dec [OF this, of tt' an', simplified, OF d]
    have "r = Some e" "s' = fc_queue_publish (s\<lparr>s_queue := q', s_tt := tt'\<rparr>)" "an = an'"
      using res p Some d by (simp_all add: fc_queue_pop_def)
    with C P Some ev show ?thesis by (simp add: pool_inv_def)
  qed
  then show "pool_inv h s'" "an = []" "case r of None \<Rightarrow> waiters s = [] \<and> waiters s' = [] | Some e \<Rightarrow> waiters s = e # waiters s'"
    "q_evicted (s_queue s') = q_evicted (s_queue s)" by blast+
qed

interpretation poolq: popping_queue "pool_inv h" waiters "\<lambda>s. (fst (fc_queue_pop s), fst (snd (fc_queue_pop s)))" for h
proof
  fix s s' e
  assume "pool_inv h s" "(fst (fc_queue_pop s), fst (snd (fc_queue_pop s))) = (Some e, s')"
  then show "pool_inv h s' \<and> waiters s = e # waiters s'"
    using fc_queue_pop_ok [of h s "Some e" s' "snd (snd (fc_queue_pop s))"] by (auto simp: prod_eq_iff)
next
  fix s s'
  assume "pool_inv h s" "(fst (fc_queue_pop s), fst (snd (fc_queue_pop s))) = (None, s')"
  then show "pool_inv h s' \<and> waiters s = [] \<and> waiters s' = []"
    using fc_queue_pop_ok [of h s None s' "snd (snd (fc_queue_pop s))"] by (auto simp: prod_eq_iff)
qed

lemma fc_queue_take_ok:
  assumes inv: "pool_inv h s" and res: "fc_queue_take s p = (won, s', p', an)"
  shows "pool_inv h s'" "an = []" "won \<longleftrightarrow> fc_queue_holds s p"
    "won \<Longrightarrow> p' = p\<lparr>p_state := FC_P_ENDED\<rparr> \<and>
      (\<exists>pre e post. waiters s = pre @ e # post \<and> ent_is (p_q_fd p) (p_q_gen p) e \<and> waiters s' = pre @ post)"
    "\<not> won \<Longrightarrow> s' = s \<and> p' = p"
proof -
  have rok: "ring_ok (s_queue s)" by (rule ring_invD(1) [OF pool_invD(3) [OF inv]])
  have "pool_inv h s' \<and> an = [] \<and> (won \<longleftrightarrow> fc_queue_holds s p) \<and>
    (won \<longrightarrow> p' = p\<lparr>p_state := FC_P_ENDED\<rparr> \<and>
      (\<exists>pre e post. waiters s = pre @ e # post \<and> ent_is (p_q_fd p) (p_q_gen p) e \<and> waiters s' = pre @ post)) \<and>
    (\<not> won \<longrightarrow> s' = s \<and> p' = p)"
  proof (cases "fc_queue_holds s p")
    case False
    then have "won = False" "s' = s" "p' = p" "an = []"
      using res by (auto simp: fc_queue_take_def fc_queue_holds_def split: if_splits)
    with inv False show ?thesis by simp
  next
    case True
    then obtain i where st: "p_state p = FC_P_QUEUED" and f: "fc_ring_find (s_queue s) (p_q_fd p) (p_q_gen p) (p_q_slot p) = Some i"
      by (auto simp: fc_queue_holds_def)
    obtain j where j: "j < q_used (s_queue s)" "i = (q_head (s_queue s) + j) mod q_cap (s_queue s)"
      "ent_is (p_q_fd p) (p_q_gen p) (q_ring (s_queue s) ! i)"
      using fc_ring_find_some [OF rok f] by blast
    have slot: "live_slot (s_queue s) i"
      using j by (auto simp: live_slot_def ent_is_def fc_ring_span_eq [OF rok])
    obtain e q' where t: "fc_ring_take_at (s_queue s) i = (e, q')" by fastforce
    note T = fc_ring_take_at_slot [OF pool_invD(3) [OF inv] slot t]
    obtain tt' an' where d: "fc_tenant_dec (s_tt s) (e_tslot e) True = (tt', an')" by fastforce
    obtain pre post where pp: "waiters s = pre @ e # post" "ring_live q' = pre @ post" using T(2) by blast
    have ev: "q_evicted q' = q_evicted (s_queue s)" using T(4) by (simp add: ring_aside_def)
    from pool_core_take [OF pool_invD(1) [OF inv] T(3) pp ev] have "pool_core h [e] (s\<lparr>s_queue := q'\<rparr>)" .
    note C = pool_core_dec [OF this, of tt' an', simplified, OF d]
    have "won" "s' = fc_queue_publish (s\<lparr>s_queue := q', s_tt := tt'\<rparr>)" "p' = p\<lparr>p_state := FC_P_ENDED\<rparr>" "an = an'"
      using res st f t d by (simp_all add: fc_queue_take_def fc_permit_settle_def)
    moreover have "ent_is (p_q_fd p) (p_q_gen p) e" using j(3) T(1) by simp
    ultimately show ?thesis using C pp True by (auto simp: pool_inv_def)
  qed
  then show "pool_inv h s'" "an = []" "won \<longleftrightarrow> fc_queue_holds s p"
    "won \<Longrightarrow> p' = p\<lparr>p_state := FC_P_ENDED\<rparr> \<and>
      (\<exists>pre e post. waiters s = pre @ e # post \<and> ent_is (p_q_fd p) (p_q_gen p) e \<and> waiters s' = pre @ post)"
    "\<not> won \<Longrightarrow> s' = s \<and> p' = p" by blast+
qed

subsection \<open>Push\<close>

text \<open>
  The waiter an arrival evicts: the youngest sheddable one, whose answer is owed from then on; \<open>base\<close>
  are the waiters left.
\<close>

definition push_evicts :: "fc_state \<Rightarrow> u64 \<Rightarrow> (fc_evicted_t \<times> u64) option \<Rightarrow> fc_queue_ent list \<Rightarrow> fc_evicted_t list \<Rightarrow> bool" where
  "push_evicts s at_ns gone base evs \<longleftrightarrow>
     (case gone of
        None \<Rightarrow> base = waiters s \<and> evs = q_evicted (s_queue s)
      | Some (g, enq) \<Rightarrow>
          (\<exists>pre x post. waiters s = pre @ x # post \<and> base = pre @ post \<and> e_band x = FC_BAND_SHEDDABLE \<and>
             (\<forall>y \<in> set post. e_band y \<noteq> FC_BAND_SHEDDABLE) \<and> enq = e_enqueue_ns x \<and>
             g = \<lparr>ev_fd = e_fd x, ev_gen = e_gen x, ev_at_ns = at_ns\<rparr>) \<and>
          evs = q_evicted (s_queue s) @ [g] \<and> unat (c_max_queue_depth (s_cfg s)) \<le> length (waiters s))"

text \<open>
  The arrival that evicts its own tenant's only hold: the slot it was given is freed by the
  eviction before it counts itself there.
\<close>

definition evict_frees :: "(nat \<Rightarrow> bool) \<Rightarrow> fc_state \<Rightarrow> fc_queue_ent \<Rightarrow> u64 \<Rightarrow> bool \<Rightarrow> u64 \<Rightarrow> bool" where
  "evict_frees ok s e tkey front at_ns \<longleftrightarrow>
     (case fc_push_evict s (e_band e) front (e_deadline_ns e) at_ns of None \<Rightarrow> False
      | Some i \<Rightarrow> fc_tenants_tracked s \<and>
          (let (tslot, tt, _) = fc_tenant_get ok (q_dead (s_queue s)) (s_tt s) tkey False
           in tslot \<ge> 0 \<and> e_tslot (q_ring (s_queue s) ! i) = tslot \<and>
              t_queued (tts tt ! nat tslot) = 1 \<and> t_inflight (tts tt ! nat tslot) = 0))"

lemma fc_tenant_get_quiet: "fc_tenant_get ok dead tt key False = (sl, tt', an) \<Longrightarrow> an = []"
  by (auto simp: fc_tenant_get_def Let_def split: prod.splits if_splits)

text \<open>The tenant slot of an arrival.\<close>

definition push_slot :: "(nat \<Rightarrow> bool) \<Rightarrow> fc_state \<Rightarrow> u64 \<Rightarrow> int \<times> fc_ttab" where
  "push_slot ok s tkey =
     (if fc_tenants_tracked s
      then let (sl, tt, _) = fc_tenant_get ok (q_dead (s_queue s)) (s_tt s) tkey False in (sl, tt)
      else (-1, s_tt s))"

lemma push_slot_ok:
  assumes "tt_inv (s_tt s)" "push_slot ok s tkey = (sl, tt)"
  shows "tt_inv tt" "tq tt = tq (s_tt s)" "ti tt = ti (s_tt s)" "0 \<le> sl \<Longrightarrow> tt_has tt sl \<and> t_used (tts tt ! nat sl)"
  using assms fc_tenant_get_inv [OF assms(1), of ok "q_dead (s_queue s)" tkey False]
  by (auto simp: push_slot_def Let_def split: if_splits prod.splits)

lemma evict_frees_iff:
  assumes "push_slot ok s tkey = (sl, tt)" "fc_push_evict s (e_band e) front (e_deadline_ns e) at_ns = Some i" "0 \<le> sl"
  shows "evict_frees ok s e tkey front at_ns \<longleftrightarrow>
    e_tslot (q_ring (s_queue s) ! i) = sl \<and> t_queued (tts tt ! nat sl) = 1 \<and> t_inflight (tts tt ! nat sl) = 0"
  using assms by (auto simp: evict_frees_def push_slot_def Let_def split: if_splits prod.splits)

text \<open>The locked part step by step: refused, over the tenant's share, or tried.\<close>

definition push_refused :: "fc_state \<Rightarrow> fc_queue_ent \<Rightarrow> bool \<Rightarrow> u64 \<Rightarrow> bool" where
  "push_refused s e front at_ns \<longleftrightarrow>
     fc_push_band_full s (e_band e) front \<or> q_dead (s_queue s) \<or> \<not> fc_queue_enabled s \<or>
     \<not> (front \<or> q_count (s_queue s) < unat (c_max_queue_depth (s_cfg s)) \<or>
        fc_push_evict s (e_band e) front (e_deadline_ns e) at_ns \<noteq> None)"

definition push_over_share :: "fc_state \<Rightarrow> int \<Rightarrow> fc_ttab \<Rightarrow> bool \<Rightarrow> bool" where
  "push_over_share s sl tt front \<longleftrightarrow>
     sl \<ge> 0 \<and> \<not> front \<and> fc_tenant_queue_bound s \<noteq> 0 \<and> t_queued (tts tt ! nat sl) \<ge> fc_tenant_queue_bound s"

definition push_settle :: "fc_state \<Rightarrow> int \<Rightarrow> nat option \<Rightarrow> (fc_evicted_t \<times> u64) option \<Rightarrow> fc_state" where
  "push_settle s sl slot gone =
     (case slot of
        Some i \<Rightarrow> fc_queue_publish (if sl \<ge> 0 then s\<lparr>s_tt := fc_tenant_inc (s_tt s) (nat sl) True\<rparr> else s)
      | None \<Rightarrow> let s = (if sl \<ge> 0 then s\<lparr>s_tt := fc_tenant_put (s_tt s) sl\<rparr> else s)
                in if gone \<noteq> None then fc_queue_publish s else s)"

definition push_make_room ::
  "fc_state \<Rightarrow> fc_ttab \<Rightarrow> fc_queue_ent \<Rightarrow> bool \<Rightarrow> u64 \<Rightarrow> (fc_evicted_t \<times> u64) option \<times> fc_state \<times> fc_anomaly list" where
  "push_make_room s tt e front at_ns =
     (case fc_push_evict s (e_band e) front (e_deadline_ns e) at_ns of
        None \<Rightarrow> (None, s\<lparr>s_tt := tt\<rparr>, [])
      | Some i \<Rightarrow> let (g, s2, an) = fc_ring_evict (s\<lparr>s_tt := tt\<rparr>) i at_ns
                 in (Some (g, e_enqueue_ns (q_ring (s_queue s) ! i)), s2, an))"

lemma fc_tenant_queue_bound_tt [simp]: "fc_tenant_queue_bound (s\<lparr>s_tt := tt\<rparr>) = fc_tenant_queue_bound s"
  by (simp add: fc_tenant_queue_bound_def fc_share_active_def)

lemma fc_push_locked_eq:
  assumes sl: "push_slot ok s tkey = (sl, tt)"
  shows "fc_push_locked ok s e tkey front ordered at_ns =
    (if push_refused s e front at_ns then (-1, 0, None, s, [])
     else if push_over_share s sl tt front then (-2, 0, None, s\<lparr>s_tt := fc_tenant_put tt sl\<rparr>, [])
     else let (gone, s2, an) = push_make_room s tt e front at_ns;
              (slot, q) = fc_ring_insert ok (s_queue s2) (e\<lparr>e_tslot := sl\<rparr>) front ordered
          in (if slot = None then -1 else 0, case slot of None \<Rightarrow> 0 | Some i \<Rightarrow> i, gone,
              push_settle (s2\<lparr>s_queue := q\<rparr>) sl slot gone, an))"
proof -
  have get: "(if fc_tenants_tracked s then fc_tenant_get ok (q_dead (s_queue s)) (s_tt s) tkey False else (-1, s_tt s, [])) = (sl, tt, [])"
    using sl fc_tenant_get_quiet [of ok "q_dead (s_queue s)" "s_tt s" tkey]
    by (auto simp: push_slot_def Let_def split: if_splits prod.splits)
  show ?thesis
    unfolding fc_push_locked_def get Let_def push_refused_def [symmetric] prod.case push_over_share_def push_settle_def
      push_make_room_def
    by (simp add: Let_def split: option.splits prod.splits)
qed

lemma fc_push_evict_Some:
  assumes inv: "ring_inv (s_queue s)" and ev: "fc_push_evict s band front deadline at_ns = Some i"
  shows "live_slot (s_queue s) i" "length (q_evicted (s_queue s)) < FC_EVICT_PENDING"
    "unat (c_max_queue_depth (s_cfg s)) \<le> length (waiters s)" "\<not> front" "fc_ring_evict_pick s band = Some i"
proof -
  have p: "fc_ring_evict_pick s band = Some i" and c: "unat (c_max_queue_depth (s_cfg s)) \<le> q_count (s_queue s)" "\<not> front"
    using ev by (auto simp: fc_push_evict_def split: if_splits)
  from fc_ring_evict_pick_Some [OF inv p] c ring_invD(2) [OF inv] p show
    "live_slot (s_queue s) i" "length (q_evicted (s_queue s)) < FC_EVICT_PENDING"
    "unat (c_max_queue_depth (s_cfg s)) \<le> length (waiters s)" "\<not> front" "fc_ring_evict_pick s band = Some i"
    by simp_all
qed

lemma holds_more:
  fixes q i :: u32
  assumes "0 < unat q" "\<not> (q = 1 \<and> i = 0)"
  shows "1 < unat q + unat i"
proof (cases "i = 0")
  case True
  with assms have "unat q \<noteq> unat (1 :: u32)" by (metis word_unat_eq_iff)
  with assms(1) show ?thesis by simp
next
  case False
  then have "0 < unat i" by (simp add: unat_gt_0)
  with assms(1) show ?thesis by simp
qed

lemma push_make_room_ok:
  assumes core: "pool_core h [] s" and sl: "push_slot ok s tkey = (sl, tt)"
    and res: "push_make_room s tt e front at_ns = (gone, s2, an)"
  shows "pool_core h [] s2" "an = []" "push_evicts s at_ns gone (waiters s2) (q_evicted (s_queue s2))"
    "\<not> evict_frees ok s e tkey front at_ns \<Longrightarrow> 0 \<le> sl \<Longrightarrow> tt_has (s_tt s2) sl \<and> t_used (tts (s_tt s2) ! nat sl)"
    "s2 = s\<lparr>s_queue := s_queue s2, s_tt := s_tt s2\<rparr>" "gone = None \<Longrightarrow> s_queue s2 = s_queue s"
    "q_cap (s_queue s2) = q_cap (s_queue s)"
proof -
  note S = push_slot_ok [OF pool_coreD(2) [OF core] sl]
  let ?s1 = "s\<lparr>s_tt := tt\<rparr>"
  have core1: "pool_core h [] ?s1" using pool_core_tt [OF core S(1-3)] .
  have "pool_core h [] s2 \<and> an = [] \<and> push_evicts s at_ns gone (waiters s2) (q_evicted (s_queue s2)) \<and>
    (\<not> evict_frees ok s e tkey front at_ns \<longrightarrow> 0 \<le> sl \<longrightarrow> tt_has (s_tt s2) sl \<and> t_used (tts (s_tt s2) ! nat sl)) \<and>
    s2 = s\<lparr>s_queue := s_queue s2, s_tt := s_tt s2\<rparr> \<and> (gone = None \<longrightarrow> s_queue s2 = s_queue s) \<and>
    q_cap (s_queue s2) = q_cap (s_queue s)"
  proof (cases "fc_push_evict s (e_band e) front (e_deadline_ns e) at_ns")
    case None
    with res have "gone = None" "s2 = ?s1" "an = []" by (simp_all add: push_make_room_def)
    with core1 S(4) show ?thesis by (simp add: push_evicts_def)
  next
    case (Some i)
    note E = fc_push_evict_Some [OF pool_coreD(1) [OF core] Some]
    obtain g where g: "fc_ring_evict ?s1 i at_ns = (g, s2, an)" "gone = Some (g, e_enqueue_ns (q_ring (s_queue s) ! i))"
      using res Some by (auto simp: push_make_room_def split: prod.splits)
    note R = fc_ring_evict_ok [OF core1 _ _ g(1), simplified, OF E(1,2)]
    let ?x = "q_ring (s_queue s) ! i"
    obtain us vs where uv: "fc_ring_span (s_queue s) = us @ i # vs"
      "\<forall>v \<in> set vs. e_live (q_ring (s_queue s) ! v) \<longrightarrow> e_band (q_ring (s_queue s) ! v) \<noteq> FC_BAND_SHEDDABLE"
      using fc_ring_evict_pick_Some(6) [OF pool_coreD(1) [OF core] E(5)] by blast
    have shed: "e_band ?x = FC_BAND_SHEDDABLE" by (rule fc_ring_evict_pick_Some(5) [OF pool_coreD(1) [OF core] E(5)])
    have live: "e_live ?x" using E(1) by (simp add: live_slot_def)
    define ws where "ws = (\<lambda>xs. filter e_live (map (\<lambda>i. q_ring (s_queue s) ! i) xs))"
    have rl: "ring_live (q\<lparr>q_evicted := x\<rparr>) = ring_live q" for q :: fc_queue and x
      by (simp add: ring_live_def ring_seq_def)
    have L: "waiters s = ws us @ ?x # ws vs" "waiters s2 = ws us @ ws vs"
      using fc_ring_take_at_split [OF pool_coreD(1) [OF core] uv(1) live R(9)] by (simp_all add: ws_def rl)
    have vs: "\<forall>y \<in> set (ws vs). e_band y \<noteq> FC_BAND_SHEDDABLE" using uv(2) by (auto simp: ws_def)
    have "waiters s = ws us @ ?x # ws vs \<and> waiters s2 = ws us @ ws vs \<and> e_band ?x = FC_BAND_SHEDDABLE \<and>
      (\<forall>y \<in> set (ws vs). e_band y \<noteq> FC_BAND_SHEDDABLE) \<and> e_enqueue_ns ?x = e_enqueue_ns ?x \<and>
      g = \<lparr>ev_fd = e_fd ?x, ev_gen = e_gen ?x, ev_at_ns = at_ns\<rparr>"
      using L shed vs R(4) by simp
    then have pe: "push_evicts s at_ns gone (waiters s2) (q_evicted (s_queue s2))"
      unfolding push_evicts_def g(2) option.case prod.case using R(5) E(3) by blast
    have used: "tt_has (s_tt s2) sl \<and> t_used (tts (s_tt s2) ! nat sl)" if safe: "\<not> evict_frees ok s e tkey front at_ns" and "0 \<le> sl"
    proof -
      have "1 < tq tt sl + ti tt sl" if eq: "sl = e_tslot ?x"
      proof -
        have "tq tt sl = slot_len sl (waiters s)"
          using pool_coreD(3) [OF core \<open>0 \<le> sl\<close>] S(2) by simp
        then have "0 < tq tt sl" using L(1) eq by simp
        moreover have "\<not> (t_queued (tts tt ! nat sl) = 1 \<and> t_inflight (tts tt ! nat sl) = 0)"
          using safe evict_frees_iff [OF sl Some \<open>0 \<le> sl\<close>] eq by simp
        ultimately show ?thesis
          using S(4) [OF \<open>0 \<le> sl\<close>] holds_more by (simp add: tq_def ti_def)
      qed
      then show ?thesis using fc_tenant_dec_used [OF S(1) R(6), of sl] S(4) [OF \<open>0 \<le> sl\<close>] by blast
    qed
    show ?thesis using R(1-3,7,8) pe used g(2) by simp
  qed
  then show "pool_core h [] s2" "an = []" "push_evicts s at_ns gone (waiters s2) (q_evicted (s_queue s2))"
    "\<not> evict_frees ok s e tkey front at_ns \<Longrightarrow> 0 \<le> sl \<Longrightarrow> tt_has (s_tt s2) sl \<and> t_used (tts (s_tt s2) ! nat sl)"
    "s2 = s\<lparr>s_queue := s_queue s2, s_tt := s_tt s2\<rparr>" "gone = None \<Longrightarrow> s_queue s2 = s_queue s"
    "q_cap (s_queue s2) = q_cap (s_queue s)" by blast+
qed

lemma fc_ring_insert_cases:
  assumes inv: "ring_inv q" and res: "fc_ring_insert ok q e front ordered = (slot, q')"
  shows "ring_inv q'" "ring_aside q q'"
    "ring_live q' = (case slot of None \<Rightarrow> ring_live q | Some _ \<Rightarrow> queue_insert front ordered (e\<lparr>e_live := True\<rparr>) (ring_live q))"
proof -
  have "ring_inv q' \<and> ring_aside q q' \<and>
    ring_live q' = (case slot of None \<Rightarrow> ring_live q | Some _ \<Rightarrow> queue_insert front ordered (e\<lparr>e_live := True\<rparr>) (ring_live q))"
  proof (cases slot)
    case None
    with fc_ring_insert_full [OF inv] res show ?thesis by simp
  next
    case (Some i)
    with res have "q_cap q \<noteq> 0" "q_used (fc_ring_make_room ok q front) < q_cap (fc_ring_make_room ok q front)"
      by (auto simp: fc_ring_insert_def Let_def not_le split: if_splits prod.splits)
    from fc_ring_insert_room [OF inv this(2,1), of e ordered] obtain i' q'' where
      "fc_ring_insert ok q e front ordered = (Some i', q'')" "ring_inv q''"
      "ring_live q'' = queue_insert front ordered (e\<lparr>e_live := True\<rparr>) (ring_live q)" "ring_aside q q''" by blast
    with res Some show ?thesis by simp
  qed
  then show "ring_inv q'" "ring_aside q q'"
    "ring_live q' = (case slot of None \<Rightarrow> ring_live q | Some _ \<Rightarrow> queue_insert front ordered (e\<lparr>e_live := True\<rparr>) (ring_live q))"
    by blast+
qed

lemma pool_mirrors_same:
  assumes "pool_mirrors s" "pool_core h hand s" "pool_core h' hand' s'" "waiters s' = waiters s"
    "s_queued s' = s_queued s" "s_band_queued s' = s_band_queued s"
  shows "pool_mirrors s'"
  using assms ring_invD(2,3) [OF pool_coreD(1) [OF assms(2)]] ring_invD(2,3) [OF pool_coreD(1) [OF assms(3)]]
  by (simp add: pool_mirrors_def)

text \<open>What the last step leaves in the ring, whatever became of the tenant's slot.\<close>

lemma push_settle_list:
  assumes inv: "ring_inv (s_queue s)" and ins: "fc_ring_insert ok (s_queue s) e front ordered = (slot, q)"
    and s': "s' = push_settle (s\<lparr>s_queue := q\<rparr>) sl slot gone"
  shows "q_evicted (s_queue s') = q_evicted (s_queue s)"
    "waiters s' = (case slot of None \<Rightarrow> waiters s | Some _ \<Rightarrow> queue_insert front ordered (e\<lparr>e_live := True\<rparr>) (waiters s))"
proof -
  note I = fc_ring_insert_cases [OF inv ins]
  have "s_queue s' = q" by (simp add: s' push_settle_def Let_def split: option.splits)
  then show "q_evicted (s_queue s') = q_evicted (s_queue s)"
    "waiters s' = (case slot of None \<Rightarrow> waiters s | Some _ \<Rightarrow> queue_insert front ordered (e\<lparr>e_live := True\<rparr>) (waiters s))"
    using I(2,3) by (simp_all add: ring_aside_def)
qed

lemma push_settle_ok:
  assumes core: "pool_core h [] s" and has: "0 \<le> sl \<Longrightarrow> tt_has (s_tt s) sl \<and> t_used (tts (s_tt s) ! nat sl)"
    and ins: "fc_ring_insert ok (s_queue s) e front ordered = (slot, q)" and e: "e_tslot e = sl"
    and mir: "gone = None \<Longrightarrow> pool_mirrors s"
  defines "s' \<equiv> push_settle (s\<lparr>s_queue := q\<rparr>) sl slot gone"
  shows "pool_inv h s'"
proof -
  note I = fc_ring_insert_cases [OF pool_coreD(1) [OF core] ins]
  have ev: "q_evicted q = q_evicted (s_queue s)" using I(2) by (simp add: ring_aside_def)
  show "pool_inv h s'"
  proof (cases slot)
    case (Some i)
    have "pool_core h [e] (if 0 \<le> sl then s\<lparr>s_tt := fc_tenant_inc (s_tt s) (nat sl) True\<rparr> else s)"
      using pool_core_inc [OF core, of sl e] has core e by (auto simp: pool_core_def)
    from pool_core_insert [OF this I(1), of front ordered] I(3) Some ev
    have "pool_core h [] (if 0 \<le> sl then s\<lparr>s_queue := q, s_tt := fc_tenant_inc (s_tt s) (nat sl) True\<rparr> else s\<lparr>s_queue := q\<rparr>)"
      by (cases "0 \<le> sl") (simp_all add: pool_core_def)
    then show ?thesis using Some by (cases "0 \<le> sl") (simp_all add: pool_inv_def s'_def push_settle_def)
  next
    case None
    define tt' where "tt' = (if 0 \<le> sl then fc_tenant_put (s_tt s) sl else s_tt s)"
    have "tt_inv tt'" "tq tt' = tq (s_tt s)" "ti tt' = ti (s_tt s)"
      using fc_tenant_put_inv(1-3) [OF pool_coreD(2) [OF core], of sl] pool_coreD(2) [OF core] by (simp_all add: tt'_def)
    moreover have core1: "pool_core h [] (s\<lparr>s_queue := q\<rparr>)" using core I None ev by (simp add: pool_core_def)
    ultimately have core2: "pool_core h [] (s\<lparr>s_queue := q, s_tt := tt'\<rparr>)"
      using pool_core_tt [of h "[]" "s\<lparr>s_queue := q\<rparr>" tt'] by simp
    have s': "s' = (if gone \<noteq> None then fc_queue_publish (s\<lparr>s_queue := q, s_tt := tt'\<rparr>) else s\<lparr>s_queue := q, s_tt := tt'\<rparr>)"
      using None by (simp add: s'_def push_settle_def Let_def tt'_def)
    have "pool_mirrors (s\<lparr>s_queue := q, s_tt := tt'\<rparr>)" if "gone = None"
      by (rule pool_mirrors_same [OF mir [OF that] core core2]) (use I(3) None in simp_all)
    then show ?thesis using core2 s' by (cases gone) (simp_all add: pool_inv_def)
  qed
qed

lemma fc_push_locked_ok:
  assumes inv: "pool_inv h s" and res: "fc_push_locked ok s e tkey front ordered at_ns = (rc, slot, gone, s', an)"
  shows "\<not> evict_frees ok s e tkey front at_ns \<Longrightarrow> pool_inv h s'" "an = []"
    "\<exists>base sl. push_evicts s at_ns gone base (q_evicted (s_queue s')) \<and>
       waiters s' = (if rc = 0 then queue_insert front ordered (e\<lparr>e_tslot := sl, e_live := True\<rparr>) base else base)"
    "rc = 0 \<or> rc = -1 \<or> rc = -2" "rc = 0 \<Longrightarrow> \<not> push_refused s e front at_ns"
proof -
  obtain sl tt where sl: "push_slot ok s tkey = (sl, tt)" by fastforce
  note core = pool_invD(1) [OF inv]
  note S = push_slot_ok [OF pool_coreD(2) [OF core] sl]
  have "(\<not> evict_frees ok s e tkey front at_ns \<longrightarrow> pool_inv h s') \<and> an = [] \<and> (\<exists>base sl. push_evicts s at_ns gone base (q_evicted (s_queue s')) \<and>
       waiters s' = (if rc = 0 then queue_insert front ordered (e\<lparr>e_tslot := sl, e_live := True\<rparr>) base else base)) \<and>
       (rc = 0 \<or> rc = -1 \<or> rc = -2) \<and> (rc = 0 \<longrightarrow> \<not> push_refused s e front at_ns)"
  proof -
    consider (refused) "push_refused s e front at_ns"
      | (share) "\<not> push_refused s e front at_ns" "push_over_share s sl tt front"
      | (tried) "\<not> push_refused s e front at_ns" "\<not> push_over_share s sl tt front" by blast
    then show ?thesis
    proof cases
      case refused
      with res fc_push_locked_eq [OF sl, of e front ordered at_ns] inv show ?thesis
        by (simp add: push_evicts_def)
    next
      case share
      with res fc_push_locked_eq [OF sl, of e front ordered at_ns]
      have r: "rc = -2" "gone = None" "s' = s\<lparr>s_tt := fc_tenant_put tt sl\<rparr>" "an = []" by simp_all
      have "pool_core h [] s'"
        unfolding r(3) by (rule pool_core_tt [OF core]) (use fc_tenant_put_inv(1-3) [OF S(1), of sl] S(2,3) in simp_all)
      moreover from this have "pool_mirrors s'"
        by (rule pool_mirrors_same [OF pool_invD(2) [OF inv] core]) (simp_all add: r(3))
      ultimately show ?thesis using r by (simp add: pool_inv_def push_evicts_def)
    next
      case tried
      obtain gone' s2 an' where m: "push_make_room s tt e front at_ns = (gone', s2, an')" by (metis surj_pair)
      note M = push_make_room_ok [OF core sl m]
      obtain slot' q where i: "fc_ring_insert ok (s_queue s2) (e\<lparr>e_tslot := sl\<rparr>) front ordered = (slot', q)" by fastforce
      have r: "rc = (if slot' = None then -1 else 0)" "gone = gone'" "s' = push_settle (s2\<lparr>s_queue := q\<rparr>) sl slot' gone" "an = an'"
        using res fc_push_locked_eq [OF sl, of e front ordered at_ns] tried m i by (auto split: if_splits)
      have mir: "pool_mirrors s2" if "gone' = None"
      proof -
        have "s_queued s2 = s_queued s" "s_band_queued s2 = s_band_queued s"
          using arg_cong [OF M(5), of s_queued] arg_cong [OF M(5), of s_band_queued] by simp_all
        with M(6) [OF that] show ?thesis
          by (intro pool_mirrors_same [OF pool_invD(2) [OF inv] core M(1)]) simp_all
      qed
      note P = push_settle_list [OF pool_coreD(1) [OF M(1)] i r(3)]
      have inv': "pool_inv h s'" if "\<not> evict_frees ok s e tkey front at_ns"
        using push_settle_ok [OF M(1) M(4) [OF that] i, of gone', simplified, OF mir] r by simp
      have ev: "q_evicted (s_queue s') = q_evicted (s_queue s2)" using P(1) r by simp
      have wa: "waiters s' = (if rc = 0 then queue_insert front ordered (e\<lparr>e_tslot := sl, e_live := True\<rparr>) (waiters s2) else waiters s2)"
        using P(2) r by (cases slot') simp_all
      have "push_evicts s at_ns gone (waiters s2) (q_evicted (s_queue s'))" using M(3) ev r by simp
      with inv' r M(2) wa tried show ?thesis by auto
    qed
  qed
  then show "\<not> evict_frees ok s e tkey front at_ns \<Longrightarrow> pool_inv h s'" "an = []" "\<exists>base sl. push_evicts s at_ns gone base (q_evicted (s_queue s')) \<and>
       waiters s' = (if rc = 0 then queue_insert front ordered (e\<lparr>e_tslot := sl, e_live := True\<rparr>) base else base)"
    "rc = 0 \<or> rc = -1 \<or> rc = -2" "rc = 0 \<Longrightarrow> \<not> push_refused s e front at_ns" by blast+
qed

subsection \<open>An arrival that frees its own slot\<close>

text \<open>
  The eviction of the tenant's only hold frees the slot the arrival was given, and the arrival then
  counts itself there: it waits under a slot that is not in use and heads the free list.
\<close>

lemma fc_tidx_drop_free [simp]: "tt_free (fc_tidx_drop tt key) = tt_free tt"
  by (simp add: fc_tidx_drop_def fc_tidx_relay_def Let_def split: prod.splits)

lemma fc_tenant_put_free:
  assumes "tt_ok tt" "i < tt_slots tt" "t_used (tts tt ! i)" "t_inflight (tts tt ! i) = 0" "t_queued (tts tt ! i) = 0"
  shows "tt_free (fc_tenant_put tt (int i)) = i"
  using assms tt_okD(3) [OF assms(1)] by (auto simp: fc_tenant_put_def Let_def fc_tidx_relay_def)

lemma fc_tenant_dec_frees:
  assumes inv: "tt_inv tt" and has: "tt_has tt sl" "t_used (tts tt ! nat sl)"
    and one: "t_queued (tts tt ! nat sl) = 1" "t_inflight (tts tt ! nat sl) = 0" and dec: "fc_tenant_dec tt sl True = (tt', an)"
  shows "\<not> t_used (tts tt' ! nat sl)" "t_queued (tts tt' ! nat sl) = 0" "\<not> t_waiting_runnable (tts tt' ! nat sl)"
    "nat sl < tt_slots tt \<Longrightarrow> tt_free tt' = nat sl"
proof -
  let ?i = "nat sl" and ?t = "(tts tt ! nat sl)\<lparr>t_queued := 0\<rparr>"
  note D = fc_tenant_dec_ok [OF inv dec]
  have ok: "tt_ok tt" "tt_marks_ok tt" "?i \<le> tt_slots tt" "0 \<le> sl" "tt_tenants tt \<noteq> None" using inv has(1) by (simp_all add: tt_inv_def tt_has_def)
  define tt1 where "tt1 = fc_tenant_mark (tt_set tt ?i ?t) ?i"
  have d: "tt' = fc_tenant_put tt1 sl"
    using dec ok has(2) one by (auto simp: fc_tenant_dec_def Let_def tt1_def)
  note R = tt_recount_slot [OF ok(1-3) has(2) _ _ _ _ tt1_def]
  have u1: "t_used (tts tt1 ! ?i)" "t_queued (tts tt1 ! ?i) = 0" "t_inflight (tts tt1 ! ?i) = 0"
    using R(6-8) [of ?i] has(2) one(2) by simp_all
  have ok1: "tt_ok tt1" "tt_marks_ok tt1" "tt_slots tt1 = tt_slots tt" using R(1-3) has(2) by simp_all
  show u': "\<not> t_used (tts tt' ! ?i)" using fc_tenant_put_ok(4) [OF ok1(1,2), of sl ?i] u1 ok ok1 d by simp
  have has': "tt_has tt' sl" using has(1) D(4,6) by (simp add: tt_has_def)
  then have "tt_ok tt'" "tt_marks_ok tt'" "?i \<le> tt_slots tt'" using D(1) by (simp_all add: tt_inv_def tt_has_def)
  from tt_okD(8) [OF this(1,3) u'] this(2,3) u' show "t_queued (tts tt' ! ?i) = 0" "\<not> t_waiting_runnable (tts tt' ! ?i)"
    by (simp_all add: tt_marks_ok_def tenant_runnable_def)
  show "tt_free tt' = ?i" if "?i < tt_slots tt" using fc_tenant_put_free [OF ok1(1), of ?i] that u1 ok1(3) ok(4) d by simp
qed

text \<open>A request counted on a slot that is not in use: the next new tenant is given the slot, its count starting over.\<close>

lemma fc_tenant_inc_unused:
  assumes "\<not> t_used (tts tt ! i)" "\<not> t_waiting_runnable (tts tt ! i)" "i < length (tts tt)"
  shows "fc_tenant_inc tt i True = tt_set tt i ((tts tt ! i)\<lparr>t_queued := t_queued (tts tt ! i) + 1\<rparr>)"
  using assms by (simp add: fc_tenant_inc_def fc_tenant_mark_def tenant_runnable_def Let_def)

lemma fc_tenant_get_reuses:
  assumes ok: "tt_ok tt" and i: "i < tt_slots tt" "tt_free tt = i" "\<not> t_used (tts tt ! i)"
    and tt1: "tt1 = tt_set tt i ((tts tt ! i)\<lparr>t_queued := n\<rparr>)" and key: "tt_slot_of tt1 key = None"
    and get: "fc_tenant_get calloc_ok dead tt1 key cnt = (sl, tt2, an)"
  shows "sl = int i" "t_key (tts tt2 ! i) = key" "t_queued (tts tt2 ! i) = 0"
proof -
  note D = tt_okD [OF ok]
  have T: "tt_tenants tt1 \<noteq> None" "tt_slots tt1 = tt_slots tt" "tt_index tt1 = tt_index tt" "tt_free tt1 = i" "length (tts tt1) = tt_slots tt + 1"
    using D(3,4) i(2) by (simp_all add: tt1)
  have keys: "tt_keys tt1 = tt_keys tt" by (simp add: tt_keys_def fun_eq_iff tt1 nth_update_same)
  have "tt_named tt1 = tt_named tt" using i D(4) by (auto simp: tt_named_def tt1 nth_list_update)
  then have "\<forall>i \<in> tt_named tt. tt_keys tt i \<noteq> key" using key tt_slot_of_None [OF T(1)] keys by simp
  then obtain b where "fc_tidx_find tt key = (fc_tidx_buckets tt, b)" using fc_tidx_find_absent [OF D(5)] by blast
  then have "fc_tidx_find tt1 key = (fc_tidx_buckets tt1, b)" using keys T by (simp add: fc_tidx_find_def fc_tidx_buckets_def)
  then show "sl = int i" "t_key (tts tt2 ! i) = key" "t_queued (tts tt2 ! i) = 0"
    using get T i(1) by (auto simp: fc_tenant_get_def fc_tenant_table_ensure_def Let_def nth_list_update)
qed

lemma fc_push_locked_frees:
  assumes inv: "pool_inv h s" and frees: "evict_frees ok s e tkey front at_ns"
    and res: "fc_push_locked ok s e tkey front ordered at_ns = (0, slot, gone, s', an)"
  obtains sl where "0 \<le> sl" "e\<lparr>e_tslot := sl, e_live := True\<rparr> \<in> set (waiters s')" "\<not> t_used (tts (s_tt s') ! nat sl)" "\<not> tt_inv (s_tt s')"
    "\<And>key calloc_ok dead cnt sl' tt' an'. nat sl < tt_slots (s_tt s') \<Longrightarrow> tt_slot_of (s_tt s') key = None \<Longrightarrow>
       fc_tenant_get calloc_ok dead (s_tt s') key cnt = (sl', tt', an') \<Longrightarrow> sl' = sl \<and> t_key (tts tt' ! nat sl) = key \<and> t_queued (tts tt' ! nat sl) = 0"
proof -
  obtain sl tt where sl: "push_slot ok s tkey = (sl, tt)" by fastforce
  note core = pool_invD(1) [OF inv]
  note S = push_slot_ok [OF pool_coreD(2) [OF core] sl]
  obtain i where i: "fc_push_evict s (e_band e) front (e_deadline_ns e) at_ns = Some i" and "0 \<le> sl"
    using frees sl by (auto simp: evict_frees_def push_slot_def Let_def split: option.splits prod.splits if_splits)
  note E = frees [unfolded evict_frees_iff [OF sl i \<open>0 \<le> sl\<close>]]
  obtain gone' s2 an2 where m: "push_make_room s tt e front at_ns = (gone', s2, an2)" by (metis surj_pair)
  note M = push_make_room_ok [OF core sl m]
  obtain slot' q where ins: "fc_ring_insert ok (s_queue s2) (e\<lparr>e_tslot := sl\<rparr>) front ordered = (slot', q)" by fastforce
  obtain k where k: "slot' = Some k" and s': "s' = push_settle (s2\<lparr>s_queue := q\<rparr>) sl slot' gone'"
    using res fc_push_locked_eq [OF sl, of e front ordered at_ns] m ins by (cases slot') (auto split: if_splits)
  obtain g where g: "fc_ring_evict (s\<lparr>s_tt := tt\<rparr>) i at_ns = (g, s2, an2)" using m i by (auto simp: push_make_room_def split: prod.splits)
  note L = fc_push_evict_Some [OF pool_coreD(1) [OF core] i]
  have "fc_tenant_dec tt sl True = (s_tt s2, [])"
    using fc_ring_evict_ok(6) [OF pool_core_tt [OF core S(1-3)] _ _ g] L(1,2) E by simp
  note F = fc_tenant_dec_frees [OF S(1) _ _ _ _ this] and D = fc_tenant_dec_ok [OF S(1) this]
  have has: "tt_has tt sl" "t_used (tts tt ! nat sl)" using S(4) \<open>0 \<le> sl\<close> by simp_all
  have ok: "tt_ok (s_tt s2)" "nat sl \<le> tt_slots (s_tt s2)" using D(1,4,6) has(1) by (simp_all add: tt_inv_def tt_has_def)
  let ?t = "tts (s_tt s2) ! nat sl"
  have F': "\<not> t_used ?t" "t_queued ?t = 0" "\<not> t_waiting_runnable ?t" "nat sl < tt_slots (s_tt s2) \<Longrightarrow> tt_free (s_tt s2) = nat sl"
    using F has E D(4) by simp_all
  have tt': "s_tt s' = tt_set (s_tt s2) (nat sl) (?t\<lparr>t_queued := 1\<rparr>)"
    using fc_tenant_inc_unused [OF F'(1,3)] ok tt_okD(4) F'(2) k \<open>0 \<le> sl\<close> by (simp add: s' push_settle_def)
  have len: "nat sl < length (tts (s_tt s2))" using ok tt_okD(4) by simp
  show thesis
  proof (rule that [OF \<open>0 \<le> sl\<close>])
    show "e\<lparr>e_tslot := sl, e_live := True\<rparr> \<in> set (waiters s')"
      using push_settle_list(2) [OF pool_coreD(1) [OF M(1)] ins s'] k by (simp add: set_queue_insert)
    show u: "\<not> t_used (tts (s_tt s') ! nat sl)" using F'(1) len by (simp add: tt')
    show "\<not> tt_inv (s_tt s')"
    proof
      assume "tt_inv (s_tt s')"
      then have "tt_ok (s_tt s')" using ok tt_okD(3) by (simp add: tt_inv_def tt')
      from tt_okD(8) [OF this _ u] ok len show False by (simp add: tt')
    qed
    show "sl' = sl \<and> t_key (tts tt' ! nat sl) = key \<and> t_queued (tts tt' ! nat sl) = 0"
      if "nat sl < tt_slots (s_tt s')" "tt_slot_of (s_tt s') key = None" "fc_tenant_get calloc_ok dead (s_tt s') key cnt = (sl', tt', an')"
      for key calloc_ok dead cnt sl' tt' an'
      using fc_tenant_get_reuses [OF ok(1) _ F'(4,1) tt' that(2,3)] that(1) \<open>0 \<le> sl\<close> by (simp add: tt')
  qed
qed

section \<open>Who is ahead of an arrival\<close>

text \<open>
  The waiters an arrival of a band stands behind: those of its own band while the band is below the
  floor it claims, otherwise every waiter, or under a strict wake those of its own band or a higher
  one. The counters the code reads answer exactly whether there is one.
\<close>

definition waits_ahead :: "fc_state \<Rightarrow> fc_band \<Rightarrow> fc_queue_ent \<Rightarrow> bool" where
  "waits_ahead s band e \<longleftrightarrow>
     (if fc_band_below_claim s band then e_band e = band
      else \<not> fc_wake_strict s \<or> fc_band_rank (e_band e) \<le> fc_band_rank band)"

lemma of_nat_u32_less: "m < 2 ^ 32 \<Longrightarrow> n < 2 ^ 32 \<Longrightarrow> (of_nat m :: u32) < of_nat n \<longleftrightarrow> m < n"
  by (simp add: word_less_nat_alt unat_of_nat)

lemma band_len_pos: "0 < band_len b es \<longleftrightarrow> (\<exists>e \<in> set es. e_band e = b)"
  by (auto simp: band_len_def filter_empty_conv)

lemma band_len_split:
  "length es = band_len FC_BAND_CRITICAL es + band_len FC_BAND_SHEDDABLE es + band_len FC_BAND_STANDARD es"
proof (induction es)
  case (Cons e es)
  then show ?case by (cases "e_band e") (simp_all add: band_len_def)
qed (simp add: band_len_def)

lemma fc_band_queued_pos:
  assumes "pool_inv h s" shows "0 < fc_band_queued s b \<longleftrightarrow> (\<exists>e \<in> set (waiters s). e_band e = b)"
proof -
  let ?n = "\<lambda>b. band_len b (waiters s)"
  note r = pool_invD(3) [OF assms]
  have few: "length (waiters s) \<le> 65536"
    using ring_invD(1) [OF r] ring_live_le_used [of "s_queue s"] by (simp add: ring_ok_def)
  have c: "s_queued s = of_nat (length (waiters s))" "s_band_queued s FC_BAND_CRITICAL = of_nat (?n FC_BAND_CRITICAL)"
    "s_band_queued s FC_BAND_SHEDDABLE = of_nat (?n FC_BAND_SHEDDABLE)"
    using pool_invD(2) [OF assms] ring_invD(2,3) [OF r] by (simp_all add: pool_mirrors_def fc_band_counted_def)
  have sum: "length (waiters s) = ?n FC_BAND_CRITICAL + ?n FC_BAND_SHEDDABLE + ?n FC_BAND_STANDARD" by (rule band_len_split)
  have "0 < fc_band_queued s b \<longleftrightarrow> 0 < ?n b"
  proof (cases b)
    case FC_BAND_STANDARD
    have "(of_nat (?n FC_BAND_CRITICAL) + of_nat (?n FC_BAND_SHEDDABLE) :: u32) = of_nat (?n FC_BAND_CRITICAL + ?n FC_BAND_SHEDDABLE)" by simp
    moreover have "(of_nat (length (waiters s)) - of_nat (?n FC_BAND_CRITICAL) - of_nat (?n FC_BAND_SHEDDABLE) :: u32) = of_nat (?n FC_BAND_STANDARD)"
      using sum by simp
    moreover have "(0 :: u32) < of_nat (?n FC_BAND_STANDARD) \<longleftrightarrow> 0 < ?n FC_BAND_STANDARD"
      using of_nat_u32_less [of 0 "?n FC_BAND_STANDARD"] few sum by simp
    moreover have "(of_nat (?n FC_BAND_CRITICAL + ?n FC_BAND_SHEDDABLE) :: u32) < of_nat (length (waiters s)) \<longleftrightarrow> 0 < ?n FC_BAND_STANDARD"
      using of_nat_u32_less [of "?n FC_BAND_CRITICAL + ?n FC_BAND_SHEDDABLE" "length (waiters s)"] few sum by simp
    ultimately show ?thesis using FC_BAND_STANDARD by (simp add: fc_band_queued_def fc_band_derive_def c)
  qed (use of_nat_u32_less [of 0 "?n FC_BAND_CRITICAL"] of_nat_u32_less [of 0 "?n FC_BAND_SHEDDABLE"] few sum in
      \<open>simp_all add: fc_band_queued_def fc_band_derive_def c\<close>)
  then show ?thesis by (simp add: band_len_pos)
qed

lemma ex_band: "(\<exists>b. P b) \<longleftrightarrow> P FC_BAND_CRITICAL \<or> P FC_BAND_STANDARD \<or> P FC_BAND_SHEDDABLE"
  by (metis fc_band.exhaust)

lemma fc_waiters_ahead_iff:
  assumes inv: "pool_inv h s" shows "fc_waiters_ahead s band \<longleftrightarrow> (\<exists>e \<in> set (waiters s). waits_ahead s band e)"
proof -
  note r = pool_invD(3) [OF inv]
  have few: "length (waiters s) \<le> 65536"
    using ring_invD(1) [OF r] ring_live_le_used [of "s_queue s"] by (simp add: ring_ok_def)
  have q: "s_queued s = 0 \<longleftrightarrow> waiters s = []"
    using pool_invD(2) [OF inv] ring_invD(2) [OF r] of_nat_u32_less [of 0 "length (waiters s)"] few
    by (auto simp: pool_mirrors_def word_neq_0_conv)
  have top: "fc_band_rank b \<le> 2" for b by (cases b) simp_all
  have strict: "list_ex (\<lambda>r. r \<le> fc_band_rank band \<and> 0 < fc_band_queued s (fc_band_at_rank r)) fc_ranks \<longleftrightarrow>
      (\<exists>e \<in> set (waiters s). fc_band_rank (e_band e) \<le> fc_band_rank band)"
  proof -
    have "list_ex (\<lambda>r. r \<le> fc_band_rank band \<and> 0 < fc_band_queued s (fc_band_at_rank r)) fc_ranks \<longleftrightarrow>
      (\<exists>b. fc_band_rank b \<le> fc_band_rank band \<and> 0 < fc_band_queued s b)"
      unfolding ex_band by (simp add: fc_ranks_def)
    then show ?thesis unfolding fc_band_queued_pos [OF inv] by blast
  qed
  show ?thesis
    using q strict fc_band_queued_pos [OF inv, of band] top
    by (cases "waiters s") (auto simp: fc_waiters_ahead_def waits_ahead_def Let_def)
qed

end
