(* ===== verification/FC_Waits.thy ===== *)
theory FC_Waits
  imports FC_Queue
begin

text \<open>
  The operations of the queue on the process: \<open>fc_queue_push\<close>, the wakes, the drain and the owner's
  resume keep the invariant of every pool, and what each of them does to the waiters.
\<close>

section \<open>Counters do not touch the queue\<close>

lemma pool_inv_cong:
  "s_queue s' = s_queue s \<Longrightarrow> s_tt s' = s_tt s \<Longrightarrow> s_queued s' = s_queued s \<Longrightarrow> s_band_queued s' = s_band_queued s \<Longrightarrow>
     pool_inv h s' = pool_inv h s"
  by (simp add: pool_inv_def pool_core_def pool_mirrors_def)

lemma fc_count_frame [simp]:
  "s_queue (fc_count s r) = s_queue s" "s_tt (fc_count s r) = s_tt s" "s_queued (fc_count s r) = s_queued s"
  "s_band_queued (fc_count s r) = s_band_queued s" "s_cfg (fc_count s r) = s_cfg s" "s_inflight (fc_count s r) = s_inflight s"
  "pool_inv h (fc_count s r) = pool_inv h s"
  by (simp_all add: fc_count_def pool_inv_def pool_core_def pool_mirrors_def)

lemma fc_count_band_frame [simp]:
  "s_queue (fc_count_band s r b) = s_queue s" "s_tt (fc_count_band s r b) = s_tt s" "s_queued (fc_count_band s r b) = s_queued s"
  "s_band_queued (fc_count_band s r b) = s_band_queued s" "s_cfg (fc_count_band s r b) = s_cfg s"
  "s_inflight (fc_count_band s r b) = s_inflight s"
  by (simp_all add: fc_count_band_def Let_def split: option.splits)

lemma fc_count_band_inv [simp]: "pool_inv h (fc_count_band s r b) = pool_inv h s"
  by (rule pool_inv_cong) simp_all

lemma fc_note_wait_frame [simp]:
  "s_queue (fc_note_wait s t) = s_queue s" "s_tt (fc_note_wait s t) = s_tt s" "s_queued (fc_note_wait s t) = s_queued s"
  "s_band_queued (fc_note_wait s t) = s_band_queued s" "s_cfg (fc_note_wait s t) = s_cfg s"
  "s_inflight (fc_note_wait s t) = s_inflight s"
  by (simp_all add: fc_note_wait_def Let_def split: option.splits)

lemma fc_note_wait_inv [simp]: "pool_inv h (fc_note_wait s t) = pool_inv h s"
  by (rule pool_inv_cong) simp_all

lemma counts_frame [simp]:
  "s_ep_inflight (fc_count s x) = s_ep_inflight s" "s_band_inflight (fc_count s x) = s_band_inflight s"
  "s_ep_inflight (fc_count_band s x b) = s_ep_inflight s" "s_band_inflight (fc_count_band s x b) = s_band_inflight s"
  "s_ep_inflight (fc_note_wait s t) = s_ep_inflight s" "s_band_inflight (fc_note_wait s t) = s_band_inflight s"
  by (simp_all add: fc_count_def fc_count_band_def fc_note_wait_def Let_def split: option.splits)

lemma wake_call_frame [simp]:
  "w_pools (snd (wake_call w fd gen)) = w_pools w" "w_anomaly (snd (wake_call w fd gen)) = w_anomaly w"
  "w_calloc (snd (wake_call w fd gen)) = w_calloc w" "w_wake_hook (snd (wake_call w fd gen)) = w_wake_hook w"
  "w_clock (snd (wake_call w fd gen)) = w_clock w" "w_timer (snd (wake_call w fd gen)) = w_timer w"
  by (simp_all add: wake_call_def split: option.splits)

section \<open>Push\<close>

text \<open>The entry a push builds, and whether it takes its place by its arrival time.\<close>

definition push_ordered :: "fc_permit \<Rightarrow> u64 \<Rightarrow> bool \<Rightarrow> bool" where
  "push_ordered p now front \<longleftrightarrow> \<not> front \<and> p_q_first_ns p \<noteq> 0 \<and> p_q_first_ns p < now"

definition push_enqueue_ns :: "fc_permit \<Rightarrow> u64 \<Rightarrow> bool \<Rightarrow> u64" where
  "push_enqueue_ns p now front =
     (if front \<and> p_q_deadline_ns p \<noteq> 0 then p_q_enqueue_ns p
      else if push_ordered p now front then p_q_first_ns p else now)"

definition push_ent :: "fc_state \<Rightarrow> fc_permit \<Rightarrow> int \<Rightarrow> u64 \<Rightarrow> u64 \<Rightarrow> bool \<Rightarrow> fc_queue_ent" where
  "push_ent s p fd gen now front =
     \<lparr>e_fd = fd, e_live = True, e_band = p_band p, e_tslot = -1, e_gen = gen, e_enqueue_ns = push_enqueue_ns p now front,
      e_deadline_ns = fst (fc_push_window s (p_band p) (p_q_ttl_ms p) (push_enqueue_ns p now front)
        (if front \<and> p_q_deadline_ns p \<noteq> 0 then p_q_deadline_ns p else 0) (if front then p_q_ttl_cut p else False))\<rparr>"

lemma fc_queue_push_eq:
  assumes "0 \<le> fd"
    and lock: "fc_push_locked (w_calloc w) (w_pools w f) (push_ent (w_pools w f) p fd gen now front) (p_tkey p) front
      (push_ordered p now front) now = (rc, slot, gone, s, an)"
    and res: "fc_queue_push w (Some f) p fd gen now front = (rc', w', p')"
  shows "rc' = (if rc = 0 \<or> rc = -2 then rc else -1)"
    "\<exists>s'. w_pools w' = (w_pools w)(f := s') \<and> s_queue s' = s_queue s \<and> s_tt s' = s_tt s \<and> s_queued s' = s_queued s \<and>
      s_band_queued s' = s_band_queued s \<and> s_cfg s' = s_cfg s \<and> s_inflight s' = s_inflight s \<and>
      s_band_inflight s' = s_band_inflight s \<and> s_ep_inflight s' = s_ep_inflight s"
    "an = [] \<Longrightarrow> w_anomaly w' = w_anomaly w"
    "p_fc p' = Some f \<and> p_band p' = p_band p \<and> p_tkey p' = p_tkey p \<and> p_state p' = (if rc = 0 then FC_P_QUEUED else FC_P_NONE)"
    "rc = 0 \<Longrightarrow> p_q_fd p' = fd \<and> p_q_gen p' = gen \<and> p_q_slot p' = slot"
proof -
  define fdl where "fdl = (if front \<and> p_q_deadline_ns p \<noteq> 0 then p_q_deadline_ns p else 0)"
  define cut0 where "cut0 = (if front then p_q_ttl_cut p else False)"
  define par where "par = (if front then p_q_parked p else True)"
  obtain w1 p1 where b: "fc_permit_bind w p (Some f) = (w1, p1)" by fastforce
  have w1: "w_pools w1 = w_pools w" "w_calloc w1 = w_calloc w" "w_anomaly w1 = w_anomaly w" "w_wake_hook w1 = w_wake_hook w"
    using fc_permit_bind_world(1,2,6,7) [of w p "Some f"] b by simp_all
  have p1: "p1 = (fc_permit_reset p)\<lparr>p_fc := Some f\<rparr>" using fc_permit_bind_permit [of w p "Some f"] b by simp
  obtain dl cut where win: "fc_push_window (w_pools w f) (p_band p) (p_q_ttl_ms p) (push_enqueue_ns p now front) fdl cut0 = (dl, cut)"
    by fastforce
  define e where "e = \<lparr>e_fd = fd, e_live = True, e_band = p_band p, e_tslot = -1, e_gen = gen,
      e_enqueue_ns = push_enqueue_ns p now front, e_deadline_ns = dl\<rparr>"
  have e: "push_ent (w_pools w f) p fd gen now front = e"
    by (simp add: push_ent_def e_def win fdl_def [symmetric] cut0_def [symmetric] del: if_False)
  define p2 where "p2 = p1\<lparr>p_state := FC_P_QUEUED, p_q_fd := fd, p_q_gen := gen, p_q_enqueue_ns := push_enqueue_ns p now front,
      p_tkey := p_tkey p, p_band := p_band p, p_q_parked := par, p_q_deadline_ns := dl, p_q_ttl_cut := cut\<rparr>"
  define w2 where "w2 = w_note (w_set w1 f s) an"
  define w3 where "w3 = (if rc = 0 then w_arm w2 dl else w2)"
  define w4 where "w4 = (case gone of None \<Rightarrow> w3 | Some (g, enq) \<Rightarrow> fc_push_evicted w3 f g enq now)"
  define p3 where "p3 = (if rc = 0 then p2\<lparr>p_q_slot := slot\<rparr> else p2)"
  define tk bd where "tk = p_tkey p" and "bd = p_band p"
  have eq: "fc_queue_push w (Some f) p fd gen now front =
      (if rc \<noteq> 0
       then let (w, p) = fc_permit_bind w4 p3 (Some f);
                p = p\<lparr>p_tkey := tk, p_band := bd, p_q_parked := (if front then par else False)\<rparr>;
                s = fc_count (w_pools w f) (if rc = -2 then FC_R_TENANT_SHARE else FC_R_QUEUE_FULL)
            in (if rc = -2 then -2 else -1, w_set w f s, p)
       else (0, if front then w4 else w_set w4 f (fc_count_band (w_pools w4 f) FC_R_QUEUED bd), p3))"
    using lock assms(1)
    unfolding fc_queue_push_def Let_def option.case push_ordered_def [symmetric] push_enqueue_ns_def [symmetric]
      fdl_def [symmetric] cut0_def [symmetric] par_def [symmetric] b prod.case w1 win e
      w4_def w3_def w2_def p3_def p2_def tk_def [symmetric] bd_def [symmetric]
    by (simp add: win [folded bd_def] e_def [symmetric, folded bd_def] split del: if_split cong: if_cong)
  have p2: "p_fc p2 = Some f" "p_tkey p2 = p_tkey p" "p_band p2 = p_band p" "p_state p2 = FC_P_QUEUED" "p_q_fd p2 = fd"
    "p_q_gen p2 = gen" by (simp_all add: p2_def p1)
  have w3: "w_pools w3 = (w_pools w)(f := s)" "an = [] \<Longrightarrow> w_anomaly w3 = w_anomaly w"
    by (simp_all add: w3_def w2_def w1)
  have w4: "\<exists>s'. w_pools w4 = (w_pools w)(f := s') \<and> s_queue s' = s_queue s \<and> s_tt s' = s_tt s \<and> s_queued s' = s_queued s \<and>
      s_band_queued s' = s_band_queued s \<and> s_cfg s' = s_cfg s \<and> s_inflight s' = s_inflight s \<and>
      s_band_inflight s' = s_band_inflight s \<and> s_ep_inflight s' = s_ep_inflight s"
    "an = [] \<Longrightarrow> w_anomaly w4 = w_anomaly w"
    using w3 by (auto simp: w4_def fc_push_evicted_def Let_def split: option.splits)
  obtain w5 p5 where b5: "fc_permit_bind w4 p3 (Some f) = (w5, p5)" by fastforce
  have w5: "w_pools w5 = w_pools w4" "w_anomaly w5 = w_anomaly w4"
    using fc_permit_bind_world(1,2) [of w4 p3 "Some f"] b5 by simp_all
  have p5: "p5 = (fc_permit_reset p3)\<lparr>p_fc := Some f\<rparr>" using fc_permit_bind_permit [of w4 p3 "Some f"] b5 by simp
  note R = res [unfolded eq b5 Let_def prod.case]
  show "rc' = (if rc = 0 \<or> rc = -2 then rc else -1)" using R by (auto split: if_splits)
  show "\<exists>s'. w_pools w' = (w_pools w)(f := s') \<and> s_queue s' = s_queue s \<and> s_tt s' = s_tt s \<and> s_queued s' = s_queued s \<and>
      s_band_queued s' = s_band_queued s \<and> s_cfg s' = s_cfg s \<and> s_inflight s' = s_inflight s \<and>
      s_band_inflight s' = s_band_inflight s \<and> s_ep_inflight s' = s_ep_inflight s"
    using R w4(1) w5(1) by (auto split: if_splits)
  show "w_anomaly w' = w_anomaly w" if "an = []" using R w4(2) [OF that] w5(2) by (auto split: if_splits)
  show "p_fc p' = Some f \<and> p_band p' = p_band p \<and> p_tkey p' = p_tkey p \<and> p_state p' = (if rc = 0 then FC_P_QUEUED else FC_P_NONE)"
    using R p2 by (auto simp: p5 fc_permit_reset_def p3_def tk_def bd_def split: if_splits)
  show "p_q_fd p' = fd \<and> p_q_gen p' = gen \<and> p_q_slot p' = slot" if "rc = 0"
    using R p2 that by (auto simp: p3_def)
qed

lemma fc_queue_push_ok:
  assumes inv: "pool_inv h (w_pools w f)" and fd: "0 \<le> fd"
    and res: "fc_queue_push w (Some f) p fd gen now front = (rc, w', p')"
  shows "\<not> evict_frees (w_calloc w) (w_pools w f) (push_ent (w_pools w f) p fd gen now front) (p_tkey p) front now \<Longrightarrow>
      pool_inv h (w_pools w' f)" "g \<noteq> f \<Longrightarrow> w_pools w' g = w_pools w g" "w_anomaly w' = w_anomaly w"
    "p_state p' = (if rc = 0 then FC_P_QUEUED else FC_P_NONE)"
    "\<exists>base gone sl. push_evicts (w_pools w f) now gone base (q_evicted (s_queue (w_pools w' f))) \<and>
       waiters (w_pools w' f) =
         (if rc = 0
          then queue_insert front (push_ordered p now front) ((push_ent (w_pools w f) p fd gen now front)\<lparr>e_tslot := sl\<rparr>) base
          else base)"
    "rc = 0 \<Longrightarrow> \<not> push_refused (w_pools w f) (push_ent (w_pools w f) p fd gen now front) front now"
    "rc = 0 \<Longrightarrow> p_q_fd p' = fd \<and> p_q_gen p' = gen" "rc = 0 \<or> rc = -1 \<or> rc = -2"
proof -
  let ?s = "w_pools w f" and ?e = "push_ent (w_pools w f) p fd gen now front"
  obtain rc0 slot gone s an where lock: "fc_push_locked (w_calloc w) ?s ?e (p_tkey p) front (push_ordered p now front) now =
      (rc0, slot, gone, s, an)" by (metis surj_pair)
  note L = fc_push_locked_ok [OF inv lock]
  note Q = fc_queue_push_eq [OF fd lock res]
  obtain s' where s': "w_pools w' = (w_pools w)(f := s')" "s_queue s' = s_queue s" "s_tt s' = s_tt s"
    "s_queued s' = s_queued s" "s_band_queued s' = s_band_queued s" using Q(2) by blast
  have rc: "rc = rc0" using Q(1) L(4) by auto
  show "pool_inv h (w_pools w' f)" if "\<not> evict_frees (w_calloc w) ?s ?e (p_tkey p) front now"
    using L(1) [OF that] pool_inv_cong [OF s'(2-5)] s'(1) by simp
  show "w_pools w' g = w_pools w g" if "g \<noteq> f" using s'(1) that by simp
  show "w_anomaly w' = w_anomaly w" using Q(3) L(2) by simp
  show "p_state p' = (if rc = 0 then FC_P_QUEUED else FC_P_NONE)" using Q(4) rc by simp
  have live: "?e\<lparr>e_tslot := sl, e_live := True\<rparr> = ?e\<lparr>e_tslot := sl\<rparr>" for sl by (simp add: push_ent_def)
  obtain base sl where "push_evicts ?s now gone base (q_evicted (s_queue s))"
    "waiters s = (if rc0 = 0 then queue_insert front (push_ordered p now front) (?e\<lparr>e_tslot := sl\<rparr>) base else base)"
    using L(3) unfolding live by blast
  then show "\<exists>base gone sl. push_evicts ?s now gone base (q_evicted (s_queue (w_pools w' f))) \<and>
       waiters (w_pools w' f) =
         (if rc = 0 then queue_insert front (push_ordered p now front) (?e\<lparr>e_tslot := sl\<rparr>) base else base)"
    using s'(1,2) rc by auto
  show "\<not> push_refused ?s ?e front now" if "rc = 0" using L(5) that rc by blast
  show "p_q_fd p' = fd \<and> p_q_gen p' = gen" if "rc = 0" using Q(5) that rc by blast
  show "rc = 0 \<or> rc = -1 \<or> rc = -2" using L(4) rc by simp
qed

text \<open>The arrival that evicts the only hold of its own tenant.\<close>

lemma fc_queue_push_frees:
  assumes inv: "pool_inv h (w_pools w f)" and fd: "0 \<le> fd"
    and frees: "evict_frees (w_calloc w) (w_pools w f) (push_ent (w_pools w f) p fd gen now front) (p_tkey p) front now"
    and res: "fc_queue_push w (Some f) p fd gen now front = (0, w', p')"
  defines "tt \<equiv> s_tt (w_pools w' f)"
  obtains sl where "0 \<le> sl" "(push_ent (w_pools w f) p fd gen now front)\<lparr>e_tslot := sl\<rparr> \<in> set (waiters (w_pools w' f))"
    "\<not> t_used (tts tt ! nat sl)" "\<not> tt_inv tt"
    "\<And>key calloc_ok dead cnt sl' tt' an'. nat sl < tt_slots tt \<Longrightarrow> tt_slot_of tt key = None \<Longrightarrow>
       fc_tenant_get calloc_ok dead tt key cnt = (sl', tt', an') \<Longrightarrow> sl' = sl \<and> t_key (tts tt' ! nat sl) = key \<and> t_queued (tts tt' ! nat sl) = 0"
proof -
  let ?s = "w_pools w f" and ?e = "push_ent (w_pools w f) p fd gen now front"
  obtain rc0 slot gone s an where lock: "fc_push_locked (w_calloc w) ?s ?e (p_tkey p) front (push_ordered p now front) now =
      (rc0, slot, gone, s, an)" by (metis surj_pair)
  have rc0: "rc0 = 0" using fc_queue_push_eq(1) [OF fd lock res] by (simp split: if_splits)
  have s: "s_queue (w_pools w' f) = s_queue s" "tt = s_tt s" using fc_queue_push_eq(2) [OF fd lock res] by (auto simp: tt_def)
  have live: "?e\<lparr>e_tslot := sl, e_live := True\<rparr> = ?e\<lparr>e_tslot := sl\<rparr>" for sl by (simp add: push_ent_def)
  from fc_push_locked_frees [OF inv frees lock [unfolded rc0]] show thesis using that unfolding s live by blast
qed

lemma push_evicts_length:
  "push_evicts s at_ns gone base evs \<Longrightarrow> length base = (if gone = None then length (waiters s) else length (waiters s) - 1)"
  by (auto simp: push_evicts_def split: option.splits)

text \<open>An arrival never grows the queue past its depth.\<close>

lemma fc_queue_push_depth:
  assumes inv: "pool_inv h (w_pools w f)" and fd: "0 \<le> fd"
    and res: "fc_queue_push w (Some f) p fd gen now False = (rc, w', p')"
  shows "length (waiters (w_pools w' f)) \<le>
    max (length (waiters (w_pools w f))) (unat (c_max_queue_depth (s_cfg (w_pools w f))))"
proof -
  let ?s = "w_pools w f" and ?e = "push_ent (w_pools w f) p fd gen now False"
  note P = fc_queue_push_ok [OF inv fd res]
  obtain base gone sl where b: "push_evicts ?s now gone base (q_evicted (s_queue (w_pools w' f)))"
    "waiters (w_pools w' f) =
       (if rc = 0 then queue_insert False (push_ordered p now False) (?e\<lparr>e_tslot := sl\<rparr>) base else base)"
    using P(5) by blast
  have len: "length base = (if gone = None then length (waiters ?s) else length (waiters ?s) - 1)"
    by (rule push_evicts_length [OF b(1)])
  show ?thesis
  proof (cases "rc = 0 \<and> gone = None")
    case False
    moreover have "waiters ?s \<noteq> []" if "gone \<noteq> None" using b(1) that by (auto simp: push_evicts_def split: option.splits)
    ultimately show ?thesis using b(2) len by (cases "waiters ?s") auto
  next
    case True
    obtain rc0 slot gone0 s0 an where lock:
      "fc_push_locked (w_calloc w) ?s ?e (p_tkey p) False (push_ordered p now False) now = (rc0, slot, gone0, s0, an)"
      by (metis surj_pair)
    have rc0: "rc0 = 0"
      using fc_queue_push_eq(1) [OF fd lock res] fc_push_locked_ok(4) [OF inv lock] True by (auto split: if_splits)
    obtain sl tt where sl: "push_slot (w_calloc w) ?s (p_tkey p) = (sl, tt)" by fastforce
    have "length (waiters s0) = length (waiters (w_pools w' f))"
      using fc_queue_push_eq(2) [OF fd lock res] by auto
    then have len0: "length (waiters s0) = Suc (length (waiters ?s))" using b(2) True len by simp
    have "fc_push_evict ?s (e_band ?e) False (e_deadline_ns ?e) now = None"
    proof (rule ccontr)
      assume "fc_push_evict ?s (e_band ?e) False (e_deadline_ns ?e) now \<noteq> None"
      then have "fst (push_make_room ?s tt ?e False now) \<noteq> None" by (auto simp: push_make_room_def split: prod.splits)
      then have "gone0 \<noteq> None"
        using fc_push_locked_eq [OF sl, of ?e False "push_ordered p now False" now] lock rc0
        by (auto split: if_splits prod.splits)
      then obtain x where g: "gone0 = Some x" by auto
      obtain base0 where b0: "push_evicts ?s now gone0 base0 (q_evicted (s_queue s0))" "length (waiters s0) = Suc (length base0)"
        using fc_push_locked_ok(3) [OF inv lock] rc0 by auto
      have "length base0 = length (waiters ?s) - 1" using push_evicts_length [OF b0(1)] g by simp
      moreover have "waiters ?s \<noteq> []" using b0(1) g by (auto simp: push_evicts_def split: prod.splits)
      ultimately show False using b0(2) len0 by (cases "waiters ?s") auto
    qed
    with P(6) True have "q_count (s_queue ?s) < unat (c_max_queue_depth (s_cfg ?s))" by (simp add: push_refused_def)
    with ring_invD(2) [OF pool_invD(3) [OF inv]] b(2) True len show ?thesis by simp
  qed
qed

section \<open>Wakes\<close>

lemma fc_pick_give_back_frame:
  "\<exists>cr rr. fc_pick_give_back q u = q\<lparr>q_drr_credit := cr, q_rr_next := rr\<rparr>"
  by (auto simp: fc_pick_give_back_def Let_def split: option.splits if_splits)
    (metis fc_queue.surjective fc_queue.update_convs(8,9))+

lemma ring_live_live: "e \<in> set (ring_live q) \<Longrightarrow> e_live e"
  by (simp add: ring_live_def)

text \<open>Taking the entry the pick chose into the hand.\<close>

lemma pop_runnable_hand:
  assumes inv: "pool_inv h s" and res: "fc_ring_pop_runnable s pend = (r, s', u)"
  shows "pool_core h (case r of None \<Rightarrow> [] | Some e \<Rightarrow> [e]) s'" "s_tt s' = s_tt s" "s_cfg s' = s_cfg s" "s_inflight s' = s_inflight s"
proof -
  note P = fc_ring_pop_runnable_ok [OF pool_invD(3) [OF inv] res]
  have s': "s' = s\<lparr>s_queue := s_queue s'\<rparr>" "q_evicted (s_queue s') = q_evicted (s_queue s)"
    using P(1) by (simp_all add: queue_only_def)
  from arg_cong [OF s'(1), of s_tt] arg_cong [OF s'(1), of s_cfg] arg_cong [OF s'(1), of s_inflight]
  show fr: "s_tt s' = s_tt s" "s_cfg s' = s_cfg s" "s_inflight s' = s_inflight s" by simp_all
  show "pool_core h (case r of None \<Rightarrow> [] | Some e \<Rightarrow> [e]) s'"
  proof (cases r)
    case None
    then show ?thesis using P(2,3) fr(1) s'(2) pool_invD(1) [OF inv] by (simp add: pool_core_def)
  next
    case (Some e)
    then have "e \<in> set (waiters s)" using P(4) by blast
    then show ?thesis
      using Some P(2,3) fr(1) s'(2) pool_invD(1) [OF inv] slot_len_remove1 [of e "waiters s"]
      by (simp add: pool_core_def)
  qed
qed

text \<open>The undelivered wake: the waiter is back, or (no memory to compact the ring) gone from the count too.\<close>

lemma fc_wake_undo_ok:
  assumes core: "pool_core h [e] (w_pools w f)" and live: "e_live e" and w'_def: "w' = fc_wake_undo w f e u"
  shows "pool_inv h (w_pools w' f)" "\<And>g. g \<noteq> f \<Longrightarrow> w_pools w' g = w_pools w g" "w_anomaly w' = w_anomaly w"
    "w_calls w' = w_calls w" "w_wake_hook w' = w_wake_hook w"
    "waiters (w_pools w' f) = queue_insert True False e (waiters (w_pools w f)) \<or> waiters (w_pools w' f) = waiters (w_pools w f)"
    "q_cap (s_queue (w_pools w f)) \<noteq> 0 \<Longrightarrow> q_cap (s_queue (w_pools w f)) < 65536 \<Longrightarrow> (\<And>n. w_calloc w n) \<Longrightarrow>
       waiters (w_pools w' f) = queue_insert True False e (waiters (w_pools w f))"
proof -
  let ?s = "w_pools w f" and ?q = "s_queue (w_pools w f)"
  obtain slot q where i: "fc_ring_insert (w_calloc w) ?q e True False = (slot, q)" by fastforce
  note I = fc_ring_insert_cases [OF pool_coreD(1) [OF core] i]
  have e: "e\<lparr>e_live := True\<rparr> = e" using live by simp
  obtain cr rr where gb: "fc_pick_give_back q u = q\<lparr>q_drr_credit := cr, q_rr_next := rr\<rparr>"
    using fc_pick_give_back_frame by blast
  have ev: "q_evicted q = q_evicted ?q" using I(2) by (simp add: ring_aside_def)
  have core_gb: "pool_core h hand (s\<lparr>s_queue := q\<lparr>q_drr_credit := cr, q_rr_next := rr\<rparr>\<rparr>) = pool_core h hand (s\<lparr>s_queue := q\<rparr>)"
    for hand s by (simp add: pool_core_def)
  have "pool_inv h (w_pools w' f) \<and> (\<forall>g. g \<noteq> f \<longrightarrow> w_pools w' g = w_pools w g) \<and> w_anomaly w' = w_anomaly w \<and>
    w_calls w' = w_calls w \<and> w_wake_hook w' = w_wake_hook w \<and>
    waiters (w_pools w' f) = (case slot of None \<Rightarrow> waiters ?s | Some _ \<Rightarrow> queue_insert True False e (waiters ?s))"
  proof (cases slot)
    case None
    obtain tt an where d: "fc_tenant_dec (s_tt ?s) (e_tslot e) True = (tt, an)" by fastforce
    have "pool_core h [e] (?s\<lparr>s_queue := q\<rparr>)" using core I None ev by (simp add: pool_core_def)
    note D = pool_core_dec [OF this, of tt an, simplified, OF d]
    have w': "w' = w_set w f (fc_queue_publish (?s\<lparr>s_queue := fc_pick_give_back q u, s_tt := tt\<rparr>))"
      using None d D(2) by (simp add: w'_def fc_wake_undo_def i Let_def)
    show ?thesis using D(1) I(3) None core_gb [of "[]" "?s\<lparr>s_tt := tt\<rparr>"]
      by (simp add: w' gb pool_inv_def) (simp add: pool_core_def)
  next
    case (Some j)
    have "pool_core h [] (?s\<lparr>s_queue := q\<rparr>)"
      by (rule pool_core_insert [OF core I(1), of True False]) (use I(3) Some ev in simp_all)
    moreover have w': "w' = w_set (w_arm w (e_deadline_ns e)) f (fc_queue_publish (?s\<lparr>s_queue := fc_pick_give_back q u\<rparr>))"
      using Some by (simp add: w'_def fc_wake_undo_def i Let_def)
    ultimately show ?thesis using I(3) Some e core_gb [of "[]" ?s] by (simp add: gb pool_inv_def)
  qed
  then show "pool_inv h (w_pools w' f)" "\<And>g. g \<noteq> f \<Longrightarrow> w_pools w' g = w_pools w g" "w_anomaly w' = w_anomaly w"
    "w_calls w' = w_calls w" "w_wake_hook w' = w_wake_hook w"
    "waiters (w_pools w' f) = queue_insert True False e (waiters ?s) \<or> waiters (w_pools w' f) = waiters ?s"
    by (cases slot; auto)+
  show "waiters (w_pools w' f) = queue_insert True False e (waiters ?s)"
    if cap: "q_cap ?q \<noteq> 0" "q_cap ?q < 65536" and ok: "\<And>n. w_calloc w n"
  proof -
    note R = fc_ring_make_room_front [OF pool_coreD(1) [OF core] cap(2), of "w_calloc w", OF ok]
    from fc_ring_insert_room [OF pool_coreD(1) [OF core] R cap(1), of e False] i have "slot \<noteq> None" by auto
    with \<open>pool_inv h (w_pools w' f) \<and> _\<close> show ?thesis by auto
  qed
qed

lemma fc_queue_wake_head_ok:
  assumes inv: "pool_inv h (w_pools w f)" and res: "fc_queue_wake_head w f pend = (woken, w', pend')"
  shows "pool_inv h (w_pools w' f)" "g \<noteq> f \<Longrightarrow> w_pools w' g = w_pools w g" "w_anomaly w' = w_anomaly w"
    "w_wake_hook w' = w_wake_hook w"
    "woken \<Longrightarrow> \<exists>e \<in> set (waiters (w_pools w f)). ent_runnable (s_tt (w_pools w f)) (fc_tenant_svc_bound (w_pools w f)) e \<and>
       waiters (w_pools w' f) = remove1 e (waiters (w_pools w f)) \<and> w_calls w' = w_calls w @ [Wake (e_fd e) (e_gen e)] \<and>
       pend' = pend(e_band e := pend (e_band e) + 1)"
    "\<not> woken \<Longrightarrow> waiters (w_pools w' f) = waiters (w_pools w f) \<or>
       (\<exists>e \<in> set (waiters (w_pools w f)). waiters (w_pools w' f) = queue_insert True False e (remove1 e (waiters (w_pools w f))) \<or>
          waiters (w_pools w' f) = remove1 e (waiters (w_pools w f)))"
    "\<not> woken \<Longrightarrow> q_cap (s_queue (w_pools w f)) < 65536 \<Longrightarrow> (\<And>n. w_calloc w n) \<Longrightarrow> waiters (w_pools w' f) = waiters (w_pools w f) \<or>
       (\<exists>e \<in> set (waiters (w_pools w f)). waiters (w_pools w' f) = queue_insert True False e (remove1 e (waiters (w_pools w f))))"
proof -
  let ?s = "w_pools w f"
  obtain r s u where p: "fc_ring_pop_runnable ?s pend = (r, s, u)" by (metis surj_pair)
  note P = fc_ring_pop_runnable_ok [OF pool_invD(3) [OF inv] p]
  note H = pop_runnable_hand [OF inv p]
  define w1 where "w1 = w_set w f (fc_queue_publish s)"
  have *: "pool_inv h (w_pools w' f) \<and> (\<forall>g. g \<noteq> f \<longrightarrow> w_pools w' g = w_pools w g) \<and> w_anomaly w' = w_anomaly w \<and>
    w_wake_hook w' = w_wake_hook w \<and>
    (woken \<longrightarrow> (\<exists>e \<in> set (waiters ?s). ent_runnable (s_tt ?s) (fc_tenant_svc_bound ?s) e \<and>
       waiters (w_pools w' f) = remove1 e (waiters ?s) \<and> w_calls w' = w_calls w @ [Wake (e_fd e) (e_gen e)] \<and>
       pend' = pend(e_band e := pend (e_band e) + 1))) \<and>
    (\<not> woken \<longrightarrow> waiters (w_pools w' f) = waiters ?s \<or>
       (\<exists>e \<in> set (waiters ?s). (waiters (w_pools w' f) = queue_insert True False e (remove1 e (waiters ?s)) \<or>
          waiters (w_pools w' f) = remove1 e (waiters ?s)) \<and>
          (q_cap (s_queue ?s) < 65536 \<longrightarrow> (\<forall>n. w_calloc w n) \<longrightarrow>
             waiters (w_pools w' f) = queue_insert True False e (remove1 e (waiters ?s)))))"
  proof (cases r)
    case None
    with res p have "\<not> woken" "w' = w1" by (simp_all add: fc_queue_wake_head_def w1_def)
    with H(1) P(3) None show ?thesis by (simp add: w1_def pool_inv_def)
  next
    case (Some e)
    have e: "e \<in> set (waiters ?s)" "ent_runnable (s_tt ?s) (fc_tenant_svc_bound ?s) e" using P(4) Some by blast+
    obtain d w2 where wc: "wake_call w1 (e_fd e) (e_gen e) = (d, w2)" by fastforce
    have w2: "w_pools w2 = (w_pools w)(f := fc_queue_publish s)" "w_anomaly w2 = w_anomaly w" "w_wake_hook w2 = w_wake_hook w"
      "w_calloc w2 = w_calloc w"
      using wake_call_frame(1-4) [of w1 "e_fd e" "e_gen e", unfolded wc snd_conv] by (simp_all add: w1_def)
    have wa: "waiters (w_pools w2 f) = remove1 e (waiters ?s)" using P(3) Some w2 by simp
    have core: "pool_core h [e] (w_pools w2 f)" using H(1) Some w2 by simp
    show ?thesis
    proof (cases d)
      case True
      obtain tt an where dec: "fc_tenant_dec (s_tt (w_pools w2 f)) (e_tslot e) True = (tt, an)" by fastforce
      note D = pool_core_dec [OF core dec]
      have calls: "w_calls w2 = w_calls w @ [Wake (e_fd e) (e_gen e)]"
        using wc True by (auto simp: wake_call_def w1_def split: option.splits)
      have "woken" "w' = w_set w2 f ((w_pools w2 f)\<lparr>s_tt := tt\<rparr>)" "pend' = pend(e_band e := pend (e_band e) + 1)"
        using res p Some wc True dec D(2) by (auto simp: fc_queue_wake_head_def w1_def Let_def)
      moreover have "pool_mirrors ((w_pools w2 f)\<lparr>s_tt := tt\<rparr>)"
        using w2(1) fc_queue_publish_simps(5) [of s] by (simp add: pool_mirrors_def)
      ultimately show ?thesis using D(1) e wa w2 calls by (auto simp: pool_inv_def)
    next
      case False
      have live: "e_live e" by (rule ring_live_live [OF e(1)])
      have w': "\<not> woken" "w' = fc_wake_undo w2 f e u"
        using res p Some wc False by (simp_all add: fc_queue_wake_head_def w1_def Let_def)
      note U = fc_wake_undo_ok [OF core live w'(2)]
      have "q_cap (s_queue ?s) \<noteq> 0"
        using e(1) ring_invD(1) [OF pool_invD(3) [OF inv]] by (auto simp: ring_live_def ring_seq_def ring_ok_def)
      moreover have "q_cap (s_queue (w_pools w2 f)) = q_cap (s_queue ?s)" using P(1) w2(1) by (simp add: queue_only_def)
      ultimately have "q_cap (s_queue ?s) < 65536 \<longrightarrow> (\<forall>n. w_calloc w n) \<longrightarrow>
          waiters (w_pools w' f) = queue_insert True False e (remove1 e (waiters ?s))"
        using U(7) wa w2(4) by simp
      then show ?thesis using U(1-6) e(1) wa w2 w'(1) by auto
    qed
  qed
  then show "pool_inv h (w_pools w' f)" "g \<noteq> f \<Longrightarrow> w_pools w' g = w_pools w g" "w_anomaly w' = w_anomaly w"
    "w_wake_hook w' = w_wake_hook w" by blast+
  from * show "\<exists>e \<in> set (waiters ?s). ent_runnable (s_tt ?s) (fc_tenant_svc_bound ?s) e \<and>
       waiters (w_pools w' f) = remove1 e (waiters ?s) \<and> w_calls w' = w_calls w @ [Wake (e_fd e) (e_gen e)] \<and>
       pend' = pend(e_band e := pend (e_band e) + 1)" if woken using that by blast
  from * show "waiters (w_pools w' f) = waiters ?s \<or>
       (\<exists>e \<in> set (waiters ?s). waiters (w_pools w' f) = queue_insert True False e (remove1 e (waiters ?s)) \<or>
          waiters (w_pools w' f) = remove1 e (waiters ?s))" if "\<not> woken" using that by blast
  from * show "waiters (w_pools w' f) = waiters ?s \<or>
       (\<exists>e \<in> set (waiters ?s). waiters (w_pools w' f) = queue_insert True False e (remove1 e (waiters ?s)))"
    if "\<not> woken" "q_cap (s_queue ?s) < 65536" "\<And>n. w_calloc w n" using that by blast
qed

text \<open>A round of the loop calls the wake hook at most once, and nothing else.\<close>

lemma fc_wake_undo_calls [simp]: "w_calls (fc_wake_undo w f e u) = w_calls w"
  by (simp add: fc_wake_undo_def Let_def split: prod.splits option.splits)

lemma wake_call_calls: "\<exists>cs. w_calls (snd (wake_call w fd gen)) = w_calls w @ cs \<and> length cs \<le> 1"
  by (auto simp: wake_call_def split: option.splits)

lemma fc_queue_wake_head_calls:
  assumes "fc_queue_wake_head w f pend = (woken, w', pend')"
  shows "\<exists>cs. w_calls w' = w_calls w @ cs \<and> length cs \<le> 1"
proof -
  obtain r s u where p: "fc_ring_pop_runnable (w_pools w f) pend = (r, s, u)" by (metis surj_pair)
  show ?thesis
  proof (cases r)
    case None
    with assms p show ?thesis by (auto simp: fc_queue_wake_head_def)
  next
    case (Some e)
    obtain d w2 where wc: "wake_call (w_set w f (fc_queue_publish s)) (e_fd e) (e_gen e) = (d, w2)" by fastforce
    have "w_calls w' = w_calls w2"
      using assms p Some wc by (auto simp: fc_queue_wake_head_def Let_def split: if_splits prod.splits)
    with wake_call_calls [of "w_set w f (fc_queue_publish s)" "e_fd e" "e_gen e"] wc show ?thesis by simp
  qed
qed

lemma wake_loop_ok:
  assumes "pool_inv h (w_pools w f)"
  shows "pool_inv h (w_pools (wake_loop n w f pend) f)" "g \<noteq> f \<Longrightarrow> w_pools (wake_loop n w f pend) g = w_pools w g"
    "w_anomaly (wake_loop n w f pend) = w_anomaly w"
    "\<exists>cs. w_calls (wake_loop n w f pend) = w_calls w @ cs \<and> length cs \<le> n"
proof -
  have "pool_inv h (w_pools (wake_loop n w f pend) f) \<and> (\<forall>g. g \<noteq> f \<longrightarrow> w_pools (wake_loop n w f pend) g = w_pools w g) \<and>
    w_anomaly (wake_loop n w f pend) = w_anomaly w \<and>
    (\<exists>cs. w_calls (wake_loop n w f pend) = w_calls w @ cs \<and> length cs \<le> n)"
    using assms
  proof (induction n arbitrary: w pend)
    case (Suc n)
    obtain woken w1 pend1 where h: "fc_queue_wake_head w f pend = (woken, w1, pend1)" by (metis surj_pair)
    note H = fc_queue_wake_head_ok [OF Suc(2) h]
    obtain cs where cs: "w_calls w1 = w_calls w @ cs" "length cs \<le> 1" using fc_queue_wake_head_calls [OF h] by blast
    show ?case
    proof (cases woken)
      case True
      obtain cs' where "w_calls (wake_loop n w1 f pend1) = w_calls w1 @ cs'" "length cs' \<le> n"
        using Suc(1) [OF H(1)] by blast
      then have "w_calls (wake_loop n w1 f pend1) = w_calls w @ (cs @ cs') \<and> length (cs @ cs') \<le> Suc n" using cs by simp
      with Suc(1) [OF H(1), of pend1] H(2,3) h True show ?thesis by (simp del: length_append)
    next
      case False
      with h H(1-3) cs show ?thesis by auto
    qed
  qed simp
  then show "pool_inv h (w_pools (wake_loop n w f pend) f)" "g \<noteq> f \<Longrightarrow> w_pools (wake_loop n w f pend) g = w_pools w g"
    "w_anomaly (wake_loop n w f pend) = w_anomaly w"
    "\<exists>cs. w_calls (wake_loop n w f pend) = w_calls w @ cs \<and> length cs \<le> n" by blast+
qed

lemma fc_queue_wake_room_ok:
  assumes "pool_inv h (w_pools w f)"
  shows "pool_inv h (w_pools (fc_queue_wake_room w (Some f)) f)"
    "g \<noteq> f \<Longrightarrow> w_pools (fc_queue_wake_room w (Some f)) g = w_pools w g"
    "w_anomaly (fc_queue_wake_room w (Some f)) = w_anomaly w"
    "c_mode (s_cfg (w_pools w f)) = FC_MODE_ENFORCE \<Longrightarrow> fc_svc_cap (w_pools w f) \<noteq> 0 \<Longrightarrow>
       \<exists>cs. w_calls (fc_queue_wake_room w (Some f)) = w_calls w @ cs \<and>
         length cs \<le> unat (fc_svc_cap (w_pools w f)) - unat (s_inflight (w_pools w f))"
proof -
  let ?s = "w_pools w f"
  note W = wake_loop_ok [OF assms]
  show "pool_inv h (w_pools (fc_queue_wake_room w (Some f)) f)"
    "w_anomaly (fc_queue_wake_room w (Some f)) = w_anomaly w"
    using assms W(1,3) by (simp_all add: fc_queue_wake_room_def Let_def)
  show "w_pools (fc_queue_wake_room w (Some f)) g = w_pools w g" if "g \<noteq> f"
    using W(2) [OF that] by (simp add: fc_queue_wake_room_def Let_def)
  show "\<exists>cs. w_calls (fc_queue_wake_room w (Some f)) = w_calls w @ cs \<and> length cs \<le> unat (fc_svc_cap ?s) - unat (s_inflight ?s)"
    if en: "c_mode (s_cfg ?s) = FC_MODE_ENFORCE" "fc_svc_cap ?s \<noteq> 0"
  proof (cases "w_wake_hook w = None \<or> s_queued ?s = 0 \<or> s_inflight ?s \<ge> fc_svc_cap ?s")
    case True
    then have "fc_queue_wake_room w (Some f) = w" using en by (auto simp: fc_queue_wake_room_def Let_def)
    then show ?thesis by auto
  next
    case False
    define n where "n = unat (if fc_svc_cap ?s - s_inflight ?s < s_queued ?s then fc_svc_cap ?s - s_inflight ?s else s_queued ?s)"
    have eq: "fc_queue_wake_room w (Some f) = wake_loop n w f (\<lambda>_. 0)"
      using False en by (auto simp: fc_queue_wake_room_def Let_def n_def)
    have "n \<le> unat (fc_svc_cap ?s - s_inflight ?s)" by (auto simp: n_def word_less_nat_alt)
    also have "\<dots> = unat (fc_svc_cap ?s) - unat (s_inflight ?s)" using False by (intro unat_sub) auto
    finally show ?thesis using W(4) [of n "\<lambda>_. 0"] unfolding eq by (meson le_trans)
  qed
qed

lemma fc_queue_wake_one_ok:
  assumes "pool_inv h (w_pools w f)"
  shows "pool_inv h (w_pools (fc_queue_wake_one w (Some f)) f)"
    "g \<noteq> f \<Longrightarrow> w_pools (fc_queue_wake_one w (Some f)) g = w_pools w g"
    "w_anomaly (fc_queue_wake_one w (Some f)) = w_anomaly w"
proof -
  obtain woken w1 pend1 where h: "fc_queue_wake_head w f (\<lambda>_. 0) = (woken, w1, pend1)" by (metis surj_pair)
  note H = fc_queue_wake_head_ok [OF assms h]
  show "pool_inv h (w_pools (fc_queue_wake_one w (Some f)) f)" "w_anomaly (fc_queue_wake_one w (Some f)) = w_anomaly w"
    using H(1,3) assms h by (simp_all add: fc_queue_wake_one_def)
  show "w_pools (fc_queue_wake_one w (Some f)) g = w_pools w g" if "g \<noteq> f"
    using H(2) [OF that] h by (simp add: fc_queue_wake_one_def)
qed

text \<open>A unit is free, somebody can run and the hook delivers: one waiter gets its turn.\<close>

lemma fc_queue_wake_one_wakes:
  assumes inv: "pool_inv h (w_pools w f)" and hook: "w_wake_hook w = Some hk" "\<And>cs fd gen. hk cs fd gen"
    and room: "fc_has_room (w_pools w f)" and floors: "\<not> fc_floors_apply (w_pools w f) (fc_svc_cap (w_pools w f))"
    and run: "e \<in> set (waiters (w_pools w f))" "ent_runnable (s_tt (w_pools w f)) (fc_tenant_svc_bound (w_pools w f)) e"
  shows "\<exists>x \<in> set (waiters (w_pools w f)). ent_runnable (s_tt (w_pools w f)) (fc_tenant_svc_bound (w_pools w f)) x \<and>
    waiters (w_pools (fc_queue_wake_one w (Some f)) f) = remove1 x (waiters (w_pools w f)) \<and>
    w_calls (fc_queue_wake_one w (Some f)) = w_calls w @ [Wake (e_fd x) (e_gen x)]"
proof -
  let ?s = "w_pools w f"
  obtain woken w1 pend1 where h: "fc_queue_wake_head w f (\<lambda>_. 0) = (woken, w1, pend1)" by (metis surj_pair)
  obtain r s u where p: "fc_ring_pop_runnable ?s (\<lambda>_. 0) = (r, s, u)" by (metis surj_pair)
  have "r \<noteq> None" using fc_ring_pop_runnable_ok(5) [OF pool_invD(3) [OF inv] p _ floors run(1)] run(2) by blast
  then have woken using h p hook by (auto simp: fc_queue_wake_head_def Let_def wake_call_def split: prod.splits)
  have "length (waiters ?s) \<noteq> 0" "length (waiters ?s) \<le> 65536"
    using run(1) waiters_bound [OF pool_invD(3) [OF inv]] by auto
  moreover have "s_queued ?s = of_nat (length (waiters ?s))"
    using pool_invD(2) [OF inv] ring_invD(2) [OF pool_invD(3) [OF inv]] by (simp add: pool_mirrors_def)
  ultimately have "unat (s_queued ?s) \<noteq> 0" by (simp add: unat_of_nat)
  then have "s_queued ?s \<noteq> 0" by auto
  then have "fc_queue_wake_one w (Some f) = w1" using h hook room by (simp add: fc_queue_wake_one_def)
  with fc_queue_wake_head_ok(5) [OF inv h \<open>woken\<close>] show ?thesis by auto
qed

section \<open>Drain and visit\<close>

text \<open>
  With a callback that leaves the pool alone the drain ends after one round per waiter and empties
  the queue.
\<close>

lemma drain_loop_ok:
  assumes "pool_inv h (w_pools w f)" "\<And>g e w. fn = Some g \<Longrightarrow> w_pools (snd (g e w)) f = w_pools w f"
    "length (waiters (w_pools w f)) \<le> fuel"
  shows "\<exists>w'. drain_loop fuel w f fn = Some w' \<and> pool_inv h (w_pools w' f) \<and> waiters (w_pools w' f) = [] \<and>
    (fn = None \<longrightarrow> s_decisions (w_pools w' f) FC_R_DRAINED =
       s_decisions (w_pools w f) FC_R_DRAINED + of_nat (length (waiters (w_pools w f))))"
  using assms(1,3)
proof (induction fuel arbitrary: w)
  case 0
  obtain r s an where p: "fc_queue_pop (w_pools w f) = (r, s, an)" by (metis surj_pair)
  note P = fc_queue_pop_ok [OF 0(1) p]
  have "r = None" using P(3) 0(2) by (cases r) auto
  moreover have "s_decisions s = s_decisions (w_pools w f)"
    using p \<open>r = None\<close> by (auto simp: fc_queue_pop_def fc_queue_publish_def split: prod.splits option.splits)
  ultimately show ?case using P p 0 by (subst drain_loop.simps) (simp add: Let_def)
next
  case (Suc n)
  obtain r s an where p: "fc_queue_pop (w_pools w f) = (r, s, an)" by (metis surj_pair)
  note P = fc_queue_pop_ok [OF Suc(2) p]
  have dec: "s_decisions s = s_decisions (w_pools w f)"
    using p by (auto simp: fc_queue_pop_def fc_queue_publish_def Let_def split: prod.splits option.splits)
  show ?case
  proof (cases r)
    case None
    with P p dec show ?thesis by (subst drain_loop.simps) (simp add: Let_def)
  next
    case (Some e)
    obtain b w1 where c: "(case fn of None \<Rightarrow> (True, w_set w f s) | Some g \<Rightarrow> g e (w_set w f s)) = (b, w1)" by fastforce
    have w1: "w_pools w1 f = s" using c assms(2) [of _ e "w_set w f s"] by (auto split: option.splits)
    have b: "fn = None \<longrightarrow> b \<and> w1 = w_set w f s" using c by auto
    define w2 where "w2 = (if b then w_set w1 f (fc_count (w_pools w1 f) FC_R_DRAINED) else w1)"
    have w2: "pool_inv h (w_pools w2 f)" "waiters (w_pools w2 f) = waiters s"
      using P(1) w1 by (simp_all add: w2_def)
    have "length (waiters (w_pools w2 f)) \<le> n" using P(3) Some Suc(3) w2(2) by simp
    from Suc(1) [OF w2(1) this] obtain w' where w': "drain_loop n w2 f fn = Some w'" "pool_inv h (w_pools w' f)"
      "waiters (w_pools w' f) = []" "fn = None \<longrightarrow> s_decisions (w_pools w' f) FC_R_DRAINED =
         s_decisions (w_pools w2 f) FC_R_DRAINED + of_nat (length (waiters (w_pools w2 f)))" by blast
    have "drain_loop (Suc n) w f fn = drain_loop n w2 f fn"
      using p Some P(2) c by (subst drain_loop.simps) (simp add: Let_def w2_def cong: option.case_cong)
    moreover have "fn = None \<longrightarrow> s_decisions (w_pools w2 f) FC_R_DRAINED = s_decisions (w_pools w f) FC_R_DRAINED + 1"
      using b dec w1 by (auto simp: w2_def fc_count_def)
    moreover have "length (waiters (w_pools w f)) = Suc (length (waiters (w_pools w2 f)))" using P(3) Some w2(2) by simp
    ultimately show ?thesis using w' by (auto simp: algebra_simps)
  qed
qed

lemma visit_fold:
  "fold (\<lambda>i (n, ctx). let e = ent i in if e_live e then (n + 1, fn e ctx) else (n, ctx)) xs (n, ctx) =
     (n + length (filter e_live (map ent xs)), fold fn (filter e_live (map ent xs)) ctx)"
  by (induction xs arbitrary: n ctx) (simp_all add: Let_def)

lemma fc_queue_visit_eq:
  assumes "ring_inv (s_queue s)"
  shows "fc_queue_visit s fn ctx = (length (waiters s), fold fn (waiters s) ctx)"
proof -
  have ok: "ring_ok (s_queue s)" by (rule ring_invD(1) [OF assms])
  have w: "filter e_live (map (\<lambda>i. q_ring (s_queue s) ! i) (fc_ring_span (s_queue s))) = waiters s"
    by (simp add: ring_live_def map_span [OF ok])
  show ?thesis
  proof (cases "q_cap (s_queue s) = 0")
    case True
    with ok have "waiters s = []" by (simp add: ring_live_def ring_seq_def seg_def ring_ok_def)
    with True show ?thesis by (simp add: fc_queue_visit_def)
  next
    case False
    with visit_fold [of "\<lambda>i. q_ring (s_queue s) ! i" fn "fc_ring_span (s_queue s)" 0 ctx] show ?thesis
      unfolding w by (simp add: fc_queue_visit_def Let_def)
  qed
qed

section \<open>The answers owed to the evicted\<close>

lemma evicted_at_Some:
  "evicted_at P xs = Some i \<Longrightarrow> \<exists>us x vs. xs = us @ x # vs \<and> P x \<and> (\<forall>u \<in> set us. \<not> P u) \<and> fc_evicted_drop xs i = us @ vs"
proof (induction xs arbitrary: i)
  case (Cons x xs)
  show ?case
  proof (cases "P x")
    case True
    with Cons(2) have "x # xs = [] @ x # xs \<and> P x \<and> (\<forall>u \<in> set []. \<not> P u) \<and> fc_evicted_drop (x # xs) i = [] @ xs" by simp
    then show ?thesis by blast
  next
    case False
    with Cons(2) obtain j where j: "evicted_at P xs = Some j" "i = Suc j" by auto
    from Cons(1) [OF j(1)] obtain us y vs where
      "xs = us @ y # vs" "P y" "\<forall>u \<in> set us. \<not> P u" "fc_evicted_drop xs j = us @ vs" by blast
    with False j(2) have "x # xs = (x # us) @ y # vs \<and> P y \<and> (\<forall>u \<in> set (x # us). \<not> P u) \<and> fc_evicted_drop (x # xs) i = (x # us) @ vs"
      by simp
    then show ?thesis by blast
  qed
qed simp

lemma evicted_at_None: "evicted_at P xs = None \<longleftrightarrow> (\<forall>x \<in> set xs. \<not> P x)"
  by (induction xs) auto

lemma evicted_remove1: "(case evicted_at (\<lambda>y. y = x) xs of None \<Rightarrow> xs | Some k \<Rightarrow> fc_evicted_drop xs k) = remove1 x xs"
proof (induction xs)
  case (Cons y xs)
  then show ?case by (cases "evicted_at (\<lambda>y. y = x) xs") auto
qed simp

text \<open>A claim takes the first answer owed to the connection off the list, and nothing else.\<close>

lemma fc_queue_evicted_claim_ok:
  assumes "fc_queue_evicted_claim s fd gen = (won, s')"
  shows "won \<longleftrightarrow> 0 \<le> fd \<and> (\<exists>x \<in> set (q_evicted (s_queue s)). ev_is fd gen x)"
    "s' = s\<lparr>s_queue := (s_queue s)\<lparr>q_evicted := q_evicted (s_queue s')\<rparr>\<rparr>"
    "won \<Longrightarrow> \<exists>us x vs. q_evicted (s_queue s) = us @ x # vs \<and> ev_is fd gen x \<and> q_evicted (s_queue s') = us @ vs"
    "\<not> won \<Longrightarrow> s' = s"
proof -
  let ?evs = "q_evicted (s_queue s)"
  have "(won \<longleftrightarrow> 0 \<le> fd \<and> (\<exists>x \<in> set ?evs. ev_is fd gen x)) \<and>
    s' = s\<lparr>s_queue := (s_queue s)\<lparr>q_evicted := q_evicted (s_queue s')\<rparr>\<rparr> \<and>
    (won \<longrightarrow> (\<exists>us x vs. ?evs = us @ x # vs \<and> ev_is fd gen x \<and> q_evicted (s_queue s') = us @ vs)) \<and> (\<not> won \<longrightarrow> s' = s)"
  proof (cases "fd < 0 \<or> evicted_at (ev_is fd gen) ?evs = None")
    case True
    then have "won = False" "s' = s"
      using assms by (auto simp: fc_queue_evicted_claim_def fc_evicted_take_def fc_queue_evicted_def split: if_splits)
    with True show ?thesis by (auto simp: evicted_at_None)
  next
    case False
    then obtain i where i: "evicted_at (ev_is fd gen) ?evs = Some i" by auto
    from evicted_at_Some [OF i] obtain us x vs where x: "?evs = us @ x # vs" "ev_is fd gen x" "fc_evicted_drop ?evs i = us @ vs"
      by blast
    then have "won" "s' = s\<lparr>s_queue := (s_queue s)\<lparr>q_evicted := us @ vs\<rparr>\<rparr>"
      using assms False i by (auto simp: fc_queue_evicted_claim_def fc_evicted_take_def fc_queue_evicted_def Let_def split: if_splits)
    with x False show ?thesis by auto
  qed
  then show "won \<longleftrightarrow> 0 \<le> fd \<and> (\<exists>x \<in> set ?evs. ev_is fd gen x)"
    "s' = s\<lparr>s_queue := (s_queue s)\<lparr>q_evicted := q_evicted (s_queue s')\<rparr>\<rparr>"
    "won \<Longrightarrow> \<exists>us x vs. ?evs = us @ x # vs \<and> ev_is fd gen x \<and> q_evicted (s_queue s') = us @ vs"
    "\<not> won \<Longrightarrow> s' = s" by blast+
qed

text \<open>The sweep takes every answer it found old enough off the list, once each.\<close>

lemma sweep_drop_remove1: "sweep_drop xs evs = fold remove1 xs evs"
  by (induction xs arbitrary: evs) (simp_all add: evicted_remove1)

end
