(* ===== verification/FC_Gate.thy ===== *)
theory FC_Gate
  imports FC_Waits
begin

text \<open>
  The gate of a request: the service unit (\<open>fc_service_acquire__\<close> and the pool with a tenant share,
  \<open>fc_service_acquire_shared\<close>), the endpoint unit of each leg (\<open>fc_ep_acquire\<close>, \<open>fc_ep_acquire_any\<close>,
  \<open>fc_permit_move\<close>, \<open>fc_release_role\<close>) and the release of a permit (\<open>fc_permit_release__\<close>), from
  \<open>common/sockproxy_fc.c\<close>, section "gate".
\<close>

section \<open>Operations\<close>

definition fc_pool_active :: "fc_world \<Rightarrow> pool_ref option \<Rightarrow> bool" where
  "fc_pool_active w fc = (case fc of None \<Rightarrow> False | Some f \<Rightarrow> fc_active (w_pools w f))"

definition fc_bypass :: "fc_world \<Rightarrow> pool_ref option \<Rightarrow> fc_permit \<Rightarrow> fc_world \<times> fc_permit" where
  "fc_bypass w fc p =
     (let (w, p) = fc_permit_bind w p fc; p = p\<lparr>p_state := FC_P_BYPASS\<rparr>
      in (case fc of None \<Rightarrow> w
          | Some f \<Rightarrow> if fc_active (w_pools w f) then w_set w f (fc_count (w_pools w f) FC_R_BYPASS_NON_INFERENCE) else w,
          p))"

definition fc_band_unit_take :: "fc_state \<Rightarrow> fc_permit \<Rightarrow> fc_state" where
  "fc_band_unit_take s p =
     (if fc_band_counted (p_band p)
      then s\<lparr>s_band_inflight := (s_band_inflight s)(p_band p := s_band_inflight s (p_band p) + 1)\<rparr> else s)"

definition fc_band_unit_give :: "fc_state \<Rightarrow> fc_permit \<Rightarrow> fc_state \<times> fc_anomaly list" where
  "fc_band_unit_give s p =
     (if fc_band_counted (p_band p)
      then let (c, an) = fc_unit_give (s_band_inflight s (p_band p))
           in (s\<lparr>s_band_inflight := (s_band_inflight s)(p_band p := c)\<rparr>, an)
      else (s, []))"

text \<open>\<open>fc_unit_take\<close> and \<open>fc_unit_give\<close> on \<open>inflight\<close> with no ceiling and on an endpoint's counter.\<close>

definition take_over :: "fc_state \<Rightarrow> fc_state" where
  "take_over s = (case take_inflight 0 s of None \<Rightarrow> s | Some s' \<Rightarrow> s')"

definition take_ep :: "u32 \<Rightarrow> nat \<Rightarrow> fc_role \<Rightarrow> fc_state \<Rightarrow> fc_state option" where
  "take_ep cap ep r s =
     map_option (\<lambda>c. s\<lparr>s_ep_inflight := (s_ep_inflight s)(ep := (s_ep_inflight s ep)(r := c))\<rparr>)
       (fc_unit_take (s_ep_inflight s ep r) cap)"

definition give_ep :: "nat \<Rightarrow> fc_role \<Rightarrow> fc_state \<Rightarrow> fc_state \<times> fc_anomaly list" where
  "give_ep ep r s =
     (let (c, an) = fc_unit_give (s_ep_inflight s ep r)
      in (s\<lparr>s_ep_inflight := (s_ep_inflight s)(ep := (s_ep_inflight s ep)(r := c))\<rparr>, an))"

text \<open>What an observing pool counts where an enforcing one would have refused.\<close>

definition observe_reason :: "fc_state \<Rightarrow> fc_reason" where
  "observe_reason s = (if c_max_queue_depth (s_cfg s) > 0 then FC_R_OBSERVE_WOULD_QUEUE else FC_R_OBSERVE_WOULD_SHED)"

text \<open>The part of \<open>fc_service_acquire_shared\<close> under the queue lock: verdict, tenant slot, pool, anomalies.\<close>

definition fc_acquire_shared_locked ::
  "(nat \<Rightarrow> bool) \<Rightarrow> fc_state \<Rightarrow> fc_permit \<Rightarrow> bool \<Rightarrow> bool \<Rightarrow> fc_verdict \<times> int \<times> fc_state \<times> fc_anomaly list" where
  "fc_acquire_shared_locked ok s p can_queue woken =
     (let enforce = (c_mode (s_cfg s) = FC_MODE_ENFORCE); bound = fc_tenant_svc_bound s;
          (slot, tt, an) = fc_tenant_get ok (q_dead (s_queue s)) (s_tt s) (p_tkey p) (\<not> woken);
          s = s\<lparr>s_tt := tt\<rparr>;
          admitted = (\<lambda>s. (FC_ADMIT, slot,
                            if slot \<ge> 0 then s\<lparr>s_tt := fc_tenant_inc (s_tt s) (nat slot) False\<rparr> else s, an));
          refused = (\<lambda>v s. (v, slot, s\<lparr>s_tt := fc_tenant_put (s_tt s) slot\<rparr>, an))
      in if slot \<ge> 0 \<and> bound \<noteq> 0 \<and> t_inflight (tts tt ! nat slot) \<ge> bound
         then if enforce
              then refused (if can_queue \<and> fc_queue_enabled s \<and> fc_band_may_wait s p then FC_QUEUE else FC_TENANT_SHARE) s
              else admitted (take_over (fc_count s FC_R_OBSERVE_WOULD_SHED))
         else
           let (ahead, s) = (if enforce \<and> fc_queue_enabled s \<and> \<not> woken then fc_band_waiter_can_run s (p_band p) bound
                             else (False, s));
               cap = fc_svc_cap s;
               wait = (if fc_floors_apply s cap \<and> s_queued s > 0 then Some (fc_floor_waiting_runnable s bound) else None)
           in case (if ahead then None else fc_unit_take_band s (p_band p) cap wait) of
                Some s \<Rightarrow> admitted s
              | None \<Rightarrow>
                if enforce
                then refused (fc_band_verdict s p (if can_queue \<and> fc_queue_enabled s then FC_QUEUE else FC_SHED)) s
                else admitted (take_over (fc_count s (observe_reason s))))"

definition fc_service_acquire_shared ::
  "fc_world \<Rightarrow> pool_ref \<Rightarrow> fc_permit \<Rightarrow> bool \<Rightarrow> bool \<Rightarrow> fc_verdict \<times> fc_world \<times> fc_permit" where
  "fc_service_acquire_shared w f p can_queue woken =
     (let (v, slot, s, an) = fc_acquire_shared_locked (w_calloc w) (w_pools w f) p can_queue woken
      in if v = FC_ADMIT
         then (FC_ADMIT, w_note (w_set w f (fc_band_unit_take s p)) an,
               p\<lparr>p_tslot := slot, p_svc_held := True, p_state := FC_P_EXECUTING, p_woken := woken\<rparr>)
         else (v, w_note (w_set w f s) an, p\<lparr>p_state := FC_P_NONE\<rparr>))"

definition fc_service_acquire_with ::
  "fc_world \<Rightarrow> pool_ref option \<Rightarrow> fc_permit \<Rightarrow> bool \<Rightarrow> bool \<Rightarrow> u64 \<Rightarrow> int \<Rightarrow> fc_verdict \<times> fc_world \<times> fc_permit" where
  "fc_service_acquire_with w fc p can_queue woken tkey band =
     (let enq = (if woken then p_q_enqueue_ns p else 0);
          deadline = (if woken then p_q_deadline_ns p else 0);
          parked = (if woken then p_q_parked p else False);
          ttl_cut = (if woken then p_q_ttl_cut p else False);
          (w, p) = fc_permit_bind w p fc;
          p = p\<lparr>p_q_parked := parked, p_q_ttl_cut := ttl_cut, p_q_enqueue_ns := enq, p_q_deadline_ns := deadline,
                p_tkey := tkey, p_band := fc_band_of band\<rparr>
      in case fc of None \<Rightarrow> (FC_ADMIT, w, p\<lparr>p_state := FC_P_BYPASS\<rparr>)
         | Some f \<Rightarrow>
           let s = w_pools w f; enforce = (c_mode (s_cfg s) = FC_MODE_ENFORCE)
           in if \<not> fc_active s then (FC_ADMIT, w, p\<lparr>p_state := FC_P_BYPASS\<rparr>)
              else if enforce \<and> fc_draining w then (FC_DRAINING, w, p\<lparr>p_state := FC_P_NONE\<rparr>)
              else if fc_share_active s then fc_service_acquire_shared w f p can_queue woken
              else
                let ahead = (enforce \<and> fc_queue_enabled s \<and> \<not> woken \<and> fc_waiters_ahead s (p_band p));
                    admitted = (\<lambda>s. (FC_ADMIT, w_set w f (fc_band_unit_take s p),
                                      p\<lparr>p_svc_held := True, p_state := FC_P_EXECUTING, p_woken := woken\<rparr>))
                in case (if ahead then None else fc_unit_take_band s (p_band p) (fc_svc_cap s) None) of
                     Some s \<Rightarrow> admitted s
                   | None \<Rightarrow>
                     if enforce
                     then (fc_band_verdict s p (if can_queue \<and> fc_queue_enabled s then FC_QUEUE else FC_SHED), w,
                           p\<lparr>p_state := FC_P_NONE\<rparr>)
                     else admitted (take_over (fc_count s (observe_reason s))))"

definition fc_service_acquire :: "fc_world \<Rightarrow> pool_ref option \<Rightarrow> fc_permit \<Rightarrow> fc_verdict \<times> fc_world \<times> fc_permit" where
  "fc_service_acquire w fc p = fc_service_acquire_with w fc p False False (fc_tenant_key None) 0"

definition fc_service_acquire_h1 ::
  "fc_world \<Rightarrow> pool_ref option \<Rightarrow> fc_permit \<Rightarrow> bool \<Rightarrow> fc_verdict \<times> fc_world \<times> fc_permit" where
  "fc_service_acquire_h1 w fc p woken = fc_service_acquire_with w fc p True woken (fc_tenant_key None) 0"

definition fc_service_acquire_tenant ::
  "fc_world \<Rightarrow> pool_ref option \<Rightarrow> fc_permit \<Rightarrow> u64 \<Rightarrow> fc_verdict \<times> fc_world \<times> fc_permit" where
  "fc_service_acquire_tenant w fc p tkey = fc_service_acquire_with w fc p False False tkey 0"

definition fc_service_acquire_h1_tenant ::
  "fc_world \<Rightarrow> pool_ref option \<Rightarrow> fc_permit \<Rightarrow> bool \<Rightarrow> u64 \<Rightarrow> fc_verdict \<times> fc_world \<times> fc_permit" where
  "fc_service_acquire_h1_tenant w fc p woken tkey = fc_service_acquire_with w fc p True woken tkey 0"

definition fc_service_acquire_band ::
  "fc_world \<Rightarrow> pool_ref option \<Rightarrow> fc_permit \<Rightarrow> u64 \<Rightarrow> int \<Rightarrow> fc_verdict \<times> fc_world \<times> fc_permit" where
  "fc_service_acquire_band w fc p tkey band = fc_service_acquire_with w fc p False False tkey band"

definition fc_service_acquire_h1_band ::
  "fc_world \<Rightarrow> pool_ref option \<Rightarrow> fc_permit \<Rightarrow> bool \<Rightarrow> u64 \<Rightarrow> int \<Rightarrow> fc_verdict \<times> fc_world \<times> fc_permit" where
  "fc_service_acquire_h1_band w fc p woken tkey band = fc_service_acquire_with w fc p True woken tkey band"

text \<open>The endpoint unit.\<close>

definition fc_ep_over_cap :: "fc_world \<Rightarrow> pool_ref option \<Rightarrow> int \<Rightarrow> int \<Rightarrow> bool" where
  "fc_ep_over_cap w fc ep role \<longleftrightarrow>
     (case fc of None \<Rightarrow> False
      | Some f \<Rightarrow>
        let s = w_pools w f; cap = fc_ep_cap_now s (w_clock w) ep role 0
        in fc_active s \<and> c_mode (s_cfg s) = FC_MODE_ENFORCE \<and> ep_ok ep \<and> role_of role \<noteq> None \<and>
           cap \<noteq> 0 \<and> fc_ep_inflight s ep role \<ge> cap)"

definition fc_ep_acquire ::
  "fc_world \<Rightarrow> pool_ref option \<Rightarrow> fc_permit \<Rightarrow> int \<Rightarrow> int \<Rightarrow> fc_verdict \<times> fc_world \<times> fc_permit" where
  "fc_ep_acquire w fc p ep role =
     (case (fc, role_of role) of
        (Some f, Some r) \<Rightarrow>
          let s = w_pools w f
          in if \<not> fc_active s \<or> p_state p \<noteq> FC_P_EXECUTING \<or> \<not> ep_ok ep \<or> p_ep p r = ep then (FC_ADMIT, w, p)
             else
               let landed = (\<lambda>s.
                     let had_leg = list_ex (\<lambda>r. p_ep p r \<ge> 0) fc_roles_all;
                         (s, an) = (if p_ep p r \<ge> 0 then give_ep (nat (p_ep p r)) r s else (s, []));
                         w = w_note (w_set w f s) an;
                         p = p\<lparr>p_ep := (p_ep p)(r := ep)\<rparr>
                     in if had_leg then (FC_ADMIT, w, p)
                        else let w = w_set w f (fc_count_band (w_pools w f) FC_R_ADMITTED (p_band p));
                                 p = p\<lparr>p_admit_ns := w_clock w\<rparr>;
                                 (w, p) = fc_queue_wait_end w fc p (p_admit_ns p)
                             in (FC_ADMIT, w, p))
               in case take_ep (fc_ep_cap_now s (w_clock w) ep role 0) (nat ep) r s of
                    Some s \<Rightarrow> landed s
                  | None \<Rightarrow>
                    if c_mode (s_cfg s) = FC_MODE_ENFORCE then (FC_SHED, w, p)
                    else let s = fc_count s (observe_reason s)
                         in landed (case take_ep 0 (nat ep) r s of Some s \<Rightarrow> s | None \<Rightarrow> s)
      | _ \<Rightarrow> (FC_ADMIT, w, p))"

text \<open>
  The first endpoint with room, the preferred one first. \<open>eligible\<close> is the caller's callback; the
  result is the endpoint (\<open>-1\<close> for none) and the verdict.
\<close>

fun ep_try ::
  "fc_world \<Rightarrow> pool_ref option \<Rightarrow> fc_permit \<Rightarrow> int \<Rightarrow> int \<Rightarrow> (int \<Rightarrow> bool) \<Rightarrow> int list \<Rightarrow> bool \<Rightarrow>
   int \<times> bool \<times> fc_world \<times> fc_permit" where
  "ep_try w fc p role preferred eligible [] any = (-1, any, w, p)"
| "ep_try w fc p role preferred eligible (i # is') any =
     (if i = preferred \<or> \<not> eligible i then ep_try w fc p role preferred eligible is' any
      else if fc_ep_over_cap w fc i role then ep_try w fc p role preferred eligible is' True
      else case fc_ep_acquire w fc p i role of
             (v, w, p) \<Rightarrow> if v = FC_ADMIT then (i, True, w, p) else ep_try w fc p role preferred eligible is' True)"

definition fc_ep_acquire_any ::
  "fc_world \<Rightarrow> pool_ref option \<Rightarrow> fc_permit \<Rightarrow> int \<Rightarrow> int \<Rightarrow> int \<Rightarrow> (int \<Rightarrow> bool) \<Rightarrow>
   int \<times> fc_verdict \<times> fc_world \<times> fc_permit" where
  "fc_ep_acquire_any w fc p role preferred n_eps eligible =
     (if p_state p \<noteq> FC_P_EXECUTING \<or> \<not> fc_pool_active w fc then (preferred, FC_ADMIT, w, p)
      else
        let n_eps = (if n_eps > int FC_MAX_EP then int FC_MAX_EP else n_eps);
            asked = (0 \<le> preferred \<and> preferred < n_eps \<and> eligible preferred);
            (v, w, p) = (if asked then fc_ep_acquire w fc p preferred role else (FC_SHED, w, p))
        in if asked \<and> v = FC_ADMIT then (preferred, FC_ADMIT, w, p)
           else case ep_try w fc p role preferred eligible (map int [0..<nat n_eps]) asked of
                  (i, any, w, p) \<Rightarrow>
                    if i \<ge> 0 then (i, FC_ADMIT, w, p)
                    else if any then (-1, FC_SHED, w, p)
                    else (-1, FC_NO_CAPACITY,
                          case fc of None \<Rightarrow> w | Some f \<Rightarrow> w_set w f (fc_count (w_pools w f) FC_R_NO_HEALTHY_CAPACITY), p))"

definition fc_permit_move :: "fc_world \<Rightarrow> fc_permit \<Rightarrow> int \<Rightarrow> int \<Rightarrow> int \<times> fc_world \<times> fc_permit" where
  "fc_permit_move w p role new_ep =
     (case (p_fc p, role_of role) of
        (Some f, Some r) \<Rightarrow>
          let s = w_pools w f; old = p_ep p r
          in if p_state p \<noteq> FC_P_EXECUTING \<or> \<not> fc_active s then (0, w, p)
             else if \<not> ep_ok new_ep then (-1, w, p)
             else if old = new_ep then (0, w, p)
             else
               let moved = (\<lambda>s.
                     let (s, an) = (if old \<ge> 0 then give_ep (nat old) r s else (s, []))
                     in (0, w_note (w_set w f s) an, p\<lparr>p_ep := (p_ep p)(r := new_ep)\<rparr>))
               in case take_ep (fc_ep_cap_now s (w_clock w) new_ep role 0) (nat new_ep) r s of
                    Some s \<Rightarrow> moved s
                  | None \<Rightarrow>
                    if c_mode (s_cfg s) = FC_MODE_ENFORCE then (-1, w_set w f (fc_count s FC_R_CAPACITY_SHED), p)
                    else let s = fc_count s FC_R_OBSERVE_WOULD_SHED
                         in moved (case take_ep 0 (nat new_ep) r s of Some s \<Rightarrow> s | None \<Rightarrow> s)
      | _ \<Rightarrow> (0, w, p))"

definition fc_release_role :: "fc_world \<Rightarrow> fc_permit \<Rightarrow> int \<Rightarrow> fc_world \<times> fc_permit" where
  "fc_release_role w p role =
     (case role_of role of None \<Rightarrow> (w, p)
      | Some r \<Rightarrow>
        if p_state p \<noteq> FC_P_EXECUTING \<or> p_ep p r < 0 then (w, p)
        else let p' = p\<lparr>p_ep := (p_ep p)(r := -1)\<rparr>
             in case p_fc p of None \<Rightarrow> (w_note w [FC_A_UNKNOWN_PERMIT], p')
                | Some f \<Rightarrow> let (s, an) = give_ep (nat (p_ep p r)) r (w_pools w f) in (w_note (w_set w f s) an, p'))"

text \<open>The wait of a request that is gone: its entry, its owed answer, or its turn passed on.\<close>

definition fc_release_queued :: "fc_world \<Rightarrow> fc_permit \<Rightarrow> bool \<Rightarrow> fc_world \<times> fc_permit" where
  "fc_release_queued w p wake =
     (case p_fc p of
        None \<Rightarrow> (w, p\<lparr>p_state := FC_P_RELEASED\<rparr>)
      | Some f \<Rightarrow>
        let (taken, s, p1, an) = fc_queue_take (w_pools w f) p
        in if taken
           then let w = w_note (w_set w f (fc_count_band s FC_R_CANCELLED (p_band p1))) an;
                    (w, p1) = fc_queue_wait_end w (Some f) p1 (w_clock w)
                in (w, p1\<lparr>p_state := FC_P_RELEASED\<rparr>)
           else let (claimed, s) = fc_queue_evicted_claim (w_pools w f) (p_q_fd p) (p_q_gen p)
                in if claimed
                   then (w_set w f s, (snd (fc_permit_settle p FC_P_RELEASED))\<lparr>p_q_parked := False, p_state := FC_P_RELEASED\<rparr>)
                   else let (won, p1) = fc_permit_settle p FC_P_RELEASED
                        in (if won \<and> wake then fc_queue_wake_one w (Some f) else w, p1\<lparr>p_state := FC_P_RELEASED\<rparr>))"

definition fc_release_executing :: "fc_world \<Rightarrow> fc_permit \<Rightarrow> bool \<Rightarrow> fc_world \<times> fc_permit" where
  "fc_release_executing w p wake =
     (let (w, p) = fold (\<lambda>role (w, p). fc_release_role w p role) [0, 1, 2] (w, p);
          w = (if \<not> p_svc_held p then w
               else case p_fc p of None \<Rightarrow> w_note w [FC_A_UNKNOWN_PERMIT]
                    | Some f \<Rightarrow>
                      let (s, an) = give_inflight (w_pools w f); (s, an') = fc_band_unit_give s p
                      in w_note (w_set w f s) (an @ an'));
          w = (case p_fc p of None \<Rightarrow> w
               | Some f \<Rightarrow>
                 if p_tslot p < 0 then w
                 else let s = w_pools w f; (tt, an) = fc_tenant_dec (s_tt s) (p_tslot p) False
                      in w_note (w_set w f (s\<lparr>s_tt := tt\<rparr>)) an);
          p = p\<lparr>p_svc_held := False, p_tslot := -1, p_state := FC_P_RELEASED\<rparr>
      in (if wake then fc_queue_wake_one w (p_fc p) else w, p))"

definition fc_permit_release_with :: "fc_world \<Rightarrow> fc_permit \<Rightarrow> bool \<Rightarrow> fc_world \<times> fc_permit" where
  "fc_permit_release_with w p wake =
     (case p_state p of
        FC_P_NONE \<Rightarrow> (w, p)
      | FC_P_RELEASED \<Rightarrow> (w, p)
      | FC_P_BYPASS \<Rightarrow> (w, p\<lparr>p_state := FC_P_RELEASED\<rparr>)
      | FC_P_QUEUED \<Rightarrow> fc_release_queued w p wake
      | FC_P_EVICTED \<Rightarrow> (w, p\<lparr>p_state := FC_P_RELEASED\<rparr>)
      | FC_P_ENDED \<Rightarrow> (w, p\<lparr>p_state := FC_P_RELEASED\<rparr>)
      | FC_P_EXECUTING \<Rightarrow> fc_release_executing w p wake)"

definition fc_permit_release :: "fc_world \<Rightarrow> fc_permit \<Rightarrow> fc_world \<times> fc_permit" where
  "fc_permit_release w p = fc_permit_release_with w p True"

definition fc_permit_release_nowake :: "fc_world \<Rightarrow> fc_permit \<Rightarrow> fc_world \<times> fc_permit" where
  "fc_permit_release_nowake w p = fc_permit_release_with w p False"

section \<open>Unit counters\<close>

text \<open>Every counter the gate moves is a unit counter.\<close>

lemma ep_upd_idem:
  "s_ep_inflight s ep r = c \<Longrightarrow> s\<lparr>s_ep_inflight := (s_ep_inflight s)(ep := (s_ep_inflight s ep)(r := c))\<rparr> = s"
  by (simp add: fun_upd_idem)

interpretation epc: unit_counter "\<lambda>s. s_ep_inflight s ep r" "\<lambda>cap. take_ep cap ep r" "give_ep ep r" for ep r
proof
qed (auto simp: take_ep_def give_ep_def fc_unit_take_def fc_unit_give_def Let_def ep_upd_idem split: if_splits)

lemma take_over_eq [simp]: "take_over s = s\<lparr>s_inflight := s_inflight s + 1\<rparr>"
  by (simp add: take_over_def take_inflight_def fc_unit_take_def)

lemma take_ep_Some:
  assumes "take_ep cap ep r s = Some s'"
  shows "s' = s\<lparr>s_ep_inflight := (s_ep_inflight s)(ep := (s_ep_inflight s ep)(r := s_ep_inflight s ep r + 1))\<rparr>"
    "cap = 0 \<or> s_ep_inflight s ep r < cap"
  using assms by (auto simp: take_ep_def fc_unit_take_def split: if_splits)

lemma take_ep_over: "take_ep 0 ep r s = Some (s\<lparr>s_ep_inflight := (s_ep_inflight s)(ep := (s_ep_inflight s ep)(r := s_ep_inflight s ep r + 1))\<rparr>)"
  by (simp add: take_ep_def fc_unit_take_def)

text \<open>Fields the gate's counters do not share.\<close>

lemma fc_band_unit_take_frame [simp]:
  "s_queue (fc_band_unit_take s p) = s_queue s" "s_tt (fc_band_unit_take s p) = s_tt s"
  "s_queued (fc_band_unit_take s p) = s_queued s" "s_band_queued (fc_band_unit_take s p) = s_band_queued s"
  "s_cfg (fc_band_unit_take s p) = s_cfg s" "s_inflight (fc_band_unit_take s p) = s_inflight s"
  "s_ep_inflight (fc_band_unit_take s p) = s_ep_inflight s" "pool_inv h (fc_band_unit_take s p) = pool_inv h s"
  by (auto simp: fc_band_unit_take_def pool_inv_def pool_core_def pool_mirrors_def)

lemma pool_inv_counters [simp]:
  "pool_inv h (s\<lparr>s_inflight := x\<rparr>) = pool_inv h s" "pool_inv h (s\<lparr>s_ep_inflight := y\<rparr>) = pool_inv h s"
  "pool_inv h (s\<lparr>s_band_inflight := z\<rparr>) = pool_inv h s"
  by (simp_all add: pool_inv_def pool_core_def pool_mirrors_def)

section \<open>The tenant's unit\<close>

lemma pool_inv_tt:
  assumes "pool_inv h s" "tt_inv tt'" "tq tt' = tq (s_tt s)" "ti tt' = h'"
  shows "pool_inv h' (s\<lparr>s_tt := tt'\<rparr>)"
  using assms by (simp add: pool_inv_def pool_core_def pool_mirrors_def)

lemma fc_tenant_recount_used [simp]: "t_used (tts (fc_tenant_recount tt i) ! j) = t_used (tts tt ! j)"
  by (simp add: fc_tenant_recount_def nth_update_same)

lemma fc_tenant_waiter_can_run_used:
  assumes "fc_tenant_waiter_can_run tt b = (r, tt')"
  shows "t_used (tts tt' ! j) = t_used (tts tt ! j)"
proof -
  have "t_used (tts (fold (\<lambda>i tt. fc_tenant_recount tt i) xs tt) ! j) = t_used (tts tt ! j)" for xs tt
    by (induction xs arbitrary: tt) simp_all
  from this [of "[0..<tt_slots tt + 1]" "tt\<lparr>tt_bound := b, tt_runnable_waiting := 0\<rparr>"] show ?thesis
    using assms by (auto simp: fc_tenant_waiter_can_run_def Let_def split: if_splits)
qed

lemma fc_band_waiter_can_run_ok:
  assumes inv: "pool_inv h s" and res: "fc_band_waiter_can_run s band bound = (r, s')"
  shows "pool_inv h s'" "s' = s\<lparr>s_tt := s_tt s'\<rparr>" "tt_has (s_tt s') sl = tt_has (s_tt s) sl"
    "t_used (tts (s_tt s') ! j) = t_used (tts (s_tt s) ! j)"
proof -
  obtain a tt' where t: "fc_tenant_waiter_can_run (s_tt s) bound = (a, tt')" by fastforce
  note T = fc_tenant_waiter_can_run_ok [OF pool_invD(4) [OF inv] t]
  have s': "s' = s\<lparr>s_tt := tt'\<rparr>" using res by (simp add: fc_band_waiter_can_run_def t Let_def)
  show "pool_inv h s'" unfolding s'
    by (rule pool_inv_tt [OF inv T(1,2)]) (simp add: T(3) pool_coreD(5) [OF pool_invD(1) [OF inv]])
  show "s' = s\<lparr>s_tt := s_tt s'\<rparr>" by (simp add: s')
  show "tt_has (s_tt s') sl = tt_has (s_tt s) sl" using T(4,5) by (simp add: s' tt_has_def)
  show "t_used (tts (s_tt s') ! j) = t_used (tts (s_tt s) ! j)"
    using fc_tenant_waiter_can_run_used [OF t] by (simp add: s')
qed

lemma fc_tenant_get_anomaly:
  "fc_tenant_get ok dead tt key cnt = (sl, tt', an) \<Longrightarrow> set an \<subseteq> {FC_A_TENANT_TABLE_FULL}"
  by (auto simp: fc_tenant_get_def Let_def split: prod.splits if_splits)

text \<open>The locked part of the shared gate, branch by branch.\<close>

definition shared_over :: "fc_state \<Rightarrow> int \<Rightarrow> fc_ttab \<Rightarrow> bool" where
  "shared_over s slot tt \<longleftrightarrow> slot \<ge> 0 \<and> fc_tenant_svc_bound s \<noteq> 0 \<and> t_inflight (tts tt ! nat slot) \<ge> fc_tenant_svc_bound s"

lemma bound_tt [simp]:
  "fc_tenant_svc_bound (s\<lparr>s_tt := tt\<rparr>) = fc_tenant_svc_bound s" "fc_queue_enabled (s\<lparr>s_tt := tt\<rparr>) = fc_queue_enabled s"
  "fc_svc_cap (s\<lparr>s_tt := tt\<rparr>) = fc_svc_cap s" "fc_floors_apply (s\<lparr>s_tt := tt\<rparr>) cap = fc_floors_apply s cap"
  "fc_band_may_wait (s\<lparr>s_tt := tt\<rparr>) p = fc_band_may_wait s p" "fc_band_verdict (s\<lparr>s_tt := tt\<rparr>) p v = fc_band_verdict s p v"
  by (simp_all add: fc_tenant_svc_bound_def fc_share_active_def fc_queue_enabled_def fc_svc_cap_def fc_floors_apply_def
      fc_floors_on_def fc_band_may_wait_def fc_band_verdict_def)

lemma fc_band_verdict_refuses: "v = FC_QUEUE \<or> v = FC_SHED \<Longrightarrow> fc_band_verdict s p v \<noteq> FC_ADMIT"
  by (auto simp: fc_band_verdict_def)

lemma admit_tenant:
  assumes inv: "pool_inv h s" and has: "0 \<le> sl \<Longrightarrow> tt_has (s_tt s) sl \<and> t_used (tts (s_tt s) ! nat sl)" and room: "h sl + 1 < 2 ^ 32"
  shows "pool_inv (if 0 \<le> sl then h(sl := h sl + 1) else h)
    (if sl \<ge> 0 then s\<lparr>s_tt := fc_tenant_inc (s_tt s) (nat sl) False\<rparr> else s)"
proof (cases "0 \<le> sl")
  case True
  have ti: "ti (s_tt s) = h" by (rule pool_coreD(5) [OF pool_invD(1) [OF inv]])
  then have "(if False then tq (s_tt s) sl else ti (s_tt s) sl) + 1 < 2 ^ 32" using room by simp
  note I = fc_tenant_inc_ok [OF pool_invD(4) [OF inv] conjunct1 [OF has [OF True]] conjunct2 [OF has [OF True]] this]
  have "pool_inv (h(sl := h sl + 1)) (s\<lparr>s_tt := fc_tenant_inc (s_tt s) (nat sl) False\<rparr>)"
    by (rule pool_inv_tt [OF inv I(1)]) (use I(2,3) ti in simp_all)
  with True show ?thesis by simp
qed (use inv in simp)

lemma refuse_tenant: "pool_inv h s \<Longrightarrow> pool_inv h (s\<lparr>s_tt := fc_tenant_put (s_tt s) sl\<rparr>)"
  using fc_tenant_put_inv(1-3) [OF pool_invD(4)] pool_coreD(5) [OF pool_invD(1)] by (intro pool_inv_tt) auto

lemma fc_acquire_shared_locked_ok:
  assumes inv: "pool_inv h s" and room: "\<And>sl. h sl + 1 < 2 ^ 32"
    and res: "fc_acquire_shared_locked ok s p cq woken = (v, slot, s', an)"
  shows "set an \<subseteq> {FC_A_TENANT_TABLE_FULL}" "s_band_inflight s' = s_band_inflight s" "s_ep_inflight s' = s_ep_inflight s"
    "s_cfg s' = s_cfg s" "s_queue s' = s_queue s"
    "pool_inv (if v = FC_ADMIT \<and> 0 \<le> slot then h(slot := h slot + 1) else h) s'"
    "s_inflight s' = (if v = FC_ADMIT then s_inflight s + 1 else s_inflight s)"
    "v = FC_ADMIT \<Longrightarrow> c_mode (s_cfg s) = FC_MODE_ENFORCE \<Longrightarrow> (fc_svc_cap s = 0 \<or> s_inflight s < fc_svc_cap s) \<and>
       (0 \<le> slot \<longrightarrow> fc_tenant_svc_bound s \<noteq> 0 \<longrightarrow> h slot < unat (fc_tenant_svc_bound s))"
    "v \<noteq> FC_ADMIT \<Longrightarrow> c_mode (s_cfg s) = FC_MODE_ENFORCE"
proof -
  let ?enf = "c_mode (s_cfg s) = FC_MODE_ENFORCE" and ?bound = "fc_tenant_svc_bound s"
  obtain sl tt an0 where g: "fc_tenant_get ok (q_dead (s_queue s)) (s_tt s) (p_tkey p) (\<not> woken) = (sl, tt, an0)" by (metis surj_pair)
  note G = fc_tenant_get_inv [OF pool_invD(4) [OF inv] g]
  have ti: "ti (s_tt s) = h" by (rule pool_coreD(5) [OF pool_invD(1) [OF inv]])
  define s1 where "s1 = s\<lparr>s_tt := tt\<rparr>"
  have inv1: "pool_inv h s1" unfolding s1_def by (rule pool_inv_tt [OF inv]) (use G ti in auto)
  have has1: "0 \<le> sl \<Longrightarrow> tt_has (s_tt s1) sl \<and> t_used (tts (s_tt s1) ! nat sl)" using G by (simp add: s1_def)
  define admitted where "admitted = (\<lambda>s :: fc_state. (FC_ADMIT, sl, if sl \<ge> 0 then s\<lparr>s_tt := fc_tenant_inc (s_tt s) (nat sl) False\<rparr> else s, an0))"
  define refused where "refused = (\<lambda>v (s :: fc_state). (v :: fc_verdict, sl, s\<lparr>s_tt := fc_tenant_put (s_tt s) sl\<rparr>, an0))"
  define over where "over = shared_over s sl tt"
  obtain ahead s2 where a: "(if ?enf \<and> fc_queue_enabled s \<and> \<not> woken then fc_band_waiter_can_run s1 (p_band p) ?bound else (False, s1)) = (ahead, s2)"
    by fastforce
  have a2: "pool_inv h s2 \<and> s2 = s1\<lparr>s_tt := s_tt s2\<rparr> \<and> (0 \<le> sl \<longrightarrow> tt_has (s_tt s2) sl \<and> t_used (tts (s_tt s2) ! nat sl))"
    using a fc_band_waiter_can_run_ok [OF inv1, of "p_band p" ?bound ahead s2] inv1 has1 by (auto split: if_splits)
  then have s2: "s2 = s\<lparr>s_tt := s_tt s2\<rparr>" by (metis fc_state.update_convs(21) fc_state.surjective s1_def)
  have fr2: "s_cfg s2 = s_cfg s" "s_inflight s2 = s_inflight s" "s_band_inflight s2 = s_band_inflight s"
    "s_ep_inflight s2 = s_ep_inflight s" "s_queue s2 = s_queue s" "fc_svc_cap s2 = fc_svc_cap s" "fc_queue_enabled s2 = fc_queue_enabled s"
    by (subst s2, simp)+
  define wait where "wait = (if fc_floors_apply s2 (fc_svc_cap s2) \<and> s_queued s2 > 0 then Some (fc_floor_waiting_runnable s2 ?bound) else None)"
  define took where "took = (if ahead then None else fc_unit_take_band s2 (p_band p) (fc_svc_cap s2) wait)"
  define qv where "qv = (if cq \<and> fc_queue_enabled s \<and> fc_band_may_wait s p then FC_QUEUE else FC_TENANT_SHARE)"
  define bv where "bv = fc_band_verdict s2 p (if cq \<and> fc_queue_enabled s2 then FC_QUEUE else FC_SHED)"
  have eq: "fc_acquire_shared_locked ok s p cq woken =
      (if over then if ?enf then refused qv s1 else admitted (take_over (fc_count s1 FC_R_OBSERVE_WOULD_SHED))
       else case took of Some s \<Rightarrow> admitted s
            | None \<Rightarrow> if ?enf then refused bv s2 else admitted (take_over (fc_count s2 (observe_reason s2))))"
    unfolding fc_acquire_shared_locked_def Let_def g prod.case s1_def [symmetric] over_def shared_over_def
      admitted_def refused_def qv_def bv_def took_def wait_def
    using a by (simp add: s1_def)
  have refs: "qv \<noteq> FC_ADMIT" "bv \<noteq> FC_ADMIT" by (simp_all add: qv_def bv_def fc_band_verdict_refuses)
  have adm: "pool_inv (if 0 \<le> sl then h(sl := h sl + 1) else h) (fst (snd (snd (admitted s3))))"
    if "pool_inv h s3" "s_tt s3 = s_tt s1 \<or> s_tt s3 = s_tt s2" for s3
    unfolding admitted_def fst_conv snd_conv by (rule admit_tenant [OF that(1) _ room]) (use that(2) has1 a2 in auto)
  have "v = FC_ADMIT \<and> slot = sl \<and> an = an0 \<and> pool_inv (if 0 \<le> sl then h(sl := h sl + 1) else h) s' \<and>
      s_inflight s' = s_inflight s + 1 \<and> s_band_inflight s' = s_band_inflight s \<and> s_ep_inflight s' = s_ep_inflight s \<and>
      s_cfg s' = s_cfg s \<and> s_queue s' = s_queue s \<and> (?enf \<longrightarrow> \<not> over \<and> (fc_svc_cap s = 0 \<or> s_inflight s < fc_svc_cap s)) \<or>
    v \<noteq> FC_ADMIT \<and> slot = sl \<and> an = an0 \<and> pool_inv h s' \<and> ?enf \<and>
      s_inflight s' = s_inflight s \<and> s_band_inflight s' = s_band_inflight s \<and> s_ep_inflight s' = s_ep_inflight s \<and>
      s_cfg s' = s_cfg s \<and> s_queue s' = s_queue s"
  proof -
    consider (shareq) "over" "?enf" | (shareo) "over" "\<not> ?enf" | (taken) s3 where "\<not> over" "took = Some s3"
      | (full) "\<not> over" "took = None" "?enf" | (fullo) "\<not> over" "took = None" "\<not> ?enf" by fastforce
    then show ?thesis
    proof cases
      case shareq
      with res eq have "(v, slot, s', an) = refused qv s1" by simp
      with refuse_tenant [OF inv1, of sl] refs shareq show ?thesis by (simp add: refused_def) (simp add: s1_def)
    next
      case shareo
      let ?s3 = "take_over (fc_count s1 FC_R_OBSERVE_WOULD_SHED)"
      from shareo res eq have r: "(v, slot, s', an) = admitted ?s3" by simp
      have "pool_inv h ?s3" using inv1 by simp
      from adm [OF this] r shareo show ?thesis by (auto simp: admitted_def s1_def)
    next
      case (taken s3)
      from taken res eq have r: "(v, slot, s', an) = admitted s3" by simp
      have t: "fc_unit_take_band s2 (p_band p) (fc_svc_cap s2) wait = Some s3" using taken(2) by (auto simp: took_def split: if_splits)
      note B = fc_unit_take_band_Some [OF t]
      have "pool_inv h s3" using B(1) a2 by simp
      from adm [OF this] r B fr2 taken(1) show ?thesis by (auto simp: admitted_def)
    next
      case full
      with res eq have "(v, slot, s', an) = refused bv s2" by simp
      with refuse_tenant [of h s2 sl] a2 refs full fr2 show ?thesis by (simp add: refused_def)
    next
      case fullo
      let ?s3 = "take_over (fc_count s2 (observe_reason s2))"
      from fullo res eq have r: "(v, slot, s', an) = admitted ?s3" by simp
      have "pool_inv h ?s3" using a2 by simp
      from adm [OF this] r fullo fr2 show ?thesis by (auto simp: admitted_def)
    qed
  qed
  then show "s_band_inflight s' = s_band_inflight s" "s_ep_inflight s' = s_ep_inflight s"
    "s_cfg s' = s_cfg s" "s_queue s' = s_queue s"
    "pool_inv (if v = FC_ADMIT \<and> 0 \<le> slot then h(slot := h slot + 1) else h) s'"
    "s_inflight s' = (if v = FC_ADMIT then s_inflight s + 1 else s_inflight s)"
    "v \<noteq> FC_ADMIT \<Longrightarrow> ?enf" by auto
  show "set an \<subseteq> {FC_A_TENANT_TABLE_FULL}" using fc_tenant_get_anomaly [OF g] \<open>v = FC_ADMIT \<and> _ \<or> _\<close> by auto
  show "(fc_svc_cap s = 0 \<or> s_inflight s < fc_svc_cap s) \<and> (0 \<le> slot \<longrightarrow> ?bound \<noteq> 0 \<longrightarrow> h slot < unat ?bound)"
    if "v = FC_ADMIT" ?enf
  proof -
    have o: "\<not> over" "slot = sl" "fc_svc_cap s = 0 \<or> s_inflight s < fc_svc_cap s"
      using \<open>v = FC_ADMIT \<and> _ \<or> _\<close> that by auto
    have "h sl = unat (t_inflight (tts tt ! nat sl))" if "0 \<le> sl"
    proof -
      have "ti tt sl = h sl" "tt_has tt sl" using G ti that by simp_all
      then show ?thesis by (simp add: ti_def)
    qed
    with o show ?thesis by (auto simp: over_def shared_over_def word_le_nat_alt not_le)
  qed
qed

section \<open>The service unit\<close>

text \<open>The permit bound for a new try: a woken request keeps its first wait.\<close>

definition gate_permit :: "fc_permit \<Rightarrow> pool_ref option \<Rightarrow> bool \<Rightarrow> u64 \<Rightarrow> int \<Rightarrow> fc_permit" where
  "gate_permit p fc woken tkey band =
     (fc_permit_reset p)\<lparr>p_fc := fc, p_q_parked := (if woken then p_q_parked p else False),
      p_q_ttl_cut := (if woken then p_q_ttl_cut p else False), p_q_enqueue_ns := (if woken then p_q_enqueue_ns p else 0),
      p_q_deadline_ns := (if woken then p_q_deadline_ns p else 0), p_tkey := tkey, p_band := fc_band_of band\<rparr>"

definition gate_enforces :: "fc_world \<Rightarrow> pool_ref \<Rightarrow> bool" where
  "gate_enforces w f \<longleftrightarrow> c_mode (s_cfg (w_pools w f)) = FC_MODE_ENFORCE"

definition gate_ahead :: "fc_state \<Rightarrow> bool \<Rightarrow> fc_band \<Rightarrow> bool" where
  "gate_ahead s woken b \<longleftrightarrow> c_mode (s_cfg s) = FC_MODE_ENFORCE \<and> fc_queue_enabled s \<and> \<not> woken \<and> fc_waiters_ahead s b"

definition gate_admits :: "fc_world \<Rightarrow> pool_ref \<Rightarrow> fc_permit \<Rightarrow> bool \<Rightarrow> fc_state \<Rightarrow> fc_verdict \<times> fc_world \<times> fc_permit" where
  "gate_admits w f p woken s =
     (FC_ADMIT, w_set w f (fc_band_unit_take s p), p\<lparr>p_svc_held := True, p_state := FC_P_EXECUTING, p_woken := woken\<rparr>)"

lemma fc_service_acquire_eq:
  "fc_service_acquire_with w fc p cq woken tkey band =
     (let w1 = fst (fc_permit_bind w p fc); p2 = gate_permit p fc woken tkey band
      in case fc of None \<Rightarrow> (FC_ADMIT, w1, p2\<lparr>p_state := FC_P_BYPASS\<rparr>)
         | Some f \<Rightarrow>
           let s = w_pools w f
           in if \<not> fc_active s then (FC_ADMIT, w1, p2\<lparr>p_state := FC_P_BYPASS\<rparr>)
              else if gate_enforces w f \<and> fc_draining w then (FC_DRAINING, w1, p2\<lparr>p_state := FC_P_NONE\<rparr>)
              else if fc_share_active s then fc_service_acquire_shared w1 f p2 cq woken
              else case (if gate_ahead s woken (p_band p2) then None else fc_unit_take_band s (p_band p2) (fc_svc_cap s) None) of
                     Some s' \<Rightarrow> gate_admits w1 f p2 woken s'
                   | None \<Rightarrow> if gate_enforces w f
                             then (fc_band_verdict s p2 (if cq \<and> fc_queue_enabled s then FC_QUEUE else FC_SHED), w1,
                                   p2\<lparr>p_state := FC_P_NONE\<rparr>)
                             else gate_admits w1 f p2 woken (take_over (fc_count s (observe_reason s))))"
proof -
  obtain w1 where b: "fc_permit_bind w p fc = (w1, (fc_permit_reset p)\<lparr>p_fc := fc\<rparr>)" using fc_permit_bind_permit [of w p fc] by (metis prod.collapse)
  have w: "w_pools w1 = w_pools w" "fc_draining w1 = fc_draining w"
    using fc_permit_bind_world(1,3) [of w p fc] b by (simp_all add: fc_draining_def)
  have p: "p_band (gate_permit p fc woken tkey band) = fc_band_of band" by (simp add: gate_permit_def)
  show ?thesis
    unfolding fc_service_acquire_with_def Let_def b prod.case fst_conv w gate_enforces_def gate_ahead_def gate_admits_def
    by (simp only: gate_permit_def fc_permit.simps)
qed

lemma fc_service_acquire_cases:
  assumes res: "fc_service_acquire_with w fc p cq woken tkey band = (v, w', p')"
    and w1: "w1 = fst (fc_permit_bind w p fc)" and p2: "p2 = gate_permit p fc woken tkey band"
  obtains (bypass) "\<not> fc_pool_active w fc" "v = FC_ADMIT" "w' = w1" "p' = p2\<lparr>p_state := FC_P_BYPASS\<rparr>"
  | (refused) f where "fc = Some f" "fc_active (w_pools w f)" "gate_enforces w f" "\<not> fc_share_active (w_pools w f) \<or> fc_draining w"
      "v \<noteq> FC_ADMIT" "w' = w1" "p' = p2\<lparr>p_state := FC_P_NONE\<rparr>"
  | (shared) f where "fc = Some f" "fc_active (w_pools w f)" "fc_share_active (w_pools w f)"
      "fc_service_acquire_shared w1 f p2 cq woken = (v, w', p')"
  | (admitted) f s where "fc = Some f" "fc_active (w_pools w f)" "\<not> fc_share_active (w_pools w f)"
      "fc_unit_take_band (w_pools w f) (p_band p2) (fc_svc_cap (w_pools w f)) None = Some s" "\<not> gate_ahead (w_pools w f) woken (p_band p2)"
      "(v, w', p') = gate_admits w1 f p2 woken s"
  | (over) f where "fc = Some f" "fc_active (w_pools w f)" "\<not> fc_share_active (w_pools w f)" "\<not> gate_enforces w f"
      "(v, w', p') = gate_admits w1 f p2 woken (take_over (fc_count (w_pools w f) (observe_reason (w_pools w f))))"
proof (cases fc)
  case None
  with res w1 p2 show thesis by (intro bypass) (auto simp: fc_service_acquire_eq fc_pool_active_def Let_def)
next
  case (Some f)
  let ?s = "w_pools w f"
  let ?t = "if gate_ahead ?s woken (p_band p2) then None else fc_unit_take_band ?s (p_band p2) (fc_svc_cap ?s) None"
  note eq = res [unfolded fc_service_acquire_eq Let_def Some option.case, folded Some, folded w1 p2]
  show thesis
  proof (cases "\<not> fc_active ?s \<or> gate_enforces w f \<and> fc_draining w \<or> fc_share_active ?s")
    case True
    with eq Some show thesis by (auto simp: fc_pool_active_def split: if_splits intro: bypass refused [of f] shared [of f])
  next
    case False
    then have F: "fc_active ?s" "\<not> (gate_enforces w f \<and> fc_draining w)" "\<not> fc_share_active ?s" by auto
    have eq: "(v, w', p') = (case ?t of Some s' \<Rightarrow> gate_admits w1 f p2 woken s'
        | None \<Rightarrow> if gate_enforces w f
                  then (fc_band_verdict ?s p2 (if cq \<and> fc_queue_enabled ?s then FC_QUEUE else FC_SHED), w1, p2\<lparr>p_state := FC_P_NONE\<rparr>)
                  else gate_admits w1 f p2 woken (take_over (fc_count ?s (observe_reason ?s))))"
      using eq by (simp only: F not_True_eq_False if_False)
    show thesis
    proof (cases ?t)
      case None
      with eq False Some show thesis
        by (cases "gate_enforces w f") (auto simp: fc_band_verdict_refuses intro: refused [of f] over [of f])
    next
      case (Some s')
      have "fc_unit_take_band ?s (p_band p2) (fc_svc_cap ?s) None = Some s'" "\<not> gate_ahead ?s woken (p_band p2)"
        using Some by (simp_all split: if_splits)
      then show thesis using eq False \<open>fc = Some f\<close> Some by (intro admitted [of f s']) auto
    qed
  qed
qed

end
