(* ===== verification/FC_Account.thy ===== *)
theory FC_Account
  imports FC_Gate
begin

text \<open>
  Every unit has a holder. For each pool the service, band, endpoint and tenant counters are the
  number of permits that hold such a unit, whatever sequence of gate and queue operations ran; so no
  counter ever underflows. The lemmas treat one permit and the totals \<open>o\<close> of all the others.
\<close>

section \<open>What a permit holds\<close>

definition exec_on :: "pool_ref \<Rightarrow> fc_permit \<Rightarrow> bool" where
  "exec_on f p \<longleftrightarrow> p_fc p = Some f \<and> p_state p = FC_P_EXECUTING"

definition n_svc :: "pool_ref \<Rightarrow> fc_permit \<Rightarrow> nat" where
  "n_svc f p = (if exec_on f p \<and> p_svc_held p then 1 else 0)"

definition n_band :: "pool_ref \<Rightarrow> fc_permit \<Rightarrow> fc_band \<Rightarrow> nat" where
  "n_band f p b = (if exec_on f p \<and> p_svc_held p \<and> p_band p = b then 1 else 0)"

definition n_ep :: "pool_ref \<Rightarrow> fc_permit \<Rightarrow> nat \<Rightarrow> fc_role \<Rightarrow> nat" where
  "n_ep f p ep r = (if exec_on f p \<and> p_ep p r = int ep then 1 else 0)"

definition n_ten :: "pool_ref \<Rightarrow> fc_permit \<Rightarrow> int \<Rightarrow> nat" where
  "n_ten f p sl = (if exec_on f p \<and> 0 \<le> sl \<and> p_tslot p = sl then 1 else 0)"

text \<open>Totals of units held.\<close>

record fc_held =
  h_svc :: nat
  h_band :: "fc_band \<Rightarrow> nat"
  h_ep :: "nat \<Rightarrow> fc_role \<Rightarrow> nat"
  h_ten :: "int \<Rightarrow> nat"

definition held_small :: "fc_held \<Rightarrow> bool" where
  "held_small o' \<longleftrightarrow> h_svc o' + 1 < 2 ^ 32 \<and> (\<forall>b. h_band o' b + 1 < 2 ^ 32) \<and> (\<forall>ep r. h_ep o' ep r + 1 < 2 ^ 32) \<and>
     (\<forall>sl. h_ten o' sl + 1 < 2 ^ 32)"

definition acct_pool :: "fc_state \<Rightarrow> fc_held \<Rightarrow> bool" where
  "acct_pool s H \<longleftrightarrow> unat (s_inflight s) = h_svc H \<and>
     (\<forall>b. fc_band_counted b \<longrightarrow> unat (s_band_inflight s b) = h_band H b) \<and>
     (\<forall>ep r. unat (s_ep_inflight s ep r) = h_ep H ep r) \<and> pool_inv (h_ten H) s"

definition held_plus :: "fc_held \<Rightarrow> pool_ref \<Rightarrow> fc_permit \<Rightarrow> fc_held" where
  "held_plus o' f p =
     \<lparr>h_svc = h_svc o' + n_svc f p, h_band = (\<lambda>b. h_band o' b + n_band f p b),
      h_ep = (\<lambda>ep r. h_ep o' ep r + n_ep f p ep r), h_ten = (\<lambda>sl. h_ten o' sl + n_ten f p sl)\<rparr>"

definition acct :: "fc_world \<Rightarrow> (pool_ref \<Rightarrow> fc_held) \<Rightarrow> fc_permit \<Rightarrow> bool" where
  "acct w o' p \<longleftrightarrow> (\<forall>f. acct_pool (w_pools w f) (held_plus (o' f) f p))"

text \<open>An executing permit knows its pool, holds its service unit and has only real endpoints.\<close>

definition permit_wf :: "fc_permit \<Rightarrow> bool" where
  "permit_wf p \<longleftrightarrow> (p_state p = FC_P_EXECUTING \<longrightarrow> p_fc p \<noteq> None \<and> p_svc_held p \<and>
     (\<forall>r. p_ep p r = -1 \<or> ep_ok (p_ep p r)))"

section \<open>Idle permits and quiet pools\<close>

text \<open>The counters of a pool, and a change of the pool that moves none of them.\<close>

definition ctrs :: "fc_state \<Rightarrow> u32 \<times> (fc_band \<Rightarrow> u32) \<times> (nat \<Rightarrow> fc_role \<Rightarrow> u32) \<times> fc_cfg" where
  "ctrs s = (s_inflight s, s_band_inflight s, s_ep_inflight s, s_cfg s)"

definition quiet :: "fc_state \<Rightarrow> fc_state \<Rightarrow> bool" where
  "quiet s s' \<longleftrightarrow> ctrs s' = ctrs s \<and> (\<forall>h. pool_inv h s \<longrightarrow> pool_inv h s')"

definition quiet_world :: "fc_world \<Rightarrow> fc_world \<Rightarrow> bool" where
  "quiet_world w w' \<longleftrightarrow> (\<forall>f. quiet (w_pools w f) (w_pools w' f))"

lemma quiet_refl [simp]: "quiet s s" by (simp add: quiet_def)

lemma quiet_trans: "quiet s s' \<Longrightarrow> quiet s' s'' \<Longrightarrow> quiet s s''" by (simp add: quiet_def)

lemma quiet_world_refl [simp]: "quiet_world w w" by (simp add: quiet_world_def)

lemma quiet_world_trans: "quiet_world w w' \<Longrightarrow> quiet_world w' w'' \<Longrightarrow> quiet_world w w''"
  unfolding quiet_world_def using quiet_trans by blast

lemma quiet_world_same: "w_pools w' = w_pools w \<Longrightarrow> quiet_world w w'" by (simp add: quiet_world_def)

lemma quiet_world_set: "w_pools w' = (w_pools w)(f := s') \<Longrightarrow> quiet (w_pools w f) s' \<Longrightarrow> quiet_world w w'"
  by (simp add: quiet_world_def)

lemma ctrs_frame [simp]:
  "ctrs (s\<lparr>s_queue := q\<rparr>) = ctrs s" "ctrs (s\<lparr>s_tt := tt\<rparr>) = ctrs s" "ctrs (fc_queue_publish s) = ctrs s"
  "ctrs (fc_count s x) = ctrs s" "ctrs (fc_count_band s x b) = ctrs s" "ctrs (fc_note_wait s t) = ctrs s"
  by (simp_all add: ctrs_def fc_queue_publish_def)

lemma quiet_counts [simp]: "quiet s (fc_count s x)" "quiet s (fc_count_band s x b)" "quiet s (fc_note_wait s t)"
  by (simp_all add: quiet_def)

lemma acct_pool_quiet: "quiet s s' \<Longrightarrow> acct_pool s H \<Longrightarrow> acct_pool s' H"
  by (auto simp: quiet_def acct_pool_def ctrs_def)

definition idle :: "fc_permit \<Rightarrow> bool" where
  "idle p \<longleftrightarrow> p_state p \<noteq> FC_P_EXECUTING"

lemma held_plus_idle [simp]: "idle p \<Longrightarrow> held_plus o' f p = o'"
  by (simp add: held_plus_def n_svc_def n_band_def n_ep_def n_ten_def exec_on_def idle_def)

lemma held_plus_other: "p_fc p \<noteq> Some f \<Longrightarrow> held_plus o' f p = o'"
  by (simp add: held_plus_def n_svc_def n_band_def n_ep_def n_ten_def exec_on_def)

lemma acct_idle:
  assumes "acct w o' p" "idle p" "idle p'" "quiet_world w w'"
  shows "acct w' o' p'"
  using assms acct_pool_quiet by (simp add: acct_def quiet_world_def) blast

lemma acct_quiet:
  assumes "acct w o' p" "quiet_world w w'" "\<And>f. held_plus (o' f) f p' = held_plus (o' f) f p"
  shows "acct w' o' p'"
  using assms acct_pool_quiet by (simp add: acct_def quiet_world_def) blast

lemma w_note_other: "a \<notin> set an \<Longrightarrow> w_anomaly (w_note w an) a = w_anomaly w a"
  by (induction an arbitrary: w) (simp_all add: w_note_def)

section \<open>The queue moves no counter of the gate\<close>

lemma fc_queue_take_quiet:
  assumes "fc_queue_take s p = (won, s', p', an)" shows "quiet s s'"
proof -
  have "ctrs s' = ctrs s"
    using assms by (auto simp: fc_queue_take_def fc_permit_settle_def Let_def split: if_splits option.splits prod.splits)
  with fc_queue_take_ok(1) [OF _ assms] show ?thesis by (simp add: quiet_def)
qed

lemma fc_queue_pop_quiet:
  assumes "fc_queue_pop s = (r, s', an)" shows "quiet s s'"
proof -
  have "ctrs s' = ctrs s"
    using assms by (auto simp: fc_queue_pop_def Let_def split: option.splits prod.splits)
  with fc_queue_pop_ok(1) [OF _ assms] show ?thesis by (simp add: quiet_def)
qed

lemma pool_inv_evicted:
  assumes "pool_inv h s" "length evs \<le> FC_EVICT_PENDING" shows "pool_inv h (s\<lparr>s_queue := (s_queue s)\<lparr>q_evicted := evs\<rparr>\<rparr>)"
proof -
  have "ring_inv ((s_queue s)\<lparr>q_evicted := evs\<rparr>) = ring_inv (s_queue s)"
    "ring_live ((s_queue s)\<lparr>q_evicted := evs\<rparr>) = waiters s"
    by (simp_all add: ring_inv_def ring_ok_def ring_live_def ring_seq_def)
  with assms show ?thesis by (simp add: pool_inv_def pool_core_def pool_mirrors_def)
qed

lemma fc_queue_evicted_claim_quiet:
  assumes "fc_queue_evicted_claim s fd gen = (won, s')" shows "quiet s s'"
proof -
  note C = fc_queue_evicted_claim_ok [OF assms]
  have len: "length (q_evicted (s_queue s')) \<le> length (q_evicted (s_queue s))" using C(3,4) by (cases won) auto
  have "ctrs s' = ctrs s" using arg_cong [OF C(2), of ctrs] by simp
  moreover have "pool_inv h s'" if "pool_inv h s" for h
    using pool_inv_evicted [OF that, of "q_evicted (s_queue s')"] len C(2)
      pool_coreD(4) [OF pool_invD(1) [OF that]] by simp
  ultimately show ?thesis by (simp add: quiet_def)
qed

lemma fc_wake_undo_ctrs: "ctrs (w_pools (fc_wake_undo w f e u) g) = ctrs (w_pools w g)"
  by (simp add: fc_wake_undo_def Let_def split: prod.splits option.splits)

lemma fc_queue_wake_head_quiet:
  assumes inv: "pool_inv h0 (w_pools w f)" and res: "fc_queue_wake_head w f pend = (woken, w', pend')"
  shows "quiet_world w w'"
proof -
  obtain r s u where p: "fc_ring_pop_runnable (w_pools w f) pend = (r, s, u)" by (metis surj_pair)
  have "s = (w_pools w f)\<lparr>s_queue := s_queue s\<rparr>"
    using fc_ring_pop_runnable_ok(1) [OF pool_invD(3) [OF inv] p] by (simp add: queue_only_def)
  then have cs: "ctrs s = ctrs (w_pools w f)" by (metis ctrs_frame(1))
  have "ctrs (w_pools w' f) = ctrs (w_pools w f)"
  proof (cases r)
    case None
    with res p cs show ?thesis by (auto simp: fc_queue_wake_head_def)
  next
    case (Some e)
    obtain d w2 where wc: "wake_call (w_set w f (fc_queue_publish s)) (e_fd e) (e_gen e) = (d, w2)" by fastforce
    have "w_pools w2 f = fc_queue_publish s"
      using wake_call_frame(1) [of "w_set w f (fc_queue_publish s)" "e_fd e" "e_gen e"] wc by simp
    then show ?thesis
      using res p Some wc cs fc_wake_undo_ctrs [of w2 f e u f]
      by (auto simp: fc_queue_wake_head_def Let_def split: if_splits prod.splits)
  qed
  moreover have "pool_inv h (w_pools w' f)" if "pool_inv h (w_pools w f)" for h
    by (rule fc_queue_wake_head_ok(1) [OF that res])
  ultimately show ?thesis
    using fc_queue_wake_head_ok(2) [OF inv res] unfolding quiet_world_def quiet_def by (metis)
qed

lemma quiet_worldD: "quiet_world w w' \<Longrightarrow> pool_inv h (w_pools w f) \<Longrightarrow> pool_inv h (w_pools w' f)"
  by (auto simp: quiet_world_def quiet_def)

lemma wake_loop_quiet: "pool_inv h (w_pools w f) \<Longrightarrow> quiet_world w (wake_loop n w f pend)"
proof (induction n arbitrary: w pend)
  case (Suc n)
  obtain woken w1 pend1 where h: "fc_queue_wake_head w f pend = (woken, w1, pend1)" by (metis surj_pair)
  note Q = fc_queue_wake_head_quiet [OF Suc(2) h]
  show ?case
    using Q Suc(1) [OF quiet_worldD [OF Q Suc(2)], of pend1] quiet_world_trans [OF Q] h by (cases woken) simp_all
qed simp

lemma fc_queue_wake_one_quiet: "pool_inv h (w_pools w f) \<Longrightarrow> quiet_world w (fc_queue_wake_one w (Some f))"
  using fc_queue_wake_head_quiet [of h w f "\<lambda>_. 0"]
  by (auto simp: fc_queue_wake_one_def split: prod.splits)

lemma fc_queue_wake_room_quiet: "pool_inv h (w_pools w f) \<Longrightarrow> quiet_world w (fc_queue_wake_room w (Some f))"
  using wake_loop_quiet by (simp add: fc_queue_wake_room_def Let_def)

lemma fc_queue_wait_end_quiet:
  assumes "fc_queue_wait_end w fc p now = (w', p')"
  shows "quiet_world w w'" "p' = p\<lparr>p_q_parked := p_q_parked p'\<rparr>" "w_anomaly w' = w_anomaly w"
proof -
  have "quiet_world w w' \<and> p' = p\<lparr>p_q_parked := p_q_parked p'\<rparr> \<and> w_anomaly w' = w_anomaly w"
    using assms by (auto simp: fc_queue_wait_end_def Let_def split: option.splits if_splits
        intro: quiet_world_set [OF _ quiet_counts(3)])
  then show "quiet_world w w'" "p' = p\<lparr>p_q_parked := p_q_parked p'\<rparr>" "w_anomaly w' = w_anomaly w" by blast+
qed

lemma fc_push_locked_ctrs:
  assumes "fc_push_locked ok s e tkey front ordered at_ns = (rc, slot, gone, s', an)"
  shows "ctrs s' = ctrs s"
proof -
  obtain sl tt where sl: "push_slot ok s tkey = (sl, tt)" by fastforce
  obtain gone' s2 an' where m: "push_make_room s tt e front at_ns = (gone', s2, an')" by (metis surj_pair)
  have "ctrs s2 = ctrs s"
    using m by (auto simp: push_make_room_def fc_ring_evict_def Let_def split: option.splits prod.splits)
  then have "ctrs (push_settle (s2\<lparr>s_queue := q\<rparr>) sl x gone') = ctrs s" for q x
    by (simp add: push_settle_def Let_def split: option.splits)
  then show ?thesis
    using assms fc_push_locked_eq [OF sl, of e front ordered at_ns] m by (auto split: if_splits prod.splits)
qed

lemma fc_queue_push_quiet:
  assumes fd: "0 \<le> fd"
    and safe: "\<not> evict_frees (w_calloc w) (w_pools w f) (push_ent (w_pools w f) p fd gen now front) (p_tkey p) front now"
    and res: "fc_queue_push w (Some f) p fd gen now front = (rc, w', p')"
  shows "quiet_world w w'"
proof -
  let ?s = "w_pools w f" and ?e = "push_ent (w_pools w f) p fd gen now front"
  obtain rc0 slot gone s an where lock: "fc_push_locked (w_calloc w) ?s ?e (p_tkey p) front (push_ordered p now front) now =
      (rc0, slot, gone, s, an)" by (metis surj_pair)
  obtain s' where s': "w_pools w' = (w_pools w)(f := s')" and c: "ctrs s' = ctrs s"
    using fc_queue_push_eq(2) [OF fd lock res] by (auto simp: ctrs_def)
  have "ctrs s' = ctrs ?s" using c fc_push_locked_ctrs [OF lock] by simp
  moreover have "pool_inv h s'" if "pool_inv h ?s" for h
    using fc_queue_push_ok(1) [OF that fd res safe] s' by simp
  ultimately have "quiet ?s s'" by (simp add: quiet_def)
  with s' show ?thesis by (rule quiet_world_set)
qed

section \<open>Taking the service unit\<close>

definition sound_step :: "fc_world \<Rightarrow> fc_permit \<Rightarrow> fc_world \<Rightarrow> fc_permit \<Rightarrow> bool" where
  "sound_step w p w' p' \<longleftrightarrow>
     (\<forall>o'. (\<forall>f. held_small (o' f)) \<longrightarrow> acct w o' p \<longrightarrow>
        acct w' o' p' \<and> w_anomaly w' FC_A_UNDERFLOW = w_anomaly w FC_A_UNDERFLOW \<and>
        w_anomaly w' FC_A_UNKNOWN_PERMIT = w_anomaly w FC_A_UNKNOWN_PERMIT) \<and> permit_wf p'"

lemma unat_inc_small: "unat (x :: u32) + 1 < 2 ^ 32 \<Longrightarrow> unat (x + 1) = unat x + 1"
  by (simp add: unat_word_ariths)

lemma acct_admit:
  assumes acct: "acct_pool s H" and small: "held_small H"
    and s1: "s_inflight s1 = s_inflight s + 1" "s_band_inflight s1 = s_band_inflight s" "s_ep_inflight s1 = s_ep_inflight s"
    and inv: "pool_inv (if 0 \<le> slot then (h_ten H)(slot := h_ten H slot + 1) else h_ten H) s1"
    and p: "exec_on f p" "p_svc_held p" "p_tslot p = slot" "\<And>r. p_ep p r = -1"
  shows "acct_pool (fc_band_unit_take s1 p) (held_plus H f p)"
proof -
  have "unat (s_inflight s1) = h_svc H + 1"
    using acct small unat_inc_small [of "s_inflight s"] by (simp add: s1 acct_pool_def held_small_def)
  moreover have "unat (s_band_inflight (fc_band_unit_take s1 p) b) = h_band H b + n_band f p b" if "fc_band_counted b" for b
  proof (cases "p_band p = b")
    case True
    then show ?thesis
      using that acct small unat_inc_small [of "s_band_inflight s b"] p
      by (simp add: fc_band_unit_take_def s1 n_band_def acct_pool_def held_small_def)
  next
    case False
    then show ?thesis using that acct by (simp add: fc_band_unit_take_def s1 n_band_def acct_pool_def)
  qed
  moreover have "(\<lambda>sl. h_ten H sl + n_ten f p sl) = (if 0 \<le> slot then (h_ten H)(slot := h_ten H slot + 1) else h_ten H)"
    using p by (auto simp: n_ten_def)
  moreover have "n_svc f p = 1" "\<And>ep r. n_ep f p ep r = 0" using p by (simp_all add: n_svc_def n_ep_def)
  ultimately show ?thesis using acct inv by (simp add: acct_pool_def held_plus_def s1)
qed

lemma acct_poolD:
  assumes "acct w o' p" "idle p"
  shows "acct_pool (w_pools w f) (o' f)" "pool_inv (h_ten (o' f)) (w_pools w f)"
  using assms by (auto simp: acct_def acct_pool_def dest: spec [where x = f])

lemma acct_set:
  assumes "acct w o' p" "idle p" "w_pools w' = (w_pools w)(f := s')" "acct_pool s' (held_plus (o' f) f p')" "p_fc p' = Some f"
  shows "acct w' o' p'"
  unfolding acct_def
proof
  fix g
  show "acct_pool (w_pools w' g) (held_plus (o' g) g p')"
  proof (cases "g = f")
    case True
    with assms(3,4) show ?thesis by simp
  next
    case False
    with assms(3,5) acct_poolD(1) [OF assms(1,2), of g] show ?thesis by (simp add: held_plus_other)
  qed
qed

text \<open>A permit that was just bound: nothing held.\<close>

definition fresh :: "pool_ref option \<Rightarrow> fc_permit \<Rightarrow> bool" where
  "fresh fc p \<longleftrightarrow> p_fc p = fc \<and> p_state p = FC_P_NONE \<and> p_tslot p = -1 \<and> (\<forall>r. p_ep p r = -1)"

lemma fc_service_acquire_shared_sound:
  assumes fr: "fresh (Some f) p" and res: "fc_service_acquire_shared w f p cq woken = (v, w', p')"
  shows "sound_step w p w' p'"
  unfolding sound_step_def
proof (intro conjI allI impI)
  obtain v0 slot s an where l: "fc_acquire_shared_locked (w_calloc w) (w_pools w f) p cq woken = (v0, slot, s, an)" by (metis surj_pair)
  have r: "v = v0" "w' = (if v0 = FC_ADMIT then w_note (w_set w f (fc_band_unit_take s p)) an else w_note (w_set w f s) an)"
    "p' = (if v0 = FC_ADMIT then p\<lparr>p_tslot := slot, p_svc_held := True, p_state := FC_P_EXECUTING, p_woken := woken\<rparr> else p\<lparr>p_state := FC_P_NONE\<rparr>)"
    using res l by (auto simp: fc_service_acquire_shared_def split: if_splits)
  have idle: "idle p" using fr by (simp add: fresh_def idle_def)
  show "permit_wf p'" using fr r(3) by (auto simp: permit_wf_def fresh_def)
  fix o' :: "pool_ref \<Rightarrow> fc_held"
  assume small: "\<forall>f. held_small (o' f)" and acct: "acct w o' p"
  have sm: "held_small (o' f)" "\<And>sl. h_ten (o' f) sl + 1 < 2 ^ 32" using small by (auto simp: held_small_def)
  note A = acct_poolD [OF acct idle, of f]
  note L = fc_acquire_shared_locked_ok [OF A(2) sm(2) l]
  show "acct w' o' p'"
  proof (cases "v0 = FC_ADMIT")
    case True
    have "acct_pool (fc_band_unit_take s p') (held_plus (o' f) f p')"
      by (rule acct_admit [OF A(1) sm(1), of _ slot])
        (use True L(2,3,6,7) r(3) fr in \<open>simp_all add: exec_on_def fresh_def\<close>)
    moreover have "fc_band_unit_take s p' = fc_band_unit_take s p" using True r(3) by (simp add: fc_band_unit_take_def)
    ultimately show ?thesis
      using True r fr by (intro acct_set [OF acct idle, of _ f "fc_band_unit_take s p"]) (simp_all add: fresh_def)
  next
    case False
    have "quiet (w_pools w f) s"
      unfolding quiet_def
    proof (intro conjI allI impI)
      show "ctrs s = ctrs (w_pools w f)" using L(2-4,7) False by (simp add: ctrs_def)
      fix h assume "pool_inv h (w_pools w f)"
      then have "h = h_ten (o' f)" using A(2) pool_coreD(5) [OF pool_invD(1)] by metis
      then show "pool_inv h s" using L(6) False by simp
    qed
    then have "quiet_world w w'" using False r by (intro quiet_world_set [of _ _ f s]) simp_all
    then show ?thesis using acct idle r(3) False by (intro acct_idle [OF acct idle]) (simp_all add: idle_def)
  qed
  have "FC_A_UNDERFLOW \<notin> set an" "FC_A_UNKNOWN_PERMIT \<notin> set an" using L(1) by auto
  then show "w_anomaly w' FC_A_UNDERFLOW = w_anomaly w FC_A_UNDERFLOW"
    "w_anomaly w' FC_A_UNKNOWN_PERMIT = w_anomaly w FC_A_UNKNOWN_PERMIT"
    using r(2) by (simp_all add: w_note_other)
qed

lemma sound_step_same_permit:
  assumes "sound_step w p w' p'" "idle p0" "idle p" "w_pools w0 = w_pools w" "w_anomaly w0 = w_anomaly w"
  shows "sound_step w0 p0 w' p'"
proof -
  have "acct w0 o' p0 = acct w o' p" for o' using assms(2-4) by (simp add: acct_def)
  with assms(1,5) show ?thesis by (simp add: sound_step_def)
qed

lemma sound_idle:
  assumes "idle p" "idle p'" "quiet_world w w'"
    "w_anomaly w' FC_A_UNDERFLOW = w_anomaly w FC_A_UNDERFLOW" "w_anomaly w' FC_A_UNKNOWN_PERMIT = w_anomaly w FC_A_UNKNOWN_PERMIT"
  shows "sound_step w p w' p'"
  using acct_idle [OF _ assms(1-3)] assms by (simp add: sound_step_def permit_wf_def idle_def)

lemma gate_permit_fresh [simp]: "fresh fc (gate_permit p fc woken tkey band)"
  by (simp add: gate_permit_def fresh_def fc_permit_reset_def)

lemma gate_admits_sound:
  assumes fr: "fresh (Some f) p" and s: "s_inflight s = s_inflight (w_pools w f) + 1" "s_band_inflight s = s_band_inflight (w_pools w f)"
      "s_ep_inflight s = s_ep_inflight (w_pools w f)" and inv: "\<And>h. pool_inv h (w_pools w f) \<Longrightarrow> pool_inv h s"
    and res: "(v, w', p') = gate_admits w f p woken s"
  shows "sound_step w p w' p'"
  unfolding sound_step_def
proof (intro conjI allI impI)
  have idle: "idle p" using fr by (simp add: fresh_def idle_def)
  show "permit_wf p'" using fr res by (simp add: gate_admits_def permit_wf_def fresh_def)
  show "w_anomaly w' FC_A_UNDERFLOW = w_anomaly w FC_A_UNDERFLOW" "w_anomaly w' FC_A_UNKNOWN_PERMIT = w_anomaly w FC_A_UNKNOWN_PERMIT"
    using res by (simp_all add: gate_admits_def)
  fix o' assume small: "\<forall>f. held_small (o' f)" and acct: "acct w o' p"
  note A = acct_poolD [OF acct idle, of f]
  have "acct_pool (fc_band_unit_take s p') (held_plus (o' f) f p')"
    by (rule acct_admit [OF A(1), of _ "-1"]) (use small s inv [OF A(2)] fr res in \<open>simp_all add: gate_admits_def exec_on_def fresh_def\<close>)
  moreover have "fc_band_unit_take s p' = fc_band_unit_take s p" using res by (simp add: gate_admits_def fc_band_unit_take_def)
  ultimately show "acct w' o' p'"
    using fr res by (intro acct_set [OF acct idle, of _ f "fc_band_unit_take s p"]) (simp_all add: gate_admits_def fresh_def)
qed

lemma fc_service_acquire_sound:
  assumes idle: "idle p" and res: "fc_service_acquire_with w fc p cq woken tkey band = (v, w', p')"
  shows "sound_step w p w' p'"
proof -
  define w1 p2 where "w1 = fst (fc_permit_bind w p fc)" and "p2 = gate_permit p fc woken tkey band"
  have w1: "w_pools w1 = w_pools w" "w_anomaly w1 = w_anomaly w" by (simp_all add: w1_def)
  have fr: "fresh fc p2" by (simp add: p2_def)
  then have idle2: "idle p2" by (simp add: fresh_def idle_def)
  have idl: "sound_step w1 p2 w1 (p2\<lparr>p_state := x\<rparr>)" if "x \<noteq> FC_P_EXECUTING" for x
    by (rule sound_idle [OF idle2]) (use that in \<open>simp_all add: idle_def\<close>)
  have "sound_step w1 p2 w' p'"
    using res w1_def p2_def
  proof (cases rule: fc_service_acquire_cases)
    case (admitted f s)
    with fr w1 fc_unit_take_band_Some(1) [OF admitted(4)] show ?thesis by (intro gate_admits_sound [OF _ _ _ _ _ admitted(6)]) simp_all
  next
    case (over f)
    with fr w1 show ?thesis by (intro gate_admits_sound [OF _ _ _ _ _ over(5)]) simp_all
  qed (use idl fr fc_service_acquire_shared_sound in auto)
  then show ?thesis using sound_step_same_permit [OF _ idle idle2, of w1 w' p' w] w1 by simp
qed

section \<open>Endpoint units\<close>

lemma acct_ep:
  assumes "acct_pool s H" "s' = s\<lparr>s_ep_inflight := c\<rparr>" "H' = H\<lparr>h_ep := h_ep H'\<rparr>" "\<And>e x. unat (c e x) = h_ep H' e x"
  shows "acct_pool s' H'"
proof -
  have "h_svc H' = h_svc H" "h_band H' = h_band H" "h_ten H' = h_ten H" by (subst assms(3), simp)+
  with assms(1,2,4) show ?thesis by (simp add: acct_pool_def)
qed

lemma held_plus_ep: "held_plus H f (p\<lparr>p_ep := g\<rparr>) = (held_plus H f p)\<lparr>h_ep := h_ep (held_plus H f (p\<lparr>p_ep := g\<rparr>))\<rparr>"
  by (simp add: held_plus_def n_svc_def n_band_def n_ten_def exec_on_def)

lemma n_ep_upd:
  "exec_on f p \<Longrightarrow> n_ep f (p\<lparr>p_ep := (p_ep p)(r := ep)\<rparr>) e x = (if x = r then if ep = int e then 1 else 0 else n_ep f p e x)"
  by (simp add: n_ep_def exec_on_def)

lemma give_ep_held:
  "s_ep_inflight s e r \<noteq> 0 \<Longrightarrow>
   give_ep e r s = (s\<lparr>s_ep_inflight := (s_ep_inflight s)(e := (s_ep_inflight s e)(r := s_ep_inflight s e r - 1))\<rparr>, [])"
  by (simp add: give_ep_def fc_unit_give_def)

lemma acct_ep_count: "acct_pool s (held_plus H f p) \<Longrightarrow> unat (s_ep_inflight s e x) = h_ep H e x + n_ep f p e x"
  by (simp add: acct_pool_def held_plus_def)

lemma acct_ep_give:
  assumes A: "acct_pool s (held_plus H f p)" and p: "exec_on f p" "0 \<le> p_ep p r"
    and g: "give_ep (nat (p_ep p r)) r s = (s', an)"
  shows "an = []" "acct_pool s' (held_plus H f (p\<lparr>p_ep := (p_ep p)(r := -1)\<rparr>))" "s' = s\<lparr>s_ep_inflight := s_ep_inflight s'\<rparr>"
proof -
  let ?o = "nat (p_ep p r)"
  note C = acct_ep_count [OF A]
  have one: "unat (s_ep_inflight s ?o r) = h_ep H ?o r + 1" using C [of ?o r] p by (simp add: n_ep_def)
  then have nz: "s_ep_inflight s ?o r \<noteq> 0" by auto
  have s': "s' = s\<lparr>s_ep_inflight := (s_ep_inflight s)(?o := (s_ep_inflight s ?o)(r := s_ep_inflight s ?o r - 1))\<rparr>" "an = []"
    using g by (simp_all add: give_ep_held [OF nz])
  show "an = []" "s' = s\<lparr>s_ep_inflight := s_ep_inflight s'\<rparr>" using s' by simp_all
  have "unat (s_ep_inflight s ?o r - 1) = h_ep H ?o r" using one nz by (simp add: unat_dec)
  moreover have "p_ep p r \<noteq> int e" if "e \<noteq> ?o" for e using that p by auto
  moreover have "n_ep f p e r = 0" if "e \<noteq> ?o" for e using that p by (auto simp: n_ep_def)
  ultimately show "acct_pool s' (held_plus H f (p\<lparr>p_ep := (p_ep p)(r := -1)\<rparr>))"
    by (intro acct_ep [OF A s'(1) held_plus_ep]) (auto simp: held_plus_def n_ep_upd [OF p(1)] C)
qed

text \<open>The new endpoint's unit is reserved before the old one is handed back: for a moment both are held.\<close>

definition held_ep_more :: "fc_held \<Rightarrow> nat \<Rightarrow> fc_role \<Rightarrow> fc_held" where
  "held_ep_more H e r = H\<lparr>h_ep := (h_ep H)(e := (h_ep H e)(r := h_ep H e r + 1))\<rparr>"

definition ep_inc :: "fc_state \<Rightarrow> nat \<Rightarrow> fc_role \<Rightarrow> fc_state" where
  "ep_inc s e r = s\<lparr>s_ep_inflight := (s_ep_inflight s)(e := (s_ep_inflight s e)(r := s_ep_inflight s e r + 1))\<rparr>"

lemma acct_ep_take:
  assumes A: "acct_pool s (held_plus H f p)" "held_small H" and p: "p_ep p r \<noteq> int e"
  shows "acct_pool (ep_inc s e r) (held_plus (held_ep_more H e r) f p)"
proof -
  note C = acct_ep_count [OF A(1)]
  have "n_ep f p e r = 0" using p by (simp add: n_ep_def)
  moreover from this have "unat (s_ep_inflight s e r + 1) = h_ep H e r + 1"
    using C [of e r] A(2) unat_inc_small [of "s_ep_inflight s e r"] by (simp add: held_small_def)
  ultimately show ?thesis
    by (intro acct_ep [OF A(1) ep_inc_def]) (auto simp: held_plus_def held_ep_more_def C)
qed

lemma held_ep_land:
  assumes "exec_on f p" "0 \<le> ep"
  shows "held_plus (held_ep_more H (nat ep) r) f (p\<lparr>p_ep := (p_ep p)(r := -1)\<rparr>) = held_plus H f (p\<lparr>p_ep := (p_ep p)(r := ep)\<rparr>)"
proof -
  have "ep = int e \<longleftrightarrow> e = nat ep" for e using assms by auto
  then show ?thesis
    by (auto simp: held_plus_def held_ep_more_def n_ep_upd [OF assms(1)] n_svc_def n_band_def n_ten_def exec_on_def fun_eq_iff)
qed

lemma acct_ep_land:
  assumes A: "acct_pool s (held_plus H f p)" "held_small H" and p: "exec_on f p" "p_ep p r \<noteq> ep" "0 \<le> ep" "-1 \<le> p_ep p r"
    and g: "(if 0 \<le> p_ep p r then give_ep (nat (p_ep p r)) r (ep_inc s (nat ep) r) else (ep_inc s (nat ep) r, [])) = (s', an)"
  shows "an = []" "acct_pool s' (held_plus H f (p\<lparr>p_ep := (p_ep p)(r := ep)\<rparr>))" "s' = s\<lparr>s_ep_inflight := s_ep_inflight s'\<rparr>"
proof -
  have T: "acct_pool (ep_inc s (nat ep) r) (held_plus (held_ep_more H (nat ep) r) f p)"
    by (rule acct_ep_take [OF A]) (use p in simp)
  have inc: "ep_inc s (nat ep) r = s\<lparr>s_ep_inflight := s_ep_inflight (ep_inc s (nat ep) r)\<rparr>" by (simp add: ep_inc_def)
  have "an = [] \<and> acct_pool s' (held_plus (held_ep_more H (nat ep) r) f (p\<lparr>p_ep := (p_ep p)(r := -1)\<rparr>)) \<and>
    s' = s\<lparr>s_ep_inflight := s_ep_inflight s'\<rparr>"
  proof (cases "0 \<le> p_ep p r")
    case True
    then have g': "give_ep (nat (p_ep p r)) r (ep_inc s (nat ep) r) = (s', an)" using g by simp
    note G = acct_ep_give [OF T p(1) True g']
    have "s' = s\<lparr>s_ep_inflight := s_ep_inflight s'\<rparr>" by (subst G(3), subst inc) simp
    with G(1,2) show ?thesis by simp
  next
    case False
    then have "p_ep p r = -1" using p(4) by simp
    then have "p\<lparr>p_ep := (p_ep p)(r := -1)\<rparr> = p" by (simp add: fun_upd_idem)
    with False g T inc show ?thesis by auto
  qed
  then show "an = []" "acct_pool s' (held_plus H f (p\<lparr>p_ep := (p_ep p)(r := ep)\<rparr>))" "s' = s\<lparr>s_ep_inflight := s_ep_inflight s'\<rparr>"
    using held_ep_land [OF p(1,3)] by simp_all
qed

section \<open>Endpoint operations\<close>

lemma sound_step_trans: "sound_step w p w1 p1 \<Longrightarrow> sound_step w1 p1 w2 p2 \<Longrightarrow> sound_step w p w2 p2"
  by (simp add: sound_step_def)

lemma sound_quiet:
  assumes "quiet_world w w'" "w_anomaly w' = w_anomaly w" "permit_wf p'" "\<And>H f. held_plus H f p' = held_plus H f p"
  shows "sound_step w p w' p'"
  using acct_quiet [OF _ assms(1) assms(4)] assms(2,3) by (simp add: sound_step_def)

lemma sound_refl: "permit_wf p \<Longrightarrow> sound_step w p w p"
  by (rule sound_quiet) simp_all

lemma sound_count: "permit_wf p \<Longrightarrow> sound_step w p (w_set w f (fc_count (w_pools w f) x)) p"
  "permit_wf p \<Longrightarrow> sound_step w p (w_set w f (fc_count_band (w_pools w f) x b)) p"
  by (rule sound_quiet; auto intro: quiet_world_set [of _ _ f, OF _ quiet_counts(1)] quiet_world_set [of _ _ f, OF _ quiet_counts(2)])+

lemma held_plus_cong:
  assumes "p_fc p' = p_fc p" "p_state p' = p_state p" "p_svc_held p' = p_svc_held p" "p_band p' = p_band p"
    "p_ep p' = p_ep p" "p_tslot p' = p_tslot p"
  shows "held_plus H f p' = held_plus H f p"
  using assms by (simp add: held_plus_def n_svc_def n_band_def n_ep_def n_ten_def exec_on_def)

lemma sound_set:
  assumes p: "p_fc p = Some f" "p_fc p' = Some f" "permit_wf p'"
    and step: "\<And>H. held_small H \<Longrightarrow> acct_pool (w_pools w f) (held_plus H f p) \<Longrightarrow> acct_pool s' (held_plus H f p') \<and> an = []"
  shows "sound_step w p (w_note (w_set w f s') an) p'"
  unfolding sound_step_def
proof (intro conjI allI impI)
  fix o' assume small: "\<forall>f. held_small (o' f)" and A: "acct w o' p"
  have S: "acct_pool s' (held_plus (o' f) f p') \<and> an = []"
    using step [of "o' f"] small A by (auto simp: acct_def)
  show "acct (w_note (w_set w f s') an) o' p'"
    unfolding acct_def
  proof
    fix g
    show "acct_pool (w_pools (w_note (w_set w f s') an) g) (held_plus (o' g) g p')"
    proof (cases "g = f")
      case False
      then have "held_plus (o' g) g p' = held_plus (o' g) g p" using p by (simp add: held_plus_other)
      with False A show ?thesis by (simp add: acct_def)
    qed (use S in simp)
  qed
  show "w_anomaly (w_note (w_set w f s') an) FC_A_UNDERFLOW = w_anomaly w FC_A_UNDERFLOW"
    "w_anomaly (w_note (w_set w f s') an) FC_A_UNKNOWN_PERMIT = w_anomaly w FC_A_UNKNOWN_PERMIT"
    using S by (simp_all add: w_note_def)
qed (rule p(3))

lemma permit_wf_ep:
  "permit_wf p \<Longrightarrow> ep = -1 \<or> ep_ok ep \<Longrightarrow> permit_wf (p\<lparr>p_ep := (p_ep p)(r := ep)\<rparr>)"
  by (simp add: permit_wf_def)

lemma permit_wf_range: "permit_wf p \<Longrightarrow> exec_on f p \<Longrightarrow> -1 \<le> p_ep p r"
  unfolding permit_wf_def exec_on_def ep_ok_def by (metis dual_order.refl le_minus_one_simps(1) order_trans)

lemma sound_land:
  assumes p: "exec_on f p" "permit_wf p" "ep_ok ep" "p_ep p r \<noteq> ep" and q: "quiet (w_pools w f) s0"
    and g: "(if 0 \<le> p_ep p r then give_ep (nat (p_ep p r)) r (ep_inc s0 (nat ep) r) else (ep_inc s0 (nat ep) r, [])) = (s', an)"
  shows "sound_step w p (w_note (w_set w f s') an) (p\<lparr>p_ep := (p_ep p)(r := ep)\<rparr>)"
proof (rule sound_set)
  show "permit_wf (p\<lparr>p_ep := (p_ep p)(r := ep)\<rparr>)" by (rule permit_wf_ep) (use p in simp_all)
  fix H assume "held_small H" "acct_pool (w_pools w f) (held_plus H f p)"
  with acct_ep_land(1,2) [OF acct_pool_quiet [OF q] _ p(1,4) _ permit_wf_range [OF p(2,1)] g] p(3)
  show "acct_pool s' (held_plus H f (p\<lparr>p_ep := (p_ep p)(r := ep)\<rparr>)) \<and> an = []" by (simp add: ep_ok_def)
qed (use p in \<open>simp_all add: exec_on_def\<close>)

text \<open>What \<open>fc_ep_acquire\<close> does once the new endpoint's unit is reserved.\<close>

definition ep_landed :: "fc_world \<Rightarrow> pool_ref \<Rightarrow> fc_permit \<Rightarrow> int \<Rightarrow> fc_role \<Rightarrow> fc_state \<Rightarrow> fc_verdict \<times> fc_world \<times> fc_permit" where
  "ep_landed w f p ep r s =
     (let had_leg = list_ex (\<lambda>r. p_ep p r \<ge> 0) fc_roles_all;
          (s, an) = (if p_ep p r \<ge> 0 then give_ep (nat (p_ep p r)) r s else (s, []));
          w = w_note (w_set w f s) an;
          p = p\<lparr>p_ep := (p_ep p)(r := ep)\<rparr>
      in if had_leg then (FC_ADMIT, w, p)
         else let w = w_set w f (fc_count_band (w_pools w f) FC_R_ADMITTED (p_band p));
                  p = p\<lparr>p_admit_ns := w_clock w\<rparr>;
                  (w, p) = fc_queue_wait_end w (Some f) p (p_admit_ns p)
              in (FC_ADMIT, w, p))"

lemma ep_landed_sound:
  assumes p: "exec_on f p" "permit_wf p" "ep_ok ep" "p_ep p r \<noteq> ep" and q: "quiet (w_pools w f) s0"
    and res: "ep_landed w f p ep r (ep_inc s0 (nat ep) r) = (v, w', p')"
  shows "sound_step w p w' p'" "p_fc p' = p_fc p" "p_state p' = p_state p"
proof -
  obtain s1 an where g: "(if 0 \<le> p_ep p r then give_ep (nat (p_ep p r)) r (ep_inc s0 (nat ep) r) else (ep_inc s0 (nat ep) r, [])) = (s1, an)"
    by fastforce
  let ?w1 = "w_note (w_set w f s1) an" and ?p1 = "p\<lparr>p_ep := (p_ep p)(r := ep)\<rparr>"
  let ?w2 = "w_set ?w1 f (fc_count_band (w_pools ?w1 f) FC_R_ADMITTED (p_band p))"
  have wf1: "permit_wf ?p1" by (rule permit_wf_ep) (use p in simp_all)
  note S1 = sound_land [OF p q g]
  have "sound_step w p w' p' \<and> p_fc p' = p_fc p \<and> p_state p' = p_state p"
  proof (cases "list_ex (\<lambda>r. p_ep p r \<ge> 0) fc_roles_all")
    case True
    with res g have "w' = ?w1" "p' = ?p1" by (simp_all add: ep_landed_def)
    with S1 show ?thesis by simp
  next
    case False
    obtain w3 p3 where e: "fc_queue_wait_end ?w2 (Some f) (?p1\<lparr>p_admit_ns := w_clock ?w2\<rparr>) (w_clock ?w2) = (w3, p3)" by fastforce
    have wp: "w' = w3" "p' = p3" using res g False e by (simp_all add: ep_landed_def Let_def)
    note E = fc_queue_wait_end_quiet [OF e]
    obtain x where p3: "p3 = ?p1\<lparr>p_admit_ns := w_clock ?w2, p_q_parked := x\<rparr>" using E(2) by blast
    have same: "p_fc p3 = p_fc ?p1 \<and> p_state p3 = p_state ?p1 \<and> p_svc_held p3 = p_svc_held ?p1 \<and> p_band p3 = p_band ?p1 \<and>
      p_ep p3 = p_ep ?p1 \<and> p_tslot p3 = p_tslot ?p1" by (simp add: p3)
    have wf3: "permit_wf p3" using wf1 same by (simp add: permit_wf_def)
    have "sound_step ?w2 ?p1 w3 p3" by (rule sound_quiet [OF E(1,3) wf3 held_plus_cong]) (use same in simp_all)
    from sound_step_trans [OF S1 sound_step_trans [OF sound_count(2) [OF wf1] this]] same wp show ?thesis by simp
  qed
  then show "sound_step w p w' p'" "p_fc p' = p_fc p" "p_state p' = p_state p" by blast+
qed

lemma take_ep_eq: "take_ep cap e r s = (if cap = 0 \<or> s_ep_inflight s e r < cap then Some (ep_inc s e r) else None)"
  by (auto simp: take_ep_def fc_unit_take_def ep_inc_def)

text \<open>The guards shared by the endpoint's unit and by a move, with what to do when one is reserved and when none is.\<close>

definition ep_gate :: "fc_world \<Rightarrow> pool_ref \<Rightarrow> int \<Rightarrow> int \<Rightarrow> fc_role \<Rightarrow> fc_reason \<Rightarrow> (fc_state \<Rightarrow> 'a) \<Rightarrow> 'a \<Rightarrow> 'a" where
  "ep_gate w f ep role r reason landed refused =
     (let s = w_pools w f; cap = fc_ep_cap_now s (w_clock w) ep role 0
      in if cap = 0 \<or> s_ep_inflight s (nat ep) r < cap then landed (ep_inc s (nat ep) r)
         else if c_mode (s_cfg s) = FC_MODE_ENFORCE then refused
         else landed (ep_inc (fc_count s reason) (nat ep) r))"

lemma ep_gate_cases:
  "ep_gate w f ep role r reason landed refused = refused \<or>
   (\<exists>s0. quiet (w_pools w f) s0 \<and> ep_gate w f ep role r reason landed refused = landed (ep_inc s0 (nat ep) r))"
  using quiet_refl quiet_counts(1) [of "w_pools w f" reason] unfolding ep_gate_def Let_def by metis

lemma fc_ep_acquire_eq:
  "fc_ep_acquire w (Some f) p ep role =
     (case role_of role of None \<Rightarrow> (FC_ADMIT, w, p)
      | Some r \<Rightarrow>
        if \<not> fc_active (w_pools w f) \<or> p_state p \<noteq> FC_P_EXECUTING \<or> \<not> ep_ok ep \<or> p_ep p r = ep then (FC_ADMIT, w, p)
        else ep_gate w f ep role r (observe_reason (w_pools w f)) (ep_landed w f p ep r) (FC_SHED, w, p))"
proof (cases "role_of role")
  case (Some r)
  let ?s = "w_pools w f"
  have "(\<lambda>s. ep_landed w f p ep r s) = ep_landed w f p ep r" ..
  then show ?thesis
    unfolding fc_ep_acquire_def Some prod.case option.case Let_def ep_gate_def ep_landed_def take_ep_eq
    by (cases "fc_ep_cap_now ?s (w_clock w) ep role 0 = 0 \<or> s_ep_inflight ?s (nat ep) r < fc_ep_cap_now ?s (w_clock w) ep role 0")
      (simp_all only: if_True if_False option.case simp_thms)
qed (simp add: fc_ep_acquire_def)

definition ep_moved :: "fc_world \<Rightarrow> pool_ref \<Rightarrow> fc_permit \<Rightarrow> int \<Rightarrow> fc_role \<Rightarrow> fc_state \<Rightarrow> int \<times> fc_world \<times> fc_permit" where
  "ep_moved w f p new_ep r s =
     (let (s, an) = (if p_ep p r \<ge> 0 then give_ep (nat (p_ep p r)) r s else (s, []))
      in (0, w_note (w_set w f s) an, p\<lparr>p_ep := (p_ep p)(r := new_ep)\<rparr>))"

lemma fc_permit_move_eq:
  assumes "p_fc p = Some f" "role_of role = Some r"
  shows "fc_permit_move w p role new_ep =
     (let s = w_pools w f
      in if p_state p \<noteq> FC_P_EXECUTING \<or> \<not> fc_active s then (0, w, p)
         else if \<not> ep_ok new_ep then (-1, w, p)
         else if p_ep p r = new_ep then (0, w, p)
         else ep_gate w f new_ep role r FC_R_OBSERVE_WOULD_SHED (ep_moved w f p new_ep r)
                (-1, w_set w f (fc_count s FC_R_CAPACITY_SHED), p))"
proof -
  let ?s = "w_pools w f"
  show ?thesis
    unfolding fc_permit_move_def assms prod.case option.case Let_def ep_gate_def ep_moved_def take_ep_eq
    by (cases "fc_ep_cap_now ?s (w_clock w) new_ep role 0 = 0 \<or> s_ep_inflight ?s (nat new_ep) r < fc_ep_cap_now ?s (w_clock w) new_ep role 0")
      (simp_all only: if_True if_False option.case simp_thms)
qed

lemma fc_ep_acquire_sound:
  assumes p: "p_fc p = fc" "permit_wf p" and res: "fc_ep_acquire w fc p ep role = (v, w', p')"
  shows "sound_step w p w' p'" "permit_wf p'" "p_fc p' = fc" "p_state p' = p_state p"
proof -
  have "sound_step w p w' p' \<and> p_fc p' = p_fc p \<and> p_state p' = p_state p"
  proof (cases "fc_ep_acquire w fc p ep role = (v, w, p)")
    case True
    with res sound_refl [OF p(2)] show ?thesis by simp
  next
    case False
    then obtain f r where fr: "fc = Some f" "role_of role = Some r"
      using res by (cases fc; cases "role_of role") (auto simp: fc_ep_acquire_def)
    let ?s = "w_pools w f"
    have g: "p_state p = FC_P_EXECUTING" "ep_ok ep" "p_ep p r \<noteq> ep"
      and e: "ep_gate w f ep role r (observe_reason ?s) (ep_landed w f p ep r) (FC_SHED, w, p) = (v, w', p')"
      using res False unfolding fr(1) fc_ep_acquire_eq fr(2) by (auto split: if_splits)
    have "(v, w', p') \<noteq> (FC_SHED, w, p)" using False res by auto
    then obtain s0 where q: "quiet ?s s0" and l: "ep_landed w f p ep r (ep_inc s0 (nat ep) r) = (v, w', p')"
      using ep_gate_cases [of w f ep role r "observe_reason ?s" "ep_landed w f p ep r" "(FC_SHED, w, p)"] unfolding e by metis
    have "exec_on f p" using p(1) fr(1) g(1) by (simp add: exec_on_def)
    from ep_landed_sound [OF this p(2) g(2,3) q l] show ?thesis by simp
  qed
  then show "sound_step w p w' p'" "permit_wf p'" "p_fc p' = fc" "p_state p' = p_state p"
    using p(1) by (simp_all add: sound_step_def)
qed

lemma fc_permit_move_sound:
  assumes p: "permit_wf p" and res: "fc_permit_move w p role new_ep = (rc, w', p')"
  shows "sound_step w p w' p'" "p_fc p' = p_fc p" "p_state p' = p_state p"
proof -
  have "sound_step w p w' p' \<and> p_fc p' = p_fc p \<and> p_state p' = p_state p"
  proof (cases "w' = w \<and> p' = p \<or> (\<exists>f. w' = w_set w f (fc_count (w_pools w f) FC_R_CAPACITY_SHED) \<and> p' = p)")
    case True
    with sound_refl [OF p] sound_count(1) [OF p] show ?thesis by auto
  next
    case False
    then obtain f r where fr: "p_fc p = Some f" "role_of role = Some r"
      using res by (cases "p_fc p"; cases "role_of role") (auto simp: fc_permit_move_def)
    let ?s = "w_pools w f"
    let ?no = "(-1, w_set w f (fc_count ?s FC_R_CAPACITY_SHED), p)"
    have g: "p_state p = FC_P_EXECUTING" "ep_ok new_ep" "p_ep p r \<noteq> new_ep"
      and e: "ep_gate w f new_ep role r FC_R_OBSERVE_WOULD_SHED (ep_moved w f p new_ep r) ?no = (rc, w', p')"
      using res False unfolding fc_permit_move_eq [OF fr] Let_def by (auto split: if_splits)
    have "(rc, w', p') \<noteq> ?no" using False by auto
    then obtain s0 where q: "quiet ?s s0" and m: "ep_moved w f p new_ep r (ep_inc s0 (nat new_ep) r) = (rc, w', p')"
      using ep_gate_cases [of w f new_ep role r FC_R_OBSERVE_WOULD_SHED "ep_moved w f p new_ep r" ?no] unfolding e by metis
    obtain s1 an where l: "(if 0 \<le> p_ep p r then give_ep (nat (p_ep p r)) r (ep_inc s0 (nat new_ep) r) else (ep_inc s0 (nat new_ep) r, [])) = (s1, an)"
      by fastforce
    have w': "w' = w_note (w_set w f s1) an" and p': "p' = p\<lparr>p_ep := (p_ep p)(r := new_ep)\<rparr>"
      using m l by (simp_all add: ep_moved_def)
    have "exec_on f p" using fr(1) g(1) by (simp add: exec_on_def)
    from sound_land [OF this p g(2,3) q l] show ?thesis by (simp add: w' p')
  qed
  then show "sound_step w p w' p'" "p_fc p' = p_fc p" "p_state p' = p_state p" by blast+
qed

lemma fc_release_role_sound:
  assumes p: "permit_wf p" and res: "fc_release_role w p role = (w', p')"
  shows "sound_step w p w' p'" "p_fc p' = p_fc p" "p_state p' = p_state p" "p_svc_held p' = p_svc_held p"
    "p_tslot p' = p_tslot p" "p_band p' = p_band p"
    "p_state p = FC_P_EXECUTING \<Longrightarrow> p_ep p' x = (if role_of role = Some x then -1 else p_ep p x)"
proof -
  have "sound_step w p w' p' \<and> p_fc p' = p_fc p \<and> p_state p' = p_state p \<and> p_svc_held p' = p_svc_held p \<and>
    p_tslot p' = p_tslot p \<and> p_band p' = p_band p \<and> (p_state p = FC_P_EXECUTING \<longrightarrow> p_ep p' x = (if role_of role = Some x then -1 else p_ep p x))"
  proof (cases "\<exists>r. role_of role = Some r \<and> p_state p = FC_P_EXECUTING \<and> 0 \<le> p_ep p r")
    case False
    have "w' = w" "p' = p" using res False by (auto simp: fc_release_role_def split: option.splits if_splits)
    moreover have "p_ep p x = -1" if "p_state p = FC_P_EXECUTING" "role_of role = Some x"
      using False p that by (auto simp: permit_wf_def ep_ok_def)
    ultimately show ?thesis using sound_refl [OF p] by simp
  next
    case True
    then obtain r where r: "role_of role = Some r" "p_state p = FC_P_EXECUTING" "0 \<le> p_ep p r" by blast
    from p r(2) obtain f where f: "p_fc p = Some f" by (auto simp: permit_wf_def)
    obtain s an where g: "give_ep (nat (p_ep p r)) r (w_pools w f) = (s, an)" by fastforce
    have w': "w' = w_note (w_set w f s) an" "p' = p\<lparr>p_ep := (p_ep p)(r := -1)\<rparr>"
      using res r f g by (simp_all add: fc_release_role_def Let_def)
    have "sound_step w p w' p'"
      unfolding w'
    proof (rule sound_set [OF f])
      show "permit_wf (p\<lparr>p_ep := (p_ep p)(r := -1)\<rparr>)" by (rule permit_wf_ep [OF p]) simp
      fix H assume "acct_pool (w_pools w f) (held_plus H f p)"
      with acct_ep_give(1,2) [OF _ _ r(3) g] f r(2)
      show "acct_pool s (held_plus H f (p\<lparr>p_ep := (p_ep p)(r := -1)\<rparr>)) \<and> an = []" by (simp add: exec_on_def)
    qed (simp add: f)
    then show ?thesis using r(1) by (simp add: w'(2))
  qed
  then show "sound_step w p w' p'" "p_fc p' = p_fc p" "p_state p' = p_state p" "p_svc_held p' = p_svc_held p"
    "p_tslot p' = p_tslot p" "p_band p' = p_band p"
    "p_state p = FC_P_EXECUTING \<Longrightarrow> p_ep p' x = (if role_of role = Some x then -1 else p_ep p x)" by blast+
qed

section \<open>Release\<close>

lemma acct_release:
  assumes A: "acct_pool s (held_plus H f p)" and p: "exec_on f p" "p_svc_held p" "\<And>r. p_ep p r = -1"
    and i: "give_inflight s = (s1, an1)" and b: "fc_band_unit_give s1 p = (s2, an2)"
  shows "an1 = []" "an2 = []"
    "p_tslot p < 0 \<Longrightarrow> acct_pool s2 H"
    "0 \<le> p_tslot p \<Longrightarrow> fc_tenant_dec (s_tt s2) (p_tslot p) False = (tt, an3) \<Longrightarrow> acct_pool (s2\<lparr>s_tt := tt\<rparr>) H \<and> an3 = []"
proof -
  have svc: "unat (s_inflight s) = h_svc H + 1" using A p by (simp add: acct_pool_def held_plus_def n_svc_def)
  then have nz: "s_inflight s \<noteq> 0" by auto
  then have s1: "s1 = s\<lparr>s_inflight := s_inflight s - 1\<rparr>" "an1 = []" using i by (auto simp: give_inflight_def fc_unit_give_def)
  show "an1 = []" by (rule s1(2))
  have bnd: "unat (s_band_inflight s x) = h_band H x + (if p_band p = x then 1 else 0)" if "fc_band_counted x" for x
    using A p that by (simp add: acct_pool_def held_plus_def n_band_def)
  have "s2 = s1\<lparr>s_band_inflight := s_band_inflight s2\<rparr> \<and> an2 = [] \<and> (\<forall>x. fc_band_counted x \<longrightarrow> unat (s_band_inflight s2 x) = h_band H x)"
  proof (cases "fc_band_counted (p_band p)")
    case True
    from bnd [OF True] have "s_band_inflight s (p_band p) \<noteq> 0" by auto
    with True b bnd show ?thesis by (auto simp: fc_band_unit_give_def fc_unit_give_def s1(1) unat_dec)
  next
    case False
    with b bnd show ?thesis by (auto simp: fc_band_unit_give_def s1(1))
  qed
  then have s2: "s2 = s\<lparr>s_inflight := s_inflight s - 1, s_band_inflight := s_band_inflight s2\<rparr>" and an2: "an2 = []"
    and bnd2: "\<And>x. fc_band_counted x \<Longrightarrow> unat (s_band_inflight s2 x) = h_band H x" using s1(1) by auto
  show "an2 = []" by (rule an2)
  have fr: "s_inflight s2 = s_inflight s - 1" "s_ep_inflight s2 = s_ep_inflight s" "s_tt s2 = s_tt s"
    "\<And>h. pool_inv h s2 = pool_inv h s" by (subst s2, simp)+
  have "n_ep f p e r = 0" for e r using p by (simp add: n_ep_def)
  then have "unat (s_ep_inflight s e r) = h_ep H e r" for e r using acct_ep_count [OF A, of e r] by simp
  moreover have "unat (s_inflight s - 1) = h_svc H" using svc nz by (simp add: unat_dec)
  moreover have inv: "pool_inv (\<lambda>sl. h_ten H sl + n_ten f p sl) s" using A by (simp add: acct_pool_def held_plus_def)
  ultimately have fin: "acct_pool s' H" if "s' = s2\<lparr>s_tt := s_tt s'\<rparr>" "pool_inv (h_ten H) s'" for s'
  proof -
    have "s_inflight s' = s_inflight s2" "s_ep_inflight s' = s_ep_inflight s2" "s_band_inflight s' = s_band_inflight s2"
      by (subst that(1), simp)+
    with that(2) show ?thesis
      using bnd2 fr \<open>unat (s_inflight s - 1) = h_svc H\<close> \<open>\<And>e r. unat (s_ep_inflight s e r) = h_ep H e r\<close>
      by (simp add: acct_pool_def)
  qed
  show "acct_pool s2 H" if "p_tslot p < 0"
  proof (rule fin)
    have "(\<lambda>sl. h_ten H sl + n_ten f p sl) = h_ten H" using that by (auto simp: n_ten_def)
    with inv show "pool_inv (h_ten H) s2" by (simp add: fr)
  qed simp
  show "acct_pool (s2\<lparr>s_tt := tt\<rparr>) H \<and> an3 = []" if t: "0 \<le> p_tslot p" and d: "fc_tenant_dec (s_tt s2) (p_tslot p) False = (tt, an3)"
  proof -
    have d': "fc_tenant_dec (s_tt s) (p_tslot p) False = (tt, an3)" using d fr(3) by simp
    note D = fc_tenant_dec_ok [OF pool_invD(4) [OF inv] d']
    have ti: "ti (s_tt s) = (\<lambda>sl. h_ten H sl + n_ten f p sl)" by (rule pool_coreD(5) [OF pool_invD(1) [OF inv]])
    then have "ti (s_tt s) (p_tslot p) = h_ten H (p_tslot p) + 1" using p(1) t by (simp add: n_ten_def)
    then have "an3 = []" "ti tt = h_ten H" using D(3,7) ti p(1) t by (auto simp: n_ten_def)
    moreover have "pool_inv (h_ten H) (s2\<lparr>s_tt := tt\<rparr>)"
    proof (rule pool_inv_tt)
      show "pool_inv (\<lambda>sl. h_ten H sl + n_ten f p sl) s2" using inv by (simp add: fr)
    qed (use D(1,2) fr(3) \<open>ti tt = h_ten H\<close> in simp_all)
    ultimately show ?thesis by (intro conjI fin) simp_all
  qed
qed

lemma sound_wake_one:
  assumes "permit_wf p" shows "sound_step w p (fc_queue_wake_one w fc) p"
  unfolding sound_step_def
proof (intro conjI allI impI)
  fix o' assume A: "acct w o' p"
  have "quiet_world w (fc_queue_wake_one w fc) \<and> w_anomaly (fc_queue_wake_one w fc) = w_anomaly w"
  proof (cases fc)
    case (Some f)
    have inv: "pool_inv (h_ten (held_plus (o' f) f p)) (w_pools w f)" using A by (simp add: acct_def acct_pool_def)
    obtain x w1 y where h: "fc_queue_wake_head w f (\<lambda>_. 0) = (x, w1, y)" by (metis surj_pair)
    show ?thesis using fc_queue_wake_one_quiet [OF inv] fc_queue_wake_head_ok(3) [OF inv h] h Some by (simp add: fc_queue_wake_one_def)
  qed (simp add: fc_queue_wake_one_def)
  then show "acct (fc_queue_wake_one w fc) o' p"
    "w_anomaly (fc_queue_wake_one w fc) FC_A_UNDERFLOW = w_anomaly w FC_A_UNDERFLOW"
    "w_anomaly (fc_queue_wake_one w fc) FC_A_UNKNOWN_PERMIT = w_anomaly w FC_A_UNKNOWN_PERMIT"
    using acct_quiet [OF A] by auto
qed (rule assms)

lemma release_legs_sound:
  assumes p: "permit_wf p" "p_state p = FC_P_EXECUTING"
    and res: "fold (\<lambda>role (w, p). fc_release_role w p role) [0, 1, 2] (w, p) = (w', p')"
  shows "sound_step w p w' p'" "p_fc p' = p_fc p" "p_state p' = FC_P_EXECUTING" "p_svc_held p' = p_svc_held p"
    "p_tslot p' = p_tslot p" "p_band p' = p_band p" "p_ep p' r = -1"
proof -
  obtain w1 p1 where r1: "fc_release_role w p 0 = (w1, p1)" by fastforce
  note R1 = fc_release_role_sound [OF p(1) r1]
  have wf1: "permit_wf p1" using R1(1) by (simp add: sound_step_def)
  obtain w2 p2 where r2: "fc_release_role w1 p1 1 = (w2, p2)" by fastforce
  note R2 = fc_release_role_sound [OF wf1 r2]
  have wf2: "permit_wf p2" using R2(1) by (simp add: sound_step_def)
  have r3: "fc_release_role w2 p2 2 = (w', p')" using res r1 r2 by simp
  note R3 = fc_release_role_sound [OF wf2 r3]
  show "sound_step w p w' p'" by (rule sound_step_trans [OF R1(1) sound_step_trans [OF R2(1) R3(1)]])
  show "p_fc p' = p_fc p" "p_state p' = FC_P_EXECUTING" "p_svc_held p' = p_svc_held p" "p_tslot p' = p_tslot p" "p_band p' = p_band p"
    using R1(2-6) R2(2-6) R3(2-6) p(2) by simp_all
  show "p_ep p' r = -1"
    using R1(3,7) R2(3,7) R3(7) p(2) by (cases r) (simp_all add: role_of_def)
qed

lemma sound_released: "idle p' \<Longrightarrow> permit_wf p'"
  by (simp add: idle_def permit_wf_def)

lemma fc_release_executing_sound:
  assumes p: "permit_wf p" "p_state p = FC_P_EXECUTING" and res: "fc_release_executing w p wake = (w', p')"
  shows "sound_step w p w' p'" "p_state p' = FC_P_RELEASED"
proof -
  obtain w1 p1 where l: "fold (\<lambda>role (w, p). fc_release_role w p role) [0, 1, 2] (w, p) = (w1, p1)" by fastforce
  note L = release_legs_sound [OF p l]
  from p obtain f where f: "p_fc p = Some f" and held: "p_svc_held p" by (auto simp: permit_wf_def)
  obtain s1 an1 where i: "give_inflight (w_pools w1 f) = (s1, an1)" by fastforce
  obtain s2 an2 where b: "fc_band_unit_give s1 p1 = (s2, an2)" by fastforce
  obtain tt an3 where t: "fc_tenant_dec (s_tt s2) (p_tslot p1) False = (tt, an3)" by fastforce
  define s3 where "s3 = (if p_tslot p1 < 0 then s2 else s2\<lparr>s_tt := tt\<rparr>)"
  define an where "an = an1 @ an2 @ (if p_tslot p1 < 0 then [] else an3)"
  define p2 where "p2 = p1\<lparr>p_svc_held := False, p_tslot := -1, p_state := FC_P_RELEASED\<rparr>"
  define w3 where "w3 = (if p_tslot p1 < 0 then w_note (w_set w1 f s2) (an1 @ an2)
     else w_note (w_set (w_note (w_set w1 f s2) (an1 @ an2)) f (s2\<lparr>s_tt := tt\<rparr>)) an3)"
  have r: "w' = (if wake then fc_queue_wake_one w3 (Some f) else w3)" "p' = p2"
    using res l i b t f held L(2,4)
    unfolding fc_release_executing_def p2_def w3_def by (auto simp: Let_def)
  have exec1: "exec_on f p1" "p_svc_held p1" using f L(2-4) held by (simp_all add: exec_on_def)
  have step: "acct_pool s3 (held_plus H f p2) \<and> an = [] \<and> an1 = [] \<and> an2 = [] \<and> (0 \<le> p_tslot p1 \<longrightarrow> an3 = [])"
    if "acct_pool (w_pools w1 f) (held_plus H f p1)" for H
    using acct_release [OF that exec1 L(7) i b] t by (auto simp: s3_def an_def p2_def idle_def not_le not_less)
  have "w_note (w_set (w_note (w_set w1 f s2) []) f (s2\<lparr>s_tt := tt\<rparr>)) [] = w_set w1 f (s2\<lparr>s_tt := tt\<rparr>)" by (simp add: w_set_def)
  have "sound_step w1 p1 w3 p2"
    unfolding sound_step_def
  proof (intro conjI allI impI)
    show "permit_wf p2" by (simp add: p2_def permit_wf_def)
    fix o' assume small: "\<forall>f. held_small (o' f)" and A: "acct w1 o' p1"
    have "an1 = [] \<and> an2 = [] \<and> (0 \<le> p_tslot p1 \<longrightarrow> an3 = [])" using step [of "o' f"] A by (simp add: acct_def)
    then have w3: "w3 = w_note (w_set w1 f s3) an" by (auto simp: w3_def s3_def an_def w_set_def)
    have "sound_step w1 p1 (w_note (w_set w1 f s3) an) p2"
    proof (rule sound_set [OF _ _ \<open>permit_wf p2\<close>])
      show "p_fc p1 = Some f" "p_fc p2 = Some f" using L(2) f by (simp_all add: p2_def)
    qed (use step in blast)
    then show "acct w3 o' p2" "w_anomaly w3 FC_A_UNDERFLOW = w_anomaly w1 FC_A_UNDERFLOW"
      "w_anomaly w3 FC_A_UNKNOWN_PERMIT = w_anomaly w1 FC_A_UNKNOWN_PERMIT"
      using small A by (simp_all add: sound_step_def w3)
  qed
  note S = sound_step_trans [OF L(1) this]
  have "permit_wf p2" by (simp add: p2_def permit_wf_def)
  with S sound_step_trans [OF S sound_wake_one] show "sound_step w p w' p'" by (simp add: r)
  show "p_state p' = FC_P_RELEASED" by (simp add: r p2_def)
qed

lemma sound_idle_quiet:
  assumes "idle p" "idle p'"
    and step: "\<And>h. pool_inv h (w_pools w f) \<Longrightarrow> quiet_world w w' \<and> w_anomaly w' = w_anomaly w"
  shows "sound_step w p w' p'"
  unfolding sound_step_def
proof (intro conjI allI impI)
  show "permit_wf p'" by (rule sound_released [OF assms(2)])
  fix o' assume A: "acct w o' p"
  note S = step [OF acct_poolD(2) [OF A assms(1)]]
  show "acct w' o' p'" by (rule acct_idle [OF A assms(1,2)]) (use S in simp)
  show "w_anomaly w' FC_A_UNDERFLOW = w_anomaly w FC_A_UNDERFLOW" "w_anomaly w' FC_A_UNKNOWN_PERMIT = w_anomaly w FC_A_UNKNOWN_PERMIT"
    using S by simp_all
qed

lemma fc_release_queued_sound:
  assumes p: "p_state p = FC_P_QUEUED" and res: "fc_release_queued w p wake = (w', p')"
  shows "sound_step w p w' p'" "p_state p' = FC_P_RELEASED"
proof -
  have idle: "idle p" using p by (simp add: idle_def)
  have st: "p_state p' = FC_P_RELEASED"
    using res by (auto simp: fc_release_queued_def Let_def split: option.splits prod.splits if_splits)
  then have idle': "idle p'" by (simp add: idle_def)
  show "p_state p' = FC_P_RELEASED" by (rule st)
  show "sound_step w p w' p'"
  proof (cases "p_fc p")
    case None
    with res have "w' = w" by (simp add: fc_release_queued_def)
    with sound_idle [OF idle idle'] show ?thesis by simp
  next
    case (Some f)
    obtain taken s1 p1 an where t: "fc_queue_take (w_pools w f) p = (taken, s1, p1, an)" by (metis surj_pair)
    obtain claimed s2 where c: "fc_queue_evicted_claim (w_pools w f) (p_q_fd p) (p_q_gen p) = (claimed, s2)" by fastforce
    show ?thesis
    proof (rule sound_idle_quiet [OF idle idle', of _ f])
      fix h assume inv: "pool_inv h (w_pools w f)"
      note T = fc_queue_take_ok(2) [OF inv t]
      have q1: "quiet (w_pools w f) (fc_count_band s1 FC_R_CANCELLED (p_band p1))"
        using quiet_trans [OF fc_queue_take_quiet [OF t] quiet_counts(2)] .
      have "quiet_world w w' \<and> w_anomaly w' = w_anomaly w" if taken
      proof -
        let ?w1 = "w_set w f (fc_count_band s1 FC_R_CANCELLED (p_band p1))"
        obtain w2 p2 where e: "fc_queue_wait_end ?w1 (Some f) p1 (w_clock ?w1) = (w2, p2)" by fastforce
        have "w' = w2" using res Some t that e T by (simp add: fc_release_queued_def Let_def)
        moreover have "quiet_world w ?w1" by (rule quiet_world_set [OF _ q1]) simp
        ultimately show ?thesis using fc_queue_wait_end_quiet [OF e] quiet_world_trans by auto
      qed
      moreover have "quiet_world w w' \<and> w_anomaly w' = w_anomaly w" if "\<not> taken" "claimed"
      proof -
        have "w' = w_set w f s2" using res Some t that c by (simp add: fc_release_queued_def)
        then show ?thesis using quiet_world_set [OF _ fc_queue_evicted_claim_quiet [OF c]] by simp
      qed
      moreover have "quiet_world w w' \<and> w_anomaly w' = w_anomaly w" if "\<not> taken" "\<not> claimed"
      proof -
        have "w' = w \<or> w' = fc_queue_wake_one w (Some f)"
          using res Some t that c by (auto simp: fc_release_queued_def split: prod.splits if_splits)
        moreover obtain x w1 y where h: "fc_queue_wake_head w f (\<lambda>_. 0) = (x, w1, y)" by (metis surj_pair)
        moreover have "w_anomaly (fc_queue_wake_one w (Some f)) = w_anomaly w"
          using fc_queue_wake_head_ok(3) [OF inv h] h by (simp add: fc_queue_wake_one_def)
        ultimately show ?thesis using fc_queue_wake_one_quiet [OF inv] by auto
      qed
      ultimately show "quiet_world w w' \<and> w_anomaly w' = w_anomaly w" by blast
    qed
  qed
qed

lemma fc_permit_release_sound:
  assumes p: "permit_wf p" and res: "fc_permit_release_with w p wake = (w', p')"
  shows "sound_step w p w' p'" "p_state p' = FC_P_NONE \<or> p_state p' = FC_P_RELEASED"
proof -
  have idl: "sound_step w p w (p\<lparr>p_state := FC_P_RELEASED\<rparr>)" if "p_state p \<noteq> FC_P_EXECUTING"
    by (rule sound_idle) (use that in \<open>simp_all add: idle_def\<close>)
  have "sound_step w p w' p' \<and> (p_state p' = FC_P_NONE \<or> p_state p' = FC_P_RELEASED)"
  proof -
    consider "p_state p = FC_P_QUEUED" | "p_state p = FC_P_EXECUTING"
      | "w' = w" "p' = p" "p_state p = FC_P_NONE \<or> p_state p = FC_P_RELEASED"
      | "w' = w" "p' = p\<lparr>p_state := FC_P_RELEASED\<rparr>" "p_state p \<noteq> FC_P_EXECUTING"
      using res by (cases "p_state p") (auto simp: fc_permit_release_with_def)
    then show ?thesis
    proof cases
      case 1
      with res have "fc_release_queued w p wake = (w', p')" by (simp add: fc_permit_release_with_def)
      from fc_release_queued_sound [OF 1 this] show ?thesis by simp
    next
      case 2
      with res have "fc_release_executing w p wake = (w', p')" by (simp add: fc_permit_release_with_def)
      from fc_release_executing_sound [OF p 2 this] show ?thesis by simp
    next
      case 3
      with sound_refl [OF p] show ?thesis by simp
    next
      case 4
      with idl show ?thesis by simp
    qed
  qed
  then show "sound_step w p w' p'" "p_state p' = FC_P_NONE \<or> p_state p' = FC_P_RELEASED" by blast+
qed

end

