(* ===== verification/FC_State.thy ===== *)
theory FC_State
  imports FC_Waits
begin

text \<open>
  The life of a pool, from \<open>common/sockproxy_fc.c\<close>: a configuration applied (\<open>fc_state_apply\<close>), a
  pool made (\<open>fc_state_init_slots\<close>, \<open>fc_state_init\<close>) and destroyed (\<open>fc_state_destroy\<close>), and the tick
  of the adaptive ceiling with the wakes it gives (\<open>fc_adapt_tick\<close>). Applying a configuration keeps
  every waiter in its place and every count true.
\<close>

section \<open>Operations\<close>

text \<open>The limits of \<open>fc_state_apply\<close> on the configuration it is given.\<close>

definition fc_cfg_hold :: "fc_cfg \<Rightarrow> fc_cfg" where
  "fc_cfg_hold c =
     (let c = (if c_max_queue_depth c > FC_QUEUE_DEPTH_MAX then c\<lparr>c_max_queue_depth := FC_QUEUE_DEPTH_MAX\<rparr> else c);
          c = (if c_max_queue_wait_ms c > FC_QUEUE_WAIT_MS_MAX then c\<lparr>c_max_queue_wait_ms := FC_QUEUE_WAIT_MS_MAX\<rparr> else c);
          c = (if c_max_queue_depth c > 0 \<and> c_max_queue_wait_ms c = 0 then c\<lparr>c_max_queue_wait_ms := 5000\<rparr> else c);
          c = (if c_telemetry_stale_ms c = 0 then c\<lparr>c_telemetry_stale_ms := FC_TELEMETRY_STALE_MS_DEFAULT\<rparr> else c);
          c = (if c_warmup_ms c > FC_WARMUP_MS_MAX then c\<lparr>c_warmup_ms := FC_WARMUP_MS_MAX\<rparr> else c);
          c = (if c_ttft_target_ms c > FC_TTFT_TARGET_MS_MAX then c\<lparr>c_ttft_target_ms := FC_TTFT_TARGET_MS_MAX\<rparr> else c)
      in if c_tenant_share_pct c > 100 then c\<lparr>c_tenant_share_pct := 0\<rparr> else c)"

text \<open>The tenant table comes with the first share; a pool that cannot have one runs without a share.\<close>

definition apply_share :: "(nat \<Rightarrow> bool) \<Rightarrow> fc_state \<Rightarrow> fc_state" where
  "apply_share ok s =
     (if fc_share_active s
      then let (rc, tt) = fc_tenant_table_ensure ok (q_dead (s_queue s)) (s_tt s); s = s\<lparr>s_tt := tt\<rparr>
           in if rc \<noteq> 0
              then s\<lparr>s_cfg := (s_cfg s)\<lparr>c_tenant_share_pct := 0,
                                        c_src := (c_src (s_cfg s))(FC_L_TENANT_SHARE := FC_SRC_DEFAULT)\<rparr>\<rparr>
              else s
      else s)"

definition apply_turns :: "fc_cfg \<Rightarrow> fc_state \<Rightarrow> fc_state" where
  "apply_turns old s =
     (let q = s_queue s;
          q = (if c_wake_policy old \<noteq> c_wake_policy (s_cfg s) \<or>
                  list_ex (\<lambda>b. c_band_weight old b \<noteq> c_band_weight (s_cfg s) b) all_bands
               then q\<lparr>q_drr_credit := (\<lambda>_. 0)\<rparr> else q);
          q = (if c_tenant_wake old \<noteq> c_tenant_wake (s_cfg s) then q\<lparr>q_rr_next := (\<lambda>_. 0)\<rparr> else q)
      in s\<lparr>s_queue := q\<rparr>)"

definition fc_state_apply :: "(nat \<Rightarrow> bool) \<Rightarrow> fc_state \<Rightarrow> fc_cfg \<Rightarrow> fc_state" where
  "fc_state_apply ok s cfg =
     (let old = s_cfg s;
          s = apply_share ok (s\<lparr>s_cfg := fc_cfg_hold cfg\<rparr>);
          s = (if c_warmup_ms (s_cfg s) = 0
               then s\<lparr>s_warm_since_ns := (\<lambda>e. if e < FC_MAX_EP then 0 else s_warm_since_ns s e)\<rparr> else s);
          s = apply_turns old (fc_adapt_reset s old);
          depth = unat (c_max_queue_depth (s_cfg s))
      in if \<not> q_dead (s_queue s) \<and> depth > q_cap (s_queue s)
         then s\<lparr>s_queue := snd (fc_ring_grow ok (s_queue s) depth)\<rparr> else s)"

text \<open>A pool after \<open>memset (fc, 0, sizeof (*fc))\<close>.\<close>

definition fc_state_zero :: fc_state where
  "fc_state_zero =
     \<lparr>s_cfg = fc_cfg_zero, s_inflight = 0, s_queued = 0, s_band_inflight = (\<lambda>_. 0), s_band_queued = (\<lambda>_. 0),
      s_band_outcome = (\<lambda>_ _. 0), s_band_std_read = (\<lambda>_. 0), s_ep_inflight = (\<lambda>_ _. 0), s_decisions = (\<lambda>_. 0),
      s_qwait_bucket = (\<lambda>_. 0), s_qwait_sum_ms = 0, s_qwait_count = 0,
      s_queue = \<lparr>q_ring = [], q_cap = 0, q_head = 0, q_tail = 0, q_used = 0, q_count = 0, q_band_count = (\<lambda>_. 0),
                 q_drr_credit = (\<lambda>_. 0), q_rr_next = (\<lambda>_. 0), q_dead = False, q_evicted = [], q_next_deadline_ns = 0\<rparr>,
      s_eff_max = 0, s_adapt_state = FC_AS_OFF, s_adapt_reason = FC_AR_NONE, s_adapt_moves = (0, 0),
      s_warm_since_ns = (\<lambda>_. 0), s_ttft_ewma_ms = (\<lambda>_. 0), s_ttft_ts_ns = (\<lambda>_. 0),
      s_tt = \<lparr>tt_tenants = None, tt_index = [], tt_slots = 0, tt_used = 0, tt_free = 0, tt_tombs = 0,
              tt_runnable_waiting = 0, tt_bound = 0\<rparr>\<rparr>"

definition fc_state_init_slots :: "(nat \<Rightarrow> bool) \<Rightarrow> getenv_fn \<Rightarrow> u32 \<Rightarrow> fc_state" where
  "fc_state_init_slots ok getenv tenant_slots =
     fc_state_apply ok
       (fc_state_zero\<lparr>s_tt := (s_tt fc_state_zero)\<lparr>tt_slots := unat (fc_tenant_slots_clamp tenant_slots)\<rparr>\<rparr>)
       (fc_cfg_from_env getenv)"

definition fc_state_init :: "(nat \<Rightarrow> bool) \<Rightarrow> getenv_fn \<Rightarrow> fc_state" where
  "fc_state_init ok getenv = fc_state_init_slots ok getenv (of_nat FC_TENANT_SLOTS)"

definition fc_state_destroy :: "fc_state \<Rightarrow> fc_state" where
  "fc_state_destroy s =
     (let q = (s_queue s)\<lparr>q_ring := [], q_cap := 0, q_head := 0, q_tail := 0, q_used := 0, q_count := 0,
                          q_band_count := (\<lambda>_. 0), q_dead := True, q_next_deadline_ns := 0\<rparr>;
          s = fc_queue_publish (s\<lparr>s_queue := q\<rparr>)
      in s\<lparr>s_tt := (s_tt s)\<lparr>tt_tenants := None, tt_index := [], tt_used := 0, tt_free := 0, tt_tombs := 0,
                            tt_runnable_waiting := 0, tt_bound := 0\<rparr>\<rparr>)"

text \<open>The tick: the unit a clear signal gives back is a turn for the waiters.\<close>

definition fc_adapt_tick :: "fc_world \<Rightarrow> pool_ref option \<Rightarrow> fc_signal \<Rightarrow> fc_world" where
  "fc_adapt_tick w fc sig =
     (case fc of None \<Rightarrow> w
      | Some f \<Rightarrow>
        let (s, wake) = fc_adapt_step (w_pools w f) sig; w = w_set w f s
        in if wake then fc_queue_wake_room w (Some f) else w)"

section \<open>A configuration applied\<close>

lemma depth_pos: "FC_QUEUE_DEPTH_MAX < x \<Longrightarrow> 0 < x"
  by (simp add: word_less_nat_alt)

lemma fc_cfg_hold_fields [simp]:
  "c_max_queue_depth (fc_cfg_hold c) = min FC_QUEUE_DEPTH_MAX (c_max_queue_depth c)"
  "c_max_queue_wait_ms (fc_cfg_hold c) =
     (if c_max_queue_depth c > 0 \<and> c_max_queue_wait_ms c = 0 then 5000 else min FC_QUEUE_WAIT_MS_MAX (c_max_queue_wait_ms c))"
  "c_telemetry_stale_ms (fc_cfg_hold c) = (if c_telemetry_stale_ms c = 0 then FC_TELEMETRY_STALE_MS_DEFAULT else c_telemetry_stale_ms c)"
  "c_warmup_ms (fc_cfg_hold c) = min FC_WARMUP_MS_MAX (c_warmup_ms c)"
  "c_ttft_target_ms (fc_cfg_hold c) = min FC_TTFT_TARGET_MS_MAX (c_ttft_target_ms c)"
  "c_tenant_share_pct (fc_cfg_hold c) = (if c_tenant_share_pct c > 100 then 0 else c_tenant_share_pct c)"
  unfolding fc_cfg_hold_def Let_def
  by (simp_all add: if_distrib [of c_max_queue_depth] if_distrib [of c_max_queue_wait_ms] if_distrib [of c_telemetry_stale_ms]
      if_distrib [of c_warmup_ms] if_distrib [of c_ttft_target_ms] if_distrib [of c_tenant_share_pct] min_def not_le split del: if_split cong: if_cong)
   (auto split: if_splits intro: depth_pos)

text \<open>The pool apart from what a new configuration sets.\<close>

lemma tt_none: "tt_tenants tt = None \<Longrightarrow> ti tt = (\<lambda>_. 0) \<and> tq tt = (\<lambda>_. 0)"
  by (simp add: ti_def tq_def tt_has_def fun_eq_iff)

lemma fc_tenant_table_ensure_counts:
  assumes "fc_tenant_table_ensure ok dead tt = (rc, tt')"
  shows "ti tt' = ti tt" "tq tt' = tq tt"
proof -
  have z: "t_inflight (ts ! nat sl) = 0 \<and> t_queued (ts ! nat sl) = 0"
    if "ts = map (\<lambda>i. fc_tenant_zero\<lparr>t_next_free := i + 1\<rparr>) [0..<n] @ [fc_tenant_zero]" "sl \<le> int n" "0 \<le> sl" for ts n sl
    using that by (auto simp: nth_append fc_tenant_zero_def)
  have "ti tt' = ti tt \<and> tq tt' = tq tt"
  proof (cases "tt_tenants tt")
    case None
    then show ?thesis
      using assms tt_none [OF None] z
      by (auto simp: fc_tenant_table_ensure_def Let_def ti_def tq_def tt_has_def fun_eq_iff tts_def split: if_splits)
  qed (use assms in \<open>simp add: fc_tenant_table_ensure_def\<close>)
  then show "ti tt' = ti tt" "tq tt' = tq tt" by blast+
qed

lemma apply_share_ok:
  assumes inv: "pool_inv h s"
  shows "pool_inv h (apply_share ok s)" "s_queue (apply_share ok s) = s_queue s" "s_inflight (apply_share ok s) = s_inflight s"
    "s_band_inflight (apply_share ok s) = s_band_inflight s" "s_ep_inflight (apply_share ok s) = s_ep_inflight s"
    "s_cfg (apply_share ok s) = s_cfg s \<or> s_cfg (apply_share ok s) = (s_cfg s)\<lparr>c_tenant_share_pct := 0,
       c_src := (c_src (s_cfg s))(FC_L_TENANT_SHARE := FC_SRC_DEFAULT)\<rparr>"
    "fc_share_active (apply_share ok s) \<Longrightarrow> tt_tenants (s_tt (apply_share ok s)) \<noteq> None"
proof -
  obtain rc tt where e: "fc_tenant_table_ensure ok (q_dead (s_queue s)) (s_tt s) = (rc, tt)" by fastforce
  note E = fc_tenant_table_ensure_ok [OF pool_invD(4) [OF inv] e] fc_tenant_table_ensure_counts [OF e]
  have core: "pool_inv h (s\<lparr>s_tt := tt\<rparr>)"
    using inv E by (simp add: pool_inv_def pool_core_def pool_mirrors_def)
  then have core': "pool_inv h (s\<lparr>s_tt := tt, s_cfg := c\<rparr>)" for c by (simp add: pool_inv_def pool_core_def pool_mirrors_def)
  show "pool_inv h (apply_share ok s)" using inv core core' e by (simp add: apply_share_def Let_def)
  show "s_queue (apply_share ok s) = s_queue s" "s_inflight (apply_share ok s) = s_inflight s"
    "s_band_inflight (apply_share ok s) = s_band_inflight s" "s_ep_inflight (apply_share ok s) = s_ep_inflight s"
    "s_cfg (apply_share ok s) = s_cfg s \<or> s_cfg (apply_share ok s) = (s_cfg s)\<lparr>c_tenant_share_pct := 0,
       c_src := (c_src (s_cfg s))(FC_L_TENANT_SHARE := FC_SRC_DEFAULT)\<rparr>"
    using e by (auto simp: apply_share_def Let_def)
  show "tt_tenants (s_tt (apply_share ok s)) \<noteq> None" if "fc_share_active (apply_share ok s)"
    using that e E(1) tt_okD(3) by (auto simp: apply_share_def fc_share_active_def Let_def split: if_splits)
qed

lemma fc_adapt_reset_frame [simp]:
  "s_cfg (fc_adapt_reset s old) = s_cfg s" "s_queue (fc_adapt_reset s old) = s_queue s" "s_tt (fc_adapt_reset s old) = s_tt s"
  "s_queued (fc_adapt_reset s old) = s_queued s" "s_band_queued (fc_adapt_reset s old) = s_band_queued s"
  "s_inflight (fc_adapt_reset s old) = s_inflight s" "s_band_inflight (fc_adapt_reset s old) = s_band_inflight s"
  "s_ep_inflight (fc_adapt_reset s old) = s_ep_inflight s"
  by (simp_all add: fc_adapt_reset_def Let_def)

lemma apply_turns_eq:
  obtains cr rr where "apply_turns old s = s\<lparr>s_queue := (s_queue s)\<lparr>q_drr_credit := cr, q_rr_next := rr\<rparr>\<rparr>"
proof
  show "apply_turns old s = s\<lparr>s_queue := (s_queue s)\<lparr>
    q_drr_credit := (if c_wake_policy old \<noteq> c_wake_policy (s_cfg s) \<or>
                  list_ex (\<lambda>b. c_band_weight old b \<noteq> c_band_weight (s_cfg s) b) all_bands then (\<lambda>_. 0) else q_drr_credit (s_queue s)),
    q_rr_next := (if c_tenant_wake old \<noteq> c_tenant_wake (s_cfg s) then (\<lambda>_. 0) else q_rr_next (s_queue s))\<rparr>\<rparr>"
    by (simp add: apply_turns_def Let_def)
qed

lemma pool_inv_queue:
  assumes "pool_inv h s" "ring_inv q" "ring_live q = waiters s" "q_evicted q = q_evicted (s_queue s)"
  shows "pool_inv h (s\<lparr>s_queue := q\<rparr>)"
proof -
  have "q_count q = q_count (s_queue s)" "\<And>b. fc_band_counted b \<Longrightarrow> q_band_count q b = q_band_count (s_queue s) b"
    using ring_invD(2,3) [OF assms(2)] ring_invD(2,3) [OF pool_invD(3) [OF assms(1)]] assms(3) by simp_all
  with assms show ?thesis by (simp add: pool_inv_def pool_core_def pool_mirrors_def)
qed

lemma fc_state_apply_ok:
  assumes inv: "pool_inv h s"
  shows "pool_inv h (fc_state_apply ok s cfg)" "waiters (fc_state_apply ok s cfg) = waiters s"
    "s_inflight (fc_state_apply ok s cfg) = s_inflight s" "s_band_inflight (fc_state_apply ok s cfg) = s_band_inflight s"
    "s_ep_inflight (fc_state_apply ok s cfg) = s_ep_inflight s" "adapt_ok (fc_state_apply ok s cfg)"
    "q_dead (s_queue (fc_state_apply ok s cfg)) = q_dead (s_queue s)"
    "fc_share_active (fc_state_apply ok s cfg) \<Longrightarrow> tt_tenants (s_tt (fc_state_apply ok s cfg)) \<noteq> None"
    "\<exists>c \<in> {fc_cfg_hold cfg, (fc_cfg_hold cfg)\<lparr>c_tenant_share_pct := 0,
       c_src := (c_src (fc_cfg_hold cfg))(FC_L_TENANT_SHARE := FC_SRC_DEFAULT)\<rparr>}. s_cfg (fc_state_apply ok s cfg) = c"
proof -
  define s1 where "s1 = apply_share ok (s\<lparr>s_cfg := fc_cfg_hold cfg\<rparr>)"
  have "pool_inv h (s\<lparr>s_cfg := fc_cfg_hold cfg\<rparr>)" using inv by (simp add: pool_inv_def pool_core_def pool_mirrors_def)
  note S1 = apply_share_ok [OF this, of ok, folded s1_def]
  define s2 where "s2 = fc_adapt_reset (if c_warmup_ms (s_cfg s1) = 0
    then s1\<lparr>s_warm_since_ns := (\<lambda>e. if e < FC_MAX_EP then 0 else s_warm_since_ns s1 e)\<rparr> else s1) (s_cfg s)"
  have S2: "s_cfg s2 = s_cfg s1 \<and> s_queue s2 = s_queue s1 \<and> s_tt s2 = s_tt s1 \<and> s_queued s2 = s_queued s1 \<and>
    s_band_queued s2 = s_band_queued s1 \<and> s_inflight s2 = s_inflight s1 \<and> s_band_inflight s2 = s_band_inflight s1 \<and>
    s_ep_inflight s2 = s_ep_inflight s1" by (simp add: s2_def)
  have ad2: "adapt_ok s2" unfolding s2_def by (rule fc_adapt_reset_ok)
  obtain cr rr where t: "apply_turns (s_cfg s) s2 = s2\<lparr>s_queue := (s_queue s2)\<lparr>q_drr_credit := cr, q_rr_next := rr\<rparr>\<rparr>"
    by (rule apply_turns_eq)
  define q3 where "q3 = (s_queue s2)\<lparr>q_drr_credit := cr, q_rr_next := rr\<rparr>"
  have inv2: "pool_inv h s2" using S1(1) S2 pool_inv_cong [of s2 s1 h] by simp
  have q3: "ring_inv q3" "ring_live q3 = waiters s2" "q_evicted q3 = q_evicted (s_queue s2)" "q_dead q3 = q_dead (s_queue s2)"
    using pool_invD(3) [OF inv2] by (simp_all add: q3_def ring_inv_def ring_ok_def ring_live_def ring_seq_def)
  define depth where "depth = unat (c_max_queue_depth (s_cfg s2))"
  define q4 where "q4 = (if \<not> q_dead q3 \<and> depth > q_cap q3 then snd (fc_ring_grow ok q3 depth) else q3)"
  have eq: "fc_state_apply ok s cfg = s2\<lparr>s_queue := q4\<rparr>"
    unfolding fc_state_apply_def Let_def s1_def [symmetric] s2_def [symmetric] t q4_def depth_def q3_def by simp
  have q4: "ring_inv q4" "ring_live q4 = waiters s2" "q_evicted q4 = q_evicted (s_queue s2)" "q_dead q4 = q_dead (s_queue s2)"
    using fc_ring_grow_kept [OF q3(1), of ok depth] q3 by (simp_all add: q4_def ring_kept_def)
  show "pool_inv h (fc_state_apply ok s cfg)" unfolding eq by (rule pool_inv_queue [OF inv2 q4(1-3)])
  show "waiters (fc_state_apply ok s cfg) = waiters s" "s_inflight (fc_state_apply ok s cfg) = s_inflight s"
    "s_band_inflight (fc_state_apply ok s cfg) = s_band_inflight s" "s_ep_inflight (fc_state_apply ok s cfg) = s_ep_inflight s"
    "q_dead (s_queue (fc_state_apply ok s cfg)) = q_dead (s_queue s)"
    using S1 S2 q4 by (simp_all add: eq)
  show "adapt_ok (fc_state_apply ok s cfg)" using ad2 by (simp add: eq adapt_ok_def)
  show "tt_tenants (s_tt (fc_state_apply ok s cfg)) \<noteq> None" if "fc_share_active (fc_state_apply ok s cfg)"
    using that S1(7) S2 by (simp add: eq fc_share_active_def)
  show "\<exists>c \<in> {fc_cfg_hold cfg, (fc_cfg_hold cfg)\<lparr>c_tenant_share_pct := 0,
       c_src := (c_src (fc_cfg_hold cfg))(FC_L_TENANT_SHARE := FC_SRC_DEFAULT)\<rparr>}. s_cfg (fc_state_apply ok s cfg) = c"
    using S1(6) S2 by (auto simp: eq)
qed

section \<open>A pool made and destroyed\<close>

lemma fc_state_zero_inv: "n \<le> 4096 \<Longrightarrow> pool_inv (\<lambda>_. 0) (fc_state_zero\<lparr>s_tt := (s_tt fc_state_zero)\<lparr>tt_slots := n\<rparr>\<rparr>)"
  by (simp add: fc_state_zero_def pool_inv_def pool_core_def pool_mirrors_def ring_inv_def ring_ok_def ring_live_def ring_seq_def
      tt_inv_def ti_def tq_def tt_has_def earliest_def band_len_def fun_eq_iff)

lemma fc_tenant_slots_clamp_bounds: "64 \<le> unat (fc_tenant_slots_clamp n)" "unat (fc_tenant_slots_clamp n) \<le> 4096"
  by (auto simp: fc_tenant_slots_clamp_def word_less_nat_alt not_less)

lemma fc_state_init_ok:
  "pool_inv (\<lambda>_. 0) (fc_state_init_slots ok g n)" "waiters (fc_state_init_slots ok g n) = []"
  "s_inflight (fc_state_init_slots ok g n) = 0" "s_band_inflight (fc_state_init_slots ok g n) b = 0"
  "s_ep_inflight (fc_state_init_slots ok g n) ep r = 0" "adapt_ok (fc_state_init_slots ok g n)"
proof -
  let ?s = "fc_state_zero\<lparr>s_tt := (s_tt fc_state_zero)\<lparr>tt_slots := unat (fc_tenant_slots_clamp n)\<rparr>\<rparr>"
  note A = fc_state_apply_ok [OF fc_state_zero_inv [OF fc_tenant_slots_clamp_bounds(2) [of n]], where ok = ok and cfg = "fc_cfg_from_env g"]
  show "pool_inv (\<lambda>_. 0) (fc_state_init_slots ok g n)" "adapt_ok (fc_state_init_slots ok g n)"
    unfolding fc_state_init_slots_def by (rule A)+
  have "waiters ?s = []" "s_inflight ?s = 0" "s_band_inflight ?s b = 0" "s_ep_inflight ?s ep r = 0"
    by (simp_all add: fc_state_zero_def ring_live_def ring_seq_def)
  with A(2-5) show "waiters (fc_state_init_slots ok g n) = []" "s_inflight (fc_state_init_slots ok g n) = 0"
    "s_band_inflight (fc_state_init_slots ok g n) b = 0" "s_ep_inflight (fc_state_init_slots ok g n) ep r = 0"
    unfolding fc_state_init_slots_def by simp_all
qed

lemma fc_state_destroy_ok:
  assumes inv: "pool_inv h s"
  shows "pool_inv (\<lambda>_. 0) (fc_state_destroy s)" "waiters (fc_state_destroy s) = []" "s_queued (fc_state_destroy s) = 0"
    "q_dead (s_queue (fc_state_destroy s))" "s_inflight (fc_state_destroy s) = s_inflight s"
    "s_band_inflight (fc_state_destroy s) = s_band_inflight s" "s_ep_inflight (fc_state_destroy s) = s_ep_inflight s"
    "q_evicted (s_queue (fc_state_destroy s)) = q_evicted (s_queue s)"
proof -
  have "tt_slots (s_tt s) \<le> 4096" using pool_invD(4) [OF inv] by (simp add: tt_inv_def)
  moreover have "length (q_evicted (s_queue s)) \<le> FC_EVICT_PENDING" by (rule pool_coreD(4) [OF pool_invD(1) [OF inv]])
  ultimately show "pool_inv (\<lambda>_. 0) (fc_state_destroy s)"
    by (simp add: fc_state_destroy_def fc_queue_publish_def Let_def pool_inv_def pool_core_def pool_mirrors_def ring_inv_def ring_ok_def
        ring_live_def ring_seq_def tt_inv_def ti_def tq_def tt_has_def earliest_def band_len_def fun_eq_iff fc_band_counted_def)
qed (simp_all add: fc_state_destroy_def fc_queue_publish_def Let_def ring_live_def ring_seq_def)

text \<open>Nobody queues on a destroyed pool.\<close>

lemma fc_push_dead:
  "q_dead (s_queue s) \<Longrightarrow> fc_push_locked ok s e tkey front ordered at_ns = (-1, 0, None, s, [])"
  by (simp add: fc_push_locked_def Let_def)

section \<open>The tick\<close>

lemma fc_adapt_step_frame:
  "s_queue (fst (fc_adapt_step s sig)) = s_queue s" "s_tt (fst (fc_adapt_step s sig)) = s_tt s"
  "s_queued (fst (fc_adapt_step s sig)) = s_queued s" "s_band_queued (fst (fc_adapt_step s sig)) = s_band_queued s"
  "s_inflight (fst (fc_adapt_step s sig)) = s_inflight s" "s_band_inflight (fst (fc_adapt_step s sig)) = s_band_inflight s"
  "s_ep_inflight (fst (fc_adapt_step s sig)) = s_ep_inflight s"
  by (simp_all add: fc_adapt_step_def Let_def)

lemma fc_adapt_step_wake:
  "snd (fc_adapt_step s sig) \<longleftrightarrow> c_adaptive (s_cfg s) \<and> c_max_outstanding (s_cfg s) \<noteq> 0 \<and> sig_fresh sig \<and>
     \<not> sig_queued sig \<and> \<not> sig_ttft_over sig"
  by (simp add: fc_adapt_step_def Let_def)

lemma fc_adapt_step_inv: "pool_inv h (fst (fc_adapt_step s sig)) = pool_inv h s"
  by (rule pool_inv_cong) (rule fc_adapt_step_frame)+

lemma fc_adapt_tick_inv:
  assumes inv: "pool_inv h (w_pools w f)"
  shows "pool_inv h (w_pools (fc_adapt_tick w (Some f) sig) f)"
proof -
  obtain s wake where a: "fc_adapt_step (w_pools w f) sig = (s, wake)" by fastforce
  have "pool_inv h (w_pools (w_set w f s) f)" using fc_adapt_step_inv [of h "w_pools w f" sig] inv a by simp
  from this fc_queue_wake_room_ok(1) [OF this] show ?thesis using a by (simp add: fc_adapt_tick_def Let_def)
qed

text \<open>A wake changes no limit.\<close>

definition limits :: "fc_state \<Rightarrow> fc_cfg \<times> u32" where
  "limits s = (s_cfg s, s_eff_max s)"

lemma limits_frame [simp]:
  "limits (s\<lparr>s_queue := q\<rparr>) = limits s" "limits (s\<lparr>s_tt := tt\<rparr>) = limits s" "limits (fc_queue_publish s) = limits s"
  by (simp_all add: limits_def fc_queue_publish_def)

lemma fc_queue_wake_head_limits:
  assumes inv: "pool_inv h (w_pools w f)" and res: "fc_queue_wake_head w f pend = (woken, w', pend')"
  shows "limits (w_pools w' f) = limits (w_pools w f)"
proof -
  obtain r s u where p: "fc_ring_pop_runnable (w_pools w f) pend = (r, s, u)" by (metis surj_pair)
  have "s = (w_pools w f)\<lparr>s_queue := s_queue s\<rparr>"
    using fc_ring_pop_runnable_ok(1) [OF pool_invD(3) [OF inv] p] by (simp add: queue_only_def)
  then have s: "limits s = limits (w_pools w f)" by (metis limits_frame(1))
  have undo: "limits (w_pools (fc_wake_undo v f e u) f) = limits (w_pools v f)" for v e
    by (simp add: fc_wake_undo_def Let_def split: prod.splits option.splits)
  show ?thesis
  proof (cases r)
    case None
    with res p s show ?thesis by (auto simp: fc_queue_wake_head_def)
  next
    case (Some e)
    obtain d w2 where wc: "wake_call (w_set w f (fc_queue_publish s)) (e_fd e) (e_gen e) = (d, w2)" by fastforce
    have "w_pools w2 f = fc_queue_publish s"
      using wake_call_frame(1) [of "w_set w f (fc_queue_publish s)" "e_fd e" "e_gen e"] wc by simp
    then show ?thesis
      using res p Some wc s undo [of w2 e] by (auto simp: fc_queue_wake_head_def Let_def split: if_splits prod.splits)
  qed
qed

lemma wake_loop_limits:
  "pool_inv h (w_pools w f) \<Longrightarrow> limits (w_pools (wake_loop n w f pend) f) = limits (w_pools w f)"
proof (induction n arbitrary: w pend)
  case (Suc n)
  obtain woken w1 pend1 where h: "fc_queue_wake_head w f pend = (woken, w1, pend1)" by (metis surj_pair)
  note L = fc_queue_wake_head_limits [OF Suc.prems h] and I = fc_queue_wake_head_ok(1) [OF Suc.prems h]
  show ?case using L Suc.IH [OF I, of pend1] h by (cases woken) simp_all
qed simp

lemma fc_adapt_tick_ok:
  assumes inv: "pool_inv h (w_pools w f)" and ok: "adapt_ok (w_pools w f)"
  shows "adapt_ok (w_pools (fc_adapt_tick w (Some f) sig) f)"
proof -
  obtain s wake where a: "fc_adapt_step (w_pools w f) sig = (s, wake)" by fastforce
  have i: "pool_inv h (w_pools (w_set w f s) f)" using fc_adapt_step_inv [of h "w_pools w f" sig] inv a by simp
  have "adapt_ok s" using fc_adapt_step_ok [OF ok, of sig] a by simp
  moreover have "limits (w_pools (fc_queue_wake_room (w_set w f s) (Some f)) f) = limits s"
    using wake_loop_limits [OF i] by (simp add: fc_queue_wake_room_def Let_def)
  ultimately show ?thesis using a by (simp add: fc_adapt_tick_def Let_def adapt_ok_def limits_def)
qed

end
