(* ===== verification/FC_System.thy ===== *)
theory FC_System
  imports FC_Account FC_State
begin

text \<open>
  All requests of a process together: a world and the list of the permits the proxy holds, moved by
  the gate and queue operations of \<open>common/sockproxy_fc.c\<close> in any order, each applied to one permit.
  Every counter of every pool is the number of permits that hold such a unit and no release finds a
  counter at zero, in every state reached without a push that evicts the only hold of its own tenant.
\<close>

section \<open>Totals\<close>

definition held_of :: "fc_permit list \<Rightarrow> pool_ref \<Rightarrow> fc_held" where
  "held_of ps f =
     \<lparr>h_svc = (\<Sum>p\<leftarrow>ps. n_svc f p), h_band = (\<lambda>b. \<Sum>p\<leftarrow>ps. n_band f p b),
      h_ep = (\<lambda>ep r. \<Sum>p\<leftarrow>ps. n_ep f p ep r), h_ten = (\<lambda>sl. \<Sum>p\<leftarrow>ps. n_ten f p sl)\<rparr>"

text \<open>The permits besides the \<open>i\<close>-th.\<close>

definition others :: "fc_permit list \<Rightarrow> nat \<Rightarrow> fc_permit list" where
  "others ps i = take i ps @ drop (Suc i) ps"

lemma held_of_upd:
  assumes "i < length ps" shows "held_of (ps[i := p]) f = held_plus (held_of (others ps i) f) f p"
  using assms by (simp add: held_of_def held_plus_def others_def upd_conv_take_nth_drop add_ac)

lemma held_of_split: "i < length ps \<Longrightarrow> held_of ps f = held_plus (held_of (others ps i) f) f (ps ! i)"
  using held_of_upd [of i ps "ps ! i" f] by simp

lemma sum_list_le_length: "(\<And>x. g x \<le> (1::nat)) \<Longrightarrow> (\<Sum>x\<leftarrow>xs. g x) \<le> length xs"
proof (induction xs)
  case (Cons x xs)
  then show ?case using add_le_mono [of "g x" 1] by simp
qed simp

lemma held_of_le:
  "h_svc (held_of ps f) \<le> length ps" "h_band (held_of ps f) b \<le> length ps" "h_ep (held_of ps f) ep r \<le> length ps"
  "h_ten (held_of ps f) sl \<le> length ps"
  by (simp_all add: held_of_def n_svc_def n_band_def n_ep_def n_ten_def sum_list_le_length)

lemma held_of_small:
  assumes "i < length ps" "length ps < 2 ^ 32" shows "held_small (held_of (others ps i) f)"
proof -
  have l: "length (others ps i) + 1 < 2 ^ 32" using assms by (simp add: others_def)
  have "x + 1 < 2 ^ 32" if "x \<le> length (others ps i)" for x using that l by linarith
  then show ?thesis using held_of_le [where ps = "others ps i"] unfolding held_small_def by blast
qed

section \<open>Accounting\<close>

text \<open>Every counter has its holders, every permit is well formed, nothing underflowed.\<close>

definition accounted :: "fc_world \<times> fc_permit list \<Rightarrow> bool" where
  "accounted st \<longleftrightarrow> (\<forall>f. acct_pool (w_pools (fst st) f) (held_of (snd st) f)) \<and> (\<forall>p \<in> set (snd st). permit_wf p) \<and>
     w_anomaly (fst st) FC_A_UNDERFLOW = 0 \<and> w_anomaly (fst st) FC_A_UNKNOWN_PERMIT = 0"

lemma accounted_acct: "accounted (w, ps) \<Longrightarrow> i < length ps \<Longrightarrow> acct w (\<lambda>f. held_of (others ps i) f) (ps ! i)"
  using held_of_split [of i ps] by (simp add: accounted_def acct_def)

lemma accounted_step:
  assumes A: "accounted (w, ps)" and i: "i < length ps" "length ps < 2 ^ 32" and s: "sound_step w (ps ! i) w' p'"
  shows "accounted (w', ps[i := p'])"
proof -
  have "acct w' (\<lambda>f. held_of (others ps i) f) p' \<and> w_anomaly w' FC_A_UNDERFLOW = 0 \<and> w_anomaly w' FC_A_UNKNOWN_PERMIT = 0"
    using s [unfolded sound_step_def, THEN conjunct1, rule_format, OF held_of_small [OF i] accounted_acct [OF A i(1)]] A
    by (simp add: accounted_def)
  moreover have "permit_wf p'" using s by (simp add: sound_step_def)
  moreover have "permit_wf p" if "p \<in> set (ps[i := p'])" for p
    using set_update_subset_insert [of ps i p'] that A \<open>permit_wf p'\<close> by (auto simp: accounted_def)
  ultimately show ?thesis using held_of_upd [OF i(1)] by (simp add: accounted_def acct_def)
qed

lemma accounted_quiet:
  assumes "accounted (w, ps)" "quiet_world w w'" "w_anomaly w' = w_anomaly w"
  shows "accounted (w', ps)"
  using assms acct_pool_quiet by (simp add: accounted_def quiet_world_def) blast

text \<open>A change of one pool that moves no counter and keeps the invariant.\<close>

lemma accounted_set:
  assumes A: "accounted (w, ps)" and w': "w_pools w' = (w_pools w)(f := s')" "w_anomaly w' = w_anomaly w"
    and c: "s_inflight s' = s_inflight (w_pools w f)" "s_band_inflight s' = s_band_inflight (w_pools w f)"
      "s_ep_inflight s' = s_ep_inflight (w_pools w f)"
    and inv: "\<And>h. pool_inv h (w_pools w f) \<Longrightarrow> pool_inv h s'"
  shows "accounted (w', ps)"
proof -
  have "acct_pool s' (held_of ps f)" using A c inv by (simp add: accounted_def acct_pool_def)
  with A w' show ?thesis by (simp add: accounted_def)
qed

lemma accounted_inv: "accounted (w, ps) \<Longrightarrow> pool_inv (h_ten (held_of ps f)) (w_pools w f)"
  by (simp add: accounted_def acct_pool_def)

section \<open>Steps\<close>

text \<open>
  One operation on the permit of one request, or on the queue of one pool, labelled with what was
  done. The guards say how the callers use a permit: it is only bound anew when it executes nothing,
  and an endpoint's unit is asked of the permit's own pool. A push is not restricted.
\<close>

datatype fc_op =
    Op_acquire nat | Op_bypass nat | Op_ep_acquire nat | Op_ep_acquire_any nat | Op_move nat
  | Op_release_role nat | Op_release nat | Op_push nat nat int u64 u64 bool | Op_take nat nat | Op_resume nat
  | Op_pop nat | Op_wake_one | Op_wake_room | Op_apply nat | Op_tick | Op_elapse

type_synonym fc_system = "fc_world \<times> fc_permit list"

inductive fc_step :: "fc_system \<Rightarrow> fc_op \<Rightarrow> fc_system \<Rightarrow> bool" where
  acquire: "i < length ps \<Longrightarrow> idle (ps ! i) \<Longrightarrow> fc_service_acquire_with w fc (ps ! i) can_queue woken tkey band = (v, w', p') \<Longrightarrow>
     fc_step (w, ps) (Op_acquire i) (w', ps[i := p'])"
| bypass: "i < length ps \<Longrightarrow> idle (ps ! i) \<Longrightarrow> fc_bypass w fc (ps ! i) = (w', p') \<Longrightarrow>
     fc_step (w, ps) (Op_bypass i) (w', ps[i := p'])"
| ep_acquire: "i < length ps \<Longrightarrow> p_fc (ps ! i) = fc \<Longrightarrow> fc_ep_acquire w fc (ps ! i) ep role = (v, w', p') \<Longrightarrow>
     fc_step (w, ps) (Op_ep_acquire i) (w', ps[i := p'])"
| ep_acquire_any: "i < length ps \<Longrightarrow> p_fc (ps ! i) = fc \<Longrightarrow>
     fc_ep_acquire_any w fc (ps ! i) role preferred n_eps eligible = (ep, v, w', p') \<Longrightarrow>
     fc_step (w, ps) (Op_ep_acquire_any i) (w', ps[i := p'])"
| move: "i < length ps \<Longrightarrow> fc_permit_move w (ps ! i) role new_ep = (rc, w', p') \<Longrightarrow> fc_step (w, ps) (Op_move i) (w', ps[i := p'])"
| release_role: "i < length ps \<Longrightarrow> fc_release_role w (ps ! i) role = (w', p') \<Longrightarrow> fc_step (w, ps) (Op_release_role i) (w', ps[i := p'])"
| release: "i < length ps \<Longrightarrow> fc_permit_release_with w (ps ! i) wake = (w', p') \<Longrightarrow> fc_step (w, ps) (Op_release i) (w', ps[i := p'])"
| push: "i < length ps \<Longrightarrow> idle (ps ! i) \<Longrightarrow> fc_queue_push w (Some f) (ps ! i) fd gen now front = (rc, w', p') \<Longrightarrow>
     fc_step (w, ps) (Op_push i f fd gen now front) (w', ps[i := p'])"
| take_wait: "i < length ps \<Longrightarrow> fc_queue_take (w_pools w f) (ps ! i) = (won, s', p', an) \<Longrightarrow>
     fc_step (w, ps) (Op_take i f) (w_note (w_set w f s') an, ps[i := p'])"
| resume: "i < length ps \<Longrightarrow> fc_queue_owner_resume w fc (ps ! i) = (res, w', p') \<Longrightarrow> fc_step (w, ps) (Op_resume i) (w', ps[i := p'])"
| pop: "fc_queue_pop (w_pools w f) = (r, s', an) \<Longrightarrow> fc_step (w, ps) (Op_pop f) (w_note (w_set w f s') an, ps)"
| wake_one: "fc_step (w, ps) Op_wake_one (fc_queue_wake_one w fc, ps)"
| wake_room: "fc_step (w, ps) Op_wake_room (fc_queue_wake_room w fc, ps)"
| apply_cfg: "fc_step (w, ps) (Op_apply f) (w_set w f (fc_state_apply (w_calloc w) (w_pools w f) cfg), ps)"
| tick: "fc_step (w, ps) Op_tick (fc_adapt_tick w fc sig, ps)"
| elapse: "fc_step (w, ps) Op_elapse (w\<lparr>w_clock := t\<rparr>, ps)"

inductive_cases fc_stepE: "fc_step (w, ps) op st'"

text \<open>
  The one operation that breaks the accounting: a push that evicts the only hold of its own tenant
  (\<open>fc_push_locked_frees\<close> shows what becomes of the pool then).
\<close>

fun self_evicts :: "fc_system \<Rightarrow> fc_op \<Rightarrow> bool" where
  "self_evicts (w, ps) (Op_push i f fd gen now front) \<longleftrightarrow>
     evict_frees (w_calloc w) (w_pools w f) (push_ent (w_pools w f) (ps ! i) fd gen now front) (p_tkey (ps ! i)) front now"
| "self_evicts _ _ \<longleftrightarrow> False"

text \<open>What is reached, with every operation on the way and the state it was done in.\<close>

inductive fc_reach :: "fc_system \<Rightarrow> (fc_system \<times> fc_op) list \<Rightarrow> fc_system \<Rightarrow> bool" for st0 where
  start: "fc_reach st0 [] st0"
| more: "fc_reach st0 tr st \<Longrightarrow> fc_step st op st' \<Longrightarrow> fc_reach st0 (tr @ [(st, op)]) st'"

section \<open>Every step is accounted\<close>

lemma fc_bypass_sound:
  assumes "idle p" "fc_bypass w fc p = (w', p')" shows "sound_step w p w' p'"
proof -
  obtain w1 p1 where b: "fc_permit_bind w p fc = (w1, p1)" by fastforce
  have w1: "w_pools w1 = w_pools w" "w_anomaly w1 = w_anomaly w" using fc_permit_bind_world(1,2) [of w p fc] b by simp_all
  have "quiet_world w w' \<and> w_anomaly w' = w_anomaly w"
    using assms(2) w1 b by (auto simp: fc_bypass_def quiet_world_def split: option.splits if_splits)
  moreover have "idle p'" using assms(2) b by (auto simp: fc_bypass_def idle_def)
  ultimately show ?thesis using assms(1) by (intro sound_idle) simp_all
qed

lemma ep_try_sound:
  assumes "p_fc p = fc" "permit_wf p" "ep_try w fc p role preferred eligible is' any = (ep, any', w', p')"
  shows "sound_step w p w' p'"
  using assms
proof (induction is' arbitrary: w p any)
  case Nil
  then show ?case using sound_refl by simp
next
  case (Cons i is')
  obtain v w1 p1 where a: "fc_ep_acquire w fc p i role = (v, w1, p1)" by (metis surj_pair)
  note A = fc_ep_acquire_sound [OF Cons.prems(1,2) a]
  show ?case
    using Cons.prems(3) a A(1) Cons.IH [OF Cons.prems(1,2)] sound_step_trans [OF A(1) Cons.IH [OF A(3,2)]]
    by (auto split: if_splits)
qed

lemma fc_ep_acquire_any_sound:
  assumes p: "p_fc p = fc" "permit_wf p" and res: "fc_ep_acquire_any w fc p role preferred n_eps eligible = (ep, v, w', p')"
  shows "sound_step w p w' p'"
proof (cases "p_state p \<noteq> FC_P_EXECUTING \<or> \<not> fc_pool_active w fc")
  case True
  with res sound_refl [OF p(2)] show ?thesis by (auto simp: fc_ep_acquire_any_def)
next
  case False
  define n where "n = (if n_eps > int FC_MAX_EP then int FC_MAX_EP else n_eps)"
  define asked where "asked = (0 \<le> preferred \<and> preferred < n \<and> eligible preferred)"
  obtain v1 w1 p1 where a: "(if asked then fc_ep_acquire w fc p preferred role else (FC_SHED, w, p)) = (v1, w1, p1)" by (metis surj_pair)
  have A: "sound_step w p w1 p1 \<and> permit_wf p1 \<and> p_fc p1 = fc"
    using a fc_ep_acquire_sound [OF p] sound_refl [OF p(2)] p by (auto split: if_splits)
  obtain i any w2 p2 where t: "ep_try w1 fc p1 role preferred eligible (map int [0..<nat n]) asked = (i, any, w2, p2)" by (metis surj_pair)
  have T: "sound_step w p w2 p2" using sound_step_trans ep_try_sound [OF _ _ t] A by blast
  have "(ep, v, w', p') = (if asked \<and> v1 = FC_ADMIT then (preferred, FC_ADMIT, w1, p1)
     else if i \<ge> 0 then (i, FC_ADMIT, w2, p2) else if any then (-1, FC_SHED, w2, p2)
     else (-1, FC_NO_CAPACITY, case fc of None \<Rightarrow> w2 | Some f \<Rightarrow> w_set w2 f (fc_count (w_pools w2 f) FC_R_NO_HEALTHY_CAPACITY), p2))"
    unfolding res [symmetric] fc_ep_acquire_any_def n_def [symmetric] using False a t
    by (simp only: Let_def asked_def [symmetric] prod.case if_False)
  moreover have "sound_step w p (case fc of None \<Rightarrow> w2 | Some f \<Rightarrow> w_set w2 f (fc_count (w_pools w2 f) FC_R_NO_HEALTHY_CAPACITY)) p2"
    using T sound_step_trans [OF T sound_count(1)] by (auto simp: sound_step_def split: option.split)
  ultimately show ?thesis using A T by (auto split: if_splits)
qed

lemma fc_queue_push_sound_fd:
  assumes "idle p" "0 \<le> fd"
    "\<not> evict_frees (w_calloc w) (w_pools w f) (push_ent (w_pools w f) p fd gen now front) (p_tkey p) front now"
    "fc_queue_push w (Some f) p fd gen now front = (rc, w', p')"
  shows "sound_step w p w' p'"
  unfolding sound_step_def
proof (intro conjI allI impI)
  fix o' assume A: "acct w o' p"
  note P = fc_queue_push_ok [OF acct_poolD(2) [OF A assms(1)] assms(2,4)]
  have idle': "idle p'" using P(4) by (simp add: idle_def)
  show "acct w' o' p'" by (rule acct_idle [OF A assms(1) idle' fc_queue_push_quiet [OF assms(2-)]])
  show "w_anomaly w' FC_A_UNDERFLOW = w_anomaly w FC_A_UNDERFLOW" "w_anomaly w' FC_A_UNKNOWN_PERMIT = w_anomaly w FC_A_UNKNOWN_PERMIT"
    using P(3) by simp_all
next
  obtain rc0 slot gone s an where lock: "fc_push_locked (w_calloc w) (w_pools w f) (push_ent (w_pools w f) p fd gen now front) (p_tkey p) front
      (push_ordered p now front) now = (rc0, slot, gone, s, an)" by (metis surj_pair)
  show "permit_wf p'" using fc_queue_push_eq(4) [OF assms(2) lock assms(4)] by (simp add: permit_wf_def)
qed

lemma fc_queue_push_sound:
  assumes "idle p"
    "\<not> evict_frees (w_calloc w) (w_pools w f) (push_ent (w_pools w f) p fd gen now front) (p_tkey p) front now"
    "fc_queue_push w (Some f) p fd gen now front = (rc, w', p')"
  shows "sound_step w p w' p'"
proof (cases "0 \<le> fd")
  case True
  with assms fc_queue_push_sound_fd show ?thesis by blast
next
  case False
  then have "w' = w" "p' = p" using assms(3) by (simp_all add: fc_queue_push_def)
  with sound_refl sound_released [OF assms(1)] show ?thesis by simp
qed

lemma fc_queue_take_sound:
  assumes wf: "permit_wf p" and res: "fc_queue_take (w_pools w f) p = (won, s', p', an)"
  shows "sound_step w p (w_note (w_set w f s') an) p'"
proof (cases "p_state p = FC_P_QUEUED")
  case True
  then have idle: "idle p" by (simp add: idle_def)
  have "p' = p \<or> p' = p\<lparr>p_state := FC_P_ENDED\<rparr>"
    using res by (auto simp: fc_queue_take_def fc_permit_settle_def Let_def split: if_splits option.splits prod.splits)
  then have idle': "idle p'" using True by (auto simp: idle_def)
  show ?thesis
  proof (rule sound_idle_quiet [OF idle idle', of _ f])
    fix h assume inv: "pool_inv h (w_pools w f)"
    have "quiet_world w (w_note (w_set w f s') an)"
      using quiet_world_set [OF _ fc_queue_take_quiet [OF res]] by simp
    then show "quiet_world w (w_note (w_set w f s') an) \<and> w_anomaly (w_note (w_set w f s') an) = w_anomaly w"
      using fc_queue_take_ok(2) [OF inv res] by simp
  qed
next
  case False
  then have "p' = p \<and> s' = w_pools w f \<and> an = []"
    using res by (auto simp: fc_queue_take_def fc_permit_settle_def Let_def split: if_splits option.splits prod.splits)
  then show ?thesis using sound_refl [OF wf] by (simp add: w_set_def)
qed

lemma fc_queue_owner_resume_sound:
  assumes wf: "permit_wf p" and res: "fc_queue_owner_resume w fc p = (r, w', p')"
  shows "sound_step w p w' p'"
proof (cases "p_state p = FC_P_QUEUED \<and> fc \<noteq> None")
  case True
  then obtain f where f: "fc = Some f" by blast
  have idle: "idle p" using True by (simp add: idle_def)
  obtain claimed s where c: "fc_queue_evicted_claim (w_pools w f) (p_q_fd p) (p_q_gen p) = (claimed, s)" by fastforce
  have "w' = w_set w f s \<and> idle p'"
    using res True f c by (auto simp: fc_queue_owner_resume_def fc_queue_resumed_def fc_permit_settle_def Let_def idle_def split: if_splits)
  then show ?thesis
    using sound_idle [OF idle, of p' w w'] quiet_world_set [OF _ fc_queue_evicted_claim_quiet [OF c]] by simp
next
  case False
  then have "w' = w" "p' = p" using res by (auto simp: fc_queue_owner_resume_def Let_def split: if_splits option.splits)
  with sound_refl [OF wf] show ?thesis by simp
qed

lemma wake_loop_anomaly: "pool_inv h (w_pools w f) \<Longrightarrow> w_anomaly (wake_loop n w f pend) = w_anomaly w"
proof (induction n arbitrary: w pend)
  case (Suc n)
  obtain woken w1 pend1 where h: "fc_queue_wake_head w f pend = (woken, w1, pend1)" by (metis surj_pair)
  note H = fc_queue_wake_head_ok(1,3) [OF Suc.prems h]
  show ?case using H(2) Suc.IH [OF H(1), of pend1] h by (cases woken) simp_all
qed simp

lemma accounted_wake:
  assumes "accounted (w, ps)"
  shows "accounted (fc_queue_wake_one w fc, ps)" "accounted (fc_queue_wake_room w fc, ps)"
proof -
  have "accounted (fc_queue_wake_one w fc, ps) \<and> accounted (fc_queue_wake_room w fc, ps)"
  proof (cases fc)
    case None
    with assms show ?thesis by (simp add: fc_queue_wake_one_def fc_queue_wake_room_def)
  next
    case (Some f)
    note inv = accounted_inv [OF assms, of f]
    obtain x w1 y where h: "fc_queue_wake_head w f (\<lambda>_. 0) = (x, w1, y)" by (metis surj_pair)
    have "w_anomaly (fc_queue_wake_one w (Some f)) = w_anomaly w" "w_anomaly (fc_queue_wake_room w (Some f)) = w_anomaly w"
      using fc_queue_wake_head_ok(3) [OF inv h] h wake_loop_anomaly [OF inv]
      by (simp_all add: fc_queue_wake_one_def fc_queue_wake_room_def Let_def)
    then show ?thesis
      using accounted_quiet [OF assms fc_queue_wake_one_quiet [OF inv]] accounted_quiet [OF assms fc_queue_wake_room_quiet [OF inv]] Some by simp
  qed
  then show "accounted (fc_queue_wake_one w fc, ps)" "accounted (fc_queue_wake_room w fc, ps)" by blast+
qed

lemma accounted_apply:
  assumes "accounted (w, ps)" shows "accounted (w_set w f (fc_state_apply ok (w_pools w f) cfg), ps)"
proof (rule accounted_set [OF assms])
  note inv = accounted_inv [OF assms, of f]
  show "s_inflight (fc_state_apply ok (w_pools w f) cfg) = s_inflight (w_pools w f)"
    "s_band_inflight (fc_state_apply ok (w_pools w f) cfg) = s_band_inflight (w_pools w f)"
    "s_ep_inflight (fc_state_apply ok (w_pools w f) cfg) = s_ep_inflight (w_pools w f)"
    by (rule fc_state_apply_ok(3-5) [OF inv])+
qed (simp_all add: fc_state_apply_ok(1))

lemma accounted_tick:
  assumes "accounted (w, ps)" shows "accounted (fc_adapt_tick w fc sig, ps)"
proof (cases fc)
  case None
  with assms show ?thesis by (simp add: fc_adapt_tick_def)
next
  case (Some f)
  obtain s wake where a: "fc_adapt_step (w_pools w f) sig = (s, wake)" by fastforce
  have A: "accounted (w_set w f s, ps)"
    using a fc_adapt_step_frame [of "w_pools w f" sig] fc_adapt_step_inv [of _ "w_pools w f" sig]
    by (intro accounted_set [OF assms, of _ f s]) simp_all
  with accounted_wake(2) [OF A] show ?thesis using a Some by (simp add: fc_adapt_tick_def Let_def)
qed

lemma fc_step_length: "fc_step st op st' \<Longrightarrow> length (snd st') = length (snd st)"
  by (induction rule: fc_step.induct) simp_all

lemma accounted_wf: "accounted (w, ps) \<Longrightarrow> i < length ps \<Longrightarrow> permit_wf (ps ! i)"
  by (simp add: accounted_def)

lemmas step_sound = fc_service_acquire_sound fc_bypass_sound fc_ep_acquire_sound(1) fc_ep_acquire_any_sound fc_permit_move_sound(1)
  fc_release_role_sound(1) fc_permit_release_sound(1) fc_queue_push_sound fc_queue_take_sound fc_queue_owner_resume_sound

lemma fc_step_accounted:
  "fc_step st op st' \<Longrightarrow> \<not> self_evicts st op \<Longrightarrow> accounted st \<Longrightarrow> length (snd st) < 2 ^ 32 \<Longrightarrow> accounted st'"
proof (induction rule: fc_step.induct)
  case (pop w f r s' an ps)
  note inv = accounted_inv [OF pop(3), of f]
  show ?case
    using accounted_quiet [OF pop(3) quiet_world_set [OF _ fc_queue_pop_quiet [OF pop(1)]], of "w_note (w_set w f s') an"]
      fc_queue_pop_ok(2) [OF inv pop(1)] by simp
next
  case (elapse w ps t)
  then show ?case using accounted_quiet [of w ps "w\<lparr>w_clock := t\<rparr>"] quiet_world_same by simp
qed (use accounted_step accounted_wf step_sound accounted_wake accounted_apply accounted_tick in \<open>auto\<close>)

lemma fc_reach_accounted:
  assumes "fc_reach st0 tr st" "\<forall>(st, op) \<in> set tr. \<not> self_evicts st op" "accounted st0" "length (snd st0) < 2 ^ 32"
  shows "accounted st \<and> length (snd st) = length (snd st0)"
  using assms
proof (induction rule: fc_reach.induct)
  case (more tr st op st')
  then show ?case using fc_step_accounted [OF more.hyps(2)] fc_step_length [OF more.hyps(2)] by simp
qed simp

section \<open>The start\<close>

text \<open>Pools just made and permits that execute nothing.\<close>

lemma held_of_idle: "list_all idle ps \<Longrightarrow> held_of ps f = \<lparr>h_svc = 0, h_band = (\<lambda>_. 0), h_ep = (\<lambda>_ _. 0), h_ten = (\<lambda>_. 0)\<rparr>"
  by (induction ps) (simp_all add: held_of_def n_svc_def n_band_def n_ep_def n_ten_def exec_on_def idle_def)

lemma accounted_start:
  assumes pools: "\<And>f. \<exists>n. w_pools w f = fc_state_init_slots ok g n" and an: "w_anomaly w = (\<lambda>_. 0)" and idle: "list_all idle ps"
  shows "accounted (w, ps)"
proof -
  have "acct_pool (w_pools w f) (held_of ps f)" for f
  proof -
    obtain n where n: "w_pools w f = fc_state_init_slots ok g n" using pools by blast
    show ?thesis unfolding n held_of_idle [OF idle] by (simp add: acct_pool_def fc_state_init_ok)
  qed
  moreover have "\<forall>p \<in> set ps. permit_wf p" using idle by (auto simp: list_all_iff intro: sound_released)
  ultimately show ?thesis using an by (simp add: accounted_def)
qed

section \<open>Counters and holders\<close>

lemma sum_filter: "(\<Sum>x\<leftarrow>xs. if P x then 1 else (0 :: nat)) = length (filter P xs)"
  by (induction xs) simp_all

lemma sum_holders:
  assumes "\<And>p. p \<in> set ps \<Longrightarrow> n p = (if P p then 1 else (0 :: nat))" shows "(\<Sum>p\<leftarrow>ps. n p) = length (filter P ps)"
proof -
  have "map n ps = map (\<lambda>p. if P p then 1 else 0) ps" using assms by simp
  then have "(\<Sum>p\<leftarrow>ps. n p) = (\<Sum>p\<leftarrow>ps. if P p then 1 else 0)" by (rule arg_cong)
  with sum_filter show ?thesis by simp
qed

lemma accounted_counts:
  assumes A: "accounted (w, ps)"
  shows "unat (s_inflight (w_pools w f)) = length (filter (exec_on f) ps)"
    "fc_band_counted b \<Longrightarrow> unat (s_band_inflight (w_pools w f) b) = length (filter (\<lambda>p. exec_on f p \<and> p_band p = b) ps)"
    "unat (s_ep_inflight (w_pools w f) ep r) = length (filter (\<lambda>p. exec_on f p \<and> p_ep p r = int ep) ps)"
    "0 \<le> sl \<Longrightarrow> ti (s_tt (w_pools w f)) sl = length (filter (\<lambda>p. exec_on f p \<and> p_tslot p = sl) ps)"
proof -
  have P: "acct_pool (w_pools w f) (held_of ps f)" and wf: "\<And>p. p \<in> set ps \<Longrightarrow> permit_wf p" using A by (simp_all add: accounted_def)
  have svc: "exec_on f p \<Longrightarrow> p_svc_held p" if "p \<in> set ps" for p using wf [OF that] by (simp add: permit_wf_def exec_on_def)
  have "(\<Sum>p\<leftarrow>ps. n_svc f p) = length (filter (exec_on f) ps)"
    by (rule sum_holders) (use svc in \<open>auto simp: n_svc_def\<close>)
  with P show "unat (s_inflight (w_pools w f)) = length (filter (exec_on f) ps)" by (simp add: acct_pool_def held_of_def)
  have "(\<Sum>p\<leftarrow>ps. n_band f p b) = length (filter (\<lambda>p. exec_on f p \<and> p_band p = b) ps)"
    by (rule sum_holders) (use svc in \<open>auto simp: n_band_def\<close>)
  with P show "unat (s_band_inflight (w_pools w f) b) = length (filter (\<lambda>p. exec_on f p \<and> p_band p = b) ps)" if "fc_band_counted b"
    using that by (simp add: acct_pool_def held_of_def)
  have "(\<Sum>p\<leftarrow>ps. n_ep f p ep r) = length (filter (\<lambda>p. exec_on f p \<and> p_ep p r = int ep) ps)"
    by (rule sum_holders) (simp add: n_ep_def)
  with P show "unat (s_ep_inflight (w_pools w f) ep r) = length (filter (\<lambda>p. exec_on f p \<and> p_ep p r = int ep) ps)"
    by (simp add: acct_pool_def held_of_def)
  have "(\<Sum>p\<leftarrow>ps. n_ten f p sl) = length (filter (\<lambda>p. exec_on f p \<and> p_tslot p = sl) ps)" if "0 \<le> sl"
    by (rule sum_holders) (use that in \<open>simp add: n_ten_def\<close>)
  moreover have "ti (s_tt (w_pools w f)) = h_ten (held_of ps f)"
    using P pool_coreD(5) [OF pool_invD(1)] by (simp add: acct_pool_def)
  ultimately show "ti (s_tt (w_pools w f)) sl = length (filter (\<lambda>p. exec_on f p \<and> p_tslot p = sl) ps)" if "0 \<le> sl"
    using that by (simp add: held_of_def)
qed

end
