(* ===== verification/FC_Outcome.thy ===== *)
theory FC_Outcome
  imports FC_System
begin

text \<open>
  What the answers of the gate mean to a request: an admission holds a unit below the ceiling and
  within the tenant's share, a refusal changes no counter and happens only in enforcing mode, a
  newcomer does not overtake a waiter, and a release gives back exactly what was taken.
\<close>

section \<open>The service gate\<close>

text \<open>
  An admission to pool \<open>f\<close>, whose tenants hold \<open>h\<close> units: one more unit is in flight, and an enforcing
  pool had it below the ceiling and below the share of the permit's tenant.
\<close>

definition gate_admitted :: "(int \<Rightarrow> nat) \<Rightarrow> fc_world \<Rightarrow> pool_ref \<Rightarrow> fc_world \<Rightarrow> fc_permit \<Rightarrow> bool" where
  "gate_admitted h w f w' p' \<longleftrightarrow> p_state p' = FC_P_EXECUTING \<and> p_fc p' = Some f \<and>
     s_inflight (w_pools w' f) = s_inflight (w_pools w f) + 1 \<and>
     (gate_enforces w f \<longrightarrow>
       (fc_svc_cap (w_pools w f) = 0 \<or> s_inflight (w_pools w f) < fc_svc_cap (w_pools w f)) \<and>
       (0 \<le> p_tslot p' \<and> fc_tenant_svc_bound (w_pools w f) \<noteq> 0 \<longrightarrow> h (p_tslot p') < unat (fc_tenant_svc_bound (w_pools w f))))"

text \<open>A refusal: only an enforcing pool refuses, and neither a counter nor the queue moves.\<close>

definition gate_refused :: "fc_world \<Rightarrow> pool_ref \<Rightarrow> fc_world \<Rightarrow> fc_permit \<Rightarrow> bool" where
  "gate_refused w f w' p' \<longleftrightarrow> p_state p' = FC_P_NONE \<and> gate_enforces w f \<and>
     ctrs (w_pools w' f) = ctrs (w_pools w f) \<and> s_queue (w_pools w' f) = s_queue (w_pools w f)"

lemma gate_permit_simps [simp]:
  "p_fc (gate_permit p fc woken tkey band) = fc" "p_band (gate_permit p fc woken tkey band) = fc_band_of band"
  "p_state (gate_permit p fc woken tkey band) = FC_P_NONE" "p_tslot (gate_permit p fc woken tkey band) = -1"
  by (simp_all add: gate_permit_def fc_permit_reset_def)

lemma fc_service_acquire_shared_outcome:
  assumes inv: "pool_inv h (w_pools w f)" "\<And>sl. h sl + 1 < 2 ^ 32" and p: "p_fc p = Some f"
    and res: "fc_service_acquire_shared w f p cq woken = (v, w', p')"
  shows "v = FC_ADMIT \<Longrightarrow> gate_admitted h w f w' p'" "v \<noteq> FC_ADMIT \<Longrightarrow> gate_refused w f w' p'"
    "g \<noteq> f \<Longrightarrow> w_pools w' g = w_pools w g"
proof -
  obtain v0 slot s an where l: "fc_acquire_shared_locked (w_calloc w) (w_pools w f) p cq woken = (v0, slot, s, an)" by (metis surj_pair)
  have r: "v = v0" "w' = (if v0 = FC_ADMIT then w_note (w_set w f (fc_band_unit_take s p)) an else w_note (w_set w f s) an)"
    "p' = (if v0 = FC_ADMIT then p\<lparr>p_tslot := slot, p_svc_held := True, p_state := FC_P_EXECUTING, p_woken := woken\<rparr> else p\<lparr>p_state := FC_P_NONE\<rparr>)"
    using res l by (auto simp: fc_service_acquire_shared_def split: if_splits)
  note L = fc_acquire_shared_locked_ok [OF inv l]
  show "v = FC_ADMIT \<Longrightarrow> gate_admitted h w f w' p'" using L(7,8) r p by (simp add: gate_admitted_def gate_enforces_def)
  show "v \<noteq> FC_ADMIT \<Longrightarrow> gate_refused w f w' p'"
    using L(2-5,7,9) r by (simp add: gate_refused_def gate_enforces_def ctrs_def)
  show "g \<noteq> f \<Longrightarrow> w_pools w' g = w_pools w g" using r(2) by simp
qed

lemma fc_service_acquire_outcome:
  assumes inv: "pool_inv h (w_pools w f)" "\<And>sl. h sl + 1 < 2 ^ 32"
    and res: "fc_service_acquire_with w (Some f) p cq woken tkey band = (v, w', p')"
  shows "(if \<not> fc_active (w_pools w f) then v = FC_ADMIT \<and> p_state p' = FC_P_BYPASS \<and> w_pools w' = w_pools w
      else if v = FC_ADMIT then gate_admitted h w f w' p' else gate_refused w f w' p') \<and> (\<forall>g. g \<noteq> f \<longrightarrow> w_pools w' g = w_pools w g)"
  using res HOL.refl HOL.refl
proof (cases rule: fc_service_acquire_cases)
  case (shared f')
  let ?w = "fst (fc_permit_bind w p (Some f))"
  have "pool_inv h (w_pools ?w f)" "fc_service_acquire_shared ?w f (gate_permit p (Some f) woken tkey band) cq woken = (v, w', p')"
    using inv(1) shared by simp_all
  note S = fc_service_acquire_shared_outcome [OF this(1) inv(2) gate_permit_simps(1) this(2)]
  have "gate_admitted h ?w f w' p' = gate_admitted h w f w' p'" "gate_refused ?w f w' p' = gate_refused w f w' p'"
    by (simp_all add: gate_admitted_def gate_refused_def gate_enforces_def)
  with S shared show ?thesis by (cases "v = FC_ADMIT") simp_all
next
  case (admitted f' s)
  with fc_unit_take_band_Some [OF admitted(4)] show ?thesis by (auto simp: gate_admits_def gate_admitted_def)
qed (auto simp: gate_admits_def gate_admitted_def gate_refused_def fc_pool_active_def)

text \<open>Nobody overtakes: with a waiter ahead of its band, a newcomer to an enforcing pool without shares is not admitted.\<close>

lemma fc_service_acquire_behind:
  assumes res: "fc_service_acquire_with w (Some f) p cq woken tkey band = (v, w', p')"
    and a: "gate_ahead (w_pools w f) woken (fc_band_of band)" and share: "\<not> fc_share_active (w_pools w f)"
  shows "v \<noteq> FC_ADMIT"
proof -
  have e: "gate_enforces w f" "fc_active (w_pools w f)" using a by (auto simp: gate_ahead_def gate_enforces_def fc_active_def)
  show ?thesis using res HOL.refl HOL.refl by (cases rule: fc_service_acquire_cases) (use a share e in \<open>auto simp: fc_pool_active_def\<close>)
qed

section \<open>Taken and given back\<close>

text \<open>Two worlds whose pools have the same holders have the same counters.\<close>

lemma acct_same:
  assumes "acct w o' p" "idle p" "acct w' o' p'" "idle p'"
  shows "s_inflight (w_pools w' f) = s_inflight (w_pools w f)"
    "fc_band_counted b \<Longrightarrow> s_band_inflight (w_pools w' f) b = s_band_inflight (w_pools w f) b"
    "s_ep_inflight (w_pools w' f) = s_ep_inflight (w_pools w f)" "ti (s_tt (w_pools w' f)) = ti (s_tt (w_pools w f))"
proof -
  note A = acct_poolD(1) [OF assms(1,2), of f] and B = acct_poolD(1) [OF assms(3,4), of f]
  show "s_inflight (w_pools w' f) = s_inflight (w_pools w f)" using A B by (simp add: acct_pool_def word_unat_eq_iff)
  show "fc_band_counted b \<Longrightarrow> s_band_inflight (w_pools w' f) b = s_band_inflight (w_pools w f) b"
    using A B by (simp add: acct_pool_def word_unat_eq_iff)
  show "s_ep_inflight (w_pools w' f) = s_ep_inflight (w_pools w f)" using A B by (simp add: acct_pool_def word_unat_eq_iff fun_eq_iff)
  show "ti (s_tt (w_pools w' f)) = ti (s_tt (w_pools w f))"
    using acct_poolD(2) [OF assms(1,2), of f] acct_poolD(2) [OF assms(3,4), of f] pool_coreD(5) [OF pool_invD(1)] by metis
qed

lemma acquire_release_same:
  assumes A: "accounted (w, ps)" "i < length ps" "length ps < 2 ^ 32" and idle: "idle (ps ! i)"
    and acq: "fc_service_acquire_with w fc (ps ! i) cq woken tkey band = (v, w1, p1)"
    and ep: "p_fc p1 = fc" "fc_ep_acquire w1 fc p1 e role = (v2, w2, p2)"
    and rel: "fc_permit_release_with w2 p2 wake = (w3, p3)"
  shows "s_inflight (w_pools w3 f) = s_inflight (w_pools w f)"
    "fc_band_counted b \<Longrightarrow> s_band_inflight (w_pools w3 f) b = s_band_inflight (w_pools w f) b"
    "s_ep_inflight (w_pools w3 f) = s_ep_inflight (w_pools w f)" "ti (s_tt (w_pools w3 f)) = ti (s_tt (w_pools w f))"
    "idle p3"
proof -
  note S1 = fc_service_acquire_sound [OF idle acq]
  have wf1: "permit_wf p1" using S1 by (simp add: sound_step_def)
  note S2 = fc_ep_acquire_sound [OF ep(1) wf1 ep(2)]
  note S3 = fc_permit_release_sound [OF S2(2) rel]
  note S = sound_step_trans [OF S1 sound_step_trans [OF S2(1) S3(1)]]
  note B = accounted_acct [OF A(1,2)]
  have "acct w3 (\<lambda>f. held_of (others ps i) f) p3"
    using S [unfolded sound_step_def] held_of_small [OF A(2,3)] B by blast
  moreover show "idle p3" using S3(2) by (auto simp: idle_def)
  ultimately show "s_inflight (w_pools w3 f) = s_inflight (w_pools w f)"
    "fc_band_counted b \<Longrightarrow> s_band_inflight (w_pools w3 f) b = s_band_inflight (w_pools w f) b"
    "s_ep_inflight (w_pools w3 f) = s_ep_inflight (w_pools w f)" "ti (s_tt (w_pools w3 f)) = ti (s_tt (w_pools w f))"
    using acct_same [OF B idle, of w3 p3] by blast+
qed

lemma fc_permit_release_again:
  assumes "permit_wf p" "fc_permit_release_with w p wake = (w', p')"
  shows "fc_permit_release_with w' p' wake' = (w', p')"
  using fc_permit_release_sound(2) [OF assms] by (auto simp: fc_permit_release_with_def)

end
