(* ===== verification/FC_Deadline.thy ===== *)
theory FC_Deadline
  imports FC_State "HOL-Library.Sublist"
begin

text \<open>
  Queue deadlines, from \<open>common/sockproxy_fc.c\<close> (section "queue deadlines"): the waiters past their
  deadline (\<open>fc_queue_expired\<close>), one pass over the pools (\<open>fc_deadline_visit_pool\<close>,
  \<open>fc_deadline_pass\<close>) and the wait on the timer, with the callback the proxy gives to a pass
  (\<open>sp_fc_deadline_expire\<close> of \<open>common/sockproxy_health.c\<close>). The pools of the process are a list, in the
  order \<open>pools\<close> visits them; what the callback owns besides the pools is the type \<open>'c\<close>.
\<close>

section \<open>Operations\<close>

definition fc_queue_next_deadline :: "fc_state \<Rightarrow> u64" where
  "fc_queue_next_deadline s = q_next_deadline_ns (s_queue s)"

definition ent_due :: "u64 \<Rightarrow> fc_queue_ent \<Rightarrow> bool" where
  "ent_due now_ns e \<longleftrightarrow> e_live e \<and> e_deadline_ns e \<noteq> 0 \<and> e_deadline_ns e \<le> now_ns"

fun expired_scan :: "fc_queue_ent list \<Rightarrow> u64 \<Rightarrow> nat \<Rightarrow> fc_queue_ent list \<Rightarrow> fc_queue_ent list" where
  "expired_scan [] now_ns cap out = out"
| "expired_scan (e # es) now_ns cap out =
     (if length out < cap then expired_scan es now_ns cap (if ent_due now_ns e then out @ [e] else out) else out)"

definition fc_queue_expired :: "fc_state \<Rightarrow> u64 \<Rightarrow> nat \<Rightarrow> fc_queue_ent list" where
  "fc_queue_expired s now_ns cap =
     (let q = s_queue s
      in if cap = 0 \<or> q_cap q = 0 then []
         else expired_scan (map (\<lambda>i. q_ring q ! i) (fc_ring_span q)) now_ns cap [])"

text \<open>
  The wait on the timer: \<open>polled\<close> is what \<open>poll\<close> returned, \<open>interrupted\<close> its \<open>errno\<close>, \<open>got\<close> whether the
  read gave a whole count.
\<close>

definition fc_deadline_wait :: "fc_deadline \<Rightarrow> int \<Rightarrow> bool \<Rightarrow> bool \<Rightarrow> int \<times> fc_deadline" where
  "fc_deadline_wait d polled interrupted got =
     (if d_tfd d \<le> 0 then (-1, d)
      else if polled < 0 then (if interrupted then 0 else -1, d)
      else if polled = 0 then (0, d)
      else if \<not> got then (0, d)
      else (1, d\<lparr>d_wakeups := d_wakeups d + 1\<rparr>))"

type_synonym 'c expire_fn = "pool_ref \<Rightarrow> fc_queue_ent \<Rightarrow> u64 \<Rightarrow> fc_world \<times> 'c \<Rightarrow> fc_world \<times> 'c"

definition expire_batch :: "'c expire_fn option \<Rightarrow> pool_ref \<Rightarrow> u64 \<Rightarrow> fc_queue_ent list \<Rightarrow> fc_world \<times> 'c \<Rightarrow> fc_world \<times> 'c" where
  "expire_batch expire f now_ns batch x =
     (case expire of None \<Rightarrow> x | Some g \<Rightarrow> fold (\<lambda>e x. g f e now_ns x) batch x)"

text \<open>The bounded batches of one pool: \<open>rounds\<close> is how many are left, 16 at first.\<close>

fun expire_rounds :: "nat \<Rightarrow> 'c expire_fn option \<Rightarrow> pool_ref \<Rightarrow> u64 \<Rightarrow> fc_world \<times> 'c \<Rightarrow> fc_world \<times> 'c" where
  "expire_rounds rounds expire f now_ns x =
     (let batch = fc_queue_expired (w_pools (fst x) f) now_ns 64;
          x = expire_batch expire f now_ns batch x;
          nxt = fc_queue_next_deadline (w_pools (fst x) f)
      in case rounds of
           0 \<Rightarrow> x
         | Suc rounds \<Rightarrow> if length batch = 64 \<and> rounds \<noteq> 0 \<and> nxt \<noteq> 0 \<and> nxt \<le> now_ns
                         then expire_rounds rounds expire f now_ns x else x)"

declare expire_rounds.simps [simp del]

definition fc_deadline_visit_pool ::
  "'c expire_fn option \<Rightarrow> u64 \<Rightarrow> pool_ref \<Rightarrow> u64 \<times> fc_world \<times> 'c \<Rightarrow> u64 \<times> fc_world \<times> 'c" where
  "fc_deadline_visit_pool expire now_ns f = (\<lambda>(ear, x).
     let nxt = fc_queue_next_deadline (w_pools (fst x) f);
         due = (nxt \<noteq> 0 \<and> nxt \<le> now_ns);
         x = (if due then expire_rounds 16 expire f now_ns x else x);
         nxt = (if due then fc_queue_next_deadline (w_pools (fst x) f) else nxt);
         nxt = (if due \<and> nxt \<noteq> 0 \<and> nxt \<le> now_ns then now_ns + FC_DEADLINE_GRAIN_NS else nxt)
     in (if nxt \<noteq> 0 \<and> (ear = 0 \<or> nxt < ear) then nxt else ear, x))"

text \<open>A pass, with the process's timer (\<open>timed\<close>) or with none.\<close>

definition fc_deadline_pass ::
  "bool \<Rightarrow> u64 \<Rightarrow> pool_ref list \<Rightarrow> 'c expire_fn option \<Rightarrow> fc_world \<times> 'c \<Rightarrow> u64 \<times> fc_world \<times> 'c" where
  "fc_deadline_pass timed now_ns pools expire = (\<lambda>(w, c).
     let w = (if timed then w\<lparr>w_timer := (w_timer w)\<lparr>d_passes := d_passes (w_timer w) + 1, d_last_fire_ns := now_ns, d_armed_ns := 0\<rparr>\<rparr>
              else w);
         (ear, w, c) = fold (fc_deadline_visit_pool expire now_ns) pools (0, w, c)
     in (ear, if timed \<and> ear \<noteq> 0 then w_arm w ear else w, c))"

section \<open>The waiters past their deadline\<close>

lemma expired_scan_eq:
  "length out \<le> cap \<Longrightarrow> expired_scan es now cap out = take cap (out @ filter (ent_due now) es)"
  by (induction es arbitrary: out) (auto simp: take_Cons')

lemma fc_queue_expired_eq:
  assumes "ring_inv (s_queue s)"
  shows "fc_queue_expired s now cap = take cap (filter (ent_due now) (waiters s))"
proof -
  have ok: "ring_ok (s_queue s)" by (rule ring_invD(1) [OF assms])
  have f: "filter (ent_due now) (filter e_live es) = filter (ent_due now) es" for es
    by (induction es) (auto simp: ent_due_def)
  have w: "filter (ent_due now) (map (\<lambda>i. q_ring (s_queue s) ! i) (fc_ring_span (s_queue s))) = filter (ent_due now) (waiters s)"
    by (simp only: ring_live_def map_span [OF ok] f)
  show ?thesis
  proof (cases "q_cap (s_queue s) = 0")
    case True
    with ok have "waiters s = []" by (simp add: ring_live_def ring_seq_def seg_def ring_ok_def)
    with True show ?thesis by (simp add: fc_queue_expired_def)
  qed (simp add: fc_queue_expired_def expired_scan_eq w Let_def)
qed

text \<open>A pool's next deadline bounds every waiter's from below, and says when none is due.\<close>

lemma next_deadline_waits:
  assumes "ring_inv (s_queue s)" "e \<in> set (waiters s)" "e_deadline_ns e \<noteq> 0"
  shows "fc_queue_next_deadline s \<noteq> 0" "fc_queue_next_deadline s \<le> e_deadline_ns e"
proof -
  have live: "e_live e" using assms(2) by (simp add: ring_live_def)
  have "earliest (waiters s) (q_next_deadline_ns (s_queue s))" using assms(1) by (simp add: ring_inv_def)
  with assms(2,3) live show "fc_queue_next_deadline s \<noteq> 0" "fc_queue_next_deadline s \<le> e_deadline_ns e"
    by (auto simp: earliest_def fc_queue_next_deadline_def split: if_splits)
qed

lemma next_deadline_due:
  assumes "ring_inv (s_queue s)"
  shows "(fc_queue_next_deadline s \<noteq> 0 \<and> fc_queue_next_deadline s \<le> now) = (\<exists>e \<in> set (waiters s). ent_due now e)"
proof -
  have "earliest (waiters s) (q_next_deadline_ns (s_queue s))" using assms by (simp add: ring_inv_def)
  then show ?thesis
    by (auto simp: earliest_def ent_due_def fc_queue_next_deadline_def split: if_splits intro: order_trans)
qed

section \<open>What a pass may rely on its callback for\<close>

text \<open>
  An expire callback ends waits of the pool it is called for and of no other; it moves the timer only
  by arming it. \<open>I\<close> is what the caller keeps true of its connections.
\<close>

locale expiry =
  fixes expire :: "'c expire_fn" and I :: "fc_world \<times> 'c \<Rightarrow> bool"
  assumes keeps: "I x \<Longrightarrow> I (expire f e now x)"
    and inv: "I x \<Longrightarrow> \<exists>h. pool_inv h (w_pools (fst x) f)"
    and others: "I x \<Longrightarrow> g \<noteq> f \<Longrightarrow> w_pools (fst (expire f e now x)) g = w_pools (fst x) g"
    and timer: "d_tfd (w_timer (fst (expire f e now x))) = d_tfd (w_timer (fst x))"
      "d_last_fire_ns (w_timer (fst (expire f e now x))) = d_last_fire_ns (w_timer (fst x))"
    and clock: "I (w, c) \<Longrightarrow> I (w\<lparr>w_timer := d\<rparr>, c)"
    and ends: "I x \<Longrightarrow> e \<in> set (waiters (w_pools (fst x) f)) \<Longrightarrow> ent_due now e \<Longrightarrow>
      waiters (w_pools (fst (expire f e now x)) f) = remove1 e (waiters (w_pools (fst x) f))"
    and apart: "I x \<Longrightarrow> distinct (waiters (w_pools (fst x) f))"

context expiry
begin

abbreviation due :: "u64 \<Rightarrow> pool_ref \<Rightarrow> fc_world \<times> 'c \<Rightarrow> fc_queue_ent list" where
  "due now f x \<equiv> filter (ent_due now) (waiters (w_pools (fst x) f))"

lemma ring: "I x \<Longrightarrow> ring_inv (s_queue (w_pools (fst x) f))"
  using inv pool_invD(3) by blast

text \<open>A batch of due waiters is ended, and nothing else is touched.\<close>

lemma batch:
  assumes "I x" "set es \<subseteq> set (due now f x)" "distinct es"
  shows "I (fold (\<lambda>e x. expire f e now x) es x)"
    "g \<noteq> f \<Longrightarrow> w_pools (fst (fold (\<lambda>e x. expire f e now x) es x)) g = w_pools (fst x) g"
    "d_tfd (w_timer (fst (fold (\<lambda>e x. expire f e now x) es x))) = d_tfd (w_timer (fst x))"
    "d_last_fire_ns (w_timer (fst (fold (\<lambda>e x. expire f e now x) es x))) = d_last_fire_ns (w_timer (fst x))"
    "waiters (w_pools (fst (fold (\<lambda>e x. expire f e now x) es x)) f) = filter (\<lambda>e. e \<notin> set es) (waiters (w_pools (fst x) f))"
proof -
  have "I (fold (\<lambda>e x. expire f e now x) es x) \<and>
    (\<forall>g. g \<noteq> f \<longrightarrow> w_pools (fst (fold (\<lambda>e x. expire f e now x) es x)) g = w_pools (fst x) g) \<and>
    d_tfd (w_timer (fst (fold (\<lambda>e x. expire f e now x) es x))) = d_tfd (w_timer (fst x)) \<and>
    d_last_fire_ns (w_timer (fst (fold (\<lambda>e x. expire f e now x) es x))) = d_last_fire_ns (w_timer (fst x)) \<and>
    waiters (w_pools (fst (fold (\<lambda>e x. expire f e now x) es x)) f) = filter (\<lambda>e. e \<notin> set es) (waiters (w_pools (fst x) f))"
    using assms
  proof (induction es arbitrary: x)
    case (Cons e es)
    let ?y = "expire f e now x"
    have e: "e \<in> set (waiters (w_pools (fst x) f))" "ent_due now e" using Cons.prems(2) by auto
    have w: "waiters (w_pools (fst ?y) f) = filter (\<lambda>a. a \<noteq> e) (waiters (w_pools (fst x) f))"
      using ends [OF Cons.prems(1) e] apart [OF Cons.prems(1), of f] by (simp add: distinct_remove1_removeAll removeAll_filter_not_eq) metis
    have "set es \<subseteq> set (due now f ?y)" using Cons.prems(2,3) by (auto simp: w)
    then have ih: "I ?y" "distinct es" "set es \<subseteq> set (due now f ?y)" using keeps [OF Cons.prems(1)] Cons.prems(3) by auto
    have "filter (\<lambda>a. a \<notin> set es) (filter (\<lambda>a. a \<noteq> e) xs) = filter (\<lambda>a. a \<notin> set (e # es)) xs" for xs
      by (simp add: conj_commute)
    with Cons.IH [OF ih(1,3,2)] others [OF Cons.prems(1), of _ f e now] timer [of f e now x] show ?case by (simp add: w)
  qed simp
  then show "I (fold (\<lambda>e x. expire f e now x) es x)"
    "g \<noteq> f \<Longrightarrow> w_pools (fst (fold (\<lambda>e x. expire f e now x) es x)) g = w_pools (fst x) g"
    "d_tfd (w_timer (fst (fold (\<lambda>e x. expire f e now x) es x))) = d_tfd (w_timer (fst x))"
    "d_last_fire_ns (w_timer (fst (fold (\<lambda>e x. expire f e now x) es x))) = d_last_fire_ns (w_timer (fst x))"
    "waiters (w_pools (fst (fold (\<lambda>e x. expire f e now x) es x)) f) = filter (\<lambda>e. e \<notin> set es) (waiters (w_pools (fst x) f))"
    by blast+
qed

lemma drop_batch: "distinct ws \<Longrightarrow> filter P (filter (\<lambda>e. e \<notin> set (take n (filter P ws))) ws) = drop n (filter P ws)"
proof -
  assume d: "distinct ws"
  let ?d = "filter P ws"
  have "filter P (filter (\<lambda>e. e \<notin> set (take n ?d)) ws) = filter (\<lambda>e. e \<notin> set (take n ?d)) ?d"
    by (simp add: conj_commute)
  also have "\<dots> = filter (\<lambda>e. e \<notin> set (take n ?d)) (take n ?d @ drop n ?d)" by simp
  also have "\<dots> = filter (\<lambda>e. e \<notin> set (take n ?d)) (drop n ?d)" unfolding filter_append by simp
  also have "\<dots> = drop n ?d" using d set_take_disj_set_drop_if_distinct [of ?d n n] by (auto simp: filter_id_conv)
  finally show ?thesis .
qed

text \<open>The rounds end the first \<open>64 * n\<close> due waiters and keep the others in their order.\<close>

lemma rounds:
  assumes "I x"
  shows "I (expire_rounds n (Some expire) f now x) \<and>
    (\<forall>g. g \<noteq> f \<longrightarrow> w_pools (fst (expire_rounds n (Some expire) f now x)) g = w_pools (fst x) g) \<and>
    d_tfd (w_timer (fst (expire_rounds n (Some expire) f now x))) = d_tfd (w_timer (fst x)) \<and>
    d_last_fire_ns (w_timer (fst (expire_rounds n (Some expire) f now x))) = d_last_fire_ns (w_timer (fst x)) \<and>
    (0 < n \<longrightarrow> due now f (expire_rounds n (Some expire) f now x) = drop (64 * n) (due now f x)) \<and>
    filter (\<lambda>e. \<not> ent_due now e) (waiters (w_pools (fst (expire_rounds n (Some expire) f now x)) f)) =
      filter (\<lambda>e. \<not> ent_due now e) (waiters (w_pools (fst x) f))"
  using assms
proof (induction n arbitrary: x)
  case 0
  define b where "b = take 64 (due now f x)"
  have r: "expire_rounds 0 (Some expire) f now x = fold (\<lambda>e x. expire f e now x) b x"
    by (subst expire_rounds.simps) (simp add: expire_batch_def b_def fc_queue_expired_eq [OF ring [OF 0]] Let_def)
  have B: "set b \<subseteq> set (due now f x)" "distinct b" using apart [OF 0] set_take_subset [of 64 "due now f x"] by (simp_all only: b_def distinct_take distinct_filter)
  have nd: "filter (\<lambda>e. \<not> ent_due now e) (filter (\<lambda>e. e \<notin> set b) ws) = filter (\<lambda>e. \<not> ent_due now e) ws" for ws
    using B(1) by (auto intro!: filter_cong)
  show ?case unfolding r using batch [OF 0 B] nd by simp
next
  case (Suc n)
  define b where "b = take 64 (due now f x)"
  define y where "y = fold (\<lambda>e x. expire f e now x) b x"
  have B: "set b \<subseteq> set (due now f x)" "distinct b" using apart [OF Suc.prems] set_take_subset [of 64 "due now f x"] by (simp_all only: b_def distinct_take distinct_filter)
  note Y = batch [OF Suc.prems B, folded y_def]
  have nd: "filter (\<lambda>e. \<not> ent_due now e) (filter (\<lambda>e. e \<notin> set b) ws) = filter (\<lambda>e. \<not> ent_due now e) ws" for ws
    using B(1) by (auto intro!: filter_cong)
  have due: "due now f y = drop 64 (due now f x)" unfolding Y(5) b_def by (rule drop_batch [OF apart [OF Suc.prems]])
  have nxt: "(fc_queue_next_deadline (w_pools (fst y) f) \<noteq> 0 \<and> fc_queue_next_deadline (w_pools (fst y) f) \<le> now) = (due now f y \<noteq> [])"
    using next_deadline_due [OF ring [OF Y(1)], of f now] by (auto simp: filter_empty_conv)
  have r: "expire_rounds (Suc n) (Some expire) f now x =
    (if length b = 64 \<and> n \<noteq> 0 \<and> due now f y \<noteq> [] then expire_rounds n (Some expire) f now y else y)"
    using nxt by (subst expire_rounds.simps) (auto simp: expire_batch_def b_def y_def fc_queue_expired_eq [OF ring [OF Suc.prems]] Let_def)
  show ?case
  proof (cases "length b = 64 \<and> n \<noteq> 0 \<and> due now f y \<noteq> []")
    case True
    have "drop (64 * n + 64) xs = drop (64 * Suc n) xs" for xs :: "fc_queue_ent list" by (simp add: add.commute)
    with Suc.IH [OF Y(1)] True Y due nd show ?thesis unfolding r by (simp add: Y(5))
  next
    case False
    have "drop 64 (due now f x) = drop (64 * Suc n) (due now f x)"
    proof (cases "n = 0")
      case False
      with \<open>\<not> (length b = 64 \<and> n \<noteq> 0 \<and> due now f y \<noteq> [])\<close> have "length b \<noteq> 64 \<or> due now f y = []" by blast
      then have "length (due now f x) \<le> 64" using due by (auto simp: b_def min_def split: if_splits)
      then show ?thesis by simp
    qed simp
    moreover have "expire_rounds (Suc n) (Some expire) f now x = y" unfolding r if_not_P [OF False] ..
    ultimately show ?thesis using Y due nd by (simp add: Y(5))
  qed
qed

text \<open>A visited pool: its first 1024 due waiters are ended, and the time returned covers the others.\<close>

lemma visit:
  assumes "I x" and res: "fc_deadline_visit_pool (Some expire) now f (ear, x) = (ear', x')"
  shows "I x'" "\<And>g. g \<noteq> f \<Longrightarrow> w_pools (fst x') g = w_pools (fst x) g"
    "d_tfd (w_timer (fst x')) = d_tfd (w_timer (fst x))" "d_last_fire_ns (w_timer (fst x')) = d_last_fire_ns (w_timer (fst x))"
    "due now f x' = drop 1024 (due now f x)"
    "filter (\<lambda>e. \<not> ent_due now e) (waiters (w_pools (fst x') f)) = filter (\<lambda>e. \<not> ent_due now e) (waiters (w_pools (fst x) f))"
    "ear \<noteq> 0 \<Longrightarrow> ear' \<noteq> 0 \<and> ear' \<le> ear"
    "e \<in> set (waiters (w_pools (fst x') f)) \<Longrightarrow> e_deadline_ns e \<noteq> 0 \<Longrightarrow> now + FC_DEADLINE_GRAIN_NS \<noteq> 0 \<Longrightarrow>
       ear' \<noteq> 0 \<and> ear' \<le> max (e_deadline_ns e) (now + FC_DEADLINE_GRAIN_NS)"
proof -
  define n0 where "n0 = fc_queue_next_deadline (w_pools (fst x) f)"
  define d where "d = (n0 \<noteq> 0 \<and> n0 \<le> now)"
  define y where "y = (if d then expire_rounds 16 (Some expire) f now x else x)"
  define n1 where "n1 = fc_queue_next_deadline (w_pools (fst y) f)"
  define n2 where "n2 = (if d \<and> n1 \<noteq> 0 \<and> n1 \<le> now then now + FC_DEADLINE_GRAIN_NS else n1)"
  have n1: "(if d then n1 else n0) = n1" by (simp add: n1_def n0_def y_def)
  have r: "ear' = (if n2 \<noteq> 0 \<and> (ear = 0 \<or> n2 < ear) then n2 else ear)" "x' = y"
    using res unfolding fc_deadline_visit_pool_def Let_def prod.case n0_def [symmetric] d_def [symmetric] y_def [symmetric] n1_def [symmetric] n1
      n2_def [symmetric] by simp_all
  note R = rounds [OF assms(1), of 16 f now]
  show "I x'" "\<And>g. g \<noteq> f \<Longrightarrow> w_pools (fst x') g = w_pools (fst x) g" "d_tfd (w_timer (fst x')) = d_tfd (w_timer (fst x))"
    "d_last_fire_ns (w_timer (fst x')) = d_last_fire_ns (w_timer (fst x))"
    "filter (\<lambda>e. \<not> ent_due now e) (waiters (w_pools (fst x') f)) = filter (\<lambda>e. \<not> ent_due now e) (waiters (w_pools (fst x) f))"
    using R assms(1) by (simp_all add: r(2) y_def)
  have nd: "due now f x = []" if "\<not> d"
    using that next_deadline_due [OF ring [OF assms(1)], of f now] by (auto simp: d_def n0_def filter_empty_conv)
  show "due now f x' = drop 1024 (due now f x)"
  proof (cases d)
    case True
    with R show ?thesis by (simp add: r(2) y_def)
  next
    case False
    then show ?thesis using nd by (simp add: r(2) y_def)
  qed
  show "ear' \<noteq> 0 \<and> ear' \<le> ear" if "ear \<noteq> 0" using that by (auto simp: r(1))
  show "ear' \<noteq> 0 \<and> ear' \<le> max (e_deadline_ns e) (now + FC_DEADLINE_GRAIN_NS)"
    if e: "e \<in> set (waiters (w_pools (fst x') f))" "e_deadline_ns e \<noteq> 0" and g: "now + FC_DEADLINE_GRAIN_NS \<noteq> 0"
  proof -
    have "n1 \<noteq> 0" "n1 \<le> e_deadline_ns e"
      using next_deadline_waits [OF ring [OF \<open>I x'\<close>] e] by (simp_all add: n1_def r(2))
    then have "n2 \<noteq> 0 \<and> n2 \<le> max (e_deadline_ns e) (now + FC_DEADLINE_GRAIN_NS)" using g by (auto simp: n2_def max_def)
    moreover have "ear' = n2 \<or> ear' \<noteq> 0 \<and> ear' \<le> n2" using calculation by (auto simp: r(1))
    ultimately show ?thesis using order_trans by blast
  qed
qed

lemma visits:
  assumes "I x" "distinct fs" "now + FC_DEADLINE_GRAIN_NS \<noteq> 0"
    and "fold (fc_deadline_visit_pool (Some expire) now) fs (ear, x) = (ear', x')"
  shows "I x' \<and> (\<forall>g. g \<notin> set fs \<longrightarrow> w_pools (fst x') g = w_pools (fst x) g) \<and>
    d_tfd (w_timer (fst x')) = d_tfd (w_timer (fst x)) \<and> d_last_fire_ns (w_timer (fst x')) = d_last_fire_ns (w_timer (fst x)) \<and>
    (ear \<noteq> 0 \<longrightarrow> ear' \<noteq> 0 \<and> ear' \<le> ear) \<and>
    (\<forall>f \<in> set fs. due now f x' = drop 1024 (due now f x) \<and>
       filter (\<lambda>e. \<not> ent_due now e) (waiters (w_pools (fst x') f)) = filter (\<lambda>e. \<not> ent_due now e) (waiters (w_pools (fst x) f)) \<and>
       (\<forall>e \<in> set (waiters (w_pools (fst x') f)). e_deadline_ns e \<noteq> 0 \<longrightarrow>
          ear' \<noteq> 0 \<and> ear' \<le> max (e_deadline_ns e) (now + FC_DEADLINE_GRAIN_NS)))"
  using assms
proof (induction fs arbitrary: ear x)
  case Nil
  then show ?case by simp
next
  case (Cons f fs)
  obtain ear1 x1 where v: "fc_deadline_visit_pool (Some expire) now f (ear, x) = (ear1, x1)" by (metis surj_pair)
  note V = visit [OF Cons.prems(1) v]
  have d: "distinct fs" "f \<notin> set fs" using Cons.prems(2) by simp_all
  have fo: "fold (fc_deadline_visit_pool (Some expire) now) fs (ear1, x1) = (ear', x')" using Cons.prems(4) v by simp
  note IH = Cons.IH [OF V(1) d(1) Cons.prems(3) fo]
  have same: "w_pools (fst x') f = w_pools (fst x1) f" using IH d(2) by blast
  have f: "ear' \<noteq> 0 \<and> ear' \<le> max (e_deadline_ns e) (now + FC_DEADLINE_GRAIN_NS)"
    if "e \<in> set (waiters (w_pools (fst x') f))" "e_deadline_ns e \<noteq> 0" for e
    using V(8) [of e] that IH Cons.prems(3) by (auto simp: same intro: order_trans)
  have g: "w_pools (fst x1) g = w_pools (fst x) g" if "g \<in> set fs" for g using V(2) [of g] that d(2) by metis
  show ?case
    using IH V(2-7) f g same by (auto intro: order_trans)
qed

lemma pass:
  assumes "I (w, c)" "distinct fs" "now + FC_DEADLINE_GRAIN_NS \<noteq> 0" and tfd: "0 < d_tfd (w_timer w)"
    and res: "fc_deadline_pass True now fs (Some expire) (w, c) = (ear, w', c')" and f: "f \<in> set fs"
  shows "I (w', c')"
    "filter (ent_due now) (waiters (w_pools w' f)) = drop 1024 (filter (ent_due now) (waiters (w_pools w f)))"
    "filter (\<lambda>e. \<not> ent_due now e) (waiters (w_pools w' f)) = filter (\<lambda>e. \<not> ent_due now e) (waiters (w_pools w f))"
    "e \<in> set (waiters (w_pools w' f)) \<Longrightarrow> e_deadline_ns e \<noteq> 0 \<Longrightarrow>
       d_armed_ns (w_timer w') \<noteq> 0 \<and> d_armed_ns (w_timer w') \<le> max (e_deadline_ns e) (now + FC_DEADLINE_GRAIN_NS)"
proof -
  define w0 where "w0 = w\<lparr>w_timer := (w_timer w)\<lparr>d_passes := d_passes (w_timer w) + 1, d_last_fire_ns := now, d_armed_ns := 0\<rparr>\<rparr>"
  obtain ear1 w1 c1 where v: "fold (fc_deadline_visit_pool (Some expire) now) fs (0, w0, c) = (ear1, w1, c1)" by (metis surj_pair)
  have r: "ear = ear1" "w' = (if ear1 \<noteq> 0 then w_arm w1 ear1 else w1)" "c' = c1"
    using res v by (auto simp: fc_deadline_pass_def w0_def [symmetric] split: if_splits)
  have "I (w0, c)" unfolding w0_def by (rule clock [OF assms(1)])
  note V = visits [OF this assms(2,3) v]
  have p0: "w_pools w0 = w_pools w" by (simp add: w0_def)
  have p1: "w_pools w' = w_pools w1" by (simp add: r)
  show "I (w', c')" using V clock by (auto simp: r w_arm_def)
  show "filter (ent_due now) (waiters (w_pools w' f)) = drop 1024 (filter (ent_due now) (waiters (w_pools w f)))"
    "filter (\<lambda>e. \<not> ent_due now e) (waiters (w_pools w' f)) = filter (\<lambda>e. \<not> ent_due now e) (waiters (w_pools w f))"
    using V f by (simp_all add: p0 p1)
  show "d_armed_ns (w_timer w') \<noteq> 0 \<and> d_armed_ns (w_timer w') \<le> max (e_deadline_ns e) (now + FC_DEADLINE_GRAIN_NS)"
    if e: "e \<in> set (waiters (w_pools w' f))" "e_deadline_ns e \<noteq> 0"
  proof -
    have E: "ear1 \<noteq> 0" "ear1 \<le> max (e_deadline_ns e) (now + FC_DEADLINE_GRAIN_NS)" using V f e by (auto simp: p1)
    have t: "0 < d_tfd (w_timer w1)" "d_last_fire_ns (w_timer w1) = now" using V tfd by (simp_all add: w0_def)
    have w't: "w_timer w' = fc_deadline_arm (w_timer w1) ear1" using E(1) by (simp add: r)
    have fl: "(if now \<noteq> 0 then now + FC_DEADLINE_GRAIN_NS else 0) \<le> now + FC_DEADLINE_GRAIN_NS" by simp
    have "d_armed_ns (w_timer w') \<noteq> 0" "d_armed_ns (w_timer w') \<le> max ear1 (if now \<noteq> 0 then now + FC_DEADLINE_GRAIN_NS else 0)"
      using fc_deadline_arm_covers(1,2) [OF t(1) E(1), unfolded t(2)] unfolding w't by blast+
    moreover have "max ear1 (if now \<noteq> 0 then now + FC_DEADLINE_GRAIN_NS else 0) \<le> max (e_deadline_ns e) (now + FC_DEADLINE_GRAIN_NS)"
      using E(2) fl by (auto simp: max_def split: if_splits)
    ultimately show ?thesis by (auto intro: order_trans)
  qed
qed

end

section \<open>The proxy's callback\<close>

text \<open>
  The connections of the proxy as \<open>sp_fc_deadline_expire\<close> reads them: the entry registered for a
  descriptor, its generation and direction, its permit and whether its exchange ended in an error,
  and the answers handed to \<open>pd_reap_respond\<close> (the descriptor, and whether the client's own TTL
  ended the wait).
\<close>

record sp_conn =
  cn_fd :: int
  cn_gen :: u64
  cn_odir :: int
  cn_permit :: fc_permit
  cn_error :: bool

record sp_conns =
  cs_conn :: "int \<Rightarrow> sp_conn option"
  cs_reaped :: "(int \<times> bool) list"

definition sp_fc_deadline_expire :: "sp_conns expire_fn" where
  "sp_fc_deadline_expire f e now_ns = (\<lambda>(w, c).
     if e_fd e \<le> 0 then (w, c)
     else case cs_conn c (e_fd e) of None \<Rightarrow> (w, c)
     | Some n \<Rightarrow>
       if cn_fd n \<noteq> e_fd e \<or> cn_gen n \<noteq> e_gen e then (w, c)
       else let p = cn_permit n
            in if cn_odir n \<noteq> 0 \<or> p_state p \<noteq> FC_P_QUEUED \<or> p_fc p \<noteq> Some f \<or> p_q_deadline_ns p = 0 \<or> now_ns < p_q_deadline_ns p
               then (w, c)
               else let (won, s, p, an) = fc_queue_take (w_pools w f) p
                    in if \<not> won then (w, c)
                       else let ttl_end = (p_q_ttl_cut p \<and> c_llmd_headers (s_cfg s));
                                w = w_note (w_set w f (fc_count_band s FC_R_QUEUE_TIMEOUT (p_band p))) an;
                                (w, p) = fc_queue_wait_end w (Some f) p now_ns
                            in (w, c\<lparr>cs_conn := (cs_conn c)(e_fd e := Some (n\<lparr>cn_permit := p, cn_error := True\<rparr>)),
                                     cs_reaped := cs_reaped c @ [(e_fd e, ttl_end)]\<rparr>))"

text \<open>Every waiter of a pool belongs to a connection that waits there for it.\<close>

definition conn_waits :: "sp_conns \<Rightarrow> pool_ref \<Rightarrow> fc_queue_ent \<Rightarrow> bool" where
  "conn_waits c f e \<longleftrightarrow> 0 < e_fd e \<and>
     (case cs_conn c (e_fd e) of None \<Rightarrow> False
      | Some n \<Rightarrow> cn_fd n = e_fd e \<and> cn_gen n = e_gen e \<and> cn_odir n = 0 \<and> p_state (cn_permit n) = FC_P_QUEUED \<and>
          p_fc (cn_permit n) = Some f \<and> p_q_deadline_ns (cn_permit n) = e_deadline_ns e \<and> p_q_gen (cn_permit n) = e_gen e)"

definition conns_ok :: "fc_world \<times> sp_conns \<Rightarrow> bool" where
  "conns_ok x \<longleftrightarrow> (\<forall>f. (\<exists>h. pool_inv h (w_pools (fst x) f)) \<and> distinct (map e_fd (waiters (w_pools (fst x) f))) \<and>
       (\<forall>e \<in> set (waiters (w_pools (fst x) f)). conn_waits (snd x) f e)) \<and>
     (\<forall>fd n. cs_conn (snd x) fd = Some n \<and> p_state (cn_permit n) = FC_P_QUEUED \<longrightarrow> p_q_fd (cn_permit n) = fd)"

lemma conns_ok_inv: "conns_ok x \<Longrightarrow> \<exists>h. pool_inv h (w_pools (fst x) f)"
  by (simp add: conns_ok_def)

lemma conns_ok_distinct: "conns_ok x \<Longrightarrow> distinct (map e_fd (waiters (w_pools (fst x) f)))"
  by (simp add: conns_ok_def)

text \<open>What one call does: nothing, or the end of one wait.\<close>

lemma sp_expire_cases:
  assumes ok: "conns_ok (w, c)" and res: "sp_fc_deadline_expire f e now (w, c) = (w', c')"
  shows "w' = w \<and> c' = c \<or>
    (\<exists>n n' e' pre post. cs_conn c (e_fd e) = Some n \<and> p_fc (cn_permit n) = Some f \<and> p_state (cn_permit n) = FC_P_QUEUED \<and>
       cs_conn c' = (cs_conn c)(e_fd e := Some n') \<and> p_state (cn_permit n') = FC_P_ENDED \<and> e_fd e' = e_fd e \<and>
       waiters (w_pools w f) = pre @ e' # post \<and> waiters (w_pools w' f) = pre @ post \<and>
       (\<forall>h. pool_inv h (w_pools w f) \<longrightarrow> pool_inv h (w_pools w' f)) \<and> (\<forall>g. g \<noteq> f \<longrightarrow> w_pools w' g = w_pools w g) \<and>
       w_timer w' = w_timer w)" (is "_ \<or> ?ended")
proof (cases "\<exists>n s p an. cs_conn c (e_fd e) = Some n \<and> p_state (cn_permit n) = FC_P_QUEUED \<and> p_fc (cn_permit n) = Some f \<and>
    fc_queue_take (w_pools w f) (cn_permit n) = (True, s, p, an) \<and> \<not> (w' = w \<and> c' = c)")
  case False
  have "w' = w \<and> c' = c"
  proof (rule ccontr)
    assume ne: "\<not> (w' = w \<and> c' = c)"
    with res obtain n where n: "cs_conn c (e_fd e) = Some n" "p_state (cn_permit n) = FC_P_QUEUED" "p_fc (cn_permit n) = Some f"
      by (auto simp: sp_fc_deadline_expire_def Let_def split: if_splits option.splits)
    obtain won s p an where t: "fc_queue_take (w_pools w f) (cn_permit n) = (won, s, p, an)" by (metis surj_pair)
    have won using res ne n t by (auto simp: sp_fc_deadline_expire_def Let_def split: if_splits)
    with t have "fc_queue_take (w_pools w f) (cn_permit n) = (True, s, p, an)" by simp
    with n ne False show False by blast
  qed
  then show ?thesis ..
next
  case True
  then obtain n s p an where n: "cs_conn c (e_fd e) = Some n" "p_state (cn_permit n) = FC_P_QUEUED" "p_fc (cn_permit n) = Some f"
    and t: "fc_queue_take (w_pools w f) (cn_permit n) = (True, s, p, an)" and ne: "\<not> (w' = w \<and> c' = c)" by blast
  let ?w1 = "w_note (w_set w f (fc_count_band s FC_R_QUEUE_TIMEOUT (p_band p))) an"
  obtain w2 p2 where we: "fc_queue_wait_end ?w1 (Some f) p now = (w2, p2)" by fastforce
  have r: "w' = w2" "cs_conn c' = (cs_conn c)(e_fd e := Some (n\<lparr>cn_permit := p2, cn_error := True\<rparr>))"
    using res n t we ne by (auto simp: sp_fc_deadline_expire_def Let_def split: if_splits)
  obtain h where inv: "pool_inv h (w_pools w f)" using conns_ok_inv [OF ok, of f] by auto
  note T = fc_queue_take_ok [OF inv t]
  have st: "p_state p2 = FC_P_ENDED" "p_fc p2 = p_fc p" using T(4) we by (auto simp: fc_queue_wait_end_def Let_def split: if_splits)
  obtain pre e' post where e': "waiters (w_pools w f) = pre @ e' # post" "ent_is (p_q_fd (cn_permit n)) (p_q_gen (cn_permit n)) e'"
    "waiters s = pre @ post" using T(4) by blast
  have fd: "p_q_fd (cn_permit n) = e_fd e" using ok n by (auto simp: conns_ok_def)
  have w2: "s_queue (w_pools w2 f) = s_queue s" "\<And>h. pool_inv h s \<Longrightarrow> pool_inv h (w_pools w2 f)"
    "\<And>g. g \<noteq> f \<Longrightarrow> w_pools w2 g = w_pools w g" "w_timer w2 = w_timer w"
    using we by (auto simp: fc_queue_wait_end_def Let_def split: if_splits)
  have "pool_inv h' (w_pools w' f)" if "pool_inv h' (w_pools w f)" for h' using w2(2) [OF fc_queue_take_ok(1) [OF that t]] by (simp add: r)
  with n r st e' fd w2 have ?ended by (intro exI [of _ n] exI [of _ "n\<lparr>cn_permit := p2, cn_error := True\<rparr>"] exI [of _ e'] exI [of _ pre] exI [of _ post])
    (auto simp: ent_is_def)
  then show ?thesis ..
qed

lemma conns_ok_waits: "conns_ok x \<Longrightarrow> e \<in> set (waiters (w_pools (fst x) f)) \<Longrightarrow> conn_waits (snd x) f e"
  by (simp add: conns_ok_def)

lemma conn_waits_pool:
  "conn_waits c g e \<Longrightarrow> cs_conn c (e_fd e) = Some n \<Longrightarrow> p_fc (cn_permit n) = Some g"
  by (auto simp: conn_waits_def)

lemma sp_expire_keeps:
  assumes ok: "conns_ok (w, c)" and res: "sp_fc_deadline_expire f e now (w, c) = (w', c')"
  shows "conns_ok (w', c')"
  using sp_expire_cases [OF ok res]
proof (elim disjE)
  assume "w' = w \<and> c' = c"
  with ok show ?thesis by simp
next
  assume "\<exists>n n' e' pre post. cs_conn c (e_fd e) = Some n \<and> p_fc (cn_permit n) = Some f \<and> p_state (cn_permit n) = FC_P_QUEUED \<and>
       cs_conn c' = (cs_conn c)(e_fd e := Some n') \<and> p_state (cn_permit n') = FC_P_ENDED \<and> e_fd e' = e_fd e \<and>
       waiters (w_pools w f) = pre @ e' # post \<and> waiters (w_pools w' f) = pre @ post \<and>
       (\<forall>h. pool_inv h (w_pools w f) \<longrightarrow> pool_inv h (w_pools w' f)) \<and> (\<forall>g. g \<noteq> f \<longrightarrow> w_pools w' g = w_pools w g) \<and>
       w_timer w' = w_timer w"
  then obtain n n' e' pre post where n: "cs_conn c (e_fd e) = Some n" "p_fc (cn_permit n) = Some f"
    and n': "cs_conn c' = (cs_conn c)(e_fd e := Some n')" "p_state (cn_permit n') = FC_P_ENDED" and e': "e_fd e' = e_fd e"
    and ws: "waiters (w_pools w f) = pre @ e' # post" "waiters (w_pools w' f) = pre @ post"
    and inv: "\<And>h. pool_inv h (w_pools w f) \<Longrightarrow> pool_inv h (w_pools w' f)" and oth: "\<And>g. g \<noteq> f \<Longrightarrow> w_pools w' g = w_pools w g"
    by blast
  have d: "distinct (map e_fd (pre @ e' # post))" using conns_ok_distinct [OF ok, of f] unfolding fst_conv ws(1) .
  have stay: "e_fd a \<noteq> e_fd e \<and> a \<in> set (waiters (w_pools w g))" if "a \<in> set (waiters (w_pools w' g))" for a g
  proof (cases "g = f")
    case True
    have "e_fd e \<notin> e_fd ` set pre" "e_fd e \<notin> e_fd ` set post" using d e' by auto
    then have "e_fd a \<noteq> e_fd e" using that True ws(2) by (metis Un_iff imageI set_append)
    then show ?thesis using that True ws by auto
  next
    case False
    with that oth have "a \<in> set (waiters (w_pools w g))" by simp
    with conn_waits_pool [OF conns_ok_waits [OF ok, of a g, unfolded fst_conv snd_conv]] n False show ?thesis by fastforce
  qed
  have "conn_waits c' g a" if "a \<in> set (waiters (w_pools w' g))" for a g
    using conns_ok_waits [OF ok, of a g] stay [OF that] by (simp add: conn_waits_def n'(1))
  moreover have "distinct (map e_fd (waiters (w_pools w' g)))" for g
  proof (cases "g = f")
    case True
    with d ws(2) show ?thesis by auto
  qed (use ok oth in \<open>simp add: conns_ok_def\<close>)
  moreover have "\<exists>h. pool_inv h (w_pools w' g)" for g
    using conns_ok_inv [OF ok, of g] inv oth by (cases "g = f") auto
  moreover have "p_q_fd (cn_permit m) = fd" if "cs_conn c' fd = Some m" "p_state (cn_permit m) = FC_P_QUEUED" for fd m
    using ok that n' by (auto simp: conns_ok_def split: if_splits)
  ultimately show ?thesis by (simp add: conns_ok_def)
qed

lemma sp_expire_ends:
  assumes ok: "conns_ok (w, c)" and e: "e \<in> set (waiters (w_pools w f))" "ent_due now e"
    and res: "sp_fc_deadline_expire f e now (w, c) = (w', c')"
  shows "waiters (w_pools w' f) = remove1 e (waiters (w_pools w f))"
proof -
  obtain n where n: "cs_conn c (e_fd e) = Some n" "cn_fd n = e_fd e" "cn_gen n = e_gen e" "cn_odir n = 0" "0 < e_fd e"
    and p: "p_state (cn_permit n) = FC_P_QUEUED" "p_fc (cn_permit n) = Some f" "p_q_deadline_ns (cn_permit n) = e_deadline_ns e"
      "p_q_gen (cn_permit n) = e_gen e"
    using conns_ok_waits [OF ok, of e f] e(1) by (auto simp: conn_waits_def split: option.splits)
  have fd: "p_q_fd (cn_permit n) = e_fd e" using ok n(1) p(1) by (simp add: conns_ok_def)
  obtain h where inv: "pool_inv h (w_pools w f)" using conns_ok_inv [OF ok, of f] by auto
  obtain won s p' an where t: "fc_queue_take (w_pools w f) (cn_permit n) = (won, s, p', an)" by (metis surj_pair)
  have "ent_is (e_fd e) (e_gen e) e" using e by (simp add: ent_is_def ent_due_def)
  then have "won" using fc_queue_take_ok(3) [OF inv t] fc_ring_find_none [OF ring_invD(1) [OF pool_invD(3) [OF inv]]] p fd e(1)
    by (auto simp: fc_queue_holds_def)
  then have "length (cs_reaped c') = Suc (length (cs_reaped c))"
    using res n p e(2) t by (auto simp: sp_fc_deadline_expire_def Let_def ent_due_def split: prod.splits if_splits)
  then have "w' \<noteq> w \<or> c' \<noteq> c" by auto
  then obtain e' pre post where x: "e_fd e' = e_fd e" "waiters (w_pools w f) = pre @ e' # post" "waiters (w_pools w' f) = pre @ post"
    using sp_expire_cases [OF ok res] by blast
  have d: "distinct (map e_fd (pre @ e' # post))" using conns_ok_distinct [OF ok, of f] unfolding fst_conv x(2) .
  then have "e_fd e \<notin> e_fd ` set pre" "e_fd e \<notin> e_fd ` set post" using x(1) by auto
  then have "e = e'" using e(1) x(2) by (metis Un_iff imageI set_append set_ConsD)
  moreover have "e' \<notin> set pre" using d by auto
  ultimately show ?thesis using x by (simp add: remove1_append)
qed

interpretation spx: expiry sp_fc_deadline_expire conns_ok
proof
  fix x :: "fc_world \<times> sp_conns" and f e now
  obtain w c where x: "x = (w, c)" by fastforce
  obtain w' c' where r: "sp_fc_deadline_expire f e now (w, c) = (w', c')" by fastforce
  show "d_tfd (w_timer (fst (sp_fc_deadline_expire f e now x))) = d_tfd (w_timer (fst x))"
    "d_last_fire_ns (w_timer (fst (sp_fc_deadline_expire f e now x))) = d_last_fire_ns (w_timer (fst x))"
    using r by (auto simp: x sp_fc_deadline_expire_def fc_queue_wait_end_def Let_def split: if_splits option.splits prod.splits)
  assume ok: "conns_ok x"
  show "conns_ok (sp_fc_deadline_expire f e now x)" using sp_expire_keeps ok r by (simp add: x)
  show "\<exists>h. pool_inv h (w_pools (fst x) f)" by (rule conns_ok_inv [OF ok])
  show "w_pools (fst (sp_fc_deadline_expire f e now x)) g = w_pools (fst x) g" if "g \<noteq> f" for g
    using sp_expire_cases [OF _ r] ok that r by (auto simp: x)
  show "waiters (w_pools (fst (sp_fc_deadline_expire f e now x)) f) = remove1 e (waiters (w_pools (fst x) f))"
    if "e \<in> set (waiters (w_pools (fst x) f))" "ent_due now e"
    using sp_expire_ends [OF _ _ that(2) r] ok that r by (simp add: x)
  show "distinct (waiters (w_pools (fst x) f))" using conns_ok_distinct [OF ok, of f] by (simp add: distinct_map)
next
  fix w d and c :: sp_conns
  assume "conns_ok (w, c)"
  then show "conns_ok (w\<lparr>w_timer := d\<rparr>, c)" by (simp add: conns_ok_def)
qed

end
