(* ===== verification/FC_Settle.thy ===== *)
theory FC_Settle
  imports FC_State
begin

text \<open>
  Who ends a wait. The deadline pass and the drain take the entry (\<open>fc_queue_take\<close>), the owner worker
  resumes (\<open>fc_queue_owner_resume\<close>) and the answer to an eviction is settled by the owner or by the
  1 Hz pass (\<open>fc_queue_evicted_settle\<close>); all of them race for the permit's \<open>QUEUED\<close> state, which
  \<open>fc_permit_settle\<close> leaves by one compare-and-swap. In every order in which they run on one permit,
  at most one of them decides.
\<close>

datatype settle_op = By_take | By_resume | By_evicted int u64

text \<open>One try on a permit of pool \<open>f\<close>: whether it decided the wait, and what it leaves.\<close>

fun settle_try :: "pool_ref \<Rightarrow> settle_op \<Rightarrow> fc_world \<times> fc_permit \<Rightarrow> bool \<times> fc_world \<times> fc_permit" where
  "settle_try f By_take (w, p) =
     (let (won, s, p, an) = fc_queue_take (w_pools w f) p in (won, w_note (w_set w f s) an, p))"
| "settle_try f By_resume (w, p) =
     (let (r, w, p) = fc_queue_owner_resume w (Some f) p in (r = FC_RESUME_TURN \<or> r = FC_RESUME_EVICTED, w, p))"
| "settle_try f (By_evicted fd gen) (w, p) =
     (let (won, s, p) = fc_queue_evicted_settle (w_pools w f) p fd gen in (won, w_set w f s, p))"

fun settle_run :: "pool_ref \<Rightarrow> settle_op list \<Rightarrow> fc_world \<times> fc_permit \<Rightarrow> nat \<times> fc_world \<times> fc_permit" where
  "settle_run f [] st = (0, st)"
| "settle_run f (x # xs) st =
     (let (won, st) = settle_try f x st; (n, st) = settle_run f xs st in (if won then Suc n else n, st))"

text \<open>A try decides exactly when it moves the permit out of \<open>QUEUED\<close>, and never moves it back.\<close>

lemma settle_try_state:
  assumes "settle_try f x (w, p) = (won, w', p')"
  shows "won \<longleftrightarrow> p_state p = FC_P_QUEUED \<and> p_state p' \<noteq> FC_P_QUEUED" "\<not> won \<Longrightarrow> p_state p' = p_state p"
proof -
  have "(won \<longleftrightarrow> p_state p = FC_P_QUEUED \<and> p_state p' \<noteq> FC_P_QUEUED) \<and> (\<not> won \<longrightarrow> p_state p' = p_state p)"
  proof (cases x)
    case By_take
    then show ?thesis
      using assms by (auto simp: fc_queue_take_def fc_permit_settle_def Let_def split: if_splits option.splits prod.splits)
  next
    case By_resume
    then show ?thesis
      using assms by (auto simp: fc_queue_owner_resume_def fc_queue_resumed_def fc_permit_settle_def Let_def split: if_splits prod.splits)
  next
    case (By_evicted fd gen)
    then show ?thesis
      using assms by (auto simp: fc_queue_evicted_settle_def fc_evicted_take_def fc_permit_settle_def Let_def split: if_splits option.splits prod.splits)
  qed
  then show "won \<longleftrightarrow> p_state p = FC_P_QUEUED \<and> p_state p' \<noteq> FC_P_QUEUED" "\<not> won \<Longrightarrow> p_state p' = p_state p" by blast+
qed

lemma settle_run_once:
  "settle_run f xs (w, p) = (n, w', p') \<Longrightarrow>
     n = (if p_state p = FC_P_QUEUED \<and> p_state p' \<noteq> FC_P_QUEUED then 1 else 0) \<and>
     (p_state p \<noteq> FC_P_QUEUED \<longrightarrow> p_state p' = p_state p)"
proof (induction xs arbitrary: w p n w' p')
  case (Cons x xs)
  obtain won w1 p1 where t: "settle_try f x (w, p) = (won, w1, p1)" by (metis surj_pair)
  obtain m w2 p2 where r: "settle_run f xs (w1, p1) = (m, w2, p2)" by (metis surj_pair)
  show ?case using Cons.prems t r settle_try_state [OF t] Cons.IH [OF r] by (auto split: if_splits)
qed simp

end
