(* ===== verification/FC_Expose.thy ===== *)
theory FC_Expose
  imports FC_World
begin

text \<open>
  The admission headers on admitted responses, section "admission headers on admitted responses" of
  \<open>common/sockproxy_fc.c\<close>: when a response carries them (\<open>fc_expose_take\<close>) and how they are put into
  an HTTP/1 response head in place (\<open>fc_expose_h1\<close>). A buffer is the list of its first \<open>len\<close> bytes; the
  room behind it is the number \<open>cap\<close>.
\<close>

section \<open>Values\<close>

record fc_expose =
  x_inflight :: u32
  x_queued :: u32
  x_limit :: u32

datatype fc_expose_res = FC_EXPOSE_H1_DONE | FC_EXPOSE_H1_INTERIM | FC_EXPOSE_H1_SKIPPED

definition fc_expose_take :: "fc_world \<Rightarrow> fc_permit \<Rightarrow> fc_expose option" where
  "fc_expose_take w p =
     (case p_fc p of None \<Rightarrow> None
      | Some f \<Rightarrow>
        let s = w_pools w f
        in if p_state p \<noteq> FC_P_EXECUTING \<or> \<not> fc_active s \<or> \<not> c_expose_headers (s_cfg s) then None
           else Some \<lparr>x_inflight = s_inflight s, x_queued = s_queued s, x_limit = fc_svc_cap s\<rparr>)"

section \<open>The response head\<close>

abbreviation CR :: char where "CR \<equiv> CHR 0x0D"
abbreviation LF :: char where "LF \<equiv> CHR 0x0A"

definition FC_EXPOSE_NAME :: string where
  "FC_EXPOSE_NAME = ''x-loxilb-admission-''"

text \<open>The scan for the blank line, over what is left of the buffer from offset \<open>i\<close>.\<close>

fun head_scan :: "nat \<Rightarrow> string \<Rightarrow> nat" where
  "head_scan i (a # b # c # d # xs) =
     (if a = CR \<and> b = LF \<and> c = CR \<and> d = LF then i + 2 else head_scan (Suc i) (b # c # d # xs))"
| "head_scan i _ = 0"

definition fc_h1_head_end :: "string \<Rightarrow> nat" where
  "fc_h1_head_end buf = head_scan 0 buf"

text \<open>The end of the line at \<open>i\<close>: its CRLF, or \<open>end\<close>.\<close>

function line_end :: "string \<Rightarrow> nat \<Rightarrow> nat \<Rightarrow> nat" where
  "line_end buf stop i =
     (if i < stop \<and> \<not> (buf ! i = CR \<and> buf ! (i + 1) = LF) then line_end buf stop (i + 1) else i)"
  by pat_completeness auto
termination by (relation "measure (\<lambda>(buf, stop, i). stop - i)") auto

declare line_end.simps [simp del]

lemma line_end_ge: "i \<le> line_end buf stop i"
proof (induction buf stop i rule: line_end.induct)
  case (1 buf stop i)
  then show ?case by (subst line_end.simps) auto
qed

text \<open>The loop that removes the backend's lines: the buffer and the end of its head.\<close>

function expose_strip :: "string \<Rightarrow> nat \<Rightarrow> nat \<Rightarrow> string \<times> nat" where
  "expose_strip buf stop i =
     (if i < stop
      then let eol = line_end buf stop i + 2
           in if eol - i > length FC_EXPOSE_NAME \<and>
                 map ascii_lower (take (length FC_EXPOSE_NAME) (drop i buf)) = map ascii_lower FC_EXPOSE_NAME
              then expose_strip (take i buf @ drop eol buf) (stop - (eol - i)) i
              else expose_strip buf stop eol
      else (buf, stop))"
  by pat_completeness auto

termination
proof (relation "measure (\<lambda>(buf, stop, i). stop - i)")
  fix buf :: string and stop i eol :: nat
  assume "i < stop" "eol = line_end buf stop i + 2"
  then show "((take i buf @ drop eol buf, stop - (eol - i), i), (buf, stop, i)) \<in> measure (\<lambda>(buf, stop, i). stop - i)"
    "((buf, stop, eol), (buf, stop, i)) \<in> measure (\<lambda>(buf, stop, i). stop - i)"
    using line_end_ge [of i buf stop] by auto
qed simp

declare expose_strip.simps [simp del]

text \<open>The decimal of \<open>%u\<close>.\<close>

function dec_of :: "nat \<Rightarrow> string" where
  "dec_of n = (if n < 10 then [char_of (48 + n)] else dec_of (n div 10) @ [char_of (48 + n mod 10)])"
  by pat_completeness auto
termination by (relation "measure id") auto

declare dec_of.simps [simp del]

definition expose_lines :: "fc_expose \<Rightarrow> string" where
  "expose_lines v =
     ''X-Loxilb-Admission-Inflight: '' @ dec_of (unat (x_inflight v)) @ [CR, LF] @
     ''X-Loxilb-Admission-Queued: '' @ dec_of (unat (x_queued v)) @ [CR, LF] @
     ''X-Loxilb-Admission-Limit: '' @ dec_of (unat (x_limit v)) @ [CR, LF]"

definition byte :: "char \<Rightarrow> nat" where
  "byte c = of_char c"

text \<open>
  \<open>add\<close> holds 192 bytes, so text of 192 or more would be cut by \<open>snprintf\<close> and skipped.
\<close>

definition fc_expose_h1 :: "string \<Rightarrow> nat \<Rightarrow> fc_expose \<Rightarrow> string \<times> fc_expose_res" where
  "fc_expose_h1 buf cap v =
     (if length buf < 12 \<or> take 7 buf \<noteq> ''HTTP/1.'' \<or> buf ! 8 \<noteq> CHR '' '' \<or> byte (buf ! 9) < 49 \<or> byte (buf ! 9) > 53 \<or>
         byte (buf ! 10) < 48 \<or> byte (buf ! 10) > 57 \<or> byte (buf ! 11) < 48 \<or> byte (buf ! 11) > 57
      then (buf, FC_EXPOSE_H1_SKIPPED)
      else
        let status = (byte (buf ! 9) - 48) * 100 + (byte (buf ! 10) - 48) * 10 + (byte (buf ! 11) - 48)
        in if status < 200 then (buf, FC_EXPOSE_H1_INTERIM)
           else
             let stop = fc_h1_head_end buf
             in if stop = 0 then (buf, FC_EXPOSE_H1_SKIPPED)
                else
                  let (buf, stop) = expose_strip buf stop (line_end buf stop 0 + 2); add = expose_lines v
                  in if length add = 0 \<or> length add \<ge> 192 then (buf, FC_EXPOSE_H1_SKIPPED)
                     else if length buf + length add > cap then (buf, FC_EXPOSE_H1_SKIPPED)
                     else (take stop buf @ add @ drop stop buf, FC_EXPOSE_H1_DONE))"

section \<open>Lines\<close>

text \<open>A response as its lines: no line but the blank one is empty, and none has a CRLF in it.\<close>

fun crlf_free :: "string \<Rightarrow> bool" where
  "crlf_free (a # b # xs) \<longleftrightarrow> \<not> (a = CR \<and> b = LF) \<and> crlf_free (b # xs)"
| "crlf_free _ \<longleftrightarrow> True"

definition h1_line :: "string \<Rightarrow> bool" where
  "h1_line l \<longleftrightarrow> l \<noteq> [] \<and> crlf_free l"

definition h1_lines :: "string list \<Rightarrow> string" where
  "h1_lines ls = concat (map (\<lambda>l. l @ [CR, LF]) ls)"

definition h1_response :: "string list \<Rightarrow> string \<Rightarrow> string" where
  "h1_response ls body = h1_lines ls @ [CR, LF] @ body"

definition own_line :: "string \<Rightarrow> bool" where
  "own_line l \<longleftrightarrow> map ascii_lower (take (length FC_EXPOSE_NAME) l) = FC_EXPOSE_NAME"

lemma h1_lines_simps [simp]: "h1_lines [] = []" "h1_lines (l # ls) = l @ CR # LF # h1_lines ls"
  by (simp_all add: h1_lines_def)

lemma h1_lines_append [simp]: "h1_lines (xs @ ys) = h1_lines xs @ h1_lines ys"
  by (simp add: h1_lines_def)

lemma head_scan_line: "crlf_free l \<Longrightarrow> head_scan i (l @ CR # LF # xs) = head_scan (i + length l) (CR # LF # xs)"
proof (induction l arbitrary: i rule: crlf_free.induct)
  case (1 a b l)
  then have "head_scan (Suc i) ((b # l) @ CR # LF # xs) = head_scan (Suc i + length (b # l)) (CR # LF # xs)" by simp
  moreover have "head_scan i ((a # b # l) @ CR # LF # xs) = head_scan (Suc i) ((b # l) @ CR # LF # xs)"
    using 1(2) by (cases l; cases "tl l") auto
  ultimately show ?case by simp
qed (auto, cases xs, auto)

lemma head_scan_crlf:
  assumes "h1_line l" shows "head_scan i (CR # LF # l @ CR # LF # xs) = head_scan (i + 2) (l @ CR # LF # xs)"
proof -
  obtain c l' where l: "l = c # l'" using assms by (cases l) (auto simp: h1_line_def)
  show ?thesis using assms by (cases l'; cases "tl l'") (auto simp: l h1_line_def)
qed

lemma head_scan_lines:
  "list_all h1_line ls \<Longrightarrow> ls \<noteq> [] \<Longrightarrow> head_scan i (h1_response ls body) = i + length (h1_lines ls)"
proof (induction ls arbitrary: i)
  case (Cons l ls)
  have l: "h1_line l" "crlf_free l" using Cons.prems by (simp_all add: h1_line_def)
  show ?case
  proof (cases ls)
    case Nil
    then show ?thesis using head_scan_line [OF l(2)] by (simp add: h1_response_def)
  next
    case (Cons m ms)
    have "h1_line m" using Cons.prems Cons by simp
    from head_scan_crlf [OF this, of "i + length l" "h1_lines ms @ CR # LF # body"]
    have "head_scan i (h1_response (l # ls) body) = head_scan (i + length l + 2) (h1_response ls body)"
      using head_scan_line [OF l(2), of i "h1_lines ls @ CR # LF # body"] by (simp add: h1_response_def Cons)
    also have "\<dots> = i + length l + 2 + length (h1_lines ls)" by (rule Cons.IH) (use Cons.prems Cons in auto)
    finally show ?thesis by simp
  qed
qed simp

lemma fc_h1_head_end_eq: "list_all h1_line ls \<Longrightarrow> ls \<noteq> [] \<Longrightarrow> fc_h1_head_end (h1_response ls body) = length (h1_lines ls)"
  using head_scan_lines [of ls 0 body] by (simp add: fc_h1_head_end_def)

lemma line_end_eq:
  "crlf_free l \<Longrightarrow> length pre + length l < stop \<Longrightarrow>
     line_end (pre @ l @ CR # LF # xs) stop (length pre) = length pre + length l"
proof (induction l arbitrary: pre)
  case Nil
  then show ?case by (simp add: line_end.simps nth_append)
next
  case (Cons a l)
  have free: "crlf_free l" using Cons.prems(1) by (cases l) simp_all
  have no: "\<not> (a = CR \<and> hd (l @ CR # LF # xs) = LF)" using Cons.prems(1) by (cases l) auto
  let ?buf = "pre @ (a # l) @ CR # LF # xs"
  have "?buf ! length pre = a" "?buf ! (length pre + 1) = hd (l @ CR # LF # xs)"
    by (simp_all add: nth_append hd_conv_nth)
  then have "line_end ?buf stop (length pre) = line_end ?buf stop (length pre + 1)"
    using Cons.prems(2) no by (subst line_end.simps) simp
  also have "\<dots> = line_end ((pre @ [a]) @ l @ CR # LF # xs) stop (length (pre @ [a]))" by simp
  also have "\<dots> = length (pre @ [a]) + length l" by (rule Cons.IH) (use free Cons.prems(2) in simp_all)
  finally show ?case by simp
qed

text \<open>The name is compared with the line and its CRLF, which no name byte matches.\<close>

lemma own_line_iff:
  "length l + 2 > length FC_EXPOSE_NAME \<and> map ascii_lower (take (length FC_EXPOSE_NAME) (l @ CR # LF # xs)) = map ascii_lower FC_EXPOSE_NAME
   \<longleftrightarrow> own_line l"
proof -
  let ?n = "length FC_EXPOSE_NAME"
  have n: "map ascii_lower FC_EXPOSE_NAME = FC_EXPOSE_NAME" "?n = 19" by code_simp+
  have cr: "ascii_lower CR = CR" by code_simp
  have free: "CR \<notin> set FC_EXPOSE_NAME" by code_simp
  show ?thesis
  proof (cases "length l \<ge> ?n")
    case True
    then show ?thesis by (simp add: own_line_def n(1))
  next
    case False
    have "CR \<in> set (map ascii_lower (take ?n (l @ CR # LF # xs)))"
      using False cr by (cases "?n - length l") (auto simp: image_iff intro!: bexI [of _ CR])
    moreover have "\<not> own_line l"
    proof
      assume "own_line l"
      then have "length (take ?n l) = ?n" by (metis own_line_def length_map)
      with False show False by simp
    qed
    ultimately show ?thesis using free n(1) by metis
  qed
qed

lemma expose_strip_eq:
  "list_all h1_line ls \<Longrightarrow>
     expose_strip (pre @ h1_response ls body) (length pre + length (h1_lines ls)) (length pre) =
       (pre @ h1_response (filter (\<lambda>l. \<not> own_line l) ls) body, length pre + length (h1_lines (filter (\<lambda>l. \<not> own_line l) ls)))"
proof (induction ls arbitrary: pre)
  case Nil
  then show ?case by (simp add: expose_strip.simps)
next
  case (Cons l ls)
  let ?rest = "h1_lines ls @ CR # LF # body"
  let ?buf = "pre @ l @ CR # LF # ?rest"
  let ?stop = "length pre + (length l + 2 + length (h1_lines ls))"
  have l: "crlf_free l" using Cons.prems by (simp add: h1_line_def)
  have eol: "line_end ?buf ?stop (length pre) = length pre + length l" by (rule line_end_eq [OF l]) simp
  have own: "line_end ?buf ?stop (length pre) + 2 - length pre > length FC_EXPOSE_NAME \<and>
      map ascii_lower (take (length FC_EXPOSE_NAME) (drop (length pre) ?buf)) = map ascii_lower FC_EXPOSE_NAME \<longleftrightarrow> own_line l"
    unfolding eol using own_line_iff [of l ?rest] by simp
  have step: "expose_strip ?buf ?stop (length pre) =
      (if own_line l then expose_strip (pre @ ?rest) (length pre + length (h1_lines ls)) (length pre)
       else expose_strip ?buf ?stop (length (pre @ l @ [CR, LF])))"
  proof -
    have "expose_strip ?buf ?stop (length pre) =
        (if own_line l
         then expose_strip (take (length pre) ?buf @ drop (length pre + length l + 2) ?buf) (?stop - (length pre + length l + 2 - length pre)) (length pre)
         else expose_strip ?buf ?stop (length pre + length l + 2))"
      using own by (subst expose_strip.simps) (simp only: Let_def eol, simp)
    then show ?thesis by simp
  qed
  show ?case
    using step Cons.IH [of pre] Cons.IH [of "pre @ l @ [CR, LF]"] Cons.prems by (simp add: h1_response_def add_ac)
qed

lemma dec_of_length: "n < 10 ^ Suc k \<Longrightarrow> length (dec_of n) \<le> Suc k \<and> dec_of n \<noteq> []"
proof (induction k arbitrary: n)
  case 0
  then show ?case by (simp add: dec_of.simps)
next
  case (Suc k)
  have "n div 10 < 10 ^ Suc k" using Suc.prems by (simp add: div_less_iff_less_mult mult.commute)
  with Suc.IH show ?case by (subst dec_of.simps) (auto simp: dec_of.simps [of n])
qed

lemma expose_lines_length: "0 < length (expose_lines v)" "length (expose_lines v) < 192"
proof -
  have "unat x < 10 ^ Suc 9" for x :: u32 using unsigned_less [of x, where ?'a = nat] by simp
  then have "length (dec_of (unat x)) \<le> 10" for x :: u32 using dec_of_length [of _ 9] by fastforce
  from this [of "x_inflight v"] this [of "x_queued v"] this [of "x_limit v"]
  show "0 < length (expose_lines v)" "length (expose_lines v) < 192" by (simp_all add: expose_lines_def)
qed

section \<open>The rewritten response\<close>

definition h1_status :: "string \<Rightarrow> nat" where
  "h1_status buf = (byte (buf ! 9) - 48) * 100 + (byte (buf ! 10) - 48) * 10 + (byte (buf ! 11) - 48)"

definition h1_status_line :: "string \<Rightarrow> bool" where
  "h1_status_line buf \<longleftrightarrow> 12 \<le> length buf \<and> take 7 buf = ''HTTP/1.'' \<and> buf ! 8 = CHR '' '' \<and> 49 \<le> byte (buf ! 9) \<and> byte (buf ! 9) \<le> 53 \<and>
     48 \<le> byte (buf ! 10) \<and> byte (buf ! 10) \<le> 57 \<and> 48 \<le> byte (buf ! 11) \<and> byte (buf ! 11) \<le> 57"

lemma fc_expose_h1_eq:
  "fc_expose_h1 buf cap v =
     (if \<not> h1_status_line buf then (buf, FC_EXPOSE_H1_SKIPPED)
      else if h1_status buf < 200 then (buf, FC_EXPOSE_H1_INTERIM)
      else if fc_h1_head_end buf = 0 then (buf, FC_EXPOSE_H1_SKIPPED)
      else let (buf, stop) = expose_strip buf (fc_h1_head_end buf) (line_end buf (fc_h1_head_end buf) 0 + 2); add = expose_lines v
           in if length buf + length add > cap then (buf, FC_EXPOSE_H1_SKIPPED)
              else (take stop buf @ add @ drop stop buf, FC_EXPOSE_H1_DONE))"
  using expose_lines_length [of v]
  unfolding fc_expose_h1_def h1_status_line_def h1_status_def Let_def not_less not_le
  by (simp add: not_less not_le split: prod.split)

lemma fc_expose_h1_lines:
  assumes lines: "list_all h1_line (l0 # ls)" and st: "h1_status_line l0" "200 \<le> h1_status l0"
  defines "kept \<equiv> l0 # filter (\<lambda>l. \<not> own_line l) ls"
  shows "fc_expose_h1 (h1_response (l0 # ls) body) cap v =
    (if length (h1_response kept body) + length (expose_lines v) > cap then (h1_response kept body, FC_EXPOSE_H1_SKIPPED)
     else (h1_lines kept @ expose_lines v @ CR # LF # body, FC_EXPOSE_H1_DONE))"
proof -
  let ?buf = "h1_response (l0 # ls) body"
  have len: "12 \<le> length l0" using st(1) by (simp add: h1_status_line_def)
  have nth: "?buf ! i = l0 ! i" if "i < 12" for i using that len by (simp add: h1_response_def nth_append)
  have "take 7 ?buf = take 7 l0" using len by (simp add: h1_response_def)
  with nth len st have s: "h1_status_line ?buf" "\<not> h1_status ?buf < 200"
    by (simp_all add: h1_status_line_def h1_status_def) (simp add: h1_response_def)
  have e: "fc_h1_head_end ?buf = length (l0 @ [CR, LF]) + length (h1_lines ls)" using fc_h1_head_end_eq [OF lines] by simp
  have le: "line_end ?buf (fc_h1_head_end ?buf) 0 + 2 = length (l0 @ [CR, LF])"
    using line_end_eq [of l0 "[]" "fc_h1_head_end ?buf" "h1_lines ls @ CR # LF # body"] lines e by (simp add: h1_line_def h1_response_def)
  have strip: "expose_strip ?buf (fc_h1_head_end ?buf) (line_end ?buf (fc_h1_head_end ?buf) 0 + 2) =
      (h1_response kept body, length (h1_lines kept))"
    using expose_strip_eq [of ls "l0 @ [CR, LF]" body] lines unfolding le unfolding e by (simp add: kept_def h1_response_def)
  have "fc_h1_head_end ?buf \<noteq> 0" by (simp add: e)
  then show ?thesis
    unfolding fc_expose_h1_eq strip prod.case Let_def using s by (simp add: h1_response_def)
qed

end
