(* ===== verification/FC_Sample.thy ===== *)
theory FC_Sample
  imports FC_Outcome FC_Deadline FC_Settle FC_Expose "HOL-Library.Code_Target_Numeral"
begin

unbundle bit_operations_syntax

text \<open>
  Concrete pools, permits and processes, on which the properties are applied: an enforcing pool with
  one service unit and a queue of two, and the same pool with one and with two requests waiting; and a
  pool whose only waiter is evicted by a request of its own tenant.
\<close>

text \<open>The home bucket on integers, for evaluation.\<close>

lemma fc_tidx_home_code [code]:
  "fc_tidx_home nb key =
     (let key = key XOR (drop_bit 33 key);
          key = key * 0xff51afd7ed558ccd;
          key = key XOR (drop_bit 33 key)
      in nat (uint key mod int nb))"
  by (simp add: fc_tidx_home_def Let_def nat_mod_distrib flip: nat_uint_eq)

definition sample_cfg :: fc_cfg where
  "sample_cfg = fc_cfg_zero\<lparr>c_mode := FC_MODE_ENFORCE, c_max_outstanding := 1, c_max_queue_depth := 2,
     c_max_queue_wait_ms := 5000, c_telemetry_stale_ms := FC_TELEMETRY_STALE_MS_DEFAULT\<rparr>"

definition sample_pool :: fc_state where
  "sample_pool = fc_state_zero\<lparr>s_cfg := sample_cfg, s_eff_max := 1,
     s_queue := (s_queue fc_state_zero)\<lparr>q_ring := [fc_ent_zero, fc_ent_zero], q_cap := 2\<rparr>,
     s_tt := (s_tt fc_state_zero)\<lparr>tt_slots := FC_TENANT_SLOTS\<rparr>\<rparr>"

definition sample_world :: fc_world where
  "sample_world =
     \<lparr>w_pools = (\<lambda>_. sample_pool), w_anomaly = (\<lambda>_. 0), w_drain_flag = False,
      w_timer = \<lparr>d_tfd = 3, d_armed_ns = 0, d_last_fire_ns = 0, d_wakeups = 0, d_passes = 0, d_set_ns = 0\<rparr>,
      w_clock = 1000, w_calloc = (\<lambda>_. True), w_owner_hold = True, w_owner_drop = True,
      w_wake_hook = Some (\<lambda>_ _ _. True), w_calls = []\<rparr>"

definition sample_permit :: fc_permit where
  "sample_permit =
     \<lparr>p_fc = None, p_state = FC_P_NONE, p_svc_held = False, p_woken = False, p_band = FC_BAND_STANDARD, p_q_parked = False,
      p_q_ttl_cut = False, p_q_ttl_ms = 0, p_ep = (\<lambda>_. -1), p_q_fd = 0, p_q_slot = 0, p_q_gen = 0, p_q_enqueue_ns = 0,
      p_q_deadline_ns = 0, p_q_first_ns = 0, p_admit_ns = 0, p_tkey = 0, p_tslot = -1\<rparr>"

text \<open>One request admitted, one waiting behind it, two waiting.\<close>

definition sample_busy :: "fc_world \<times> fc_permit" where
  "sample_busy = snd (fc_service_acquire sample_world (Some 0) sample_permit)"

definition sample_one :: "fc_world \<times> fc_permit" where
  "sample_one = snd (fc_queue_push sample_world (Some 0) sample_permit 7 1 1000 False)"

definition sample_two :: "fc_world \<times> fc_permit" where
  "sample_two = snd (fc_queue_push (fst sample_one) (Some 0) sample_permit 8 1 2000 False)"

lemma sample_pool_inv: "pool_inv (\<lambda>_. 0) sample_pool"
  by (simp add: sample_pool_def fc_state_zero_def pool_inv_def pool_core_def pool_mirrors_def ring_inv_def ring_ok_def ring_live_def
      ring_seq_def seg_def tt_inv_def ti_def tq_def tt_has_def earliest_def band_len_def fun_eq_iff fc_ent_zero_def nth_Cons')

lemma sample_world_inv: "pool_inv (\<lambda>_. 0) (w_pools sample_world f)"
  by (simp add: sample_world_def sample_pool_inv)

lemma sample_idle [simp]: "idle sample_permit"
  by (simp add: idle_def sample_permit_def)

lemma sample_accounted: "accounted (sample_world, [sample_permit, sample_permit])"
proof -
  have "acct_pool sample_pool (held_of [sample_permit, sample_permit] f)" for f
    unfolding held_of_idle [of "[sample_permit, sample_permit]", simplified]
    using sample_pool_inv by (simp add: acct_pool_def sample_pool_def fc_state_zero_def)
  then show ?thesis by (simp add: accounted_def sample_world_def sound_released)
qed

lemma sample_busy_admits: "fc_service_acquire sample_world (Some 0) sample_permit = (FC_ADMIT, fst sample_busy, snd sample_busy)"
proof -
  have "fst (fc_service_acquire sample_world (Some 0) sample_permit) = FC_ADMIT" by code_simp
  then show ?thesis by (simp add: sample_busy_def prod_eq_iff)
qed

lemma sample_busy_wf: "permit_wf (snd sample_busy)"
  using fc_service_acquire_sound [OF sample_idle sample_busy_admits [unfolded fc_service_acquire_def]] by (simp add: sound_step_def)

lemma sample_push_safe:
  "\<not> evict_frees (w_calloc sample_world) (w_pools sample_world 0) (push_ent (w_pools sample_world 0) sample_permit 7 1 1000 False)
     (p_tkey sample_permit) False 1000"
  by code_simp

lemma sample_one_inv: "pool_inv (\<lambda>_. 0) (w_pools (fst sample_one) 0)"
proof -
  obtain rc w' p' where r: "fc_queue_push sample_world (Some 0) sample_permit 7 1 1000 False = (rc, w', p')" by (metis surj_pair)
  from fc_queue_push_ok(1) [OF sample_world_inv _ r sample_push_safe] r show ?thesis by (simp add: sample_one_def)
qed

text \<open>The process with one request waiting on every pool.\<close>

definition sample_wait :: fc_world where
  "sample_wait = sample_world\<lparr>w_pools := (\<lambda>_. w_pools (fst sample_one) 0)\<rparr>"

lemma sample_wait_inv: "pool_inv (\<lambda>_. 0) (w_pools sample_wait f)"
  using sample_one_inv by (simp add: sample_wait_def)

lemma sample_wait_env [simp]: "w_wake_hook sample_wait = Some (\<lambda>_ _ _. True)" "w_calloc sample_wait = (\<lambda>_. True)"
  by (simp_all add: sample_wait_def sample_world_def)

text \<open>The connection of the request that waits in \<^const>\<open>sample_one\<close>.\<close>

definition sample_conns :: sp_conns where
  "sample_conns = \<lparr>cs_conn = (\<lambda>_. None)(7 := Some \<lparr>cn_fd = 7, cn_gen = 1, cn_odir = 0, cn_permit = snd sample_one, cn_error = False\<rparr>),
     cs_reaped = []\<rparr>"

lemma sample_conns_ok: "conns_ok (fst sample_one, sample_conns)"
proof -
  let ?w = "fst sample_one"
  obtain rc w' p' where r: "fc_queue_push sample_world (Some 0) sample_permit 7 1 1000 False = (rc, w', p')" by (metis surj_pair)
  have pools: "w_pools ?w f = (if f = 0 then w_pools ?w 0 else sample_pool)" for f
    using fc_queue_push_ok(2) [OF sample_world_inv _ r, of f] r by (simp add: sample_one_def sample_world_def)
  have "list_all (conn_waits sample_conns 0) (waiters (w_pools ?w 0))" "distinct (map e_fd (waiters (w_pools ?w 0)))"
    "waiters sample_pool = []" "p_q_fd (snd sample_one) = 7" by code_simp+
  then have "(\<exists>h. pool_inv h (w_pools ?w f)) \<and> distinct (map e_fd (waiters (w_pools ?w f))) \<and>
      (\<forall>e \<in> set (waiters (w_pools ?w f)). conn_waits sample_conns f e)" for f
    using pools [of f] sample_one_inv sample_pool_inv by (auto simp: list_all_iff split: if_splits)
  moreover have "p_q_fd (cn_permit n) = fd" if "cs_conn sample_conns fd = Some n" for fd n
    using that \<open>p_q_fd (snd sample_one) = 7\<close> by (auto simp: sample_conns_def split: if_splits)
  ultimately show ?thesis by (simp add: conns_ok_def)
qed

text \<open>A pool of four units, one kept for the critical band.\<close>

definition floor_pool :: fc_state where
  "floor_pool = sample_pool\<lparr>s_cfg := sample_cfg\<lparr>c_max_outstanding := 4, c_critical_reserve_pct := 25\<rparr>, s_eff_max := 4\<rparr>"

section \<open>A tenant that evicts itself\<close>

text \<open>A queue of one with tenants in turn and eviction, a sheddable waiter of tenant 33 in it.\<close>

definition reuse_pool :: fc_state where
  "reuse_pool = sample_pool\<lparr>s_cfg := sample_cfg\<lparr>c_max_queue_depth := 1, c_tenant_wake := FC_TENANT_WAKE_RR, c_shed_queue := True\<rparr>\<rparr>"

definition reuse_ent :: "fc_band \<Rightarrow> int \<Rightarrow> fc_queue_ent" where
  "reuse_ent band fd = \<lparr>e_fd = fd, e_live = True, e_band = band, e_tslot = -1, e_gen = 1, e_enqueue_ns = 1000, e_deadline_ns = 5000\<rparr>"

definition reuse_full :: fc_state where
  "reuse_full = reuse_pool\<lparr>s_queued := 1,
     s_queue := (s_queue reuse_pool)\<lparr>q_ring := [(reuse_ent FC_BAND_SHEDDABLE 11)\<lparr>e_tslot := 0\<rparr>, fc_ent_zero], q_tail := 1, q_used := 1,
        q_count := 1, q_band_count := (q_band_count (s_queue reuse_pool))(FC_BAND_SHEDDABLE := 1), q_next_deadline_ns := 5000\<rparr>,
     s_band_queued := (s_band_queued reuse_pool)(FC_BAND_SHEDDABLE := 1),
     s_tt := (s_tt reuse_pool)\<lparr>
        tt_tenants := Some (fc_tenant_zero\<lparr>t_key := 33, t_queued := 1, t_used := True, t_waiting_runnable := True, t_next_free := 1\<rparr> #
          map (\<lambda>i. fc_tenant_zero\<lparr>t_next_free := i + 1\<rparr>) [1..<64] @ [fc_tenant_zero]),
        tt_index := (replicate 128 FC_TIDX_EMPTY)[7 := 1], tt_free := 1, tt_used := 1, tt_runnable_waiting := 1\<rparr>\<rparr>"

text \<open>The pool as the first push leaves it, field by field.\<close>

definition reuse_first :: "int \<times> nat \<times> (fc_evicted_t \<times> u64) option \<times> fc_state \<times> fc_anomaly list" where
  "reuse_first = fc_push_locked (\<lambda>_. True) reuse_pool (reuse_ent FC_BAND_SHEDDABLE 11) 33 False False 1000"

lemma reuse_first_pool:
  "case reuse_first of (rc, slot, gone, s, an) \<Rightarrow> rc = 0 \<and> s_tt s = s_tt reuse_full \<and> s_queued s = s_queued reuse_full \<and>
     list_all (\<lambda>b. s_band_queued s b = s_band_queued reuse_full b \<and> q_band_count (s_queue s) b = q_band_count (s_queue reuse_full) b)
       fc_bands_all \<and>
     q_ring (s_queue s) = q_ring (s_queue reuse_full) \<and> q_cap (s_queue s) = q_cap (s_queue reuse_full) \<and>
     q_head (s_queue s) = q_head (s_queue reuse_full) \<and> q_tail (s_queue s) = q_tail (s_queue reuse_full) \<and>
     q_used (s_queue s) = q_used (s_queue reuse_full) \<and> q_count (s_queue s) = q_count (s_queue reuse_full) \<and>
     q_next_deadline_ns (s_queue s) = q_next_deadline_ns (s_queue reuse_full) \<and> q_evicted (s_queue s) = q_evicted (s_queue reuse_full)"
  by code_simp

lemma reuse_full_inv: "pool_inv (\<lambda>_. 0) reuse_full"
proof -
  obtain rc slot gone s an where r: "reuse_first = (rc, slot, gone, s, an)" by (metis surj_pair)
  have "\<not> evict_frees (\<lambda>_. True) reuse_pool (reuse_ent FC_BAND_SHEDDABLE 11) 33 False 1000" by code_simp
  moreover have "pool_inv (\<lambda>_. 0) reuse_pool"
    using sample_pool_inv by (simp add: reuse_pool_def pool_inv_def pool_core_def pool_mirrors_def)
  ultimately have "pool_inv (\<lambda>_. 0) s" using fc_push_locked_ok(1) r by (simp add: reuse_first_def)
  moreover have "s_tt reuse_full = s_tt s" "s_queued reuse_full = s_queued s" "s_band_queued reuse_full = s_band_queued s"
    "q_band_count (s_queue reuse_full) = q_band_count (s_queue s)" "q_ring (s_queue reuse_full) = q_ring (s_queue s)"
    "q_cap (s_queue reuse_full) = q_cap (s_queue s)" "q_head (s_queue reuse_full) = q_head (s_queue s)"
    "q_tail (s_queue reuse_full) = q_tail (s_queue s)" "q_used (s_queue reuse_full) = q_used (s_queue s)"
    "q_count (s_queue reuse_full) = q_count (s_queue s)" "q_next_deadline_ns (s_queue reuse_full) = q_next_deadline_ns (s_queue s)"
    "q_evicted (s_queue reuse_full) = q_evicted (s_queue s)"
    using reuse_first_pool [unfolded r prod.case] by (auto simp: list_all_iff fun_eq_iff)
  ultimately show ?thesis
    by (simp add: pool_inv_def pool_core_def pool_mirrors_def ring_inv_def ring_ok_def ring_live_def ring_seq_def)
qed

text \<open>A request of the same tenant that arrives then.\<close>

definition reuse_world :: fc_world where
  "reuse_world = sample_world\<lparr>w_pools := (\<lambda>_. reuse_full)\<rparr>"

definition reuse_permit :: fc_permit where
  "reuse_permit = sample_permit\<lparr>p_tkey := 33, p_band := FC_BAND_STANDARD\<rparr>"

definition reuse_second :: "int \<times> fc_world \<times> fc_permit" where
  "reuse_second = fc_queue_push reuse_world (Some 0) reuse_permit 12 1 1000 False"

lemma reuse_second_pushed:
  "fc_queue_push reuse_world (Some 0) reuse_permit 12 1 1000 False = (0, fst (snd reuse_second), snd (snd reuse_second))"
proof -
  let ?s = "w_pools reuse_world 0" and ?e = "push_ent (w_pools reuse_world 0) reuse_permit 12 1 1000 False"
  obtain rc w' p' where r: "fc_queue_push reuse_world (Some 0) reuse_permit 12 1 1000 False = (rc, w', p')" by (metis surj_pair)
  obtain rc0 slot gone s an where lock: "fc_push_locked (w_calloc reuse_world) ?s ?e (p_tkey reuse_permit) False
      (push_ordered reuse_permit 1000 False) 1000 = (rc0, slot, gone, s, an)" by (metis surj_pair)
  have "fst (fc_push_locked (w_calloc reuse_world) ?s ?e (p_tkey reuse_permit) False (push_ordered reuse_permit 1000 False) 1000) = 0"
    by code_simp
  then have "rc = 0" using fc_queue_push_eq(1) [OF _ lock r] lock by simp
  with r show ?thesis by (simp add: reuse_second_def)
qed

lemma reuse_second_frees:
  "evict_frees (w_calloc reuse_world) (w_pools reuse_world 0) (push_ent (w_pools reuse_world 0) reuse_permit 12 1 1000 False)
     (p_tkey reuse_permit) False 1000"
  by code_simp

end
