(* ===== verification/PD_Trie.thy ===== *)
theory PD_Trie
  imports FC_Prelude "HOL-Library.Sublist"
begin

text \<open>
  The compressed radix trie of \<open>common/sockproxy_pd_trie.c\<close>, which maps prompt prefixes to the prefill
  endpoint that has them cached. A node is a value; the pointer to a node is the text that leads to it
  from the root, which no operation changes. The children are the linked list of the code, in its
  order. Each allocation of an insertion has a name, and a parameter says which of them succeed; the
  time is a parameter as well.
\<close>

section \<open>Nodes\<close>

datatype trie_node = Node (lab: string) (ep_idx: int) (access_ts: u64) (kids: "(char \<times> trie_node) list")

record pd_trie =
  pt_root :: trie_node
  pt_node_count :: u64

fun shared_prefix_len :: "string \<Rightarrow> string \<Rightarrow> nat" where
  "shared_prefix_len (a # as) (b # bs) = (if a \<noteq> b then 0 else Suc (shared_prefix_len as bs))"
| "shared_prefix_len _ _ = 0"

definition find_child :: "trie_node \<Rightarrow> char \<Rightarrow> trie_node option" where
  "find_child n key = map_of (kids n) key"

text \<open>The entry of a child is redirected to another node; the first entry of a key leaves the list.\<close>

fun set_child :: "char \<Rightarrow> trie_node \<Rightarrow> (char \<times> trie_node) list \<Rightarrow> (char \<times> trie_node) list" where
  "set_child key c [] = []"
| "set_child key c ((k, n) # es) = (if k = key then (key, c) # es else (k, n) # set_child key c es)"

fun remove_child :: "char \<Rightarrow> (char \<times> trie_node) list \<Rightarrow> (char \<times> trie_node) list" where
  "remove_child key [] = []"
| "remove_child key ((k, n) # es) = (if k = key then es else (k, n) # remove_child key es)"

text \<open>The number of nodes of a subtree, what \<open>node_count\<close> counts.\<close>

fun nodes :: "trie_node \<Rightarrow> nat" where
  "nodes (Node l e t ks) = Suc (sum_list (map (\<lambda>(k, n). nodes n) ks))"

lemma child_size: "map_of ks c = Some n \<Longrightarrow> size n < Suc (size_list (size_prod (\<lambda>_. 0) size) ks)"
  by (induction ks) (auto split: if_splits)

section \<open>Insertion\<close>

datatype trie_alloc = A_leaf | A_leaf_entry | A_mid | A_label | A_old_entry | A_new | A_new_entry

definition new_leaf :: "(trie_alloc \<Rightarrow> bool) \<Rightarrow> string \<Rightarrow> int \<Rightarrow> u64 \<Rightarrow> trie_node \<Rightarrow> trie_node \<times> nat" where
  "new_leaf ok tx ep now cur =
     (if \<not> ok A_leaf then (cur, 0)
      else (if ok A_leaf_entry then Node (lab cur) (ep_idx cur) (access_ts cur) ((hd tx, Node tx ep now []) # kids cur) else cur, 1))"

text \<open>
  The split of a child whose label shares its first \<open>m\<close> bytes with the text: the node that takes the
  child's place, and the nodes that are new. \<open>None\<close> when nothing is changed for want of memory.
\<close>

definition split_child :: "(trie_alloc \<Rightarrow> bool) \<Rightarrow> string \<Rightarrow> int \<Rightarrow> u64 \<Rightarrow> nat \<Rightarrow> trie_node \<Rightarrow> (trie_node \<times> nat) option" where
  "split_child ok tx ep now m child =
     (if \<not> ok A_mid \<or> \<not> ok A_label then None
      else
        let suffix = drop m (lab child);
            old = Node suffix (ep_idx child) (access_ts child) (kids child);
            es = (if ok A_old_entry then [(hd suffix, old)] else []);
            rest = drop m tx
        in if rest \<noteq> []
           then if \<not> ok A_new then Some (Node (take m (lab child)) (-1) 0 es, 1)
                else let es = (if ok A_new_entry then (hd rest, Node rest ep now []) # es else es)
                     in Some (Node (take m (lab child)) (ep_idx child) 0 es, 2)
           else Some (Node (take m (lab child)) ep now es, 1))"

function trie_insert :: "(trie_alloc \<Rightarrow> bool) \<Rightarrow> string \<Rightarrow> int \<Rightarrow> u64 \<Rightarrow> trie_node \<Rightarrow> trie_node \<times> nat" where
  "trie_insert ok tx ep now cur =
     (if tx = [] then (Node (lab cur) ep now (kids cur), 0)
      else case find_child cur (hd tx) of
             None \<Rightarrow> new_leaf ok tx ep now cur
           | Some child \<Rightarrow>
             let m = shared_prefix_len (lab child) tx;
                 put = (\<lambda>c. Node (lab cur) (ep_idx cur) (access_ts cur) (set_child (hd tx) c (kids cur)))
             in if m = length (lab child)
                then let (c, n) = trie_insert ok (drop m tx) ep now child in (put c, n)
                else case split_child ok tx ep now m child of None \<Rightarrow> (cur, 0) | Some (c, n) \<Rightarrow> (put c, n))"
  by pat_completeness auto
termination
proof (relation "measure (\<lambda>(ok, tx, ep, now, cur). size cur)")
  fix tx :: string and cur child :: trie_node
  assume "find_child cur (hd tx) = Some child"
  then show "((ok, drop m tx, ep, now, child), (ok, tx, ep, now, cur)) \<in> measure (\<lambda>(ok, tx, ep, now, cur). size cur)" for ok m ep now
    using child_size by (cases cur) (auto simp: find_child_def)
qed simp

declare trie_insert.simps [simp del]

definition pd_trie_insert :: "(trie_alloc \<Rightarrow> bool) \<Rightarrow> pd_trie \<Rightarrow> string \<Rightarrow> int \<Rightarrow> u64 \<Rightarrow> pd_trie" where
  "pd_trie_insert ok t tx ep now =
     (if tx = [] then t
      else let (r, n) = trie_insert ok tx ep now (pt_root t)
           in t\<lparr>pt_root := r, pt_node_count := pt_node_count t + of_nat n\<rparr>)"

definition pd_trie_create :: pd_trie where
  "pd_trie_create = \<lparr>pt_root = Node [] (-1) 0 [], pt_node_count = 1\<rparr>"

section \<open>Match\<close>

text \<open>
  The walk down from \<open>cur\<close>, which stands at offset \<open>pos\<close> of the text: the node with the access times of
  the endpoints it passed set, the last endpoint met and the offset it was met at.
\<close>

function trie_match :: "u64 \<Rightarrow> string \<Rightarrow> nat \<Rightarrow> int \<Rightarrow> nat \<Rightarrow> trie_node \<Rightarrow> trie_node \<times> int \<times> nat" where
  "trie_match now tx pos last_ep last_ep_pos cur =
     (if tx = [] then (cur, last_ep, last_ep_pos)
      else case find_child cur (hd tx) of
             None \<Rightarrow> (cur, last_ep, last_ep_pos)
           | Some child \<Rightarrow>
             let m = shared_prefix_len (lab child) tx
             in if m = 0 \<or> m \<noteq> length (lab child) then (cur, last_ep, last_ep_pos)
                else let (c, le, lp) =
                           (if ep_idx child \<ge> 0
                            then trie_match now (drop m tx) (pos + m) (ep_idx child) (pos + m)
                                   (Node (lab child) (ep_idx child) now (kids child))
                            else trie_match now (drop m tx) (pos + m) last_ep last_ep_pos child)
                     in (Node (lab cur) (ep_idx cur) (access_ts cur) (set_child (hd tx) c (kids cur)), le, lp))"
  by pat_completeness auto
termination by (relation "measure (\<lambda>(now, tx, pos, le, lp, cur). length tx)") auto

declare trie_match.simps [simp del]

text \<open>
  The endpoint, and the number of bytes of the text that led to it: the code returns that number
  divided by the length of the text.
\<close>

definition pd_trie_match :: "pd_trie \<Rightarrow> string \<Rightarrow> u64 \<Rightarrow> (int \<times> nat) option \<times> pd_trie" where
  "pd_trie_match t tx now =
     (if tx = [] then (None, t)
      else let r = pt_root t;
               (r, ep, pos) = trie_match now tx 0 (if ep_idx r \<ge> 0 then ep_idx r else -1) 0 r
           in (if ep \<ge> 0 then Some (ep, pos) else None, t\<lparr>pt_root := r\<rparr>))"

section \<open>Removal\<close>

text \<open>The endpoint is taken from every node that has it.\<close>

fun remove_ep_clear :: "int \<Rightarrow> trie_node \<Rightarrow> trie_node" where
  "remove_ep_clear ep (Node l e t ks) =
     Node l (if e = ep then -1 else e) t (map (\<lambda>(k, n). (k, remove_ep_clear ep n)) ks)"

text \<open>The childless nodes that had it, in the order of the depth-first walk; \<open>at\<close> is the text that leads to the node.\<close>

fun prune_list :: "int \<Rightarrow> string \<Rightarrow> trie_node \<Rightarrow> string list" where
  "prune_list ep at (Node l e t ks) =
     concat (map (\<lambda>(k, n). prune_list ep (at @ lab n) n) ks) @ (if e = ep \<and> ks = [] then [at] else [])"

definition merge_with_single_child :: "bool \<Rightarrow> trie_node \<Rightarrow> trie_node \<times> nat" where
  "merge_with_single_child ok n =
     (case kids n of
        [(k, c)] \<Rightarrow> if ep_idx n \<ge> 0 \<or> \<not> ok then (n, 0)
                    else (Node (lab n @ lab c) (ep_idx c) (access_ts c) (kids c), 1)
      | _ \<Rightarrow> (n, 0))"

text \<open>
  The childless node that \<open>tx\<close> leads to from \<open>cur\<close> is taken out, and its parent, unless that is the root,
  is merged with an only child: the node that takes the place of \<open>cur\<close>, and the number of nodes freed.
\<close>

function trie_unlink :: "bool \<Rightarrow> bool \<Rightarrow> string \<Rightarrow> trie_node \<Rightarrow> trie_node \<times> nat" where
  "trie_unlink ok is_root tx cur =
     (if tx = [] then (cur, 0)
      else case find_child cur (hd tx) of
             None \<Rightarrow> (cur, 0)
           | Some child \<Rightarrow>
             if \<not> prefix (lab child) tx then (cur, 0)
             else let rest = drop (length (lab child)) tx
                  in if rest \<noteq> []
                     then let (c, n) = trie_unlink ok False rest child
                          in (Node (lab cur) (ep_idx cur) (access_ts cur) (set_child (hd tx) c (kids cur)), n)
                     else if kids child \<noteq> [] then (cur, 0)
                     else let parent = Node (lab cur) (ep_idx cur) (access_ts cur) (remove_child (hd tx) (kids cur));
                              (parent, n) = (if is_root then (parent, 0) else merge_with_single_child ok parent)
                          in (parent, Suc n))"
  by pat_completeness auto
termination
proof (relation "measure (\<lambda>(ok, r, tx, cur). size cur)")
  fix tx :: string and cur child :: trie_node
  assume "find_child cur (hd tx) = Some child"
  then show "((ok, False, rest, child), (ok, r, tx, cur)) \<in> measure (\<lambda>(ok, r, tx, cur). size cur)" for ok r rest
    using child_size by (cases cur) (auto simp: find_child_def)
qed simp

declare trie_unlink.simps [simp del]

text \<open>One victim less: the step that the removal and the eviction share.\<close>

definition drop_victim :: "bool \<Rightarrow> string \<Rightarrow> pd_trie \<Rightarrow> pd_trie" where
  "drop_victim ok v t = (let (r, n) = trie_unlink ok True v (pt_root t)
     in t\<lparr>pt_root := r, pt_node_count := pt_node_count t - of_nat n\<rparr>)"

definition MAX_PRUNE_BATCH :: nat where
  "MAX_PRUNE_BATCH = 256"

definition pd_trie_remove_ep :: "(string \<Rightarrow> bool) \<Rightarrow> pd_trie \<Rightarrow> int \<Rightarrow> pd_trie" where
  "pd_trie_remove_ep ok t ep =
     fold (\<lambda>v. drop_victim (ok v) v)
       (take MAX_PRUNE_BATCH (prune_list ep [] (pt_root t)))
       (t\<lparr>pt_root := remove_ep_clear ep (pt_root t)\<rparr>)"

section \<open>Eviction\<close>

text \<open>The childless node with an endpoint and the oldest access, the first one of them in the walk.\<close>

fun find_oldest_leaf :: "string \<Rightarrow> trie_node \<Rightarrow> (string \<times> u64) option \<Rightarrow> (string \<times> u64) option" where
  "find_oldest_leaf at (Node l e t ks) oldest =
     fold (\<lambda>(k, n). find_oldest_leaf (at @ lab n) n) ks
       (if e \<ge> 0 \<and> ks = []
        then (case oldest of None \<Rightarrow> Some (at, t) | Some (_, ts) \<Rightarrow> if t < ts then Some (at, t) else oldest)
        else oldest)"

text \<open>
  The loop with a bound on its rounds; \<open>None\<close> when the bound is too low. (A root with an endpoint would be
  freed here; the root never gets one.)
\<close>

fun evict_loop :: "nat \<Rightarrow> (string \<Rightarrow> bool) \<Rightarrow> u64 \<Rightarrow> pd_trie \<Rightarrow> pd_trie option" where
  "evict_loop fuel ok max_nodes t =
     (if pt_node_count t \<le> max_nodes then Some t
      else case find_oldest_leaf [] (pt_root t) None of
             None \<Rightarrow> Some t
           | Some (v, _) \<Rightarrow> (case fuel of 0 \<Rightarrow> None | Suc fuel \<Rightarrow> evict_loop fuel ok max_nodes (drop_victim (ok v) v t)))"

declare evict_loop.simps [simp del]

definition pd_trie_evict_lru :: "nat \<Rightarrow> (string \<Rightarrow> bool) \<Rightarrow> pd_trie \<Rightarrow> u64 \<Rightarrow> pd_trie option" where
  "pd_trie_evict_lru fuel ok t max_nodes = evict_loop fuel ok max_nodes t"

definition pd_trie_node_count :: "pd_trie \<Rightarrow> u64" where
  "pd_trie_node_count t = pt_node_count t"

section \<open>Entries\<close>

text \<open>The shape of a trie: no empty label below the root, and one child for each first byte.\<close>

fun trie_ok :: "trie_node \<Rightarrow> bool" where
  "trie_ok (Node l e t ks) \<longleftrightarrow> distinct (map fst ks) \<and> list_all (\<lambda>(k, n). lab n \<noteq> [] \<and> hd (lab n) = k \<and> trie_ok n) ks"

text \<open>What the trie stores: the endpoint at the node a text leads to exactly.\<close>

function entry :: "trie_node \<Rightarrow> string \<Rightarrow> int option" where
  "entry n tx =
     (if tx = [] then (if ep_idx n \<ge> 0 then Some (ep_idx n) else None)
      else case find_child n (hd tx) of
             None \<Rightarrow> None
           | Some c \<Rightarrow> if lab c \<noteq> [] \<and> prefix (lab c) tx then entry c (drop (length (lab c)) tx) else None)"
  by pat_completeness auto
termination by (relation "measure (\<lambda>(n, tx). length tx)") auto

declare entry.simps [simp del]

text \<open>The entries below a child, by the text from its parent on.\<close>

definition below :: "trie_node \<Rightarrow> string \<Rightarrow> int option" where
  "below c tx = (if lab c \<noteq> [] \<and> prefix (lab c) tx then entry c (drop (length (lab c)) tx) else None)"

lemma entry_Nil [simp]: "entry n [] = (if ep_idx n \<ge> 0 then Some (ep_idx n) else None)"
  by (simp add: entry.simps)

lemma entry_Cons: "entry n (c # cs) = (case find_child n c of None \<Rightarrow> None | Some ch \<Rightarrow> below ch (c # cs))"
  by (subst entry.simps) (simp add: below_def split: option.split)

lemma entry_cong: "ep_idx n = ep_idx n' \<Longrightarrow> map_of (kids n) = map_of (kids n') \<Longrightarrow> entry n = entry n'"
  by (rule ext) (simp add: entry.simps [of n] entry.simps [of n'] find_child_def)

lemma below_cong: "lab c = lab c' \<Longrightarrow> entry c = entry c' \<Longrightarrow> below c = below c'"
  by (rule ext) (simp add: below_def)

subsection \<open>Labels and children\<close>

lemma shared_prefix_len_take: "take (shared_prefix_len a b) a = take (shared_prefix_len a b) b"
  by (induction a b rule: shared_prefix_len.induct) auto

lemma shared_prefix_len_le: "shared_prefix_len a b \<le> length a" "shared_prefix_len a b \<le> length b"
  by (induction a b rule: shared_prefix_len.induct) auto

lemma shared_prefix_len_full: "shared_prefix_len a b = length a \<longleftrightarrow> prefix a b"
  by (induction a b rule: shared_prefix_len.induct) auto

lemma shared_prefix_len_pos: "a \<noteq> [] \<Longrightarrow> b \<noteq> [] \<Longrightarrow> hd a = hd b \<Longrightarrow> 0 < shared_prefix_len a b"
  by (cases a; cases b) auto

text \<open>Both texts split at the end of what they share: then they differ, if both go on.\<close>

lemma shared_prefix_len_split:
  obtains p a' b' where "a = p @ a'" "b = p @ b'" "length p = shared_prefix_len a b" "a' \<noteq> [] \<and> b' \<noteq> [] \<longrightarrow> hd a' \<noteq> hd b'"
proof -
  let ?m = "shared_prefix_len a b"
  have "drop ?m a \<noteq> [] \<and> drop ?m b \<noteq> [] \<longrightarrow> hd (drop ?m a) \<noteq> hd (drop ?m b)"
    by (induction a b rule: shared_prefix_len.induct) auto
  moreover have "a = take ?m a @ drop ?m a" "b = take ?m a @ drop ?m b"
    by (simp, metis append_take_drop_id shared_prefix_len_take)
  moreover have "length (take ?m a) = ?m" using shared_prefix_len_le(1) by simp
  ultimately show thesis using that by blast
qed

lemma map_of_set_child: "map_of ks k = Some c0 \<Longrightarrow> map_of (set_child k c ks) = (map_of ks)(k \<mapsto> c)"
  by (induction ks) (auto simp: fun_eq_iff split: if_splits)

lemma keys_set_child [simp]: "map fst (set_child k c ks) = map fst ks"
  by (induction ks) auto

lemma map_of_remove_child: "distinct (map fst ks) \<Longrightarrow> map_of (remove_child k ks) = (map_of ks)(k := None)"
proof (induction ks)
  case (Cons x ks)
  have "map_of ks (fst x) = None" using Cons.prems by (simp add: map_of_eq_None_iff)
  then show ?case using Cons by (cases x) (auto simp: fun_eq_iff)
qed simp

lemma set_remove_child: "set (remove_child k ks) \<subseteq> set ks"
  by (induction ks) (auto split: if_splits)

lemma distinct_remove_child: "distinct (map fst ks) \<Longrightarrow> distinct (map fst (remove_child k ks))"
proof (induction ks)
  case (Cons x ks)
  then show ?case using set_remove_child [of k ks] by (cases x) (auto simp: image_iff)
qed simp

lemma set_set_child: "set (set_child k c ks) \<subseteq> insert (k, c) (set ks)"
  by (induction ks) (auto split: if_splits)

lemma find_child_Some: "find_child n k = Some c \<Longrightarrow> (k, c) \<in> set (kids n)"
  by (simp add: find_child_def map_of_SomeD)

lemma trie_okD:
  assumes "trie_ok n" "find_child n k = Some c" shows "lab c \<noteq> []" "hd (lab c) = k" "trie_ok c"
  using assms find_child_Some by (cases n; fastforce simp: list_all_iff)+

lemma trie_ok_put:
  assumes "trie_ok n" "lab c \<noteq> []" "hd (lab c) = k" "trie_ok c"
  shows "trie_ok (Node l e t (set_child k c (kids n)))"
  using assms set_set_child [of k c "kids n"] by (cases n) (auto simp: list_all_iff)

lemma find_put: "find_child n k = Some c0 \<Longrightarrow> find_child (Node l e t (set_child k c (kids n))) j = (if j = k then Some c else find_child n j)"
  by (simp add: find_child_def map_of_set_child)

lemma nodes_put:
  assumes "find_child n k = Some c0" shows "nodes (Node l e t (set_child k c (kids n))) + nodes c0 = nodes n + nodes c"
proof -
  have "sum_list (map (\<lambda>(k, n). nodes n) (set_child k c ks)) + nodes c0 = sum_list (map (\<lambda>(k, n). nodes n) ks) + nodes c"
    if "map_of ks k = Some c0" for ks
    using that by (induction ks) (auto split: if_splits)
  with assms show ?thesis by (cases n) (simp add: find_child_def)
qed

text \<open>A node with one child replaced: its entries.\<close>

lemma entry_put:
  assumes "find_child n k = Some c0"
  shows "entry (Node l (ep_idx n) t (set_child k c (kids n))) tx = (if tx \<noteq> [] \<and> hd tx = k then below c tx else entry n tx)"
  using find_put [OF assms] by (cases tx) (auto simp: entry_Cons split: option.split)

subsection \<open>Insertion\<close>

abbreviation mem_ok :: "trie_alloc \<Rightarrow> bool" where "mem_ok \<equiv> (\<lambda>_. True)"

lemma entry_leaf: "entry (Node l e t []) tx = (if tx = [] \<and> e \<ge> 0 then Some e else None)"
  by (cases tx) (simp_all add: entry_Cons find_child_def)

lemma below_leaf: "below (Node l e t []) tx = (if l \<noteq> [] \<and> tx = l \<and> e \<ge> 0 then Some e else None)"
  by (auto simp: below_def entry_leaf prefix_def)

text \<open>
  How an insertion changes the entries: the text gets its endpoint, no other entry is lost, and an
  entry that is new besides is at a shorter text, the first part both of the inserted text and of an
  old entry, whose endpoint it has.
\<close>

definition inserted :: "(string \<Rightarrow> int option) \<Rightarrow> string \<Rightarrow> int \<Rightarrow> (string \<Rightarrow> int option) \<Rightarrow> bool" where
  "inserted f tx ep f' \<longleftrightarrow> f' tx = (if ep \<ge> 0 then Some ep else None) \<and>
     (\<forall>p e. p \<noteq> tx \<longrightarrow> f p = Some e \<longrightarrow> f' p = Some e) \<and>
     (\<forall>p e. p \<noteq> tx \<longrightarrow> f' p = Some e \<longrightarrow> f p = Some e \<or> strict_prefix p tx \<and> (\<exists>q. strict_prefix p q \<and> f q = Some e))"

lemma insertedI:
  assumes "f' tx = (if ep \<ge> 0 then Some ep else None)" "\<And>p. p \<noteq> tx \<Longrightarrow> f' p = f p" shows "inserted f tx ep f'"
  using assms by (simp add: inserted_def)

lemma inserted_below:
  assumes "inserted (entry c) tx ep (entry c')" "lab c' = lab c" "lab c \<noteq> []"
  shows "inserted (below c) (lab c @ tx) ep (below c')"
proof -
  have b: "below c p = (if prefix (lab c) p then entry c (drop (length (lab c)) p) else None)"
    "below c' p = (if prefix (lab c) p then entry c' (drop (length (lab c)) p) else None)" for p
    using assms(2,3) by (simp_all add: below_def)
  show ?thesis
    unfolding inserted_def
  proof (intro conjI allI impI)
    show "below c' (lab c @ tx) = (if ep \<ge> 0 then Some ep else None)" using assms(1) by (simp add: b inserted_def)
    fix p e assume p: "p \<noteq> lab c @ tx"
    show "below c p = Some e \<Longrightarrow> below c' p = Some e"
      using assms(1) p by (auto simp: b inserted_def prefix_def split: if_splits)
    assume "below c' p = Some e"
    then obtain p' where p': "p = lab c @ p'" "entry c' p' = Some e" by (auto simp: b prefix_def split: if_splits)
    then have "entry c p' = Some e \<or> strict_prefix p' tx \<and> (\<exists>q. strict_prefix p' q \<and> entry c q = Some e)"
      using assms(1) p by (auto simp: inserted_def)
    then show "below c p = Some e \<or> strict_prefix p (lab c @ tx) \<and> (\<exists>q. strict_prefix p q \<and> below c q = Some e)"
    proof
      assume "strict_prefix p' tx \<and> (\<exists>q. strict_prefix p' q \<and> entry c q = Some e)"
      then obtain q where "strict_prefix p' tx" "strict_prefix p' q" "entry c q = Some e" by blast
      then have "strict_prefix p (lab c @ tx)" "strict_prefix p (lab c @ q)" "below c (lab c @ q) = Some e" by (simp_all add: p'(1) b strict_prefix_def)
      then show ?thesis by blast
    qed (simp add: b p'(1))
  qed
qed

lemma inserted_put:
  assumes "find_child n (hd tx) = Some c0" "tx \<noteq> []" "inserted (below c0) tx ep (below c)"
  shows "inserted (entry n) tx ep (entry (Node l (ep_idx n) t (set_child (hd tx) c (kids n))))"
proof -
  have e: "entry n p = (if p \<noteq> [] \<and> hd p = hd tx then below c0 p else entry n p)" for p
    using assms(1) by (cases p) (simp_all add: entry_Cons)
  have same: "hd q = hd p" if "strict_prefix p q" "p \<noteq> []" for p q :: string
    using that by (cases p) (auto simp: strict_prefix_def prefix_def)
  show ?thesis
    unfolding inserted_def entry_put [OF assms(1)]
  proof (intro conjI allI impI)
    show "(if tx \<noteq> [] \<and> hd tx = hd tx then below c tx else entry n tx) = (if ep \<ge> 0 then Some ep else None)"
      using assms(2,3) by (simp add: inserted_def)
    fix p x assume p: "p \<noteq> tx"
    have keep: "below c0 p = Some x \<Longrightarrow> below c p = Some x" using assms(3) p by (simp add: inserted_def)
    show "entry n p = Some x \<Longrightarrow> (if p \<noteq> [] \<and> hd p = hd tx then below c p else entry n p) = Some x"
      using keep e [of p] by (cases "p \<noteq> [] \<and> hd p = hd tx") auto
    assume x: "(if p \<noteq> [] \<and> hd p = hd tx then below c p else entry n p) = Some x"
    show "entry n p = Some x \<or> strict_prefix p tx \<and> (\<exists>q. strict_prefix p q \<and> entry n q = Some x)"
    proof (cases "p \<noteq> [] \<and> hd p = hd tx")
      case True
      with x assms(3) p have "below c0 p = Some x \<or> strict_prefix p tx \<and> (\<exists>q. strict_prefix p q \<and> below c0 q = Some x)"
        by (auto simp: inserted_def)
      moreover have "entry n q = below c0 q" if "strict_prefix p q" for q
        using same [OF that] True e [of q] that by (auto simp: strict_prefix_def prefix_def)
      ultimately show ?thesis using True e [of p] by metis
    qed (use x in auto)
  qed
qed

lemma lab_insert: "lab (fst (trie_insert ok tx ep now n)) = lab n"
  by (subst trie_insert.simps) (auto simp: new_leaf_def Let_def split: option.split prod.splits)

text \<open>The node that a split puts in the place of a child.\<close>

lemma split_child_eq:
  assumes "lab child = a @ b" "a \<noteq> []" "b \<noteq> []"
  shows "split_child mem_ok (a @ r) ep now (length a) child =
    (let old = (hd b, Node b (ep_idx child) (access_ts child) (kids child))
     in if r \<noteq> [] then Some (Node a (ep_idx child) 0 [(hd r, Node r ep now []), old], 2) else Some (Node a ep now [old], 1))"
  using assms by (simp add: split_child_def Let_def)

lemma below_old:
  assumes "lab child = a @ b" "a \<noteq> []" "b \<noteq> []"
  shows "below (Node b (ep_idx child) t (kids child)) p = below child (a @ p)"
proof -
  have "entry (Node b (ep_idx child) t (kids child)) = entry child" by (rule entry_cong) simp_all
  then show ?thesis using assms by (simp add: below_def)
qed

lemma below_mid:
  assumes c: "lab child = a @ b" "a \<noteq> []" "b \<noteq> []" and r: "r \<noteq> [] \<Longrightarrow> hd r \<noteq> hd b"
    and old: "old = Node b (ep_idx child) (access_ts child) (kids child)"
  shows "below (Node a e t (if r \<noteq> [] then [(hd r, Node r ep now []), (hd b, old)] else [(hd b, old)])) p =
    (if p = a then (if e \<ge> 0 then Some e else None)
     else if r \<noteq> [] \<and> p = a @ r then (if ep \<ge> 0 then Some ep else None) else below child p)"
proof (cases "prefix a p")
  case False
  then have "\<not> prefix (lab child) p" using append_prefixD c(1) by metis
  with False have "p \<noteq> a" "p \<noteq> a @ r" "below child p = None" by (auto simp: below_def)
  with False show ?thesis by (simp add: below_def)
next
  case True
  then obtain p' where p': "p = a @ p'" by (auto simp: prefix_def)
  have bc: "below child p = (if prefix b p' then entry child (drop (length b) p') else None)" using c by (simp add: below_def p')
  have bo: "below old p' = below child p" using below_old [OF c, of "access_ts child" p'] by (simp add: old p')
  have no: "hd p' = hd b" if "below child p \<noteq> None" "p' \<noteq> []" 
  proof -
    have "prefix b p'" using that(1) bc by (simp split: if_splits)
    then show ?thesis using c(3) by (cases b) (auto simp: prefix_def)
  qed
  show ?thesis
  proof (cases p')
    case Nil
    then show ?thesis using c(2) by (simp add: below_def p')
  next
    case (Cons x xs)
    let ?m = "Node a e t (if r \<noteq> [] then [(hd r, Node r ep now []), (hd b, old)] else [(hd b, old)])"
    have "below ?m p = entry ?m p'" using c(2) by (simp add: below_def p')
    also have "\<dots> = (if r \<noteq> [] \<and> x = hd r then below (Node r ep now []) p' else if x = hd b then below old p' else None)"
      by (simp add: Cons entry_Cons find_child_def)
    finally have m: "below ?m p = (if r \<noteq> [] \<and> x = hd r then (if p' = r \<and> ep \<ge> 0 then Some ep else None)
        else if x = hd b then below child p else None)" by (auto simp: below_leaf bo)
    have "below child p = None" if "x \<noteq> hd b" using no that Cons by (cases "below child p") auto
    then show ?thesis using m r Cons p' by auto
  qed
qed

lemma split_inserted:
  assumes "lab child = a @ b" "a \<noteq> []" "b \<noteq> []" "r \<noteq> [] \<Longrightarrow> hd r \<noteq> hd b"
    and "split_child mem_ok (a @ r) ep now (length a) child = Some (c, k)"
  shows "inserted (below child) (a @ r) ep (below c)" "lab c = a"
    "trie_ok child \<Longrightarrow> trie_ok c" "nodes c = nodes child + k"
proof -
  define old where "old = Node b (ep_idx child) (access_ts child) (kids child)"
  have c: "c = Node a (if r \<noteq> [] then ep_idx child else ep) (if r \<noteq> [] then 0 else now)
      (if r \<noteq> [] then [(hd r, Node r ep now []), (hd b, old)] else [(hd b, old)])" "k = (if r \<noteq> [] then 2 else 1)"
    using assms(5) unfolding split_child_eq [OF assms(1-3)] by (auto simp: old_def Let_def)
  note B = below_mid [OF assms(1-4) old_def, of _ _ ep now]
  show "inserted (below child) (a @ r) ep (below c)"
  proof (cases "r = []")
    case True
    with B c show ?thesis by (intro insertedI) simp_all
  next
    case False
    have a: "below child a = None" using assms(1,3) by (auto simp: below_def prefix_def)
    have e: "below child (lab child) = (if ep_idx child \<ge> 0 then Some (ep_idx child) else None)" using assms(1,2) by (simp add: below_def)
    have sp: "strict_prefix a (a @ r)" "strict_prefix a (lab child)" using False assms(1,3) by (simp_all add: strict_prefix_def)
    show ?thesis
      unfolding inserted_def c(1) using B False a e sp by (auto split: if_splits)
  qed
  show "lab c = a" by (simp add: c)
  show "trie_ok child \<Longrightarrow> trie_ok c" using assms(3,4) by (cases child) (auto simp: c old_def)
  show "nodes c = nodes child + k" by (cases child) (simp add: c old_def)
qed

lemma trie_insert_ok:
  assumes "trie_ok n" "trie_insert mem_ok tx ep now n = (n', k)"
  shows "inserted (entry n) tx ep (entry n') \<and> trie_ok n' \<and> nodes n' = nodes n + k"
  using assms
proof (induction "mem_ok" tx ep now n arbitrary: n' k rule: trie_insert.induct)
  case (1 tx ep now cur)
  show ?case
  proof (cases "tx = []")
    case True
    with "1.prems" have n: "n' = Node (lab cur) ep now (kids cur)" "k = 0" by (auto simp: trie_insert.simps)
    have "entry n' p = entry cur p" if "p \<noteq> []" for p using that by (cases p) (simp_all add: n entry_Cons find_child_def)
    then show ?thesis using "1.prems"(1) True n by (cases cur) (auto intro!: insertedI)
  next
    case tx: False
    show ?thesis
    proof (cases "find_child cur (hd tx)")
      case None
      with tx "1.prems"(2) have n: "n' = Node (lab cur) (ep_idx cur) (access_ts cur) ((hd tx, Node tx ep now []) # kids cur)" "k = 1"
        by (auto simp: trie_insert.simps new_leaf_def)
      have "entry n' p = (if p = tx then (if ep \<ge> 0 then Some ep else None) else entry cur p)" for p
        using tx None by (cases p) (auto simp: n entry_Cons find_child_def below_leaf)
      moreover have "trie_ok n' \<and> nodes n' = nodes cur + k"
        using None "1.prems"(1) tx by (cases cur) (auto simp: n find_child_def map_of_eq_None_iff)
      ultimately show ?thesis by (auto intro: insertedI)
    next
      case (Some child)
      note C = trie_okD [OF "1.prems"(1) Some]
      let ?m = "shared_prefix_len (lab child) tx"
      obtain a b r where s: "lab child = a @ b" "tx = a @ r" "length a = ?m" "b \<noteq> [] \<and> r \<noteq> [] \<longrightarrow> hd b \<noteq> hd r"
        by (rule shared_prefix_len_split [of "lab child" tx])
      have a: "a \<noteq> []" using shared_prefix_len_pos [OF C(1) tx] C(2) s(3) by auto
      define put where "put = (\<lambda>c. Node (lab cur) (ep_idx cur) (access_ts cur) (set_child (hd tx) c (kids cur)))"
      have "\<exists>c. n' = put c \<and> inserted (below child) tx ep (below c) \<and> lab c \<noteq> [] \<and> hd (lab c) = hd tx \<and> trie_ok c \<and> nodes c = nodes child + k"
      proof (cases "b = []")
        case True
        then have full: "?m = length (lab child)" using s by simp
        obtain c j where r: "trie_insert mem_ok (drop ?m tx) ep now child = (c, j)" by fastforce
        have n: "n' = put c" "k = j"
          using "1.prems"(2) tx Some full r by (simp_all add: trie_insert.simps [of _ tx] put_def Let_def)
        note IH = "1.hyps" [OF tx Some HOL.refl HOL.refl full C(3) r]
        have l: "lab c = lab child" using lab_insert [of mem_ok "drop ?m tx" ep now child] r by simp
        have "tx = lab child @ drop ?m tx" using s True full by simp
        then show ?thesis using inserted_below [of child "drop ?m tx" ep c] IH l C n by auto
      next
        case False
        then have part: "?m \<noteq> length (lab child)" using s by simp
        have "split_child mem_ok tx ep now ?m child \<noteq> None" by (simp add: split_child_def Let_def)
        then obtain c j where r: "split_child mem_ok tx ep now ?m child = Some (c, j)" by fastforce
        have n: "n' = put c" "k = j"
          using "1.prems"(2) tx Some part r by (simp_all add: trie_insert.simps [of _ tx] put_def Let_def)
        have r': "split_child mem_ok (a @ r) ep now (length a) child = Some (c, j)"
          using r [unfolded s(3) [symmetric], unfolded s(2)] .
        have ne: "r \<noteq> [] \<Longrightarrow> hd r \<noteq> hd b" using s(4) False by auto
        note S = split_inserted [OF s(1) a False ne r']
        have "hd (lab c) = hd tx" using S(2) s(2) a by simp
        then show ?thesis using S n a C(3) s(2) by auto
      qed
      then obtain c where c: "n' = put c" "inserted (below child) tx ep (below c)" "lab c \<noteq> []" "hd (lab c) = hd tx" "trie_ok c"
        "nodes c = nodes child + k" by blast
      have "nodes n' + nodes child = nodes cur + nodes c" unfolding c(1) put_def by (rule nodes_put [OF Some])
      moreover have "inserted (entry cur) tx ep (entry n')" unfolding c(1) put_def by (rule inserted_put [OF Some tx c(2)])
      moreover have "trie_ok n'" unfolding c(1) put_def by (rule trie_ok_put [OF "1.prems"(1) c(3-5)])
      ultimately show ?thesis using c(6) by linarith
    qed
  qed
qed

subsection \<open>Match\<close>

text \<open>The reference: the longest of the first \<open>k\<close> prefixes that has an entry, and the one of the whole text.\<close>

fun longest :: "(string \<Rightarrow> int option) \<Rightarrow> string \<Rightarrow> nat \<Rightarrow> (int \<times> nat) option" where
  "longest f tx 0 = None"
| "longest f tx (Suc k) = (case f (take (Suc k) tx) of Some e \<Rightarrow> Some (e, Suc k) | None \<Rightarrow> longest f tx k)"

definition longest_match :: "(string \<Rightarrow> int option) \<Rightarrow> string \<Rightarrow> (int \<times> nat) option" where
  "longest_match f tx = (case longest f tx (length tx) of None \<Rightarrow> map_option (\<lambda>e. (e, 0)) (f []) | r \<Rightarrow> r)"

lemma longest_None: "(\<And>j. 0 < j \<Longrightarrow> j \<le> k \<Longrightarrow> f (take j tx) = None) \<Longrightarrow> longest f tx k = None"
  by (induction k) auto

lemma longest_shift:
  assumes "0 < m" "m + j \<le> length tx"
    and "\<And>k. 0 < k \<Longrightarrow> k \<le> length tx \<Longrightarrow> f (take k tx) = (if m \<le> k then g (take (k - m) (drop m tx)) else None)"
  shows "longest f tx (m + j) =
    (case longest g (drop m tx) j of Some (e, k) \<Rightarrow> Some (e, m + k) | None \<Rightarrow> map_option (\<lambda>e. (e, m)) (g []))"
  using assms(2)
proof (induction j)
  case 0
  obtain i where i: "m = Suc i" using assms(1) by (cases m) auto
  have "longest f tx i = None" using assms(3) 0 i by (intro longest_None) simp
  then show ?case using assms(3) [of m] 0 i by (cases "g []") auto
next
  case (Suc j)
  then show ?case using assms(3) [of "Suc (m + j)"] by (cases "g (take (Suc j) (drop m tx))") (auto simp: Suc_diff_le)
qed

lemma entry_retime: "entry (Node l (ep_idx n) t (kids n)) = entry n"
  by (rule entry_cong) simp_all

lemma trie_ok_retime [simp]: "trie_ok (Node l e t (kids n)) = trie_ok n" "nodes (Node l e t (kids n)) = nodes n"
  by (cases n; simp)+

lemma entry_take:
  "0 < k \<Longrightarrow> tx \<noteq> [] \<Longrightarrow> entry n (take k tx) = (case find_child n (hd tx) of None \<Rightarrow> None | Some c \<Rightarrow> below c (take k tx))"
  by (cases k; cases tx) (simp_all add: entry_Cons split: option.split)

lemma below_take:
  assumes "lab c \<noteq> []" "prefix (lab c) tx" "k \<le> length tx"
  shows "below c (take k tx) = (if length (lab c) \<le> k then entry c (take (k - length (lab c)) (drop (length (lab c)) tx)) else None)"
proof -
  have "prefix (lab c) (take k tx) \<longleftrightarrow> length (lab c) \<le> k"
    using assms(2) prefix_length_le [of "lab c" "take k tx"] by (auto simp: prefix_def)
  then show ?thesis using assms(1) by (simp add: below_def drop_take)
qed

lemma trie_match_ok:
  assumes "trie_ok n" "trie_match now tx pos le lp n = (n', ep, q)"
  shows "entry n' = entry n \<and> trie_ok n' \<and> nodes n' = nodes n \<and> lab n' = lab n \<and> ep_idx n' = ep_idx n \<and>
    (ep, q) = (case longest (entry n) tx (length tx) of Some (e, k) \<Rightarrow> (e, pos + k) | None \<Rightarrow> (le, lp))"
  using assms
proof (induction now tx pos le lp n arbitrary: n' ep q rule: trie_match.induct)
  case (1 now tx pos le lp cur)
  consider "tx = []" | "tx \<noteq> []" "find_child cur (hd tx) = None"
    | c where "tx \<noteq> []" "find_child cur (hd tx) = Some c" "\<not> prefix (lab c) tx"
    | c where "tx \<noteq> []" "find_child cur (hd tx) = Some c" "prefix (lab c) tx"
    by fastforce
  then show ?case
  proof cases
    case 1
    then show ?thesis using "1.prems" by (simp add: trie_match.simps)
  next
    case 2
    have "longest (entry cur) tx (length tx) = None"
      using 2 by (intro longest_None) (simp add: entry_take)
    then show ?thesis using 2 "1.prems" by (simp add: trie_match.simps)
  next
    case (3 c)
    have "below c (take j tx) = None" for j using 3(3) by (auto simp: below_def dest: prefix_order.trans [OF _ take_is_prefix])
    then have "longest (entry cur) tx (length tx) = None"
      using 3 by (intro longest_None) (simp add: entry_take)
    then show ?thesis using 3 "1.prems" by (simp add: trie_match.simps shared_prefix_len_full)
  next
    case (4 c)
    note C = trie_okD [OF "1.prems"(1) 4(2)]
    let ?m = "length (lab c)" and ?c = "if ep_idx c \<ge> 0 then Node (lab c) (ep_idx c) now (kids c) else c"
    let ?le = "if ep_idx c \<ge> 0 then ep_idx c else le" and ?lp = "if ep_idx c \<ge> 0 then pos + ?m else lp"
    have m: "shared_prefix_len (lab c) tx = ?m" "0 < ?m" "?m \<le> length tx"
      using 4(3) C(1) by (simp_all add: shared_prefix_len_full prefix_length_le)
    obtain c' e k where r: "trie_match now (drop ?m tx) (pos + ?m) ?le ?lp ?c = (c', e, k)" by (metis surj_pair)
    have n: "n' = Node (lab cur) (ep_idx cur) (access_ts cur) (set_child (hd tx) c' (kids cur))" "ep = e" "q = k"
      using "1.prems"(2) 4(1,2) m r by (auto simp: trie_match.simps [of now tx] split: if_splits)
    have IH: "entry c' = entry c \<and> trie_ok c' \<and> nodes c' = nodes c \<and> lab c' = lab c \<and> ep_idx c' = ep_idx c \<and>
      (e, k) = (case longest (entry c) (drop ?m tx) (length (drop ?m tx)) of Some (x, i) \<Rightarrow> (x, pos + ?m + i) | None \<Rightarrow> (?le, ?lp))"
    proof (cases "ep_idx c \<ge> 0")
      case True
      note IH = "1.IH"(1) [OF 4(1,2) HOL.refl _ True]
      show ?thesis using IH [of c' e k, unfolded m(1)] r True m(2,3) C(3) by (simp add: entry_retime m(1) del: trie_ok.simps nodes.simps)
    next
      case False
      note IH = "1.IH"(2) [OF 4(1,2) HOL.refl _ False]
      show ?thesis using IH [of c' e k, unfolded m(1)] r False m(2,3) C(3) by (simp add: m(1))
    qed
    have L: "longest (entry cur) tx (length tx) =
      (case longest (entry c) (drop ?m tx) (length (drop ?m tx)) of Some (x, i) \<Rightarrow> Some (x, ?m + i) | None \<Rightarrow> map_option (\<lambda>x. (x, ?m)) (entry c []))"
      using longest_shift [of ?m "length (drop ?m tx)" tx "entry cur" "entry c"] 4 m C(1) by (simp add: entry_take below_take)
    have "(ep, q) = (case longest (entry cur) tx (length tx) of Some (e, k) \<Rightarrow> (e, pos + k) | None \<Rightarrow> (le, lp))"
      unfolding L n(2,3) using IH by (auto split: option.splits)
    moreover have "entry n' = entry cur"
    proof
      fix p
      have "below c' = below c" using IH by (intro below_cong) simp_all
      then show "entry n' p = entry cur p" unfolding n(1) entry_put [OF 4(2)] using 4(2) by (cases p) (simp_all add: entry_Cons)
    qed
    moreover have "trie_ok n'" unfolding n(1) using IH C by (intro trie_ok_put [OF "1.prems"(1)]) simp_all
    moreover have "nodes n' = nodes cur"
      using nodes_put [OF 4(2), of "lab cur" "ep_idx cur" "access_ts cur" c', folded n(1)] IH by simp
    ultimately show ?thesis by (simp add: n(1))
  qed
qed

end
