(* ===== verification/PD_Evict.thy ===== *)
theory PD_Evict
  imports PD_Trie
begin

text \<open>
  What leaves the trie of prompt prefixes: the removal of an endpoint and the eviction of the leaves
  that were not used for longest. Both end in \<^const>\<open>trie_unlink\<close>, which takes a childless node out
  and merges its parent with an only child; the lemmas on it carry the rest.
\<close>

section \<open>Clearing an endpoint\<close>

lemma entry_nonneg: "entry n tx = Some e \<Longrightarrow> 0 \<le> e"
proof (induction n tx rule: entry.induct)
  case (1 n tx)
  then show ?case by (subst (asm) (2) entry.simps) (auto split: if_splits option.splits)
qed

lemma map_of_map_snd: "map_of (map (\<lambda>(k, n). (k, f n)) ks) x = map_option f (map_of ks x)"
  by (induction ks) auto

lemma remove_ep_clear_sel [simp]:
  "lab (remove_ep_clear ep n) = lab n" "ep_idx (remove_ep_clear ep n) = (if ep_idx n = ep then -1 else ep_idx n)"
  by (cases n; simp)+

lemma find_child_clear: "find_child (remove_ep_clear ep n) k = map_option (remove_ep_clear ep) (find_child n k)"
  by (cases n) (simp add: find_child_def map_of_map_snd)

lemma entry_clear: "entry (remove_ep_clear ep n) tx = (if entry n tx = Some ep then None else entry n tx)"
proof (induction n tx rule: entry.induct)
  case (1 n tx)
  show ?case
  proof (cases tx)
    case (Cons c cs)
    then show ?thesis using "1.IH" by (cases "find_child n c") (auto simp: entry_Cons find_child_clear below_def)
  qed simp
qed

lemma fst_comp_map_snd [simp]: "fst \<circ> (\<lambda>(k, n). (k, f n)) = fst"
  by auto

lemma trie_ok_clear: "trie_ok n \<Longrightarrow> trie_ok (remove_ep_clear ep n)"
  by (induction ep n rule: remove_ep_clear.induct) (fastforce simp: list_all_iff)

lemma nodes_clear: "nodes (remove_ep_clear ep n) = nodes n"
proof (induction ep n rule: remove_ep_clear.induct)
  case (1 ep l e t ks)
  then have "map (\<lambda>(k, n). nodes n) (map (\<lambda>(k, n). (k, remove_ep_clear ep n)) ks) = map (\<lambda>(k, n). nodes n) ks" by auto
  then show ?case by (simp only: remove_ep_clear.simps nodes.simps)
qed

section \<open>Taking a node out\<close>

text \<open>How the entries change when \<open>k\<close> nodes leave with the one that \<open>tx\<close> leads to.\<close>

definition unlinked :: "(string \<Rightarrow> int option) \<Rightarrow> string \<Rightarrow> nat \<Rightarrow> (string \<Rightarrow> int option) \<Rightarrow> bool" where
  "unlinked f tx k f' \<longleftrightarrow> (\<forall>p. f' p = (if p = tx \<and> 0 < k then None else f p))"

lemma unlinked_below:
  assumes "unlinked (entry n) tx k (entry n')" "lab n' = lab n" shows "unlinked (below n) (lab n @ tx) k (below n')"
  using assms by (auto simp: unlinked_def below_def prefix_def)

lemma unlinked_put:
  assumes "find_child n (hd tx) = Some c" "tx \<noteq> []" "unlinked (below c) tx k (below c')"
  shows "unlinked (entry n) tx k (entry (Node l (ep_idx n) t (set_child (hd tx) c' (kids n))))"
  unfolding unlinked_def entry_put [OF assms(1)]
proof
  fix p show "(if p \<noteq> [] \<and> hd p = hd tx then below c' p else entry n p) = (if p = tx \<and> 0 < k then None else entry n p)"
    using assms by (cases p) (auto simp: unlinked_def entry_Cons)
qed

text \<open>The parent after its childless child is gone.\<close>

lemma entry_remove_child:
  assumes "trie_ok n" "find_child n (hd tx) = Some (Node tx e ts [])" "tx \<noteq> []" "0 < k"
  shows "unlinked (entry n) tx k (entry (Node l (ep_idx n) t (remove_child (hd tx) (kids n))))"
proof -
  have d: "distinct (map fst (kids n))" using assms(1) by (cases n) simp
  show ?thesis
    unfolding unlinked_def
  proof
    fix p show "entry (Node l (ep_idx n) t (remove_child (hd tx) (kids n))) p = (if p = tx \<and> 0 < k then None else entry n p)"
      using assms d by (cases p) (auto simp: entry_Cons find_child_def map_of_remove_child below_leaf)
  qed
qed

lemma trie_ok_remove_child: "trie_ok n \<Longrightarrow> trie_ok (Node l e t (remove_child k (kids n)))"
  using set_remove_child [of k "kids n"] by (cases n) (auto simp: list_all_iff distinct_remove_child)

lemma nodes_remove_child:
  assumes "find_child n k = Some c" shows "nodes (Node l e t (remove_child k (kids n))) + nodes c = nodes n"
proof -
  have "sum_list (map (\<lambda>(k, n). nodes n) (remove_child k ks)) + nodes c = sum_list (map (\<lambda>(k, n). nodes n) ks)"
    if "map_of ks k = Some c" for ks
    using that by (induction ks) (auto split: if_splits)
  with assms show ?thesis by (cases n) (simp add: find_child_def)
qed

text \<open>A merge keeps the entries below a node, the shape and the count.\<close>

lemma merge_with_single_child_ok:
  assumes "trie_ok n" "lab n \<noteq> []" "merge_with_single_child ok n = (n', k)"
  shows "below n' = below n \<and> trie_ok n' \<and> nodes n' + k = nodes n \<and> lab n' \<noteq> [] \<and> hd (lab n') = hd (lab n)"
proof (cases "\<exists>x c. kids n = [(x, c)] \<and> ep_idx n < 0 \<and> ok")
  case False
  then have "n' = n \<and> k = 0"
    using assms(3) by (auto simp: merge_with_single_child_def split: list.splits if_splits)
  then show ?thesis using assms by simp
next
  case True
  then obtain x c where c: "kids n = [(x, c)]" "ep_idx n < 0" "ok" by blast
  then have n': "n' = Node (lab n @ lab c) (ep_idx c) (access_ts c) (kids c)" "k = 1"
    using assms(3) by (auto simp: merge_with_single_child_def)
  have f: "find_child n j = (if j = x then Some c else None)" for j by (simp add: find_child_def c(1))
  note C = trie_okD [OF assms(1), of x c, unfolded f, simplified]
  have "below n' p = below n p" for p
  proof (cases "prefix (lab n) p")
    case True
    then obtain q where q: "p = lab n @ q" by (auto simp: prefix_def)
    have "below n' p = below c q" using assms(2) C(1) by (simp add: n'(1) q below_def entry_retime)
    also have "\<dots> = entry n q"
      using C(1,2) c(2) by (cases q; cases "lab c") (auto simp: entry_Cons f below_def prefix_def)
    finally show ?thesis using assms(2) by (simp add: below_def q)
  qed (auto simp: below_def n'(1) dest: append_prefixD)
  moreover have "nodes n = nodes c + 1" using c(1) by (cases n) simp
  ultimately show ?thesis using assms(2) C(3) by (auto simp: n' simp del: trie_ok.simps nodes.simps)
qed

text \<open>What the removal below a node does: seen from the root of the walk, and from above any other node.\<close>

definition unlink_spec :: "bool \<Rightarrow> string \<Rightarrow> trie_node \<Rightarrow> nat \<Rightarrow> trie_node \<Rightarrow> bool" where
  "unlink_spec r tx n k n' \<longleftrightarrow> trie_ok n' \<and> nodes n' + k = nodes n \<and>
     (r \<longrightarrow> unlinked (entry n) tx k (entry n') \<and> lab n' = lab n \<and> ep_idx n' = ep_idx n) \<and>
     (\<not> r \<longrightarrow> unlinked (below n) (lab n @ tx) k (below n') \<and> lab n' \<noteq> [] \<and> hd (lab n') = hd (lab n))"

lemma unlink_specI:
  assumes "trie_ok n'" "nodes n' + k = nodes n" "unlinked (entry n) tx k (entry n')" "lab n' = lab n" "ep_idx n' = ep_idx n" "\<not> r \<longrightarrow> lab n \<noteq> []"
  shows "unlink_spec r tx n k n'"
  using assms unlinked_below [OF assms(3,4)] by (simp add: unlink_spec_def)

lemma unlink_spec_same: "trie_ok n \<Longrightarrow> \<not> r \<longrightarrow> lab n \<noteq> [] \<Longrightarrow> unlink_spec r tx n 0 n"
  by (rule unlink_specI) (simp_all add: unlinked_def)

lemma unlink_spec_merge:
  assumes "unlink_spec False tx n k m" "merge_with_single_child ok m = (n', j)" "0 < k"
  shows "unlink_spec False tx n (k + j) n'"
proof -
  have m: "trie_ok m" "lab m \<noteq> []" using assms(1) by (simp_all add: unlink_spec_def)
  show ?thesis using assms(1,3) merge_with_single_child_ok [OF m assms(2)] by (auto simp: unlink_spec_def unlinked_def)
qed

lemma trie_unlink_ok:
  assumes "trie_ok n" "\<not> r \<longrightarrow> lab n \<noteq> []" "trie_unlink ok r tx n = (n', k)"
  shows "unlink_spec r tx n k n'"
  using assms
proof (induction ok r tx n arbitrary: n' k rule: trie_unlink.induct)
  case (1 ok r tx cur)
  note same = unlink_spec_same [OF "1.prems"(1,2), of tx]
  consider "n' = cur" "k = 0"
    | c where "tx \<noteq> []" "find_child cur (hd tx) = Some c" "prefix (lab c) tx" "drop (length (lab c)) tx \<noteq> []"
    | c where "tx \<noteq> []" "find_child cur (hd tx) = Some c" "lab c = tx" "kids c = []"
    using "1.prems"(3)
    by (auto simp: trie_unlink.simps [of ok _ tx] prefix_def Let_def split: option.splits if_splits)
  then show ?case
  proof cases
    case 1
    then show ?thesis using same by simp
  next
    case (2 c)
    let ?rest = "drop (length (lab c)) tx"
    obtain c' j where u: "trie_unlink ok False ?rest c = (c', j)" by fastforce
    have n': "n' = Node (lab cur) (ep_idx cur) (access_ts cur) (set_child (hd tx) c' (kids cur))" "k = j"
      using "1.prems"(3) 2 u by (simp_all add: trie_unlink.simps [of ok _ tx])
    note C = trie_okD [OF "1.prems"(1) 2(2)]
    have IH: "unlink_spec False ?rest c j c'" using "1.IH" [OF 2(1,2) _ HOL.refl 2(4) C(3) _ u] 2(3) C(1) by simp
    have t: "lab c @ ?rest = tx" using 2(3) by (auto simp: prefix_def)
    have c': "trie_ok c'" "nodes c' + j = nodes c" "unlinked (below c) tx j (below c')" "lab c' \<noteq> []" "hd (lab c') = hd tx"
      using IH C(2) by (simp_all add: unlink_spec_def t)
    show ?thesis
    proof (rule unlink_specI)
      show "trie_ok n'" unfolding n' using c' by (intro trie_ok_put [OF "1.prems"(1)])
      show "nodes n' + k = nodes cur"
        using nodes_put [OF 2(2), of "lab cur" "ep_idx cur" "access_ts cur" c', folded n'(1)] c'(2) n'(2) by linarith
      show "unlinked (entry cur) tx k (entry n')" unfolding n' by (rule unlinked_put [OF 2(2,1) c'(3)])
    qed (use n' "1.prems"(2) in simp_all)
  next
    case (3 c)
    obtain e ts where c: "c = Node tx e ts []" using 3(3,4) by (cases c) auto
    let ?p = "Node (lab cur) (ep_idx cur) (access_ts cur) (remove_child (hd tx) (kids cur))"
    have p: "unlink_spec r tx cur 1 ?p"
    proof (rule unlink_specI)
      show "trie_ok ?p" by (rule trie_ok_remove_child [OF "1.prems"(1)])
      show "nodes ?p + 1 = nodes cur" using nodes_remove_child [OF 3(2), of "lab cur" "ep_idx cur" "access_ts cur"] c by simp
      show "unlinked (entry cur) tx 1 (entry ?p)" using entry_remove_child [OF "1.prems"(1) 3(2) [unfolded c] 3(1), of 1] by simp
    qed (use "1.prems"(2) in simp_all)
    show ?thesis
    proof (cases r)
      case True
      then show ?thesis using p "1.prems"(3) 3 by (simp add: trie_unlink.simps [of ok _ tx] Let_def)
    next
      case False
      obtain m j where m: "merge_with_single_child ok ?p = (m, j)" by fastforce
      have "n' = m" "k = 1 + j" using False m "1.prems"(3) 3 by (simp_all add: trie_unlink.simps [of ok _ tx] Let_def)
      then show ?thesis using unlink_spec_merge [OF _ m, of tx cur 1] p False by simp
    qed
  qed
qed

lemma trie_unlink_le: "snd (trie_unlink ok r tx n) \<le> 2"
proof (induction ok r tx n rule: trie_unlink.induct)
  case (1 ok r tx cur)
  have "snd (merge_with_single_child ok m) \<le> Suc 0" for m by (auto simp: merge_with_single_child_def split: list.split)
  then show ?case
    using "1.IH" by (subst trie_unlink.simps) (auto simp: Let_def case_prod_beta numeral_2_eq_2 split: option.split)
qed

text \<open>The text of a child leads to it, and on.\<close>

lemma find_child_lab: "trie_ok n \<Longrightarrow> (k, c) \<in> set (kids n) \<Longrightarrow> find_child n k = Some c \<and> lab c \<noteq> [] \<and> hd (lab c) = k \<and> trie_ok c"
  by (cases n) (auto simp: find_child_def list_all_iff)

lemma entry_child: "trie_ok n \<Longrightarrow> (k, c) \<in> set (kids n) \<Longrightarrow> entry n (lab c @ p) = entry c p"
  using find_child_lab [of n k c] by (cases "lab c") (auto simp: entry_Cons below_def)

lemma trie_unlink_child:
  assumes "trie_ok n" "(k, c) \<in> set (kids n)"
  shows "p \<noteq> [] \<Longrightarrow> snd (trie_unlink ok r (lab c @ p) n) = snd (trie_unlink ok False p c)"
    "kids c = [] \<Longrightarrow> 0 < snd (trie_unlink ok r (lab c) n)"
  using find_child_lab [OF assms]
  by (auto simp: trie_unlink.simps [of _ _ "lab c @ p"] trie_unlink.simps [of _ _ "lab c"] Let_def split: prod.split)

section \<open>The trie\<close>

text \<open>The state the operations keep: the root has no text and no endpoint, and \<open>node_count\<close> is the number of nodes.\<close>

definition pd_trie_ok :: "pd_trie \<Rightarrow> bool" where
  "pd_trie_ok t \<longleftrightarrow> trie_ok (pt_root t) \<and> lab (pt_root t) = [] \<and> ep_idx (pt_root t) < 0 \<and> pt_node_count t = of_nat (nodes (pt_root t))"

abbreviation stored :: "pd_trie \<Rightarrow> string \<Rightarrow> int option" where "stored t \<equiv> entry (pt_root t)"

lemma pd_trie_create_ok: "pd_trie_ok pd_trie_create" "stored pd_trie_create tx = None"
  by (simp_all add: pd_trie_ok_def pd_trie_create_def entry_leaf)

lemma ep_insert: "tx \<noteq> [] \<Longrightarrow> ep_idx (fst (trie_insert ok tx ep now n)) = ep_idx n"
  by (subst trie_insert.simps) (auto simp: new_leaf_def Let_def split: option.split prod.splits)

lemma pd_trie_insert_ok:
  assumes "pd_trie_ok t" "tx \<noteq> []"
  shows "pd_trie_ok (pd_trie_insert mem_ok t tx ep now)"
    "inserted (stored t) tx ep (stored (pd_trie_insert mem_ok t tx ep now))"
proof -
  obtain n k where i: "trie_insert mem_ok tx ep now (pt_root t) = (n, k)" by fastforce
  have t': "pd_trie_insert mem_ok t tx ep now = t\<lparr>pt_root := n, pt_node_count := pt_node_count t + of_nat k\<rparr>"
    using assms(2) i by (simp add: pd_trie_insert_def)
  have ok: "trie_ok (pt_root t)" using assms(1) by (simp add: pd_trie_ok_def)
  note I = trie_insert_ok [OF ok i]
  show "pd_trie_ok (pd_trie_insert mem_ok t tx ep now)"
    using I assms(1) lab_insert [of mem_ok tx ep now "pt_root t"] ep_insert [OF assms(2), of mem_ok ep now "pt_root t"]
    by (simp add: pd_trie_ok_def t' i)
  show "inserted (stored t) tx ep (stored (pd_trie_insert mem_ok t tx ep now))" using I by (simp add: t')
qed

lemma pd_trie_match_ok:
  assumes "pd_trie_ok t" "tx \<noteq> []"
  shows "fst (pd_trie_match t tx now) = longest_match (stored t) tx \<and> pd_trie_ok (snd (pd_trie_match t tx now)) \<and>
    stored (snd (pd_trie_match t tx now)) = stored t"
proof -
  let ?r = "pt_root t"
  obtain r ep q where m: "trie_match now tx 0 (-1) 0 ?r = (r, ep, q)" by (metis surj_pair)
  have ok: "trie_ok ?r" "ep_idx ?r < 0" using assms(1) by (simp_all add: pd_trie_ok_def)
  have t': "pd_trie_match t tx now = (if ep \<ge> 0 then Some (ep, q) else None, t\<lparr>pt_root := r\<rparr>)"
    using assms(2) ok(2) m by (simp add: pd_trie_match_def)
  note M = trie_match_ok [OF ok(1) m]
  have pos: "0 \<le> e" if "longest (entry ?r) tx k = Some (e, j)" for e j k
    using that by (induction k) (auto split: option.splits dest: entry_nonneg)
  show ?thesis
    using M ok assms(1) pos by (auto simp: t' longest_match_def pd_trie_ok_def split: option.splits)
qed

lemma drop_victim_ok:
  assumes "pd_trie_ok t"
  shows "pd_trie_ok (drop_victim ok v t)"
    "unlinked (stored t) v (snd (trie_unlink ok True v (pt_root t))) (stored (drop_victim ok v t))"
    "nodes (pt_root (drop_victim ok v t)) + snd (trie_unlink ok True v (pt_root t)) = nodes (pt_root t)"
proof -
  obtain r k where u: "trie_unlink ok True v (pt_root t) = (r, k)" by fastforce
  have ok: "trie_ok (pt_root t)" using assms by (simp add: pd_trie_ok_def)
  have U: "unlink_spec True v (pt_root t) k r" using trie_unlink_ok [OF ok _ u] by simp
  have t': "drop_victim ok v t = t\<lparr>pt_root := r, pt_node_count := pt_node_count t - of_nat k\<rparr>" by (simp add: drop_victim_def u)
  have "nodes (pt_root t) = nodes r + k" using U by (simp add: unlink_spec_def)
  then show "pd_trie_ok (drop_victim ok v t)" using U assms by (simp add: t' pd_trie_ok_def unlink_spec_def)
  show "unlinked (stored t) v (snd (trie_unlink ok True v (pt_root t))) (stored (drop_victim ok v t))"
    "nodes (pt_root (drop_victim ok v t)) + snd (trie_unlink ok True v (pt_root t)) = nodes (pt_root t)"
    using U by (simp_all add: t' u unlink_spec_def)
qed

section \<open>Removal of an endpoint\<close>

lemma prune_list_entry:
  assumes "trie_ok n" "v \<in> set (prune_list ep at n)"
  shows "\<exists>p. v = at @ p \<and> entry n p = (if ep \<ge> 0 then Some ep else None)"
  using assms
proof (induction ep at n rule: prune_list.induct)
  case (1 ep at l e t ks)
  from "1.prems"(2) consider "e = ep" "v = at" | k c where "(k, c) \<in> set ks" "v \<in> set (prune_list ep (at @ lab c) c)"
    by (auto split: if_splits)
  then show ?case
  proof cases
    case (2 k c)
    have "trie_ok c" using find_child_lab [OF "1.prems"(1)] 2(1) by simp
    with 2 obtain p where "v = (at @ lab c) @ p" "entry c p = (if ep \<ge> 0 then Some ep else None)"
      using "1.IH" [OF 2(1) HOL.refl] by blast
    then show ?thesis using entry_child [OF "1.prems"(1)] 2(1) by auto
  qed simp
qed

lemma fold_drop_victim:
  assumes "pd_trie_ok t" "\<And>v. v \<in> set vs \<Longrightarrow> stored t v = None"
  shows "pd_trie_ok (fold (\<lambda>v. drop_victim (ok v) v) vs t) \<and> stored (fold (\<lambda>v. drop_victim (ok v) v) vs t) = stored t"
  using assms
proof (induction vs arbitrary: t)
  case (Cons v vs)
  have "stored (drop_victim (ok v) v t) = stored t"
    using drop_victim_ok(2) [OF Cons.prems(1), of v "ok v"] Cons.prems(2) by (auto simp: unlinked_def)
  with Cons drop_victim_ok(1) show ?case by simp
qed simp

lemma pd_trie_remove_ep_ok:
  assumes "pd_trie_ok t"
  shows "pd_trie_ok (pd_trie_remove_ep ok t ep)"
    "stored (pd_trie_remove_ep ok t ep) p = (if stored t p = Some ep then None else stored t p)"
proof -
  let ?t = "t\<lparr>pt_root := remove_ep_clear ep (pt_root t)\<rparr>"
  let ?vs = "take MAX_PRUNE_BATCH (prune_list ep [] (pt_root t))"
  have ok: "trie_ok (pt_root t)" using assms by (simp add: pd_trie_ok_def)
  have c: "pd_trie_ok ?t" using assms by (auto simp: pd_trie_ok_def trie_ok_clear nodes_clear)
  have "stored ?t v = None" if "v \<in> set ?vs" for v
    using prune_list_entry [OF ok, of v ep "[]"] that by (auto simp: entry_clear dest: in_set_takeD split: if_splits)
  note F = fold_drop_victim [where ok=ok, OF c this]
  have "pd_trie_remove_ep ok t ep = fold (\<lambda>v. drop_victim (ok v) v) ?vs ?t"
    by (simp add: pd_trie_remove_ep_def)
  then show "pd_trie_ok (pd_trie_remove_ep ok t ep)"
    "stored (pd_trie_remove_ep ok t ep) p = (if stored t p = Some ep then None else stored t p)"
    using F by (simp_all add: entry_clear)
qed

section \<open>Eviction\<close>

text \<open>The leaves that may be evicted, in the order of the walk, and the walk as a fold over them.\<close>

fun leaves :: "string \<Rightarrow> trie_node \<Rightarrow> (string \<times> u64) list" where
  "leaves at (Node l e t ks) = (if e \<ge> 0 \<and> ks = [] then [(at, t)] else concat (map (\<lambda>(k, n). leaves (at @ lab n) n) ks))"

definition older :: "string \<times> u64 \<Rightarrow> (string \<times> u64) option \<Rightarrow> (string \<times> u64) option" where
  "older = (\<lambda>(v, t) oldest. case oldest of None \<Rightarrow> Some (v, t) | Some (_, ts) \<Rightarrow> if t < ts then Some (v, t) else oldest)"

lemma fold_concat_map: "(\<And>x acc. x \<in> set xs \<Longrightarrow> g x acc = fold f (h x) acc) \<Longrightarrow> fold g xs acc = fold f (concat (map h xs)) acc"
  by (induction xs arbitrary: acc) auto

lemma find_oldest_leaf_fold: "find_oldest_leaf at n oldest = fold older (leaves at n) oldest"
proof (induction at n oldest rule: find_oldest_leaf.induct)
  case (1 at l e t ks oldest)
  have "fold (\<lambda>(k, n). find_oldest_leaf (at @ lab n) n) ks acc = fold older (concat (map (\<lambda>(k, n). leaves (at @ lab n) n) ks)) acc" for acc
    by (rule fold_concat_map) (use "1.IH" in auto)
  then show ?case by (auto simp: older_def)
qed

lemma fold_older:
  assumes "fold older xs oldest = r"
  shows "case r of None \<Rightarrow> xs = [] \<and> oldest = None
    | Some (v, ts) \<Rightarrow> ((v, ts) \<in> set xs \<or> oldest = Some (v, ts)) \<and> (\<forall>x \<in> set xs. ts \<le> snd x) \<and> (\<forall>x. oldest = Some x \<longrightarrow> ts \<le> snd x)"
  using assms
proof (induction xs arbitrary: oldest)
  case (Cons x xs)
  have "\<exists>y. older x oldest = Some y \<and> (y = x \<or> oldest = Some y) \<and> snd y \<le> snd x \<and> (\<forall>z. oldest = Some z \<longrightarrow> snd y \<le> snd z)"
    by (cases x; cases oldest) (auto simp: older_def)
  then obtain y where y: "older x oldest = Some y" "y = x \<or> oldest = Some y" "snd y \<le> snd x" "\<forall>z. oldest = Some z \<longrightarrow> snd y \<le> snd z"
    by blast
  have "fold older xs (Some y) = r" using Cons.prems y(1) by simp
  from Cons.IH [OF this] obtain v ts where r: "r = Some (v, ts)" "(v, ts) \<in> set xs \<or> y = (v, ts)" "\<forall>x \<in> set xs. ts \<le> snd x" "ts \<le> snd y"
    by (auto split: option.splits)
  have "ts \<le> snd x" "\<forall>z. oldest = Some z \<longrightarrow> ts \<le> snd z" using r(4) y(3,4) order.trans by blast+
  then show ?case using r y(2) by auto
qed (auto split: option.split)

lemma leaves_entry:
  assumes "trie_ok n" "(v, ts) \<in> set (leaves at n)"
  shows "\<exists>p. v = at @ p \<and> entry n p \<noteq> None \<and> (p = [] \<longrightarrow> kids n = []) \<and> (p \<noteq> [] \<longrightarrow> (\<forall>ok r. 0 < snd (trie_unlink ok r p n)))"
  using assms
proof (induction at n rule: leaves.induct)
  case (1 at l e t ks)
  show ?case
  proof (cases "e \<ge> 0 \<and> ks = []")
    case True
    with "1.prems"(2) show ?thesis by simp
  next
    case False
    with "1.prems"(2) obtain k c where c: "(k, c) \<in> set ks" "(v, ts) \<in> set (leaves (at @ lab c) c)" by auto
    note F = find_child_lab [OF "1.prems"(1), of k c]
    from "1.IH" [OF False c(1) HOL.refl] c F obtain p where p: "v = (at @ lab c) @ p" "entry c p \<noteq> None"
      "p = [] \<longrightarrow> kids c = []" "p \<noteq> [] \<longrightarrow> (\<forall>ok r. 0 < snd (trie_unlink ok r p c))" by auto
    have e: "entry (Node l e t ks) (lab c @ p) = entry c p" using entry_child [OF "1.prems"(1)] c(1) by simp
    have "0 < snd (trie_unlink ok r (lab c @ p) (Node l e t ks))" for ok r
      using trie_unlink_child [OF "1.prems"(1), of k c] c(1) p(3,4) by (cases "p = []") auto
    then show ?thesis using p(1,2) e F c(1) by (intro exI [of _ "lab c @ p"]) auto
  qed
qed

text \<open>The victim is the leaf that was not used for longest; it leads to a node, and its node leaves.\<close>

lemma oldest_leaf:
  assumes "pd_trie_ok t" "find_oldest_leaf [] (pt_root t) None = Some (v, ts)"
  shows "(v, ts) \<in> set (leaves [] (pt_root t))" "x \<in> set (leaves [] (pt_root t)) \<Longrightarrow> ts \<le> snd x"
    "stored t v \<noteq> None" "0 < snd (trie_unlink ok True v (pt_root t))"
proof -
  have F: "(v, ts) \<in> set (leaves [] (pt_root t)) \<and> (\<forall>x \<in> set (leaves [] (pt_root t)). ts \<le> snd x)"
    using fold_older [OF assms(2) [unfolded find_oldest_leaf_fold]] by simp
  then show "(v, ts) \<in> set (leaves [] (pt_root t))" "x \<in> set (leaves [] (pt_root t)) \<Longrightarrow> ts \<le> snd x" by auto
  have ok: "trie_ok (pt_root t)" "ep_idx (pt_root t) < 0" using assms(1) by (simp_all add: pd_trie_ok_def)
  note L = leaves_entry [OF ok(1) conjunct1 [OF F]]
  from L show "stored t v \<noteq> None" by auto
  with ok(2) have "v \<noteq> []" by auto
  then show "0 < snd (trie_unlink ok True v (pt_root t))" using L by auto
qed

lemma no_leaf: "find_oldest_leaf [] n None = None \<longleftrightarrow> leaves [] n = []"
proof
  assume "find_oldest_leaf [] n None = None"
  then show "leaves [] n = []" using fold_older [of "leaves [] n" None None] by (simp add: find_oldest_leaf_fold)
qed (simp add: find_oldest_leaf_fold)

lemma evict_loop_ok:
  assumes "pd_trie_ok t" "nodes (pt_root t) \<le> fuel"
  shows "\<exists>t'. evict_loop fuel ok max_nodes t = Some t' \<and> pd_trie_ok t' \<and>
    (\<forall>p. stored t' p = stored t p \<or> stored t' p = None) \<and>
    (pt_node_count t' \<le> max_nodes \<or> leaves [] (pt_root t') = []) \<and>
    (pt_node_count t \<le> max_nodes \<and> t' = t \<or> unat max_nodes \<le> nodes (pt_root t') + 1)"
  using assms
proof (induction fuel arbitrary: t)
  case 0
  then show ?case by (cases "pt_root t") simp
next
  case (Suc fuel)
  have cnt: "unat (pt_node_count t) \<le> nodes (pt_root t)" using Suc.prems(1) by (simp add: pd_trie_ok_def unat_of_nat)
  consider "pt_node_count t \<le> max_nodes" | "\<not> pt_node_count t \<le> max_nodes" "find_oldest_leaf [] (pt_root t) None = None"
    | v ts where "\<not> pt_node_count t \<le> max_nodes" "find_oldest_leaf [] (pt_root t) None = Some (v, ts)" by fastforce
  then show ?case
  proof cases
    case 1
    then show ?thesis using Suc.prems(1) by (subst evict_loop.simps) auto
  next
    case 2
    then have "evict_loop (Suc fuel) ok max_nodes t = Some t" "unat max_nodes \<le> nodes (pt_root t) + 1"
      using cnt by (simp_all add: evict_loop.simps word_le_nat_alt)
    moreover have "leaves [] (pt_root t) = []" using 2(2) by (simp add: no_leaf)
    ultimately show ?thesis using Suc.prems(1) by blast
  next
    case (3 v ts)
    let ?t = "drop_victim (ok v) v t" and ?k = "snd (trie_unlink (ok v) True v (pt_root t))"
    note O = oldest_leaf(4) [OF Suc.prems(1) 3(2), of "ok v"] and D = drop_victim_ok [where ok="ok v" and v=v, OF Suc.prems(1)]
    have k: "?k \<le> 2" by (rule trie_unlink_le)
    from D(3) O Suc.prems(2) have "nodes (pt_root ?t) \<le> fuel" by linarith
    from Suc.IH [OF D(1) this] obtain t' where t': "evict_loop fuel ok max_nodes ?t = Some t'" "pd_trie_ok t'"
      "\<forall>p. stored t' p = stored ?t p \<or> stored t' p = None" "pt_node_count t' \<le> max_nodes \<or> leaves [] (pt_root t') = []"
      "pt_node_count ?t \<le> max_nodes \<and> t' = ?t \<or> unat max_nodes \<le> nodes (pt_root t') + 1" by blast
    have "\<forall>p. stored t' p = stored t p \<or> stored t' p = None" using t'(3) D(2) unfolding unlinked_def by metis
    moreover have "unat max_nodes \<le> nodes (pt_root t') + 1"
      using t'(5) D(3) k cnt 3(1) by (auto simp: word_le_nat_alt)
    moreover have "evict_loop (Suc fuel) ok max_nodes t = Some t'" using 3 t'(1) by (subst evict_loop.simps) simp
    ultimately show ?thesis using t'(2,4) by blast
  qed
qed

section \<open>Sequences of operations\<close>

text \<open>
  The contract a caller of the trie relies on: an operation keeps the invariant and adds no tag but the
  ones it is given. Then a tag that is gone stays away until an operation brings it back.
\<close>

locale tagged_store =
  fixes inv :: "'s \<Rightarrow> bool" and tags :: "'s \<Rightarrow> 't set" and run :: "'op \<Rightarrow> 's \<Rightarrow> 's" and gives :: "'op \<Rightarrow> 't set"
  assumes run_inv: "inv s \<Longrightarrow> inv (run x s)"
    and run_tags: "inv s \<Longrightarrow> tags (run x s) \<subseteq> tags s \<union> gives x"
begin

lemma fold_run: "inv s \<Longrightarrow> inv (fold run xs s) \<and> tags (fold run xs s) \<subseteq> tags s \<union> (\<Union>x \<in> set xs. gives x)"
proof (induction xs arbitrary: s)
  case (Cons x xs)
  show ?case using Cons.IH [OF run_inv [OF Cons.prems, of x]] run_tags [OF Cons.prems, of x] by auto
qed simp

lemma gone_stays_away: "inv s \<Longrightarrow> e \<notin> tags s \<Longrightarrow> \<forall>x \<in> set xs. e \<notin> gives x \<Longrightarrow> e \<notin> tags (fold run xs s)"
  using fold_run by blast

end

datatype trie_op = T_insert string int u64 | T_match string u64 | T_remove "string \<Rightarrow> bool" int | T_evict "string \<Rightarrow> bool" u64

text \<open>An operation on the trie, with memory for the insertions; the bound of an eviction's rounds is the number of nodes.\<close>

fun trie_run :: "trie_op \<Rightarrow> pd_trie \<Rightarrow> pd_trie" where
  "trie_run (T_insert tx ep now) t = pd_trie_insert mem_ok t tx ep now"
| "trie_run (T_match tx now) t = snd (pd_trie_match t tx now)"
| "trie_run (T_remove ok ep) t = pd_trie_remove_ep ok t ep"
| "trie_run (T_evict ok max_nodes) t = the (pd_trie_evict_lru (nodes (pt_root t)) ok t max_nodes)"

fun trie_gives :: "trie_op \<Rightarrow> int set" where
  "trie_gives (T_insert tx ep now) = {ep}"
| "trie_gives _ = {}"

definition trie_eps :: "pd_trie \<Rightarrow> int set" where
  "trie_eps t = {e. \<exists>p. stored t p = Some e}"

lemma trie_epsI: "stored t p = Some e \<Longrightarrow> e \<in> trie_eps t"
  by (auto simp: trie_eps_def)

lemma trie_eps_insert:
  assumes "inserted (stored t) tx ep (stored t')" shows "trie_eps t' \<subseteq> trie_eps t \<union> {ep}"
proof
  fix e assume "e \<in> trie_eps t'"
  then obtain p where "stored t' p = Some e" by (auto simp: trie_eps_def)
  with assms show "e \<in> trie_eps t \<union> {ep}" by (cases "p = tx") (auto simp: inserted_def trie_eps_def split: if_splits)
qed

interpretation trie: tagged_store pd_trie_ok trie_eps trie_run trie_gives
proof
  fix t x assume ok: "pd_trie_ok t"
  show "pd_trie_ok (trie_run x t)"
  proof (cases x)
    case (T_insert tx ep now)
    then show ?thesis using ok pd_trie_insert_ok(1) [OF ok, of tx] by (cases "tx = []") (simp_all add: pd_trie_insert_def)
  next
    case (T_match tx now)
    then show ?thesis using ok pd_trie_match_ok [OF ok, of tx] by (cases "tx = []") (simp_all add: pd_trie_match_def)
  next
    case (T_evict ok' m)
    then show ?thesis using evict_loop_ok [OF ok order.refl, of ok' m] by (auto simp: pd_trie_evict_lru_def)
  qed (simp add: pd_trie_remove_ep_ok(1) [OF ok])
  show "trie_eps (trie_run x t) \<subseteq> trie_eps t \<union> trie_gives x"
  proof (cases x)
    case (T_insert tx ep now)
    then show ?thesis using trie_eps_insert [OF pd_trie_insert_ok(2) [OF ok], of tx] by (cases "tx = []") (auto simp: pd_trie_insert_def)
  next
    case (T_match tx now)
    then show ?thesis using pd_trie_match_ok [OF ok, of tx] by (cases "tx = []") (simp_all add: pd_trie_match_def trie_eps_def)
  next
    case (T_remove ok' e)
    then show ?thesis using pd_trie_remove_ep_ok(2) [OF ok, of ok' e] by (auto simp: trie_eps_def split: if_splits)
  next
    case (T_evict ok' m)
    then obtain t' where t': "trie_run x t = t'" "\<forall>p. stored t' p = stored t p \<or> stored t' p = None"
      using evict_loop_ok [OF ok order.refl, of ok' m] by (auto simp: pd_trie_evict_lru_def)
    have "stored t p = Some e" if "stored t' p = Some e" for p e using t'(2) that by (metis option.distinct(1))
    then show ?thesis using t'(1) by (auto simp: trie_eps_def)
  qed
qed

lemma trie_match_eps:
  assumes "pd_trie_ok t" "fst (pd_trie_match t tx now) = Some (e, k)" shows "e \<in> trie_eps t"
proof -
  have l: "longest f tx j = Some (e, k) \<Longrightarrow> \<exists>p. f p = Some e" for f j by (induction j) (auto split: option.splits)
  have "tx \<noteq> []" using assms(2) by (auto simp: pd_trie_match_def)
  then have "longest_match (stored t) tx = Some (e, k)" using pd_trie_match_ok [OF assms(1)] assms(2) by simp
  then show ?thesis using l by (auto simp: longest_match_def trie_eps_def simp del: entry_Nil split: option.splits)
qed

subsection \<open>Nodes without an entry\<close>

text \<open>A trie without entries is left alone by every eviction, however many nodes it has.\<close>

lemma evict_nothing_stored:
  assumes ok: "pd_trie_ok t" and none: "\<And>tx. stored t tx = None"
  shows "pd_trie_evict_lru fuel calloc_ok t cap = Some t"
proof -
  have "find_oldest_leaf [] (pt_root t) None = None"
  proof (cases "find_oldest_leaf [] (pt_root t) None")
    case (Some x)
    then show ?thesis using oldest_leaf [OF ok, of "fst x" "snd x"] none by simp
  qed
  then show ?thesis by (simp add: pd_trie_evict_lru_def evict_loop.simps)
qed

text \<open>Two nested texts of one endpoint, stored and removed.\<close>

lemma nested_insert:
  assumes "p \<noteq> []" "r \<noteq> []"
  shows "pd_trie_insert mem_ok (pd_trie_insert mem_ok pd_trie_create p ep now) (p @ r) ep now' =
    \<lparr>pt_root = Node [] (-1) 0 [(hd p, Node p ep now [(hd r, Node r ep now' [])])], pt_node_count = 3\<rparr>"
proof -
  have "shared_prefix_len p (p @ r) = length p" by (simp add: shared_prefix_len_full)
  with assms show ?thesis
    by (simp add: pd_trie_insert_def pd_trie_create_def trie_insert.simps [of _ p] trie_insert.simps [of _ "p @ r"] trie_insert.simps [of _ r]
        find_child_def new_leaf_def)
qed

lemma nested_remove:
  assumes "p \<noteq> []" "r \<noteq> []" "0 \<le> ep"
  shows "pd_trie_remove_ep ok \<lparr>pt_root = Node [] (-1) 0 [(hd p, Node p ep now [(hd r, Node r ep now' [])])], pt_node_count = 3\<rparr> ep =
    \<lparr>pt_root = Node [] (-1) 0 [(hd p, Node p (-1) now [])], pt_node_count = 2\<rparr>"
proof -
  have "trie_unlink b False r (Node p (-1) now [(hd r, Node r (-1) now' [])]) = (Node p (-1) now [], 1)" for b
    using assms(2) by (simp add: trie_unlink.simps [of _ _ r] find_child_def merge_with_single_child_def)
  then have "trie_unlink b True (p @ r) (Node [] (-1) 0 [(hd p, Node p (-1) now [(hd r, Node r (-1) now' [])])]) =
      (Node [] (-1) 0 [(hd p, Node p (-1) now [])], 1)" for b
    using assms(1,2) by (simp add: trie_unlink.simps [of _ _ "p @ r"] find_child_def)
  with assms show ?thesis by (simp add: pd_trie_remove_ep_def drop_victim_def MAX_PRUNE_BATCH_def)
qed

section \<open>Properties\<close>

text \<open>
  C23: a lookup returns the endpoint of the longest prefix of the text that has one, with the length of
  that prefix, as the search over all prefixes does; it changes no entry and keeps the trie well formed.
\<close>

theorem trie_match_is_longest:
  assumes "pd_trie_ok t" "tx \<noteq> []"
  shows "fst (pd_trie_match t tx now) = longest_match (stored t) tx \<and> pd_trie_ok (snd (pd_trie_match t tx now)) \<and>
    stored (snd (pd_trie_match t tx now)) = stored t"
  by (rule pd_trie_match_ok [OF assms])


text \<open>
  C25: the removal of an endpoint takes exactly its entries, and whatever operations follow, no lookup
  returns the endpoint again before an insertion brings it back.
\<close>

theorem removed_endpoint_stays_away:
  assumes "pd_trie_ok t" "\<forall>x \<in> set xs. ep \<notin> trie_gives x"
  shows "(\<forall>p. stored (pd_trie_remove_ep ok t ep) p = (if stored t p = Some ep then None else stored t p)) \<and>
    fst (pd_trie_match (fold trie_run xs (pd_trie_remove_ep ok t ep)) tx now) \<noteq> Some (ep, k)"
proof -
  let ?t = "pd_trie_remove_ep ok t ep"
  note R = pd_trie_remove_ep_ok [OF assms(1), of ok ep]
  have "ep \<notin> trie_eps ?t" by (auto simp: trie_eps_def R(2) split: if_splits)
  from trie.gone_stays_away [OF R(1) this assms(2)]
  have "fst (pd_trie_match (fold trie_run xs ?t) tx now) \<noteq> Some (ep, k)"
    using trie_match_eps trie.fold_run [OF R(1)] by blast
  then show ?thesis using R(2) by simp
qed

text \<open>
  C26: an eviction ends after at most as many rounds as the trie has nodes. It only takes entries away,
  stops at the cap or when no leaf with an endpoint is left, leaves a trie within its cap alone, and goes
  at most one node below the cap. Its next victim is always a leaf that no other leaf was used before.
\<close>

theorem trie_evict_ends:
  assumes "pd_trie_ok t" "nodes (pt_root t) \<le> fuel"
  shows "(\<exists>t'. pd_trie_evict_lru fuel ok t max_nodes = Some t' \<and> pd_trie_ok t' \<and>
      (\<forall>p. stored t' p = stored t p \<or> stored t' p = None) \<and>
      (pd_trie_node_count t' \<le> max_nodes \<or> leaves [] (pt_root t') = []) \<and>
      (pd_trie_node_count t \<le> max_nodes \<and> t' = t \<or> unat max_nodes \<le> nodes (pt_root t') + 1)) \<and>
    (\<forall>v ts. find_oldest_leaf [] (pt_root t) None = Some (v, ts) \<longrightarrow>
      (v, ts) \<in> set (leaves [] (pt_root t)) \<and> (\<forall>x \<in> set (leaves [] (pt_root t)). ts \<le> snd x) \<and> stored t v \<noteq> None)"
  using evict_loop_ok [OF assms, of ok max_nodes] oldest_leaf [OF assms(1)]
  by (simp add: pd_trie_evict_lru_def pd_trie_node_count_def)

text \<open>
  C27: the removal of an endpoint can leave a leaf without an endpoint behind. When an endpoint is stored
  for any text and for any longer text it begins, and nothing else is stored, its removal leaves no entry
  but one childless node besides the root, and no eviction ever takes it, whatever its cap: an eviction
  looks for leaves with an endpoint only.
\<close>

theorem removal_leaves_dead_leaf:
  assumes "p \<noteq> []" "r \<noteq> []" "0 \<le> ep"
    and "t = pd_trie_remove_ep ok (pd_trie_insert mem_ok (pd_trie_insert mem_ok pd_trie_create p ep now) (p @ r) ep now') ep"
  shows "(\<forall>tx. stored t tx = None) \<and> kids (pt_root t) = [(hd p, Node p (-1) now [])] \<and> pd_trie_node_count t = 2 \<and>
    (\<forall>fuel ok' cap. pd_trie_evict_lru fuel ok' t cap = Some t)"
proof -
  let ?n = "Node p ep now [(hd r, Node r ep now' [])]"
  have two: "pd_trie_insert mem_ok (pd_trie_insert mem_ok pd_trie_create p ep now) (p @ r) ep now' =
      \<lparr>pt_root = Node [] (-1) 0 [(hd p, ?n)], pt_node_count = 3\<rparr>"
    using nested_insert [OF assms(1,2)] .
  have t: "t = \<lparr>pt_root = Node [] (-1) 0 [(hd p, Node p (-1) now [])], pt_node_count = 2\<rparr>"
    unfolding assms(4) two using nested_remove [OF assms(1-3)] .
  have ok: "pd_trie_ok t" using assms(1) by (simp add: t pd_trie_ok_def)
  have none: "stored t tx = None" for tx
    using assms(1) by (cases tx) (simp_all add: t entry_Cons find_child_def below_leaf)
  have "pd_trie_evict_lru fuel ok' t cap = Some t" for fuel ok' cap by (rule evict_nothing_stored [OF ok none])
  with none show ?thesis by (simp add: t pd_trie_node_count_def)
qed

subsection \<open>Witnesses\<close>

definition sample_trie :: pd_trie where
  "sample_trie = \<lparr>pt_root = Node [] (-1) 0 [(CHR ''a'', Node ''ab'' 5 1 [(CHR ''c'', Node ''c'' 7 2 [])])], pt_node_count = 3\<rparr>"

lemma sample_trie_ok: "pd_trie_ok sample_trie" "nodes (pt_root sample_trie) \<le> 3"
  by (simp_all add: pd_trie_ok_def sample_trie_def)

theorem trie_match_is_longest_witness:
  "longest_match (stored sample_trie) ''abd'' = Some (5, 2) \<and> fst (pd_trie_match sample_trie ''abd'' 9) = Some (5, 2)"
proof -
  have "longest_match (stored sample_trie) ''abd'' = Some (5, 2)" by code_simp
  then show ?thesis using trie_match_is_longest [OF sample_trie_ok(1), of "''abd''" 9] by simp
qed


theorem removal_leaves_dead_leaf_witness:
  "kids (pt_root (pd_trie_remove_ep (\<lambda>_. True) (pd_trie_insert mem_ok (pd_trie_insert mem_ok pd_trie_create ''ab'' 5 1) ''abc'' 5 2) 5)) =
     [(CHR ''a'', Node ''ab'' (-1) 1 [])]"
  using removal_leaves_dead_leaf [of "''ab''" "''c''" 5 _ "\<lambda>_. True" 1 2] by simp

theorem removed_endpoint_stays_away_witness:
  "fst (pd_trie_match (fold trie_run [T_insert ''abx'' 7 9] (pd_trie_remove_ep (\<lambda>_. True) sample_trie 5)) ''ab'' 9) \<noteq> Some (5, 2)"
  using removed_endpoint_stays_away [OF sample_trie_ok(1), of "[T_insert ''abx'' 7 9]" 5 "\<lambda>_. True" "''ab''" 9 2] by simp

theorem trie_evict_ends_witness: "\<exists>t'. pd_trie_evict_lru 3 (\<lambda>_. True) sample_trie 2 = Some t' \<and> pd_trie_ok t'"
  using trie_evict_ends [OF sample_trie_ok, of "\<lambda>_. True" 2] by blast

end
