(* ===== verification/DP_Types.thy ===== *)
theory DP_Types
  imports FC_Prelude
begin

text \<open>
  The packet metadata and the tables of the kernel datapath, from \<open>common/llb_dp_mdi.h\<close> and
  \<open>common/llb_dpapi.h\<close>: the fields that load balancing, connection tracking and policing read or write.
  A struct is a record with the prefix of its place in \<open>struct xfi\<close>; a bit field that only ever holds a
  truth value is a \<open>bool\<close>. An address is the array of four 32-bit words of the code, in network order.
  The members of the union of protocol states are fields of their own: an entry is only ever used with
  the protocol of its key. A map of the kernel is a partial function; the datapath runs to completion on
  a packet, and the spin locks make each counter update atomic.
\<close>

section \<open>Words of sixteen bits\<close>

lemma u16_less: "unat (x :: u16) < 65536"
  using unsigned_less [of x, where ?'a = nat] by simp

lemma unat_u16_u32 [simp]: "unat (ucast (x :: u16) :: u32) = unat x"
  using u16_less [of x] by (simp add: unsigned_ucast_eq take_bit_nat_eq_self_iff)

lemma unat_u32_u16: "unat (x :: u32) < 65536 \<Longrightarrow> unat (ucast x :: u16) = unat x"
  by (simp add: unsigned_ucast_eq take_bit_nat_eq_self_iff)

lemma u16_u32_id: "unat (x :: u32) < 65536 \<Longrightarrow> ucast (ucast x :: u16) = x"
  by (simp add: word_unat_eq_iff unat_u32_u16)

section \<open>Addresses and byte order\<close>

type_synonym xaddr = "u32 \<times> u32 \<times> u32 \<times> u32"

definition xaddr0 :: "xaddr \<Rightarrow> u32" where
  "xaddr0 a = fst a"

definition xaddr0_set :: "u32 \<Rightarrow> xaddr \<Rightarrow> xaddr" where
  "xaddr0_set v a = (v, snd a)"

definition DP_XADDR_SETZR :: xaddr where
  "DP_XADDR_SETZR = (0, 0, 0, 0)"

definition DP_XADDR_ISZR :: "xaddr \<Rightarrow> bool" where
  "DP_XADDR_ISZR a \<longleftrightarrow> (case a of (a0, a1, a2, a3) \<Rightarrow> a0 = 0 \<and> a1 = 0 \<and> a2 = 0 \<and> a3 = 0)"

lemma xaddr_zero [simp]: "DP_XADDR_ISZR a \<longleftrightarrow> a = DP_XADDR_SETZR"
  by (cases a) (simp add: DP_XADDR_ISZR_def DP_XADDR_SETZR_def)

text \<open>The targets are little-endian: the conversions swap the bytes.\<close>

definition bpf_ntohs :: "u16 \<Rightarrow> u16" where
  "bpf_ntohs x = push_bit 8 x OR drop_bit 8 x"

definition bpf_ntohl :: "u32 \<Rightarrow> u32" where
  "bpf_ntohl x = push_bit 24 x OR push_bit 8 (x AND 0xff00) OR (drop_bit 8 x AND 0xff00) OR drop_bit 24 x"

definition ETH_P_IP :: u16 where "ETH_P_IP = 0x0800"
definition ETH_P_IPV6 :: u16 where "ETH_P_IPV6 = 0x86DD"

definition IPPROTO_ICMP :: u8 where "IPPROTO_ICMP = 1"
definition IPPROTO_TCP :: u8 where "IPPROTO_TCP = 6"
definition IPPROTO_UDP :: u8 where "IPPROTO_UDP = 17"
definition IPPROTO_ICMPV6 :: u8 where "IPPROTO_ICMPV6 = 58"
definition IPPROTO_SCTP :: u8 where "IPPROTO_SCTP = 132"

lemmas proto_defs = IPPROTO_ICMP_def IPPROTO_TCP_def IPPROTO_UDP_def IPPROTO_ICMPV6_def IPPROTO_SCTP_def

section \<open>Packet metadata\<close>

datatype ct_dir_t = CT_DIR_IN | CT_DIR_OUT

fun other_dir :: "ct_dir_t \<Rightarrow> ct_dir_t" where
  "other_dir CT_DIR_IN = CT_DIR_OUT"
| "other_dir CT_DIR_OUT = CT_DIR_IN"

record dp_l2_mdi =
  l2_dl_type :: u16
  l2_ssnid :: u16

record dp_l34_mdi =
  l34_nw_proto :: u8
  l34_source :: u16
  l34_dest :: u16
  l34_saddr :: xaddr
  l34_daddr :: xaddr

record dp_tun_mdi =
  tm_tun_decap :: u16
  tm_tunnel_id :: u32
  tm_tun_type :: u32

record dp_nat_mdi =
  nm_nxip :: xaddr
  nm_nrip :: xaddr
  nm_pmhh :: "u32 \<times> u32 \<times> u32"
  nm_npmhh :: u64
  nm_nxport :: u16
  nm_sel_aid :: u8
  nm_nv6 :: u8
  nm_dsr :: u8
  nm_ppv2 :: u8
  nm_cdis :: u8
  nm_ito :: u64

record dp_qos_mdi =
  qm_icol :: u8
  qm_ocol :: u8
  qm_rpolid :: u16

record dp_pi_mdi =
  pm_pipe_act :: u8
  pm_phit :: u16
  pm_rcode :: u32
  pm_ppv2 :: bool
  pm_oppv2 :: bool
  pm_ippv2 :: bool
  pm_zone :: u16
  pm_l4_off :: u8
  pm_table_id :: u8
  pm_tcp_flags :: u8
  pm_nf :: u8
  pm_rule_id :: u16
  pm_l3_adj :: int
  pm_l4fin :: bool
  pm_il4fin :: bool
  pm_goct :: bool
  pm_dir :: ct_dir_t
  pm_l3_len :: u16
  pm_dp_mark :: u32
  pm_dp_rec :: u8
  pm_fw_rid :: u16

record xfi =
  xf_l2m :: dp_l2_mdi
  xf_l34m :: dp_l34_mdi
  xf_tm :: dp_tun_mdi
  xf_nm :: dp_nat_mdi
  xf_qm :: dp_qos_mdi
  xf_pm :: dp_pi_mdi

abbreviation nw_proto :: "xfi \<Rightarrow> u8" where "nw_proto xf \<equiv> l34_nw_proto (xf_l34m xf)"

definition LLB_PIPE_DROP :: u8 where "LLB_PIPE_DROP = 0x2"
definition LLB_PIPE_RC_PLERR :: u32 where "LLB_PIPE_RC_PLERR = 0x400"
definition LLB_PIPE_RC_PLCT_ERR :: u32 where "LLB_PIPE_RC_PLCT_ERR = 0x1000"
definition LLB_PIPE_RC_ACT_UNK :: u32 where "LLB_PIPE_RC_ACT_UNK = 0x4000"
definition LLB_PIPE_RC_POL_DRP :: u32 where "LLB_PIPE_RC_POL_DRP = 0x100000"
definition LLB_PIPE_CT_ERR :: u32 where "LLB_PIPE_CT_ERR = 0x8000000"
definition LLB_DP_CTSI_HIT :: u16 where "LLB_DP_CTSI_HIT = 0x100"
definition LLB_DP_CTSO_HIT :: u16 where "LLB_DP_CTSO_HIT = 0x200"
definition LLB_DP_NAT_HIT :: u16 where "LLB_DP_NAT_HIT = 0x400"
definition LLB_NAT_DST :: u8 where "LLB_NAT_DST = 0x01"
definition LLB_NAT_SRC :: u8 where "LLB_NAT_SRC = 0x02"
definition LLB_NAT_HDST :: u8 where "LLB_NAT_HDST = 0x04"
definition LLB_NAT_HSRC :: u8 where "LLB_NAT_HSRC = 0x08"
definition LLB_TCP_FIN :: u8 where "LLB_TCP_FIN = 0x01"
definition LLB_TCP_SYN :: u8 where "LLB_TCP_SYN = 0x02"
definition LLB_TCP_RST :: u8 where "LLB_TCP_RST = 0x04"
definition LLB_TCP_ACK :: u8 where "LLB_TCP_ACK = 0x10"

lemmas nat_flag_defs = LLB_NAT_DST_def LLB_NAT_SRC_def LLB_NAT_HDST_def LLB_NAT_HSRC_def
lemmas tcp_flag_defs = LLB_TCP_FIN_def LLB_TCP_SYN_def LLB_TCP_RST_def LLB_TCP_ACK_def

definition LLBS_PPLN_DROPC :: "u32 \<Rightarrow> xfi \<Rightarrow> xfi" where
  "LLBS_PPLN_DROPC c xf = xf\<lparr>xf_pm := (xf_pm xf)\<lparr>pm_pipe_act := pm_pipe_act (xf_pm xf) OR LLB_PIPE_DROP,
     pm_rcode := pm_rcode (xf_pm xf) OR c\<rparr>\<rparr>"

definition LLB_MAX_NXFRMS :: nat where "LLB_MAX_NXFRMS = 32"
definition LLB_MAX_MHOSTS :: nat where "LLB_MAX_MHOSTS = 3"

section \<open>Actions\<close>

datatype dp_set_act = DP_SET_DROP | DP_SET_SNAT | DP_SET_DNAT | DP_SET_NOP | DP_SET_DO_CT | DP_SET_NACT_SESS | DP_SET_OTHER

text \<open>\<open>DP_SET_OTHER\<close> stands for the actions that the modelled parts treat alike.\<close>

record dp_cmn_act =
  ca_act_type :: dp_set_act
  ca_ftrap :: u8
  ca_oaux :: u16
  ca_cidx :: u32
  ca_fwrid :: u16
  ca_record :: u16

record dp_nat_act =
  na_xip :: xaddr
  na_rip :: xaddr
  na_xport :: u16
  na_doct :: u8
  na_rid :: u32
  na_aid :: u32
  na_nv6 :: u8
  na_dsr :: u8
  na_cdis :: u8
  na_nmh :: u8
  na_ppv2 :: u8
  na_polid :: u16

record mf_xfrm_inf =
  xi_nat_flags :: u8
  xi_inactive :: u8
  xi_nv6 :: u8
  xi_dsr :: u8
  xi_mhon :: u8
  xi_mhs :: u8
  xi_nat_xip :: xaddr
  xi_nat_rip :: xaddr
  xi_nat_xport :: u16
  xi_osp :: u16
  xi_odp :: u16

record dp_nat_epacts =
  ea_act_type :: dp_set_act
  ea_active_sess :: "nat \<Rightarrow> u16"
  ea_conc_conns :: u32
  ea_total_conns :: u32
  ea_cum_bytes_in :: u64
  ea_cum_bytes_out :: u64

end
