(* ===== verification/DP_Nat.thy ===== *)
theory DP_Nat
  imports DP_Types
begin

text \<open>
  Endpoint selection and the load-balancing step of the datapath, \<open>kernel/llb_kern_natlbfwd.c\<close>, as built
  by default (with \<open>HAVE_DP_PERSIST_TFC\<close>, without \<open>HAVE_DP_DPU_SLIM\<close>). The time and the hash that the
  kernel computes over a packet are arguments. A remainder by zero leaves the dividend, as the
  instruction of the virtual machine does and as \<open>mod\<close> does here.
\<close>

section \<open>Rules\<close>

record dp_nat_key =
  nk_daddr :: xaddr
  nk_dport :: u16
  nk_zone :: u16
  nk_mark :: u32
  nk_l4proto :: u16
  nk_v6 :: u16

record dp_proxy_tacts =
  ta_act_type :: dp_set_act
  ta_oaux :: u16
  ta_cidx :: u32
  ta_ito :: u64
  ta_pto :: u64
  ta_nxfrm :: u8
  ta_opflags :: u8
  ta_cdis :: u8
  ta_npmhh :: u8
  ta_sel_hint :: u16
  ta_sel_type :: u8
  ta_ppv2 :: u8
  ta_lts :: u64
  ta_base_to :: u64
  ta_pmhh :: "u32 \<times> u32 \<times> u32"
  ta_nxfrms :: "nat \<Rightarrow> mf_xfrm_inf"
  ta_conn_limit :: u32
  ta_polid :: u16

definition NAT_LB_SEL_RR :: u8 where "NAT_LB_SEL_RR = 0"
definition NAT_LB_SEL_HASH :: u8 where "NAT_LB_SEL_HASH = 1"
definition NAT_LB_SEL_PRIO :: u8 where "NAT_LB_SEL_PRIO = 2"
definition NAT_LB_SEL_RR_PERSIST :: u8 where "NAT_LB_SEL_RR_PERSIST = 3"
definition NAT_LB_SEL_LC :: u8 where "NAT_LB_SEL_LC = 4"
definition NAT_LB_SEL_N3 :: u8 where "NAT_LB_SEL_N3 = 6"
definition NAT_LB_PERSIST_TIMEOUT :: u64 where "NAT_LB_PERSIST_TIMEOUT = 10800000000000"
definition NAT_LB_OP_CHKSRC :: u8 where "NAT_LB_OP_CHKSRC = 1"
definition LL_DP_NAT_MAP :: u8 where "LL_DP_NAT_MAP = 23"
definition LLB_TUN_GTP :: u32 where "LLB_TUN_GTP = 2"
definition LLB_MARK_NAT :: u32 where "LLB_MARK_NAT = 0x80000000"
definition LLB_MARK_SRC :: u32 where "LLB_MARK_SRC = 0x40000000"
definition LLB_MARK_SNAT_EGR :: u32 where "LLB_MARK_SNAT_EGR = 0x20000000"

lemmas sel_type_defs = NAT_LB_SEL_RR_def NAT_LB_SEL_HASH_def NAT_LB_SEL_PRIO_def NAT_LB_SEL_RR_PERSIST_def NAT_LB_SEL_LC_def NAT_LB_SEL_N3_def

type_synonym nat_ep_map = "u32 \<rightharpoonup> dp_nat_epacts"

definition dp_do_dec_nat_sess :: "u32 \<Rightarrow> u16 \<Rightarrow> nat_ep_map \<Rightarrow> nat_ep_map" where
  "dp_do_dec_nat_sess rule aid m =
     (case m rule of
        None \<Rightarrow> m
      | Some epa \<Rightarrow>
        if ea_act_type epa = DP_SET_NACT_SESS \<and> unat aid < LLB_MAX_NXFRMS
        then m(rule \<mapsto> epa\<lparr>ea_active_sess := (ea_active_sess epa)(unat aid := ea_active_sess epa (unat aid) - 1)\<rparr>)
        else m)"

section \<open>Selection\<close>

text \<open>\<open>0xffff\<close> is "no endpoint".\<close>

definition SEL_NONE :: u16 where "SEL_NONE = 0xffff"

abbreviation ep_active :: "dp_proxy_tacts \<Rightarrow> nat \<Rightarrow> bool" where "ep_active act i \<equiv> xi_inactive (ta_nxfrms act i) = 0"

fun rr_scan :: "(nat \<Rightarrow> bool) \<Rightarrow> nat \<Rightarrow> nat \<Rightarrow> nat option" where
  "rr_scan active 0 i = None"
| "rr_scan active (Suc n) i =
     (if i < LLB_MAX_NXFRMS \<and> active i then Some i
      else rr_scan active n (if LLB_MAX_NXFRMS \<le> i + 1 then 0 else i + 1))"

definition sel_rr :: "dp_proxy_tacts \<Rightarrow> u16 \<times> dp_proxy_tacts" where
  "sel_rr act =
     (case rr_scan (ep_active act) LLB_MAX_NXFRMS (unat (ta_sel_hint act)) of
        None \<Rightarrow> (SEL_NONE, act)
      | Some i \<Rightarrow> (of_nat i, act\<lparr>ta_sel_hint := of_nat ((i + 1) mod LLB_MAX_NXFRMS)\<rparr>))"

text \<open>The first endpoint that is active; \<open>d\<close> when there is none.\<close>

definition first_active :: "dp_proxy_tacts \<Rightarrow> u16 \<Rightarrow> u16" where
  "first_active act d = (case find (ep_active act) [0..<LLB_MAX_NXFRMS] of None \<Rightarrow> d | Some i \<Rightarrow> of_nat i)"

abbreviation sel_bad :: "dp_proxy_tacts \<Rightarrow> u16 \<Rightarrow> bool" where
  "sel_bad act sel \<equiv> unat sel < LLB_MAX_NXFRMS \<and> \<not> ep_active act (unat sel)"

definition sel_hash :: "u32 \<Rightarrow> dp_proxy_tacts \<Rightarrow> u16" where
  "sel_hash hash act =
     (let sel = ucast (hash mod ucast (ta_nxfrm act)) in if sel_bad act sel then first_active act SEL_NONE else sel)"

definition dp_get_tun_hash :: "xfi \<Rightarrow> u32" where
  "dp_get_tun_hash xf = (drop_bit 16 (tm_tunnel_id (xf_tm xf)) AND 0xffff) XOR (tm_tunnel_id (xf_tm xf) AND 0xffff)"

definition sel_n3 :: "xfi \<Rightarrow> dp_proxy_tacts \<Rightarrow> u16" where
  "sel_n3 xf act =
     (if tm_tun_type (xf_tm xf) = LLB_TUN_GTP
      then let sel = ucast (dp_get_tun_hash xf mod ucast (ta_nxfrm act)) in if sel_bad act sel then first_active act sel else sel
      else SEL_NONE)"

text \<open>The two octet pairs of the source address that the persistent selection hashes, with the time slot.\<close>

definition persist_hash :: "nat \<Rightarrow> nat \<Rightarrow> xfi \<Rightarrow> u64 \<Rightarrow> u16" where
  "persist_hash a b xf tfc =
     (let s = ucast (xaddr0 (l34_saddr (xf_l34m xf))) :: u64
      in ucast ((drop_bit a s AND 0xff) XOR (drop_bit b s AND 0xff) XOR (tfc AND 0xff)))"

definition sel_persist :: "u64 \<Rightarrow> xfi \<Rightarrow> dp_proxy_tacts \<Rightarrow> u16 \<times> dp_proxy_tacts" where
  "sel_persist now xf act =
     (let base = (if ta_base_to act = 0 \<or> now - ta_lts act > ta_pto act then now else ta_base_to act);
          pto = (if ta_pto act \<noteq> 0 then ta_pto act else NAT_LB_PERSIST_TIMEOUT);
          tfc = base div pto;
          n = ucast (ta_nxfrm act);
          act = act\<lparr>ta_base_to := base, ta_pto := pto, ta_lts := now\<rparr>;
          sel = persist_hash 0 24 xf tfc mod n
      in if sel_bad act sel
         then let sel = persist_hash 8 16 xf tfc mod n in (if sel_bad act sel then first_active act sel else sel, act)
         else (sel, act))"

text \<open>The least loaded active endpoint of the first half of the table, the first one of them.\<close>

fun lc_scan :: "(nat \<Rightarrow> bool) \<Rightarrow> (nat \<Rightarrow> u16) \<Rightarrow> nat list \<Rightarrow> (nat \<times> u32) option \<Rightarrow> (nat \<times> u32) option" where
  "lc_scan active load [] best = best"
| "lc_scan active load (i # is') best =
     lc_scan active load is'
       (if active i
        then (case best of None \<Rightarrow> Some (i, ucast (load i)) | Some (_, lc) \<Rightarrow> if ucast (load i) < lc then Some (i, ucast (load i)) else best)
        else best)"

definition sel_lc :: "dp_proxy_tacts \<Rightarrow> nat_ep_map \<Rightarrow> u16 \<times> nat_ep_map" where
  "sel_lc act m =
     (let key = ucast (ucast (ta_cidx act) :: u16)
      in case m key of
           None \<Rightarrow> (SEL_NONE, m)
         | Some epa \<Rightarrow>
           let epa = epa\<lparr>ea_act_type := DP_SET_NACT_SESS\<rparr>
           in case lc_scan (ep_active act) (ea_active_sess epa) [0..<LLB_MAX_NXFRMS div 2] None of
                None \<Rightarrow> (SEL_NONE, m(key \<mapsto> epa))
              | Some (i, _) \<Rightarrow>
                (of_nat i, m(key \<mapsto> epa\<lparr>ea_active_sess := (ea_active_sess epa)(i := ea_active_sess epa i + 1)\<rparr>)))"

definition dp_sel_nat_ep ::
  "u64 \<Rightarrow> u32 \<Rightarrow> xfi \<Rightarrow> dp_proxy_tacts \<Rightarrow> nat_ep_map \<Rightarrow> u16 \<times> dp_proxy_tacts \<times> nat_ep_map" where
  "dp_sel_nat_ep now hash xf act m =
     (if ta_sel_type act = NAT_LB_SEL_RR \<or> ta_sel_type act = NAT_LB_SEL_PRIO
      then let (sel, act) = sel_rr act in (sel, act, m)
      else if ta_sel_type act = NAT_LB_SEL_HASH then (sel_hash hash act, act, m)
      else if ta_sel_type act = NAT_LB_SEL_N3 then (sel_n3 xf act, act, m)
      else if ta_sel_type act = NAT_LB_SEL_RR_PERSIST
      then let (sel, act) = sel_persist now xf act in (sel, act, m)
      else if ta_sel_type act = NAT_LB_SEL_LC
      then let (sel, m) = sel_lc act m in (sel, act, m)
      else (SEL_NONE, act, m))"

section \<open>The load-balancing step\<close>

definition nat_key_of :: "xfi \<Rightarrow> dp_nat_key" where
  "nat_key_of xf =
     (let mark = pm_dp_mark (xf_pm xf)
      in if mark AND LLB_MARK_NAT \<noteq> 0
         then \<lparr>nk_daddr = DP_XADDR_SETZR, nk_dport = 0, nk_zone = 0, nk_mark = mark, nk_l4proto = 0, nk_v6 = 0\<rparr>
         else \<lparr>nk_daddr = l34_daddr (xf_l34m xf),
               nk_dport = (if nw_proto xf \<noteq> IPPROTO_ICMP then l34_dest (xf_l34m xf) else 0),
               nk_zone = pm_zone (xf_pm xf),
               nk_mark = (if mark AND (LLB_MARK_SRC OR LLB_MARK_SNAT_EGR OR LLB_MARK_NAT) \<noteq> 0 then 0 else mark),
               nk_l4proto = ucast (nw_proto xf),
               nk_v6 = (if l2_dl_type (xf_l2m xf) = bpf_ntohs ETH_P_IPV6 then 1 else 0)\<rparr>)"

definition conn_limit_hit :: "dp_proxy_tacts \<Rightarrow> nat_ep_map \<Rightarrow> bool" where
  "conn_limit_hit act m \<longleftrightarrow> ta_conn_limit act \<noteq> 0 \<and>
     (case m (ta_cidx act) of None \<Rightarrow> False | Some epa \<Rightarrow> ea_conc_conns epa \<ge> ta_conn_limit act)"

text \<open>The bit of the packet's mark that a rule with a source check asks for.\<close>

definition chksrc_bit :: "dp_proxy_tacts \<Rightarrow> u32" where
  "chksrc_bit act = push_bit (unat (ta_cidx act) mod 32) 1 AND 0xffffff"

text \<open>The rule's properties are noted for the packet, and then the endpoint, if there is one.\<close>

definition nat_note_rule :: "dp_proxy_tacts \<Rightarrow> xfi \<Rightarrow> xfi" where
  "nat_note_rule act xf = xf\<lparr>
     xf_nm := (xf_nm xf)\<lparr>nm_dsr := (if ta_oaux act \<noteq> 0 then 1 else 0), nm_cdis := (if ta_cdis act \<noteq> 0 then 1 else 0),
       nm_ppv2 := (if ta_ppv2 act \<noteq> 0 then 1 else 0), nm_npmhh := ucast (ta_npmhh act), nm_pmhh := ta_pmhh act\<rparr>,
     xf_pm := (xf_pm xf)\<lparr>pm_nf := (if ta_act_type act = DP_SET_SNAT then LLB_NAT_SRC else LLB_NAT_DST),
       pm_dp_mark := pm_dp_mark (xf_pm xf) AND NOT LLB_MARK_SNAT_EGR\<rparr>\<rparr>"

definition nat_note_ep :: "dp_proxy_tacts \<Rightarrow> u16 \<Rightarrow> xfi \<Rightarrow> xfi" where
  "nat_note_ep act sel xf =
     (let e = ta_nxfrms act (unat sel);
          nv6 = (if xi_nv6 e \<noteq> 0 then 1 else 0);
          xip = (if nv6 = 0 \<and> xaddr0 (l34_saddr (xf_l34m xf)) = xaddr0 (xi_nat_xip e) \<and> pm_nf (xf_pm xf) = LLB_NAT_DST
                 then xaddr0_set 0 (xi_nat_xip e) else xi_nat_xip e)
      in xf\<lparr>xf_nm := (xf_nm xf)\<lparr>nm_nxip := xip, nm_nrip := xi_nat_rip e, nm_nxport := xi_nat_xport e, nm_nv6 := nv6,
              nm_sel_aid := ucast sel, nm_ito := ta_ito act\<rparr>,
            xf_pm := (xf_pm xf)\<lparr>pm_rule_id := ucast (ta_cidx act)\<rparr>,
            xf_qm := (xf_qm xf)\<lparr>qm_rpolid := ta_polid act\<rparr>\<rparr>)"

definition dp_do_nat ::
  "u64 \<Rightarrow> u32 \<Rightarrow> xfi \<Rightarrow> (dp_nat_key \<rightharpoonup> dp_proxy_tacts) \<Rightarrow> nat_ep_map \<Rightarrow>
   int \<times> xfi \<times> (dp_nat_key \<rightharpoonup> dp_proxy_tacts) \<times> nat_ep_map" where
  "dp_do_nat now hash xf nat_map m =
     (if pm_l4fin (xf_pm xf) \<or> pm_il4fin (xf_pm xf) then (0, xf, nat_map, m)
      else
        let key = nat_key_of xf; xf = xf\<lparr>xf_pm := (xf_pm xf)\<lparr>pm_table_id := LL_DP_NAT_MAP\<rparr>\<rparr>
        in case nat_map key of
             None \<Rightarrow> (0, xf\<lparr>xf_pm := (xf_pm xf)\<lparr>pm_nf := pm_nf (xf_pm xf) AND NOT LLB_NAT_SRC\<rparr>\<rparr>, nat_map, m)
           | Some act \<Rightarrow>
             let xf = xf\<lparr>xf_pm := (xf_pm xf)\<lparr>pm_phit := pm_phit (xf_pm xf) OR LLB_DP_NAT_HIT\<rparr>\<rparr>
             in if ta_opflags act AND NAT_LB_OP_CHKSRC \<noteq> 0 \<and> pm_dp_mark (xf_pm xf) AND chksrc_bit act = 0
                then (1, LLBS_PPLN_DROPC LLB_PIPE_RC_ACT_UNK xf, nat_map, m)
                else if ta_act_type act = DP_SET_SNAT \<or> ta_act_type act = DP_SET_DNAT
                then let (sel, act', m) = dp_sel_nat_ep now hash xf act m;
                         sel = (if conn_limit_hit act' m then SEL_NONE else sel);
                         xf = nat_note_rule act' xf
                     in (1, if unat sel < LLB_MAX_NXFRMS then nat_note_ep act' sel xf
                            else xf\<lparr>xf_pm := (xf_pm xf)\<lparr>pm_nf := 0\<rparr>\<rparr>,
                         nat_map(key \<mapsto> act'), m)
                else (1, LLBS_PPLN_DROPC LLB_PIPE_RC_ACT_UNK xf, nat_map, m))"

section \<open>Round robin\<close>

lemma nxfrms_pos [simp]: "0 < LLB_MAX_NXFRMS"
  by (simp add: LLB_MAX_NXFRMS_def)

lemma unat_of_nxfrm: "i < LLB_MAX_NXFRMS \<Longrightarrow> unat (of_nat i :: u16) = i"
  by (simp add: unat_of_nat LLB_MAX_NXFRMS_def)

text \<open>The endpoints in the order of the walk from a position, and the walk as a search in them.\<close>

definition rr_order :: "nat \<Rightarrow> nat list" where
  "rr_order h = rotate h [0..<LLB_MAX_NXFRMS]"

lemma rr_order_step:
  assumes "h < LLB_MAX_NXFRMS"
  shows "rr_order h = h # tl (rr_order h)" "rr_order ((h + 1) mod LLB_MAX_NXFRMS) = tl (rr_order h) @ [h]"
proof -
  have "hd (rr_order h) = h" using assms by (simp add: rr_order_def hd_rotate_conv_nth)
  moreover have ne: "rr_order h \<noteq> []" using assms by (auto simp: rr_order_def)
  ultimately show 1: "rr_order h = h # tl (rr_order h)" by (metis list.collapse)
  have "rr_order ((h + 1) mod LLB_MAX_NXFRMS) = rotate (Suc h) [0..<LLB_MAX_NXFRMS]"
    using rotate_conv_mod [of "Suc h" "[0..<LLB_MAX_NXFRMS]"] by (simp add: rr_order_def)
  also have "\<dots> = rotate1 (rr_order h)" by (simp add: rr_order_def)
  also have "\<dots> = tl (rr_order h) @ [h]" using 1 by (metis rotate1.simps(2))
  finally show "rr_order ((h + 1) mod LLB_MAX_NXFRMS) = tl (rr_order h) @ [h]" .
qed

lemma length_rr_order [simp]: "length (rr_order h) = LLB_MAX_NXFRMS"
  by (simp add: rr_order_def)

lemma set_rr_order: "set (rr_order h) = {0..<LLB_MAX_NXFRMS}"
  by (simp add: rr_order_def)

lemma distinct_rr_order: "distinct (rr_order h)"
  by (simp add: rr_order_def)

lemma rr_scan_find:
  assumes "h < LLB_MAX_NXFRMS" "n \<le> LLB_MAX_NXFRMS" shows "rr_scan P n h = find P (take n (rr_order h))"
  using assms
proof (induction n arbitrary: h)
  case (Suc n)
  let ?h = "(h + 1) mod LLB_MAX_NXFRMS"
  have nx: "(if LLB_MAX_NXFRMS \<le> h + 1 then 0 else h + 1) = ?h"
    using Suc.prems(1) by (cases "h + 1 = LLB_MAX_NXFRMS") auto
  have "length (tl (rr_order h)) = LLB_MAX_NXFRMS - 1" by (simp add: rr_order_def)
  then have "take n (rr_order ?h) = take n (tl (rr_order h))" using Suc.prems rr_order_step(2) [of h] by simp
  moreover have "take (Suc n) (rr_order h) = h # take n (tl (rr_order h))" using rr_order_step(1) [OF Suc.prems(1)] by (metis take_Suc_Cons)
  moreover have "rr_scan P n ?h = find P (take n (rr_order ?h))" using Suc.prems by (intro Suc.IH) simp_all
  ultimately show ?case using Suc.prems(1) nx by simp
qed simp

text \<open>The walk takes the first active endpoint, and the next walk starts behind it.\<close>

lemma rr_order_after:
  assumes "rr_order h = us @ x # vs" "h < LLB_MAX_NXFRMS" shows "rr_order ((x + 1) mod LLB_MAX_NXFRMS) = vs @ us @ [x]"
proof -
  let ?n = "LLB_MAX_NXFRMS"
  have "length (us @ x # vs) = ?n" using length_rr_order [of h] unfolding assms(1) .
  then have len: "length us < ?n" by simp
  have "rr_order h ! length us = (h + length us) mod ?n"
    using len by (simp add: rr_order_def nth_rotate)
  then have x: "x = (h + length us) mod ?n" using assms(1) by simp
  have "rr_order ((x + 1) mod ?n) = rotate (Suc (h + length us)) [0..<?n]"
    using rotate_conv_mod [of "Suc (h + length us)" "[0..<?n]"] by (simp add: rr_order_def x mod_Suc_eq)
  also have "\<dots> = rotate (Suc (length us)) (rr_order h)" by (simp add: rr_order_def rotate_rotate add.commute)
  also have "\<dots> = rotate1 (rotate (length us) (us @ x # vs))" by (simp add: assms(1))
  also have "\<dots> = vs @ us @ [x]" by (simp add: rotate_append)
  finally show ?thesis .
qed

lemma find_skip: "\<forall>u \<in> set us. \<not> P u \<Longrightarrow> P x \<Longrightarrow> find P (us @ x # vs) = Some x"
  by (induction us) auto

lemma rr_scan_first:
  assumes "h < LLB_MAX_NXFRMS" "filter P (rr_order h) = x # xs"
  shows "rr_scan P LLB_MAX_NXFRMS h = Some x" "x < LLB_MAX_NXFRMS" "filter P (rr_order ((x + 1) mod LLB_MAX_NXFRMS)) = xs @ [x]"
proof -
  obtain us vs where u: "rr_order h = us @ x # vs" "\<forall>u \<in> set us. \<not> P u" "P x" "xs = filter P vs"
    using assms(2) unfolding filter_eq_Cons_iff by blast
  then have "find P (rr_order h) = Some x" by (simp add: find_skip)
  then show "rr_scan P LLB_MAX_NXFRMS h = Some x" using rr_scan_find [OF assms(1), of LLB_MAX_NXFRMS P] by (simp add: rr_order_def)
  have "x \<in> set (rr_order h)" by (simp add: u(1))
  then show "x < LLB_MAX_NXFRMS" by (simp add: set_rr_order)
  show "filter P (rr_order ((x + 1) mod LLB_MAX_NXFRMS)) = xs @ [x]"
    unfolding rr_order_after [OF u(1) assms(1)] using u(2-4) by simp
qed

text \<open>A series of selections.\<close>

fun sel_rr_seq :: "nat \<Rightarrow> dp_proxy_tacts \<Rightarrow> u16 list" where
  "sel_rr_seq 0 act = []"
| "sel_rr_seq (Suc n) act = (let (sel, act) = sel_rr act in sel # sel_rr_seq n act)"

lemma sel_rr_first:
  assumes "unat (ta_sel_hint act) < LLB_MAX_NXFRMS" "filter (ep_active act) (rr_order (unat (ta_sel_hint act))) = x # xs"
  obtains act' where "sel_rr act = (of_nat x, act')" "ta_nxfrms act' = ta_nxfrms act" "unat (ta_sel_hint act') < LLB_MAX_NXFRMS"
    "filter (ep_active act') (rr_order (unat (ta_sel_hint act'))) = xs @ [x]" "x < LLB_MAX_NXFRMS"
proof -
  note S = rr_scan_first [OF assms]
  let ?h = "(x + 1) mod LLB_MAX_NXFRMS"
  have h: "unat (of_nat ?h :: u16) = ?h" by (rule unat_of_nxfrm) simp
  show thesis
    by (rule that [of "act\<lparr>ta_sel_hint := of_nat ?h\<rparr>"]) (use S h in \<open>simp_all add: sel_rr_def\<close>)
qed

lemma sel_rr_seq_take:
  assumes "unat (ta_sel_hint act) < LLB_MAX_NXFRMS" "L = filter (ep_active act) (rr_order (unat (ta_sel_hint act)))" "n \<le> length L"
  shows "map unat (sel_rr_seq n act) = take n L"
  using assms
proof (induction n arbitrary: act L)
  case (Suc n)
  have "L \<noteq> []" using Suc.prems(3) by auto
  then obtain x xs where L: "L = x # xs" by (meson neq_Nil_conv)
  obtain act' where a: "sel_rr act = (of_nat x, act')" "unat (ta_sel_hint act') < LLB_MAX_NXFRMS"
    "filter (ep_active act') (rr_order (unat (ta_sel_hint act'))) = xs @ [x]" "x < LLB_MAX_NXFRMS"
    using sel_rr_first [OF Suc.prems(1) Suc.prems(2) [symmetric, unfolded L]] by metis
  have "map unat (sel_rr_seq n act') = take n (xs @ [x])" using Suc.prems(3) L a(3) by (intro Suc.IH [OF a(2)]) simp_all
  then show ?case using a(1,4) Suc.prems(3) L by (simp add: unat_of_nxfrm)
qed simp

section \<open>Least connections\<close>

lemma lc_scan_least:
  assumes "lc_scan P load xs best = r" "\<forall>b. best = Some b \<longrightarrow> snd b = ucast (load (fst b))"
  shows "case r of None \<Rightarrow> best = None \<and> (\<forall>i \<in> set xs. \<not> P i)
    | Some (i, lc) \<Rightarrow> (i \<in> set xs \<and> P i \<or> best = Some (i, lc)) \<and> lc = ucast (load i) \<and>
        (\<forall>j \<in> set xs. P j \<longrightarrow> lc \<le> ucast (load j)) \<and> (\<forall>b. best = Some b \<longrightarrow> lc \<le> snd b)"
  using assms
proof (induction xs arbitrary: best)
  case Nil
  then show ?case by (auto split: option.split)
next
  case (Cons j xs)
  define b' where "b' = (if P j then (case best of None \<Rightarrow> Some (j, ucast (load j))
    | Some (_, lc) \<Rightarrow> if ucast (load j) < lc then Some (j, ucast (load j)) else best) else best)"
  have "lc_scan P load xs b' = r" using Cons.prems(1) by (simp add: b'_def)
  moreover have "\<forall>b. b' = Some b \<longrightarrow> snd b = ucast (load (fst b))"
    using Cons.prems(2) by (auto simp: b'_def split: option.splits if_splits)
  ultimately have IH: "case r of None \<Rightarrow> b' = None \<and> (\<forall>i \<in> set xs. \<not> P i)
    | Some (i, lc) \<Rightarrow> (i \<in> set xs \<and> P i \<or> b' = Some (i, lc)) \<and> lc = ucast (load i) \<and>
        (\<forall>j \<in> set xs. P j \<longrightarrow> lc \<le> ucast (load j)) \<and> (\<forall>b. b' = Some b \<longrightarrow> lc \<le> snd b)" by (rule Cons.IH)
  show ?case
  proof (cases "P j")
    case False
    then have "b' = best" by (simp add: b'_def)
    with IH False show ?thesis by (auto split: option.splits)
  next
    case True
    have "\<exists>y. b' = Some y \<and> (y = (j, ucast (load j)) \<or> best = Some y) \<and> snd y \<le> ucast (load j) \<and> (\<forall>b. best = Some b \<longrightarrow> snd y \<le> snd b)"
      using True by (cases best) (auto simp: b'_def)
    then obtain y where y: "b' = Some y" "y = (j, ucast (load j)) \<or> best = Some y" "snd y \<le> ucast (load j)" "\<forall>b. best = Some b \<longrightarrow> snd y \<le> snd b"
      by blast
    with IH obtain i lc where r: "r = Some (i, lc)" "i \<in> set xs \<and> P i \<or> y = (i, lc)" "lc = ucast (load i)"
      "\<forall>j \<in> set xs. P j \<longrightarrow> lc \<le> ucast (load j)" "lc \<le> snd y" by (auto split: option.splits)
    have "lc \<le> ucast (load j)" "\<forall>b. best = Some b \<longrightarrow> lc \<le> snd b" using r(5) y(3,4) order.trans by blast+
    then show ?thesis using r y(2) True by auto
  qed
qed

lemma sel_lc_least:
  assumes "m (ucast (ucast (ta_cidx act) :: u16)) = Some epa" "j < LLB_MAX_NXFRMS div 2" "ep_active act j"
  shows "\<exists>i < LLB_MAX_NXFRMS div 2. ep_active act i \<and>
    (\<forall>j < LLB_MAX_NXFRMS div 2. ep_active act j \<longrightarrow> ea_active_sess epa i \<le> ea_active_sess epa j) \<and>
    sel_lc act m = (of_nat i, m(ucast (ucast (ta_cidx act) :: u16) \<mapsto>
      epa\<lparr>ea_act_type := DP_SET_NACT_SESS, ea_active_sess := (ea_active_sess epa)(i := ea_active_sess epa i + 1)\<rparr>))"
proof -
  let ?xs = "[0..<LLB_MAX_NXFRMS div 2]" and ?P = "ep_active act" and ?l = "ea_active_sess epa"
  have le: "(ucast (?l i) :: u32) \<le> ucast (?l j) \<longleftrightarrow> ?l i \<le> ?l j" for i j by (simp add: word_le_nat_alt)
  obtain r where r: "lc_scan ?P ?l ?xs None = r" by blast
  from lc_scan_least [OF r] assms(2,3) obtain i lc where i: "r = Some (i, lc)" "i < LLB_MAX_NXFRMS div 2" "?P i"
    "\<forall>j < LLB_MAX_NXFRMS div 2. ?P j \<longrightarrow> ?l i \<le> ?l j"
    by (auto simp: le split: option.splits)
  have "sel_lc act m = (of_nat i, m(ucast (ucast (ta_cidx act) :: u16) \<mapsto>
      epa\<lparr>ea_act_type := DP_SET_NACT_SESS, ea_active_sess := ?l(i := ?l i + 1)\<rparr>))"
    using r i(1) assms(1) by (simp add: sel_lc_def Let_def)
  with i show ?thesis by blast
qed

section \<open>The connection limit\<close>

lemma dp_sel_nat_ep_act:
  assumes "dp_sel_nat_ep now hash xf act m = (sel, act', m')"
  shows "ta_cidx act' = ta_cidx act" "ta_conn_limit act' = ta_conn_limit act" "ta_act_type act' = ta_act_type act"
  using assms
  by (auto simp: dp_sel_nat_ep_def sel_rr_def sel_persist_def Let_def split: if_splits prod.splits option.splits)

lemma dp_sel_nat_ep_conc:
  assumes "dp_sel_nat_ep now hash xf act m = (sel, act', m')"
  shows "map_option ea_conc_conns (m' k) = map_option ea_conc_conns (m k)"
  using assms
  by (auto simp: dp_sel_nat_ep_def sel_lc_def Let_def split: if_splits prod.splits option.splits)

lemma word_mod_less: "0 < unat y \<Longrightarrow> unat y \<le> k \<Longrightarrow> unat (x mod y :: 'a::len word) < k"
  by (simp add: unat_mod order.strict_trans2 [OF mod_less_divisor])

text \<open>A packet that a rule with endpoints matches and that passes the source check.\<close>

definition nat_hit :: "xfi \<Rightarrow> (dp_nat_key \<rightharpoonup> dp_proxy_tacts) \<Rightarrow> dp_proxy_tacts \<Rightarrow> bool" where
  "nat_hit xf nat_map act \<longleftrightarrow> \<not> pm_l4fin (xf_pm xf) \<and> \<not> pm_il4fin (xf_pm xf) \<and> nat_map (nat_key_of xf) = Some act \<and>
     (ta_opflags act AND NAT_LB_OP_CHKSRC = 0 \<or> pm_dp_mark (xf_pm xf) AND chksrc_bit act \<noteq> 0) \<and> (ta_act_type act = DP_SET_SNAT \<or> ta_act_type act = DP_SET_DNAT)"

lemma dp_do_nat_hit:
  assumes "nat_hit xf nat_map act"
    and "xf1 = xf\<lparr>xf_pm := (xf_pm xf)\<lparr>pm_table_id := LL_DP_NAT_MAP, pm_phit := pm_phit (xf_pm xf) OR LLB_DP_NAT_HIT\<rparr>\<rparr>"
    and "dp_sel_nat_ep now hash xf1 act m = (sel, act', m')"
    and "sel' = (if conn_limit_hit act' m' then SEL_NONE else sel)" "xf2 = nat_note_rule act' xf1"
  shows "dp_do_nat now hash xf nat_map m =
    (1, if unat sel' < LLB_MAX_NXFRMS then nat_note_ep act' sel' xf2 else xf2\<lparr>xf_pm := (xf_pm xf2)\<lparr>pm_nf := 0\<rparr>\<rparr>,
     nat_map(nat_key_of xf \<mapsto> act'), m')"
  using assms by (auto simp: dp_do_nat_def nat_hit_def Let_def)

lemma sel_none: "\<not> unat SEL_NONE < LLB_MAX_NXFRMS"
  by (simp add: SEL_NONE_def LLB_MAX_NXFRMS_def)

lemma nf_nat_note_ep [simp]: "pm_nf (xf_pm (nat_note_ep act sel xf)) = pm_nf (xf_pm xf)"
  by (simp add: nat_note_ep_def Let_def)

text \<open>At the limit of its rule a packet is not translated, and a selection never touches the connection counts.\<close>

lemma dp_do_nat_at_limit:
  assumes "nat_hit xf nat_map act" "ta_conn_limit act \<noteq> 0" "m (ta_cidx act) = Some epa"
    "dp_do_nat now hash xf nat_map m = (r, xf', nat_map', m')"
  shows "ea_conc_conns epa \<ge> ta_conn_limit act \<Longrightarrow> pm_nf (xf_pm xf') = 0"
    "map_option ea_conc_conns (m' k) = map_option ea_conc_conns (m k)"
proof -
  define xf1 where "xf1 = xf\<lparr>xf_pm := (xf_pm xf)\<lparr>pm_table_id := LL_DP_NAT_MAP, pm_phit := pm_phit (xf_pm xf) OR LLB_DP_NAT_HIT\<rparr>\<rparr>"
  obtain sel act' m1 where s: "dp_sel_nat_ep now hash xf1 act m = (sel, act', m1)" by (metis surj_pair)
  note A = dp_sel_nat_ep_act [OF s] and H = dp_do_nat_hit [OF assms(1) xf1_def s HOL.refl HOL.refl] and C = dp_sel_nat_ep_conc [OF s]
  have "map_option ea_conc_conns (m1 (ta_cidx act)) = Some (ea_conc_conns epa)" using C [of "ta_cidx act"] assms(3) by simp
  then have hit: "conn_limit_hit act' m1 \<longleftrightarrow> ea_conc_conns epa \<ge> ta_conn_limit act"
    using A assms(2) by (auto simp: conn_limit_hit_def)
  show "ea_conc_conns epa \<ge> ta_conn_limit act \<Longrightarrow> pm_nf (xf_pm xf') = 0"
    using assms(4) hit sel_none unfolding H by auto
  show "map_option ea_conc_conns (m' k) = map_option ea_conc_conns (m k)" using assms(4) C [of k] unfolding H by simp
qed

section \<open>Properties\<close>

text \<open>
  C28: round robin is fair. A round of as many selections as there are active endpoints takes every active
  endpoint exactly once, wherever the round starts.
\<close>

theorem rr_round_fair:
  assumes "unat (ta_sel_hint act) < LLB_MAX_NXFRMS" "n = card {i. i < LLB_MAX_NXFRMS \<and> ep_active act i}"
  shows "distinct (map unat (sel_rr_seq n act)) \<and> set (map unat (sel_rr_seq n act)) = {i. i < LLB_MAX_NXFRMS \<and> ep_active act i}"
proof -
  define L where "L = filter (ep_active act) (rr_order (unat (ta_sel_hint act)))"
  have s: "set L = {i. i < LLB_MAX_NXFRMS \<and> ep_active act i}" "distinct L"
    by (auto simp: L_def set_rr_order distinct_rr_order)
  then have "n = length L" using assms(2) distinct_card by metis
  then show ?thesis using sel_rr_seq_take [OF assms(1) L_def, of n] s by simp
qed

text \<open>
  C29: the least-connections selection takes an active endpoint of the first half of the table with no more
  sessions than any other active one, and counts one session more for that endpoint and nothing else.
\<close>

theorem lc_picks_least:
  assumes "ta_sel_type act = NAT_LB_SEL_LC" "m (ucast (ucast (ta_cidx act) :: u16)) = Some epa"
    "j < LLB_MAX_NXFRMS div 2" "ep_active act j"
  shows "\<exists>i < LLB_MAX_NXFRMS div 2. ep_active act i \<and>
    (\<forall>j < LLB_MAX_NXFRMS div 2. ep_active act j \<longrightarrow> ea_active_sess epa i \<le> ea_active_sess epa j) \<and>
    dp_sel_nat_ep now hash xf act m = (of_nat i, act, m(ucast (ucast (ta_cidx act) :: u16) \<mapsto>
      epa\<lparr>ea_act_type := DP_SET_NACT_SESS, ea_active_sess := (ea_active_sess epa)(i := ea_active_sess epa i + 1)\<rparr>))"
  using sel_lc_least [of m act, OF assms(2-4)] assms(1) by (auto simp: dp_sel_nat_ep_def sel_type_defs)

text \<open>
  C30: a packet that a rule matches is translated only while the rule has fewer connections than its limit;
  at the limit it is not, but with the least-connections selection the session counter of the endpoint
  that the packet is denied has already gone up.
\<close>

theorem limit_gate:
  assumes "nat_hit xf nat_map act" "ta_conn_limit act \<noteq> 0" "ta_cidx act < 65536" "m (ta_cidx act) = Some epa"
    "dp_do_nat now hash xf nat_map m = (r, xf', nat_map', m')"
  shows "(pm_nf (xf_pm xf') \<noteq> 0 \<longrightarrow> ea_conc_conns epa < ta_conn_limit act) \<and>
    (ta_sel_type act = NAT_LB_SEL_LC \<and> ea_conc_conns epa \<ge> ta_conn_limit act \<and> j < LLB_MAX_NXFRMS div 2 \<and> ep_active act j \<longrightarrow>
      pm_nf (xf_pm xf') = 0 \<and>
      (\<exists>i < LLB_MAX_NXFRMS div 2. m' = m(ta_cidx act \<mapsto> epa\<lparr>ea_act_type := DP_SET_NACT_SESS,
         ea_active_sess := (ea_active_sess epa)(i := ea_active_sess epa i + 1)\<rparr>)))"
proof -
  define xf1 where "xf1 = xf\<lparr>xf_pm := (xf_pm xf)\<lparr>pm_table_id := LL_DP_NAT_MAP, pm_phit := pm_phit (xf_pm xf) OR LLB_DP_NAT_HIT\<rparr>\<rparr>"
  obtain sel act' m1 where s: "dp_sel_nat_ep now hash xf1 act m = (sel, act', m1)" by (metis surj_pair)
  have m': "m' = m1" using assms(5) unfolding dp_do_nat_hit [OF assms(1) xf1_def s HOL.refl HOL.refl] by simp
  note nf = dp_do_nat_at_limit(1) [OF assms(1,2,4,5)]
  have key: "ucast (ucast (ta_cidx act) :: u16) = ta_cidx act"
    using assms(3) by (intro u16_u32_id) (simp add: word_less_nat_alt)
  have "\<exists>i < LLB_MAX_NXFRMS div 2. m' = m(ta_cidx act \<mapsto> epa\<lparr>ea_act_type := DP_SET_NACT_SESS,
      ea_active_sess := (ea_active_sess epa)(i := ea_active_sess epa i + 1)\<rparr>)"
    if "ta_sel_type act = NAT_LB_SEL_LC" "j < LLB_MAX_NXFRMS div 2" "ep_active act j"
    using sel_lc_least [of m act epa j, unfolded key, OF assms(4) that(2,3)] s that(1) m'
    by (auto simp: dp_sel_nat_ep_def sel_type_defs)
  then show ?thesis using nf by fastforce
qed

text \<open>
  C31: when no endpoint of a rule is active, the selection by hash finds none, but the persistent selection
  still returns an endpoint, and the packet is translated to an inactive one.
\<close>

theorem persist_may_pick_inactive:
  assumes "\<forall>i < LLB_MAX_NXFRMS. \<not> ep_active act i" "0 < ta_nxfrm act" "unat (ta_nxfrm act) \<le> LLB_MAX_NXFRMS"
  shows "sel_hash hash act = SEL_NONE \<and> unat (fst (sel_persist now xf act)) < LLB_MAX_NXFRMS"
proof -
  have none: "first_active a d = d" if "ta_nxfrms a = ta_nxfrms act" for a d
  proof -
    have "find (ep_active a) [0..<LLB_MAX_NXFRMS] = None" using assms(1) that by (simp add: find_None_iff)
    then show ?thesis by (simp add: first_active_def)
  qed
  have n: "unat (ucast (ta_nxfrm act) :: u16) = unat (ta_nxfrm act)" "unat (ucast (ta_nxfrm act) :: u32) = unat (ta_nxfrm act)"
    using u8_less [of "ta_nxfrm act"] by (simp_all add: unsigned_ucast_eq take_bit_nat_eq_self_iff)
  have "unat (hash mod ucast (ta_nxfrm act)) < LLB_MAX_NXFRMS" using assms(2,3) n(2) by (intro word_mod_less) (simp_all add: word_less_nat_alt)
  then have "unat (ucast (hash mod ucast (ta_nxfrm act)) :: u16) < LLB_MAX_NXFRMS"
    using unat_u32_u16 [of "hash mod ucast (ta_nxfrm act)"] by (simp add: LLB_MAX_NXFRMS_def)
  then have "sel_hash hash act = SEL_NONE" using assms(1) none [OF HOL.refl] by (simp add: sel_hash_def Let_def)
  moreover have "unat (fst (sel_persist now xf act)) < LLB_MAX_NXFRMS"
    using assms(2,3) n(1) by (auto simp: sel_persist_def Let_def none word_less_nat_alt intro!: word_mod_less)
  ultimately show ?thesis ..
qed

subsection \<open>Witnesses\<close>

definition sample_ep :: "u8 \<Rightarrow> mf_xfrm_inf" where
  "sample_ep inactive = \<lparr>xi_nat_flags = 0, xi_inactive = inactive, xi_nv6 = 0, xi_dsr = 0, xi_mhon = 0, xi_mhs = 0,
     xi_nat_xip = (1, 0, 0, 0), xi_nat_rip = (0, 0, 0, 0), xi_nat_xport = 80, xi_osp = 0, xi_odp = 0\<rparr>"

text \<open>A rule whose endpoints three and five are active.\<close>

definition sample_rule :: "u8 \<Rightarrow> dp_proxy_tacts" where
  "sample_rule sel = \<lparr>ta_act_type = DP_SET_DNAT, ta_oaux = 0, ta_cidx = 7, ta_ito = 0, ta_pto = 0, ta_nxfrm = 6, ta_opflags = 0,
     ta_cdis = 0, ta_npmhh = 0, ta_sel_hint = 4, ta_sel_type = sel, ta_ppv2 = 0, ta_lts = 0, ta_base_to = 0, ta_pmhh = (0, 0, 0),
     ta_nxfrms = (\<lambda>i. sample_ep (if i = 3 \<or> i = 5 then 0 else 1)), ta_conn_limit = 1, ta_polid = 0\<rparr>"

definition sample_epacts :: dp_nat_epacts where
  "sample_epacts = \<lparr>ea_act_type = DP_SET_NACT_SESS, ea_active_sess = (\<lambda>i. if i = 3 then 4 else 2), ea_conc_conns = 1,
     ea_total_conns = 9, ea_cum_bytes_in = 0, ea_cum_bytes_out = 0\<rparr>"

definition sample_xf :: xfi where
  "sample_xf = \<lparr>xf_l2m = \<lparr>l2_dl_type = 8, l2_ssnid = 0\<rparr>,
     xf_l34m = \<lparr>l34_nw_proto = 6, l34_source = 1000, l34_dest = 80, l34_saddr = (2, 0, 0, 0), l34_daddr = (3, 0, 0, 0)\<rparr>,
     xf_tm = \<lparr>tm_tun_decap = 0, tm_tunnel_id = 0, tm_tun_type = 0\<rparr>,
     xf_nm = \<lparr>nm_nxip = (0, 0, 0, 0), nm_nrip = (0, 0, 0, 0), nm_pmhh = (0, 0, 0), nm_npmhh = 0, nm_nxport = 0, nm_sel_aid = 0,
       nm_nv6 = 0, nm_dsr = 0, nm_ppv2 = 0, nm_cdis = 0, nm_ito = 0\<rparr>,
     xf_qm = \<lparr>qm_icol = 0, qm_ocol = 0, qm_rpolid = 0\<rparr>,
     xf_pm = \<lparr>pm_pipe_act = 0, pm_phit = 0, pm_rcode = 0, pm_ppv2 = False, pm_oppv2 = False, pm_ippv2 = False, pm_zone = 1,
       pm_l4_off = 34, pm_table_id = 0, pm_tcp_flags = 2, pm_nf = 0, pm_rule_id = 0, pm_l3_adj = 0, pm_l4fin = False, pm_il4fin = False,
       pm_goct = False, pm_dir = CT_DIR_IN, pm_l3_len = 60, pm_dp_mark = 0, pm_dp_rec = 0, pm_fw_rid = 0\<rparr>\<rparr>"

lemma sample_active: "{i. i < LLB_MAX_NXFRMS \<and> ep_active (sample_rule sel) i} = {3, 5}"
  by (auto simp: sample_rule_def sample_ep_def LLB_MAX_NXFRMS_def split: if_splits)

theorem rr_round_fair_witness: "set (map unat (sel_rr_seq 2 (sample_rule NAT_LB_SEL_RR))) = {3, 5}"
proof -
  have "unat (ta_sel_hint (sample_rule NAT_LB_SEL_RR)) < LLB_MAX_NXFRMS" by (simp add: sample_rule_def LLB_MAX_NXFRMS_def)
  from rr_round_fair [OF this HOL.refl] show ?thesis by (simp add: sample_active numeral_2_eq_2)
qed

theorem lc_picks_least_witness:
  "\<exists>i < 16. ep_active (sample_rule NAT_LB_SEL_LC) i \<and>
     fst (dp_sel_nat_ep 0 0 sample_xf (sample_rule NAT_LB_SEL_LC) [7 \<mapsto> sample_epacts]) = of_nat i"
proof -
  let ?r = "sample_rule NAT_LB_SEL_LC" and ?m = "[7 \<mapsto> sample_epacts]"
  have "ta_sel_type ?r = NAT_LB_SEL_LC" "?m (ucast (ucast (ta_cidx ?r) :: u16)) = Some sample_epacts"
    "3 < LLB_MAX_NXFRMS div 2" "ep_active ?r 3" by (simp_all add: sample_rule_def sample_ep_def LLB_MAX_NXFRMS_def)
  from lc_picks_least [of ?r ?m, OF this, of 0 0 sample_xf] show ?thesis by (auto simp: LLB_MAX_NXFRMS_def)
qed

theorem limit_gate_witness:
  "pm_nf (xf_pm (fst (snd (dp_do_nat 0 0 sample_xf [nat_key_of sample_xf \<mapsto> sample_rule NAT_LB_SEL_LC] [7 \<mapsto> sample_epacts])))) = 0"
proof -
  let ?r = "sample_rule NAT_LB_SEL_LC" and ?m = "[7 \<mapsto> sample_epacts]" and ?n = "[nat_key_of sample_xf \<mapsto> sample_rule NAT_LB_SEL_LC]"
  obtain r xf' n' m' where d: "dp_do_nat 0 0 sample_xf ?n ?m = (r, xf', n', m')" by (metis surj_pair)
  have h: "nat_hit sample_xf ?n ?r" by (simp add: nat_hit_def sample_xf_def sample_rule_def NAT_LB_OP_CHKSRC_def)
  show ?thesis using limit_gate [OF h _ _ _ d, of sample_epacts 3] d
    by (simp add: sample_rule_def sample_ep_def sample_epacts_def LLB_MAX_NXFRMS_def)
qed

theorem persist_may_pick_inactive_witness:
  "unat (fst (sel_persist 5 sample_xf ((sample_rule NAT_LB_SEL_RR_PERSIST)\<lparr>ta_nxfrms := \<lambda>_. sample_ep 1\<rparr>))) < 32"
  using persist_may_pick_inactive [of "(sample_rule NAT_LB_SEL_RR_PERSIST)\<lparr>ta_nxfrms := \<lambda>_. sample_ep 1\<rparr>" 0 5 sample_xf]
  by (simp add: sample_rule_def sample_ep_def LLB_MAX_NXFRMS_def)

end
