(* ===== verification/CT_Types.thy ===== *)
theory CT_Types
  imports DP_Nat
begin

text \<open>
  The entries of the connection table, from \<open>common/llb_dpapi.h\<close>, the key of a packet and the key of its
  reverse direction (\<open>kernel/llb_kern_ct.c\<close>). The states of a protocol are the constructors of a
  datatype; the code gives them one bit each and tests them with masks, and no state is ever a
  combination, except for ICMP, whose state is kept as the byte it is.
\<close>

section \<open>Protocol states\<close>

datatype ct_smr_t = CT_SMR_ERR | CT_SMR_INPROG | CT_SMR_EST | CT_SMR_UEST | CT_SMR_FIN | CT_SMR_CTD | CT_SMR_UNT | CT_SMR_INIT

datatype ct_tcp_state_t = CT_TCP_CLOSED | CT_TCP_SS | CT_TCP_SA | CT_TCP_EST | CT_TCP_FINI | CT_TCP_FINI2 | CT_TCP_FINI3
  | CT_TCP_CW | CT_TCP_ERR | CT_TCP_PEST

fun ct_tcp_fin_mask :: "ct_tcp_state_t \<Rightarrow> bool" where
  "ct_tcp_fin_mask s \<longleftrightarrow> s = CT_TCP_FINI \<or> s = CT_TCP_FINI2 \<or> s = CT_TCP_FINI3 \<or> s = CT_TCP_CW"

record ct_tcp_pinfd_t =
  td_init_acks :: u8
  td_ppv2 :: u8
  td_seq :: u32
  td_pack :: u32
  td_pseq :: u32

record ct_tcp_pinf_t =
  ts_state :: ct_tcp_state_t
  ts_fndir :: ct_dir_t
  ts_cts :: "ct_dir_t \<Rightarrow> ct_tcp_pinfd_t"

definition CT_TCP_INIT_ACK_THRESHOLD :: u8 where "CT_TCP_INIT_ACK_THRESHOLD = 3"

datatype ct_udp_state_t = CT_UDP_CNI | CT_UDP_UEST | CT_UDP_EST | CT_UDP_FINI | CT_UDP_CW

record ct_udp_pinf_t =
  us_state :: ct_udp_state_t
  us_pkts_seen :: u16
  us_rpkts_seen :: u16
  us_fndir :: ct_dir_t

definition CT_UDP_CONN_THRESHOLD :: u16 where "CT_UDP_CONN_THRESHOLD = 4"

definition CT_ICMP_CLOSED :: u8 where "CT_ICMP_CLOSED = 0x0"
definition CT_ICMP_REQS :: u8 where "CT_ICMP_REQS = 0x1"
definition CT_ICMP_REPS :: u8 where "CT_ICMP_REPS = 0x2"
definition CT_ICMP_DUNR :: u8 where "CT_ICMP_DUNR = 0x8"
definition CT_ICMP_TTL :: u8 where "CT_ICMP_TTL = 0x10"
definition CT_ICMP_RDR :: u8 where "CT_ICMP_RDR = 0x20"
definition CT_ICMP_UNK :: u8 where "CT_ICMP_UNK = 0x40"

lemmas ct_icmp_defs = CT_ICMP_CLOSED_def CT_ICMP_REQS_def CT_ICMP_REPS_def CT_ICMP_DUNR_def CT_ICMP_TTL_def CT_ICMP_RDR_def CT_ICMP_UNK_def

record ct_icmp_pinf_t =
  is_state :: u8
  is_errs :: u8
  is_lseq :: u16

datatype ct_sctp_state_t = CT_SCTP_CLOSED | CT_SCTP_INIT | CT_SCTP_INITA | CT_SCTP_COOKIE | CT_SCTP_COOKIEA | CT_SCTP_PRE_EST
  | CT_SCTP_EST | CT_SCTP_SHUT | CT_SCTP_SHUTA | CT_SCTP_SHUTC | CT_SCTP_ERR | CT_SCTP_ABRT

fun ct_sctp_fin_mask :: "ct_sctp_state_t \<Rightarrow> bool" where
  "ct_sctp_fin_mask s \<longleftrightarrow> s = CT_SCTP_SHUT \<or> s = CT_SCTP_SHUTA \<or> s = CT_SCTP_SHUTC \<or> s = CT_SCTP_ABRT"

record ct_sctp_pinfd_t =
  sd_nh :: u32
  sd_odst :: u32
  sd_osrc :: u32
  sd_mh_host :: "nat \<Rightarrow> u32"

record ct_sctp_pinf_t =
  ss_state :: ct_sctp_state_t
  ss_itag :: u32
  ss_otag :: u32
  ss_cookie :: u32
  ss_cts :: "ct_dir_t \<Rightarrow> ct_sctp_pinfd_t"

record ct_pinf_t =
  pi_t :: ct_tcp_pinf_t
  pi_u :: ct_udp_pinf_t
  pi_i :: ct_icmp_pinf_t
  pi_s :: ct_sctp_pinf_t
  pi_frag :: u16
  pi_npmhh :: u16
  pi_pmhh :: "nat \<Rightarrow> u32"

text \<open>What \<open>memset\<close> leaves.\<close>

definition ct_pinf_zero :: ct_pinf_t where
  "ct_pinf_zero = \<lparr>
     pi_t = \<lparr>ts_state = CT_TCP_CLOSED, ts_fndir = CT_DIR_IN,
       ts_cts = (\<lambda>_. \<lparr>td_init_acks = 0, td_ppv2 = 0, td_seq = 0, td_pack = 0, td_pseq = 0\<rparr>)\<rparr>,
     pi_u = \<lparr>us_state = CT_UDP_CNI, us_pkts_seen = 0, us_rpkts_seen = 0, us_fndir = CT_DIR_IN\<rparr>,
     pi_i = \<lparr>is_state = CT_ICMP_CLOSED, is_errs = 0, is_lseq = 0\<rparr>,
     pi_s = \<lparr>ss_state = CT_SCTP_CLOSED, ss_itag = 0, ss_otag = 0, ss_cookie = 0,
       ss_cts = (\<lambda>_. \<lparr>sd_nh = 0, sd_odst = 0, sd_osrc = 0, sd_mh_host = (\<lambda>_. 0)\<rparr>)\<rparr>,
     pi_frag = 0, pi_npmhh = 0, pi_pmhh = (\<lambda>_. 0)\<rparr>"

section \<open>Entries\<close>

record dp_pb_stats =
  pb_bytes :: u64
  pb_packets :: u64

record dp_ct_dat =
  cd_rid :: u16
  cd_aid :: u16
  cd_nid :: u32
  cd_pi :: ct_pinf_t
  cd_dir :: ct_dir_t
  cd_smr :: ct_smr_t
  cd_xi :: mf_xfrm_inf
  cd_pb :: dp_pb_stats

record dp_ct_tact =
  ct_ca :: dp_cmn_act
  ct_ctd :: dp_ct_dat
  ct_ito :: u64
  ct_lts :: u64
  ct_nat_act :: dp_nat_act

text \<open>A packet of \<open>len\<close> bytes is counted for an entry.\<close>

definition pb_count :: "u16 \<Rightarrow> dp_ct_dat \<Rightarrow> dp_ct_dat" where
  "pb_count len d = d\<lparr>cd_pb := \<lparr>pb_bytes = pb_bytes (cd_pb d) + ucast len, pb_packets = pb_packets (cd_pb d) + 1\<rparr>\<rparr>"

record dp_ct_key =
  ck_daddr :: xaddr
  ck_saddr :: xaddr
  ck_sport :: u16
  ck_dport :: u16
  ck_zone :: u16
  ck_l4proto :: u8
  ck_v6 :: u8
  ck_ident :: u32
  ck_type :: u32

record dp_ct_ctrtact =
  cc_start :: u32
  cc_counter :: u32
  cc_entries :: u32

section \<open>Keys\<close>

definition ct_key_of :: "xfi \<Rightarrow> dp_ct_key" where
  "ct_key_of xf = \<lparr>
     ck_daddr = l34_daddr (xf_l34m xf), ck_saddr = l34_saddr (xf_l34m xf),
     ck_sport = l34_source (xf_l34m xf), ck_dport = l34_dest (xf_l34m xf),
     ck_zone = pm_zone (xf_pm xf), ck_l4proto = nw_proto xf,
     ck_v6 = (if l2_dl_type (xf_l2m xf) = bpf_ntohs ETH_P_IPV6 then 1 else 0),
     ck_ident = (if tm_tun_decap (xf_tm xf) \<noteq> 0 then 0 else tm_tunnel_id (xf_tm xf)),
     ck_type = (if tm_tun_decap (xf_tm xf) \<noteq> 0 then 0 else tm_tun_type (xf_tm xf))\<rparr>"

text \<open>The value before, the start of the range, and the counter after; nothing when there is no counter.\<close>

definition dp_ct_get_newctr :: "u32 \<Rightarrow> dp_ct_ctrtact option \<Rightarrow> u32 \<times> u32 \<times> dp_ct_ctrtact option" where
  "dp_ct_get_newctr nid ctr =
     (case ctr of
        None \<Rightarrow> (0, nid, None)
      | Some c \<Rightarrow> let n = cc_counter c + 2
                  in (cc_counter c, cc_start c, Some (c\<lparr>cc_counter := if n \<ge> cc_entries c then cc_start c else n\<rparr>)))"

section \<open>The reverse key\<close>

abbreviation nat_flag :: "mf_xfrm_inf \<Rightarrow> u8 \<Rightarrow> bool" where "nat_flag xi f \<equiv> xi_nat_flags xi AND f \<noteq> 0"

definition swap_key :: "dp_ct_key \<Rightarrow> dp_ct_key" where
  "swap_key key = key\<lparr>ck_daddr := ck_saddr key, ck_saddr := ck_daddr key, ck_sport := ck_dport key, ck_dport := ck_sport key\<rparr>"

text \<open>
  The four translations, each on the key, the transformation of the forward direction, the reverse key and
  the transformation of the reverse direction.
\<close>

type_synonym xfk = "mf_xfrm_inf \<times> dp_ct_key \<times> mf_xfrm_inf"

definition xfk_dst :: "dp_ct_key \<Rightarrow> xfk \<Rightarrow> xfk" where
  "xfk_dst key = (\<lambda>(xi, xkey, xxi).
     let rip = xi_nat_rip xi; p = ck_l4proto key \<noteq> IPPROTO_ICMP;
         xkey = xkey\<lparr>ck_v6 := xi_nv6 xi, ck_saddr := xi_nat_xip xi\<rparr>;
         xkey = (if \<not> DP_XADDR_ISZR rip then xkey\<lparr>ck_daddr := rip\<rparr> else xkey);
         xxi = (if \<not> DP_XADDR_ISZR rip then xxi\<lparr>xi_nat_rip := ck_saddr key\<rparr> else xxi);
         xkey = (if p \<and> xi_nat_xport xi \<noteq> 0 then xkey\<lparr>ck_sport := xi_nat_xport xi\<rparr> else xkey);
         xi = (if p \<and> xi_nat_xport xi = 0 then xi\<lparr>xi_nat_xport := ck_dport key\<rparr> else xi);
         xxi = xxi\<lparr>xi_nat_flags := LLB_NAT_SRC, xi_nv6 := ck_v6 key, xi_nat_xip := ck_daddr key\<rparr>
     in (xi, xkey, if p then xxi\<lparr>xi_nat_xport := ck_dport key\<rparr> else xxi))"

definition xfk_src :: "dp_ct_key \<Rightarrow> xfk \<Rightarrow> xfk" where
  "xfk_src key = (\<lambda>(xi, xkey, xxi).
     let rip = xi_nat_rip xi; p = ck_l4proto key \<noteq> IPPROTO_ICMP;
         xkey = xkey\<lparr>ck_v6 := xi_nv6 xi, ck_daddr := xi_nat_xip xi\<rparr>;
         xkey = (if \<not> DP_XADDR_ISZR rip then xkey\<lparr>ck_saddr := rip\<rparr> else xkey);
         xxi = (if \<not> DP_XADDR_ISZR rip then xxi\<lparr>xi_nat_rip := ck_daddr key\<rparr> else xxi);
         xkey = (if p \<and> xi_nat_xport xi \<noteq> 0 then xkey\<lparr>ck_dport := xi_nat_xport xi\<rparr> else xkey);
         xi = (if p \<and> xi_nat_xport xi = 0 then xi\<lparr>xi_nat_xport := ck_sport key\<rparr> else xi);
         xxi = xxi\<lparr>xi_nat_flags := LLB_NAT_DST, xi_nv6 := ck_v6 key, xi_nat_xip := ck_saddr key\<rparr>
     in (xi, xkey, if p then xxi\<lparr>xi_nat_xport := ck_sport key\<rparr> else xxi))"

definition xfk_hdst :: "dp_ct_key \<Rightarrow> xfk \<Rightarrow> xfk" where
  "xfk_hdst key = (\<lambda>(xi, xkey, xxi).
     let p = ck_l4proto key \<noteq> IPPROTO_ICMP;
         xkey = xkey\<lparr>ck_saddr := ck_saddr key, ck_daddr := ck_daddr key\<rparr>;
         xkey = (if p \<and> xi_nat_xport xi \<noteq> 0 then xkey\<lparr>ck_sport := xi_nat_xport xi\<rparr> else xkey);
         xi = (if p \<and> xi_nat_xport xi = 0 then xi\<lparr>xi_nat_xport := ck_dport key\<rparr> else xi);
         xxi = xxi\<lparr>xi_nat_flags := LLB_NAT_HSRC, xi_nv6 := ck_v6 key, xi_nat_xip := DP_XADDR_SETZR\<rparr>
     in (xi\<lparr>xi_nat_xip := DP_XADDR_SETZR\<rparr>, xkey, if p then xxi\<lparr>xi_nat_xport := ck_dport key\<rparr> else xxi))"

definition xfk_hsrc :: "dp_ct_key \<Rightarrow> xfk \<Rightarrow> xfk" where
  "xfk_hsrc key = (\<lambda>(xi, xkey, xxi).
     let p = ck_l4proto key \<noteq> IPPROTO_ICMP;
         xkey = xkey\<lparr>ck_saddr := ck_saddr key, ck_daddr := ck_daddr key\<rparr>;
         xkey = (if p \<and> xi_nat_xport xi \<noteq> 0 then xkey\<lparr>ck_dport := xi_nat_xport xi\<rparr> else xkey);
         xi = (if p \<and> xi_nat_xport xi = 0 then xi\<lparr>xi_nat_xport := ck_sport key\<rparr> else xi);
         xxi = xxi\<lparr>xi_nat_flags := LLB_NAT_HDST, xi_nv6 := ck_v6 key, xi_nat_xip := DP_XADDR_SETZR\<rparr>
     in (xi\<lparr>xi_nat_xip := DP_XADDR_SETZR\<rparr>, xkey, if p then xxi\<lparr>xi_nat_xport := ck_sport key\<rparr> else xxi))"

definition dp_ct_proto_xfk_init :: "dp_ct_key \<Rightarrow> mf_xfrm_inf \<Rightarrow> mf_xfrm_inf \<Rightarrow> xfk" where
  "dp_ct_proto_xfk_init key xi xxi =
     (let xkey = swap_key key
      in if xi_dsr xi \<noteq> 0
         then (xi, xkey,
               (if nat_flag xi LLB_NAT_DST
                then xxi\<lparr>xi_nat_flags := LLB_NAT_SRC, xi_nat_xip := ck_daddr key, xi_nat_xport := ck_dport key, xi_nv6 := xi_nv6 xi\<rparr>
                else xxi)\<lparr>xi_dsr := xi_dsr xi\<rparr>)
         else
           let s = (xi, xkey, xxi);
               s = (if nat_flag (fst s) LLB_NAT_DST then xfk_dst key s else s);
               s = (if nat_flag (fst s) LLB_NAT_SRC then xfk_src key s else s);
               s = (if nat_flag (fst s) LLB_NAT_HDST then xfk_hdst key s else s)
           in if nat_flag (fst s) LLB_NAT_HSRC then xfk_hsrc key s else s)"

end
