(* ===== verification/CT_Key.thy ===== *)
theory CT_Key
  imports CT_Types
begin

text \<open>
  The key of the reverse direction. The packets of the reverse direction carry the reverse key and are
  translated by the reverse transformation, so the reverse of the reverse must be the key of the forward
  direction, or the two entries of a connection would not find each other.
\<close>

text \<open>
  A transformation of at most one kind. The translated port must be known for a protocol with ports,
  and a translated source must come from an address.
\<close>

definition xfrm_wf :: "dp_ct_key \<Rightarrow> mf_xfrm_inf \<Rightarrow> bool" where
  "xfrm_wf key xi \<longleftrightarrow>
     (let p = ck_l4proto key \<noteq> IPPROTO_ICMP; f = xi_nat_flags xi; rip = xi_nat_rip xi
      in xi_dsr xi = 0 \<and>
         (f = 0 \<or>
          f = LLB_NAT_DST \<and> (p \<longrightarrow> ck_dport key \<noteq> 0) \<and> (rip \<noteq> DP_XADDR_SETZR \<longrightarrow> ck_saddr key \<noteq> DP_XADDR_SETZR) \<or>
          f = LLB_NAT_SRC \<and> (p \<longrightarrow> ck_sport key \<noteq> 0) \<and> (rip \<noteq> DP_XADDR_SETZR \<longrightarrow> ck_daddr key \<noteq> DP_XADDR_SETZR) \<or>
          f = LLB_NAT_HDST \<and> (p \<longrightarrow> ck_dport key \<noteq> 0) \<or>
          f = LLB_NAT_HSRC \<and> (p \<longrightarrow> ck_sport key \<noteq> 0)))"

text \<open>
  What \<open>dp_ct_in\<close> resets of the scratch the reverse transformation is built in. The other fields keep
  what an earlier packet left there, the mark of direct server return (\<open>xi_dsr\<close>) among them.
\<close>

definition xfrm_clear :: "mf_xfrm_inf \<Rightarrow> bool" where
  "xfrm_clear xi \<longleftrightarrow> xi_nat_flags xi = 0 \<and> xi_nat_xport xi = 0 \<and> xi_nat_xip xi = DP_XADDR_SETZR \<and> xi_nat_rip xi = DP_XADDR_SETZR"

lemma nat_flag_tests [simp]:
  "LLB_NAT_DST AND LLB_NAT_DST \<noteq> 0" "LLB_NAT_DST AND LLB_NAT_SRC = 0" "LLB_NAT_DST AND LLB_NAT_HDST = 0" "LLB_NAT_DST AND LLB_NAT_HSRC = 0"
  "LLB_NAT_SRC AND LLB_NAT_DST = 0" "LLB_NAT_SRC AND LLB_NAT_SRC \<noteq> 0" "LLB_NAT_SRC AND LLB_NAT_HDST = 0" "LLB_NAT_SRC AND LLB_NAT_HSRC = 0"
  "LLB_NAT_HDST AND LLB_NAT_DST = 0" "LLB_NAT_HDST AND LLB_NAT_SRC = 0" "LLB_NAT_HDST AND LLB_NAT_HDST \<noteq> 0" "LLB_NAT_HDST AND LLB_NAT_HSRC = 0"
  "LLB_NAT_HSRC AND LLB_NAT_DST = 0" "LLB_NAT_HSRC AND LLB_NAT_SRC = 0" "LLB_NAT_HSRC AND LLB_NAT_HDST = 0" "LLB_NAT_HSRC AND LLB_NAT_HSRC \<noteq> 0"
  by (simp_all add: nat_flag_defs)

lemma nat_flag_nonzero [simp]: "LLB_NAT_DST \<noteq> 0" "LLB_NAT_SRC \<noteq> 0" "LLB_NAT_HDST \<noteq> 0" "LLB_NAT_HSRC \<noteq> 0"
  by (simp_all add: nat_flag_defs)

lemma xfk_flags [simp]:
  "xi_nat_flags (fst (xfk_dst key s)) = xi_nat_flags (fst s)" "xi_nat_flags (fst (xfk_src key s)) = xi_nat_flags (fst s)"
  "xi_nat_flags (fst (xfk_hdst key s)) = xi_nat_flags (fst s)" "xi_nat_flags (fst (xfk_hsrc key s)) = xi_nat_flags (fst s)"
  by (cases s; simp add: xfk_dst_def xfk_src_def xfk_hdst_def xfk_hsrc_def Let_def)+

text \<open>One kind of translation, one step.\<close>

lemma xfk_init_cases:
  assumes "xi_dsr xi = 0"
  shows "xi_nat_flags xi = 0 \<Longrightarrow> dp_ct_proto_xfk_init key xi xxi = (xi, swap_key key, xxi)"
    "xi_nat_flags xi = LLB_NAT_DST \<Longrightarrow> dp_ct_proto_xfk_init key xi xxi = xfk_dst key (xi, swap_key key, xxi)"
    "xi_nat_flags xi = LLB_NAT_SRC \<Longrightarrow> dp_ct_proto_xfk_init key xi xxi = xfk_src key (xi, swap_key key, xxi)"
    "xi_nat_flags xi = LLB_NAT_HDST \<Longrightarrow> dp_ct_proto_xfk_init key xi xxi = xfk_hdst key (xi, swap_key key, xxi)"
    "xi_nat_flags xi = LLB_NAT_HSRC \<Longrightarrow> dp_ct_proto_xfk_init key xi xxi = xfk_hsrc key (xi, swap_key key, xxi)"
  using assms by (simp_all add: dp_ct_proto_xfk_init_def Let_def)

text \<open>The reverse key and the reverse transformation of each kind, field by field.\<close>

lemma xfk_dst_key:
  assumes "xfk_dst key (xi, swap_key key, xxi) = (xi', xkey, xxi')"
  shows "ck_daddr xkey = (if xi_nat_rip xi = DP_XADDR_SETZR then ck_saddr key else xi_nat_rip xi)"
    "ck_saddr xkey = xi_nat_xip xi"
    "ck_sport xkey = (if ck_l4proto key \<noteq> IPPROTO_ICMP \<and> xi_nat_xport xi \<noteq> 0 then xi_nat_xport xi else ck_dport key)"
    "ck_dport xkey = ck_sport key"
    "ck_v6 xkey = xi_nv6 xi"
    "ck_zone xkey = ck_zone key"
    "ck_l4proto xkey = ck_l4proto key"
    "ck_ident xkey = ck_ident key"
    "ck_type xkey = ck_type key"
    "xi_nat_flags xxi' = LLB_NAT_SRC"
    "xi_nat_xip xxi' = ck_daddr key"
    "xi_nat_rip xxi' = (if xi_nat_rip xi = DP_XADDR_SETZR then xi_nat_rip xxi else ck_saddr key)"
    "xi_nat_xport xxi' = (if ck_l4proto key \<noteq> IPPROTO_ICMP then ck_dport key else xi_nat_xport xxi)"
    "xi_nv6 xxi' = ck_v6 key"
    "xi_dsr xxi' = xi_dsr xxi"
  using assms by (auto simp: xfk_dst_def swap_key_def Let_def split: if_splits)

lemma xfk_src_key:
  assumes "xfk_src key (xi, swap_key key, xxi) = (xi', xkey, xxi')"
  shows "ck_saddr xkey = (if xi_nat_rip xi = DP_XADDR_SETZR then ck_daddr key else xi_nat_rip xi)"
    "ck_daddr xkey = xi_nat_xip xi"
    "ck_dport xkey = (if ck_l4proto key \<noteq> IPPROTO_ICMP \<and> xi_nat_xport xi \<noteq> 0 then xi_nat_xport xi else ck_sport key)"
    "ck_sport xkey = ck_dport key"
    "ck_v6 xkey = xi_nv6 xi"
    "ck_zone xkey = ck_zone key"
    "ck_l4proto xkey = ck_l4proto key"
    "ck_ident xkey = ck_ident key"
    "ck_type xkey = ck_type key"
    "xi_nat_flags xxi' = LLB_NAT_DST"
    "xi_nat_xip xxi' = ck_saddr key"
    "xi_nat_rip xxi' = (if xi_nat_rip xi = DP_XADDR_SETZR then xi_nat_rip xxi else ck_daddr key)"
    "xi_nat_xport xxi' = (if ck_l4proto key \<noteq> IPPROTO_ICMP then ck_sport key else xi_nat_xport xxi)"
    "xi_nv6 xxi' = ck_v6 key"
    "xi_dsr xxi' = xi_dsr xxi"
  using assms by (auto simp: xfk_src_def swap_key_def Let_def split: if_splits)

lemma xfk_hdst_key:
  assumes "xfk_hdst key (xi, swap_key key, xxi) = (xi', xkey, xxi')"
  shows "ck_daddr xkey = ck_daddr key"
    "ck_saddr xkey = ck_saddr key"
    "ck_sport xkey = (if ck_l4proto key \<noteq> IPPROTO_ICMP \<and> xi_nat_xport xi \<noteq> 0 then xi_nat_xport xi else ck_dport key)"
    "ck_dport xkey = ck_sport key"
    "ck_v6 xkey = ck_v6 key"
    "ck_zone xkey = ck_zone key"
    "ck_l4proto xkey = ck_l4proto key"
    "ck_ident xkey = ck_ident key"
    "ck_type xkey = ck_type key"
    "xi_nat_flags xxi' = LLB_NAT_HSRC"
    "xi_nat_xip xxi' = DP_XADDR_SETZR"
    "xi_nat_rip xxi' = xi_nat_rip xxi"
    "xi_nat_xport xxi' = (if ck_l4proto key \<noteq> IPPROTO_ICMP then ck_dport key else xi_nat_xport xxi)"
    "xi_nv6 xxi' = ck_v6 key"
    "xi_dsr xxi' = xi_dsr xxi"
  using assms by (auto simp: xfk_hdst_def swap_key_def Let_def split: if_splits)

lemma xfk_hsrc_key:
  assumes "xfk_hsrc key (xi, swap_key key, xxi) = (xi', xkey, xxi')"
  shows "ck_daddr xkey = ck_daddr key"
    "ck_saddr xkey = ck_saddr key"
    "ck_dport xkey = (if ck_l4proto key \<noteq> IPPROTO_ICMP \<and> xi_nat_xport xi \<noteq> 0 then xi_nat_xport xi else ck_sport key)"
    "ck_sport xkey = ck_dport key"
    "ck_v6 xkey = ck_v6 key"
    "ck_zone xkey = ck_zone key"
    "ck_l4proto xkey = ck_l4proto key"
    "ck_ident xkey = ck_ident key"
    "ck_type xkey = ck_type key"
    "xi_nat_flags xxi' = LLB_NAT_HDST"
    "xi_nat_xip xxi' = DP_XADDR_SETZR"
    "xi_nat_rip xxi' = xi_nat_rip xxi"
    "xi_nat_xport xxi' = (if ck_l4proto key \<noteq> IPPROTO_ICMP then ck_sport key else xi_nat_xport xxi)"
    "xi_nv6 xxi' = ck_v6 key"
    "xi_dsr xxi' = xi_dsr xxi"
  using assms by (auto simp: xfk_hsrc_def swap_key_def Let_def split: if_splits)

lemma swap_key_swap [simp]: "swap_key (swap_key key) = key"
  by (simp add: swap_key_def)

lemma rev_rev_key:
  assumes "xfrm_wf key xi" "xfrm_clear z" "dp_ct_proto_xfk_init key xi z = (xi', xkey, xxi)"
    "dp_ct_proto_xfk_init xkey (xxi\<lparr>xi_dsr := xi_dsr xi\<rparr>) z' = (xxi', key', yi)"
  shows "key' = key"
proof -
  let ?x = "xxi\<lparr>xi_dsr := xi_dsr xi\<rparr>"
  have d: "xi_dsr xi = 0" "xi_dsr ?x = 0" using assms(1) by (simp_all add: xfrm_wf_def Let_def)
  from assms(1) consider "xi_nat_flags xi = 0" | "xi_nat_flags xi = LLB_NAT_DST" | "xi_nat_flags xi = LLB_NAT_SRC"
    | "xi_nat_flags xi = LLB_NAT_HDST" | "xi_nat_flags xi = LLB_NAT_HSRC" by (auto simp: xfrm_wf_def Let_def)
  then show ?thesis
  proof cases
    case 1
    then show ?thesis using assms by (auto simp: xfk_init_cases xfrm_wf_def xfrm_clear_def Let_def)
  next
    case 2
    note K = xfk_dst_key [OF assms(3) [unfolded xfk_init_cases(2) [OF d(1) 2]]]
    have f: "xi_nat_flags ?x = LLB_NAT_SRC" using K by simp
    note R = xfk_src_key [OF assms(4) [unfolded xfk_init_cases(3) [OF d(2) f]]]
    show ?thesis using assms(1,2) 2
      by (intro dp_ct_key.equality) (simp_all add: K R xfrm_wf_def xfrm_clear_def Let_def nat_flag_defs)
  next
    case 3
    note K = xfk_src_key [OF assms(3) [unfolded xfk_init_cases(3) [OF d(1) 3]]]
    have f: "xi_nat_flags ?x = LLB_NAT_DST" using K by simp
    note R = xfk_dst_key [OF assms(4) [unfolded xfk_init_cases(2) [OF d(2) f]]]
    show ?thesis using assms(1,2) 3
      by (intro dp_ct_key.equality) (simp_all add: K R xfrm_wf_def xfrm_clear_def Let_def nat_flag_defs)
  next
    case 4
    note K = xfk_hdst_key [OF assms(3) [unfolded xfk_init_cases(4) [OF d(1) 4]]]
    have f: "xi_nat_flags ?x = LLB_NAT_HSRC" using K by simp
    note R = xfk_hsrc_key [OF assms(4) [unfolded xfk_init_cases(5) [OF d(2) f]]]
    show ?thesis using assms(1,2) 4
      by (intro dp_ct_key.equality) (simp_all add: K R xfrm_wf_def xfrm_clear_def Let_def nat_flag_defs)
  next
    case 5
    note K = xfk_hsrc_key [OF assms(3) [unfolded xfk_init_cases(5) [OF d(1) 5]]]
    have f: "xi_nat_flags ?x = LLB_NAT_HDST" using K by simp
    note R = xfk_hdst_key [OF assms(4) [unfolded xfk_init_cases(4) [OF d(2) f]]]
    show ?thesis using assms(1,2) 5
      by (intro dp_ct_key.equality) (simp_all add: K R xfrm_wf_def xfrm_clear_def Let_def nat_flag_defs)
  qed
qed

section \<open>Property\<close>

text \<open>
  C32: the two directions of a connection find each other. When the forward direction is not translated, or
  has one kind of translation, the reverse key with the reverse transformation gives the forward key back,
  for all four kinds of translation and with an address that is rewritten on both sides. The packets of
  the reverse direction take the mark of direct server return from the action stored for them, which has
  the forward direction's; what the scratch had there before does not matter.
\<close>

theorem reverse_key_round_trip:
  assumes "xfrm_wf key xi" "xfrm_clear z" "dp_ct_proto_xfk_init key xi z = (xi', xkey, xxi)"
  shows "fst (snd (dp_ct_proto_xfk_init xkey (xxi\<lparr>xi_dsr := xi_dsr xi\<rparr>) z')) = key"
  using rev_rev_key [OF assms] by (metis prod.collapse)

definition sample_key :: dp_ct_key where
  "sample_key = \<lparr>ck_daddr = (20, 0, 0, 0), ck_saddr = (10, 0, 0, 0), ck_sport = 5000, ck_dport = 80, ck_zone = 0,
     ck_l4proto = IPPROTO_TCP, ck_v6 = 0, ck_ident = 0, ck_type = 0\<rparr>"

definition sample_xi :: "u8 \<Rightarrow> mf_xfrm_inf" where
  "sample_xi flags = \<lparr>xi_nat_flags = flags, xi_inactive = 0, xi_nv6 = 0, xi_dsr = 0, xi_mhon = 0, xi_mhs = 0,
     xi_nat_xip = (if flags = 0 then DP_XADDR_SETZR else (30, 0, 0, 0)), xi_nat_rip = (if flags = 0 then DP_XADDR_SETZR else (40, 0, 0, 0)),
     xi_nat_xport = (if flags = 0 then 0 else 8080), xi_osp = 0, xi_odp = 0\<rparr>"

text \<open>A destination translated to another address and port, with the source rewritten too.\<close>

theorem reverse_key_round_trip_witness:
  "\<exists>xi' xkey xxi. dp_ct_proto_xfk_init sample_key (sample_xi LLB_NAT_DST) (sample_xi 0) = (xi', xkey, xxi) \<and>
     ck_saddr xkey = (30, 0, 0, 0) \<and> ck_daddr xkey = (40, 0, 0, 0) \<and> ck_sport xkey = 8080 \<and> ck_dport xkey = 5000 \<and>
     fst (snd (dp_ct_proto_xfk_init xkey (xxi\<lparr>xi_dsr := 0\<rparr>) (sample_xi 0))) = sample_key"
proof -
  have wf: "xfrm_wf sample_key (sample_xi LLB_NAT_DST)" "xfrm_clear (sample_xi 0)"
    by (simp_all add: xfrm_wf_def xfrm_clear_def sample_key_def sample_xi_def Let_def DP_XADDR_SETZR_def)
  obtain xi' xkey xxi where e: "dp_ct_proto_xfk_init sample_key (sample_xi LLB_NAT_DST) (sample_xi 0) = (xi', xkey, xxi)"
    by (metis surj_pair)
  have f: "xi_dsr (sample_xi LLB_NAT_DST) = 0" "xi_nat_flags (sample_xi LLB_NAT_DST) = LLB_NAT_DST" by (simp_all add: sample_xi_def)
  note K = xfk_dst_key [OF e [unfolded xfk_init_cases(2) [OF f]]]
  have "ck_saddr xkey = (30, 0, 0, 0)" "ck_daddr xkey = (40, 0, 0, 0)" "ck_sport xkey = 8080" "ck_dport xkey = 5000"
    by (simp_all add: K) (simp_all add: sample_xi_def sample_key_def DP_XADDR_SETZR_def proto_defs)
  then show ?thesis using e reverse_key_round_trip [OF wf e, of "sample_xi 0"] f(1) by simp
qed

end
