(* ===== verification/CT_Tcp.thy ===== *)
theory CT_Tcp
  imports CT_Key "HOL-Library.Sublist"
begin

text \<open>
  The TCP machine of the connection table, \<open>dp_ct_tcp_sm\<close> of \<open>kernel/llb_kern_ct.c\<close>, as built by default
  (without \<open>HAVE_L4_TRACE\<close> and \<open>HAVE_DP_DPU_SLIM\<close>). Both entries of the connection are arguments: the one
  of the direction from the client, which holds the machine, and its twin. The TCP header is an argument,
  \<open>None\<close> when the packet ends before it. The error counters that the machine bumps are a result.
\<close>

section \<open>The machine\<close>

text \<open>The sequence and acknowledgement numbers of the header, in network order.\<close>

record tcphdr =
  th_seq :: u32
  th_ack_seq :: u32

datatype ct_err_stat = CT_ERR_STAT_TCP_RST_CLIENT | CT_ERR_STAT_TCP_RST_SERVER | CT_ERR_STAT_TCP_ERR
  | CT_ERR_STAT_SCTP_ABORT | CT_ERR_STAT_SCTP_ERR

abbreviation has_flag :: "u8 \<Rightarrow> u8 \<Rightarrow> bool" where "has_flag fl f \<equiv> fl AND f \<noteq> 0"
abbreviation has_flags :: "u8 \<Rightarrow> u8 \<Rightarrow> bool" where "has_flags fl f \<equiv> fl AND f = f"

definition td_upd :: "ct_dir_t \<Rightarrow> (ct_tcp_pinfd_t \<Rightarrow> ct_tcp_pinfd_t) \<Rightarrow> ct_tcp_pinf_t \<Rightarrow> ct_tcp_pinf_t" where
  "td_upd d f ts = ts\<lparr>ts_cts := (ts_cts ts)(d := f (ts_cts ts d))\<rparr>"

abbreviation td_seq_set :: "ct_dir_t \<Rightarrow> u32 \<Rightarrow> ct_tcp_pinf_t \<Rightarrow> ct_tcp_pinf_t" where
  "td_seq_set d v ts \<equiv> td_upd d (\<lambda>td. td\<lparr>td_seq := v\<rparr>) ts"

text \<open>One step of each state: the machine's data and the next state.\<close>

definition tcp_closed :: "u8 \<Rightarrow> u8 \<Rightarrow> ct_dir_t \<Rightarrow> u32 \<Rightarrow> u32 \<Rightarrow> ct_tcp_pinf_t \<Rightarrow> ct_tcp_pinf_t \<times> ct_tcp_state_t" where
  "tcp_closed dsr fl dir seq ack ts =
     (let td = ts_cts ts dir; rtd = ts_cts ts (other_dir dir)
      in if dsr \<noteq> 0 then (ts, CT_TCP_EST)
         else if has_flag fl LLB_TCP_ACK
         then let ts = td_seq_set dir seq ts
              in if td_init_acks td \<noteq> 0 \<and> ack > td_seq rtd + 2 then (ts, CT_TCP_ERR)
                 else let n = td_init_acks td + 1; ts = td_upd dir (\<lambda>td. td\<lparr>td_init_acks := n\<rparr>) ts
                      in (ts, if n \<ge> CT_TCP_INIT_ACK_THRESHOLD \<and> td_init_acks rtd \<ge> CT_TCP_INIT_ACK_THRESHOLD then CT_TCP_EST else CT_TCP_ERR)
         else if \<not> has_flags fl LLB_TCP_SYN then (ts, CT_TCP_ERR)
         else if ack \<noteq> 0 \<and> dir \<noteq> CT_DIR_IN then (ts, CT_TCP_ERR)
         else (td_seq_set dir seq ts, CT_TCP_SS))"

definition tcp_ss :: "u8 \<Rightarrow> ct_dir_t \<Rightarrow> u32 \<Rightarrow> u32 \<Rightarrow> ct_tcp_pinf_t \<Rightarrow> ct_tcp_pinf_t \<times> ct_tcp_state_t" where
  "tcp_ss fl dir seq ack ts =
     (let rtd = ts_cts ts (other_dir dir)
      in if dir \<noteq> CT_DIR_OUT
         then if has_flags fl LLB_TCP_SYN then (td_seq_set dir seq ts, CT_TCP_SS) else (ts, CT_TCP_ERR)
         else if \<not> has_flags fl (LLB_TCP_SYN OR LLB_TCP_ACK) then (ts, CT_TCP_ERR)
         else if ack \<noteq> td_seq rtd + 1 then (ts, CT_TCP_ERR)
         else (td_seq_set dir seq ts, CT_TCP_SA))"

text \<open>The \<open>ppv2\<close> header is to be put into this packet, or the packet is to be sent again.\<close>

definition tcp_ppv2 :: "bool \<Rightarrow> ct_dir_t \<Rightarrow> xfi \<times> ct_tcp_pinf_t \<times> bool \<Rightarrow> xfi \<times> ct_tcp_pinf_t \<times> bool" where
  "tcp_ppv2 is_gso dir = (\<lambda>(xf, ts, defer_ppv2).
     if td_ppv2 (ts_cts ts dir) \<noteq> 0 then (xf, ts, defer_ppv2)
     else if is_gso then (xf, ts, True)
     else (xf\<lparr>xf_pm := (xf_pm xf)\<lparr>pm_ppv2 := True\<rparr>\<rparr>,
           td_upd (other_dir dir) (\<lambda>td. td\<lparr>td_ppv2 := 1\<rparr>) (td_upd dir (\<lambda>td. td\<lparr>td_ppv2 := 1\<rparr>) ts), defer_ppv2))"

definition tcp_sa ::
  "bool \<Rightarrow> u8 \<Rightarrow> ct_dir_t \<Rightarrow> u32 \<Rightarrow> u32 \<Rightarrow> xfi \<Rightarrow> ct_tcp_pinf_t \<Rightarrow> xfi \<times> ct_tcp_pinf_t \<times> bool \<times> ct_tcp_state_t" where
  "tcp_sa is_gso fl dir seq ack xf ts =
     (let rtd = ts_cts ts (other_dir dir)
      in if dir \<noteq> CT_DIR_IN
         then if \<not> has_flags fl (LLB_TCP_SYN OR LLB_TCP_ACK) \<or> ack \<noteq> td_seq rtd + 1 then (xf, ts, False, CT_TCP_ERR)
              else (xf, ts, False, CT_TCP_SA)
         else if has_flags fl LLB_TCP_SYN then (xf, td_seq_set dir seq ts, False, CT_TCP_SS)
         else if \<not> has_flags fl LLB_TCP_ACK then (xf, ts, False, CT_TCP_ERR)
         else if ack \<noteq> td_seq rtd + 1 then (xf, ts, False, CT_TCP_ERR)
         else let ts = td_seq_set dir seq ts
              in if nm_ppv2 (xf_nm xf) \<noteq> 0
                 then let (xf, ts, defer_ppv2) = tcp_ppv2 is_gso dir (xf, ts, False) in (xf, ts, defer_ppv2, CT_TCP_PEST)
                 else (xf, ts, False, CT_TCP_EST))"

definition tcp_pest ::
  "bool \<Rightarrow> u8 \<Rightarrow> ct_dir_t \<Rightarrow> u32 \<Rightarrow> xfi \<Rightarrow> ct_tcp_pinf_t \<Rightarrow> xfi \<times> ct_tcp_pinf_t \<times> bool \<times> ct_tcp_state_t" where
  "tcp_pest is_gso fl dir seq xf ts =
     (if has_flag fl LLB_TCP_FIN then (xf, td_seq_set dir seq (ts\<lparr>ts_fndir := dir\<rparr>), False, CT_TCP_FINI)
      else if dir = CT_DIR_IN
      then let (xf, ts, defer_ppv2) = tcp_ppv2 is_gso dir (xf, ts, False) in (xf, ts, defer_ppv2, CT_TCP_PEST)
      else (xf, ts, False, CT_TCP_PEST))"

text \<open>
  The states of an established connection and of its end. A packet that none of the branches of a closing
  state takes leaves the next state as the code declares it, at zero: \<open>CT_TCP_CLOSED\<close>.
\<close>

definition tcp_open :: "u8 \<Rightarrow> ct_dir_t \<Rightarrow> u32 \<Rightarrow> ct_tcp_pinf_t \<Rightarrow> ct_tcp_pinf_t \<times> ct_tcp_state_t" where
  "tcp_open fl dir seq ts =
     (let other = (ts_fndir ts \<noteq> dir)
      in case ts_state ts of
           CT_TCP_EST \<Rightarrow> if has_flag fl LLB_TCP_FIN then (td_seq_set dir seq (ts\<lparr>ts_fndir := dir\<rparr>), CT_TCP_FINI) else (ts, CT_TCP_EST)
         | CT_TCP_FINI \<Rightarrow>
           if other \<and> has_flags fl (LLB_TCP_FIN OR LLB_TCP_ACK) then (td_seq_set dir seq ts, CT_TCP_FINI3)
           else if other \<and> has_flag fl LLB_TCP_ACK then (td_seq_set dir seq ts, CT_TCP_FINI2)
           else (ts, CT_TCP_CLOSED)
         | CT_TCP_FINI2 \<Rightarrow>
           if other \<and> has_flag fl LLB_TCP_FIN then (td_seq_set dir seq ts, CT_TCP_FINI3) else (ts, CT_TCP_CLOSED)
         | CT_TCP_FINI3 \<Rightarrow> if \<not> other \<and> has_flag fl LLB_TCP_ACK then (ts, CT_TCP_CW) else (ts, CT_TCP_CLOSED)
         | _ \<Rightarrow> (ts, CT_TCP_CLOSED))"

definition tcp_step ::
  "bool \<Rightarrow> ct_dir_t \<Rightarrow> u32 \<Rightarrow> u32 \<Rightarrow> xfi \<Rightarrow> ct_tcp_pinf_t \<Rightarrow> xfi \<times> ct_tcp_pinf_t \<times> bool \<times> ct_tcp_state_t" where
  "tcp_step is_gso dir seq ack xf ts =
     (let fl = pm_tcp_flags (xf_pm xf)
      in if has_flag fl LLB_TCP_RST then (xf, ts, False, CT_TCP_CW)
         else case ts_state ts of
                CT_TCP_CLOSED \<Rightarrow> (let (ts, n) = tcp_closed (nm_dsr (xf_nm xf)) fl dir seq ack ts in (xf, ts, False, n))
              | CT_TCP_SS \<Rightarrow> (let (ts, n) = tcp_ss fl dir seq ack ts in (xf, ts, False, n))
              | CT_TCP_SA \<Rightarrow> tcp_sa is_gso fl dir seq ack xf ts
              | CT_TCP_PEST \<Rightarrow> tcp_pest is_gso fl dir seq xf ts
              | _ \<Rightarrow> (let (ts, n) = tcp_open fl dir seq ts in (xf, ts, False, n)))"

text \<open>Which error counter a change of state bumps.\<close>

definition tcp_err_stat :: "ct_dir_t \<Rightarrow> ct_tcp_state_t \<Rightarrow> ct_tcp_state_t \<Rightarrow> ct_err_stat option" where
  "tcp_err_stat dir old_state nstate =
     (if old_state = nstate then None
      else if nstate = CT_TCP_CW then Some (if dir = CT_DIR_IN then CT_ERR_STAT_TCP_RST_CLIENT else CT_ERR_STAT_TCP_RST_SERVER)
      else if nstate = CT_TCP_ERR \<and> (old_state = CT_TCP_EST \<or> ct_tcp_fin_mask old_state) then Some CT_ERR_STAT_TCP_ERR
      else None)"

definition tcp_smr :: "ct_tcp_state_t \<Rightarrow> ct_smr_t" where
  "tcp_smr nstate =
     (if nstate = CT_TCP_EST then CT_SMR_EST
      else if nstate = CT_TCP_CW then CT_SMR_CTD
      else if nstate = CT_TCP_ERR then CT_SMR_ERR
      else if ct_tcp_fin_mask nstate then CT_SMR_FIN
      else CT_SMR_INPROG)"

abbreviation pi_t_upd :: "(ct_tcp_pinf_t \<Rightarrow> ct_tcp_pinf_t) \<Rightarrow> dp_ct_dat \<Rightarrow> dp_ct_dat" where
  "pi_t_upd f d \<equiv> d\<lparr>cd_pi := (cd_pi d)\<lparr>pi_t := f (pi_t (cd_pi d))\<rparr>\<rparr>"

text \<open>The packet is noted in the entry of its direction, which is the first part of either entry's pair.\<close>

definition tcp_note :: "u16 \<Rightarrow> tcphdr \<Rightarrow> dp_ct_dat \<Rightarrow> dp_ct_dat" where
  "tcp_note len t d = pb_count len (pi_t_upd (td_upd CT_DIR_IN (\<lambda>td. td\<lparr>td_pseq := th_seq t, td_pack := th_ack_seq t\<rparr>)) d)"

definition dp_ct_tcp_sm ::
  "bool \<Rightarrow> tcphdr option \<Rightarrow> xfi \<Rightarrow> dp_ct_dat \<Rightarrow> dp_ct_dat \<Rightarrow> ct_dir_t \<Rightarrow>
   xfi \<times> dp_ct_dat \<times> dp_ct_dat \<times> ct_err_stat option \<times> ct_smr_t" where
  "dp_ct_tcp_sm is_gso hdr xf tdat xtdat dir =
     (case hdr of
        None \<Rightarrow> (LLBS_PPLN_DROPC LLB_PIPE_RC_PLCT_ERR xf, tdat, xtdat, None, CT_SMR_ERR)
      | Some t \<Rightarrow>
        let seq = bpf_ntohl (th_seq t); ack = bpf_ntohl (th_ack_seq t); len = pm_l3_len (xf_pm xf);
            (tdat, xtdat) = (if dir = CT_DIR_IN then (tcp_note len t tdat, xtdat) else (tdat, tcp_note len t xtdat));
            ts = pi_t (cd_pi tdat);
            xf = (if td_ppv2 (ts_cts ts dir) = 0 then xf
                  else if dir = CT_DIR_IN then xf\<lparr>xf_pm := (xf_pm xf)\<lparr>pm_oppv2 := True\<rparr>\<rparr>
                  else xf\<lparr>xf_pm := (xf_pm xf)\<lparr>pm_ippv2 := True\<rparr>\<rparr>);
            old_state = ts_state ts;
            (xf, ts, defer_ppv2, nstate) = tcp_step is_gso dir seq ack xf ts;
            tdat = pi_t_upd (\<lambda>_. ts\<lparr>ts_state := nstate\<rparr>) tdat;
            xtdat = pi_t_upd (\<lambda>rts. rts\<lparr>ts_state := nstate\<rparr>) xtdat;
            xtdat = (if nstate \<noteq> CT_TCP_ERR \<and> dir = CT_DIR_OUT then pi_t_upd (td_seq_set CT_DIR_IN seq) xtdat else xtdat);
            xf = (if defer_ppv2 then LLBS_PPLN_DROPC LLB_PIPE_RC_PLERR xf else xf)
        in (xf, tdat, xtdat, tcp_err_stat dir old_state nstate, tcp_smr nstate))"

section \<open>What opens a connection\<close>

text \<open>A packet as the machine sees it, and the packets of a connection in their order.\<close>

record tcp_ev =
  ev_dir :: ct_dir_t
  ev_flags :: u8
  ev_seq :: u32
  ev_ack :: u32
  ev_dsr :: u8

type_synonym tcp_pkt = "bool \<times> tcphdr \<times> xfi \<times> ct_dir_t"

definition ev_of :: "tcp_pkt \<Rightarrow> tcp_ev" where
  "ev_of = (\<lambda>(g, h, xf, d). \<lparr>ev_dir = d, ev_flags = pm_tcp_flags (xf_pm xf), ev_seq = bpf_ntohl (th_seq h),
     ev_ack = bpf_ntohl (th_ack_seq h), ev_dsr = nm_dsr (xf_nm xf)\<rparr>)"

fun tcp_run :: "tcp_pkt list \<Rightarrow> dp_ct_dat \<times> dp_ct_dat \<Rightarrow> dp_ct_dat \<times> dp_ct_dat" where
  "tcp_run [] s = s"
| "tcp_run ((g, h, xf, d) # ps) s =
     (let (_, tdat, xtdat, _, _) = dp_ct_tcp_sm g (Some h) xf (fst s) (snd s) d in tcp_run ps (tdat, xtdat))"

definition is_syn :: "tcp_ev \<Rightarrow> bool" where
  "is_syn e \<longleftrightarrow> has_flags (ev_flags e) LLB_TCP_SYN"

definition is_syn_ack :: "tcp_ev \<Rightarrow> bool" where
  "is_syn_ack e \<longleftrightarrow> ev_dir e = CT_DIR_OUT \<and> has_flags (ev_flags e) (LLB_TCP_SYN OR LLB_TCP_ACK)"

text \<open>
  A handshake: the client's SYN, the server's SYN with the acknowledgement of it, the client's
  acknowledgement of that. And what the machine takes for one when it begins with a SYN of the server
  (its first state refuses such a SYN only if the acknowledgement number is not zero): the answer then
  comes from the side that sent the SYN.
\<close>

definition client_syn :: "tcp_ev \<Rightarrow> bool" where
  "client_syn s \<longleftrightarrow> ev_dir s = CT_DIR_IN \<and> is_syn s"

definition server_syn :: "tcp_ev \<Rightarrow> bool" where
  "server_syn s \<longleftrightarrow> ev_dir s = CT_DIR_OUT \<and> is_syn s \<and> \<not> has_flag (ev_flags s) LLB_TCP_ACK \<and> ev_ack s = 0"

definition acks_syn :: "tcp_ev \<Rightarrow> tcp_ev \<Rightarrow> bool" where
  "acks_syn s p \<longleftrightarrow> is_syn_ack p \<and> ev_ack p = ev_seq s + 1"

definition confirms :: "tcp_ev \<Rightarrow> tcp_ev \<Rightarrow> bool" where
  "confirms p q \<longleftrightarrow> ev_dir q = CT_DIR_IN \<and> has_flags (ev_flags q) LLB_TCP_ACK \<and> ev_ack q = ev_seq p + 1"

definition handshake :: "tcp_ev \<Rightarrow> tcp_ev \<Rightarrow> tcp_ev \<Rightarrow> bool" where
  "handshake s p q \<longleftrightarrow> client_syn s \<and> acks_syn s p \<and> confirms p q"

definition server_handshake :: "tcp_ev \<Rightarrow> tcp_ev \<Rightarrow> tcp_ev \<Rightarrow> bool" where
  "server_handshake s p q \<longleftrightarrow> server_syn s \<and> is_syn_ack p \<and> confirms p q"

definition acks_from :: "ct_dir_t \<Rightarrow> tcp_ev list \<Rightarrow> nat" where
  "acks_from d es = length (filter (\<lambda>e. ev_dir e = d \<and> has_flag (ev_flags e) LLB_TCP_ACK) es)"

definition opened :: "tcp_ev list \<Rightarrow> bool" where
  "opened es \<longleftrightarrow> (\<exists>s p q. subseq [s, p, q] es \<and> (handshake s p q \<or> server_handshake s p q)) \<or>
     (\<exists>e \<in> set es. ev_dsr e \<noteq> 0) \<or> (\<forall>d. 3 \<le> acks_from d es)"

text \<open>What the machine remembers of the packets seen.\<close>

definition half_open :: "tcp_ev \<Rightarrow> tcp_ev \<Rightarrow> bool" where
  "half_open s p \<longleftrightarrow> client_syn s \<and> acks_syn s p \<or> server_syn s \<and> is_syn_ack p"

definition tcp_seen :: "tcp_ev list \<Rightarrow> ct_tcp_pinf_t \<Rightarrow> bool" where
  "tcp_seen es ts \<longleftrightarrow>
     (\<forall>d. unat (td_init_acks (ts_cts ts d)) \<le> acks_from d es) \<and>
     (ts_state ts = CT_TCP_SS \<longrightarrow> (\<exists>s. subseq [s] es \<and> (client_syn s \<and> td_seq (ts_cts ts CT_DIR_IN) = ev_seq s \<or> server_syn s))) \<and>
     (ts_state ts = CT_TCP_SA \<longrightarrow> (\<exists>s p. subseq [s, p] es \<and> half_open s p \<and> td_seq (ts_cts ts CT_DIR_OUT) = ev_seq p)) \<and>
     (ts_state ts \<in> {CT_TCP_EST, CT_TCP_PEST, CT_TCP_FINI, CT_TCP_FINI2, CT_TCP_FINI3} \<longrightarrow> opened es)"

lemma subseq_snoc: "subseq xs es \<Longrightarrow> subseq (xs @ [e]) (es @ [e])" "subseq xs es \<Longrightarrow> subseq xs (es @ [e])"
  by (simp_all add: subseq_append list_emb_prefix)

lemma acks_from_snoc: "acks_from d (es @ [e]) = acks_from d es + (if ev_dir e = d \<and> has_flag (ev_flags e) LLB_TCP_ACK then 1 else 0)"
  by (simp add: acks_from_def)

lemma acks_from_mono: "acks_from d es \<le> acks_from d (es @ [e])"
  by (simp add: acks_from_snoc)

lemma opened_snoc:
  assumes "opened es" shows "opened (es @ [e])"
  using assms unfolding opened_def
proof (elim disjE exE conjE bexE)
  fix s p q assume "subseq [s, p, q] es" "handshake s p q"
  then show "(\<exists>s p q. subseq [s, p, q] (es @ [e]) \<and> (handshake s p q \<or> server_handshake s p q)) \<or> (\<exists>e \<in> set (es @ [e]). ev_dsr e \<noteq> 0) \<or>
      (\<forall>d. 3 \<le> acks_from d (es @ [e]))"
    using subseq_snoc(2) by blast
next
  fix s p q assume "subseq [s, p, q] es" "server_handshake s p q"
  then show "(\<exists>s p q. subseq [s, p, q] (es @ [e]) \<and> (handshake s p q \<or> server_handshake s p q)) \<or> (\<exists>e \<in> set (es @ [e]). ev_dsr e \<noteq> 0) \<or>
      (\<forall>d. 3 \<le> acks_from d (es @ [e]))"
    using subseq_snoc(2) by blast
next
  assume "\<forall>d. 3 \<le> acks_from d es"
  then have "\<forall>d. 3 \<le> acks_from d (es @ [e])" using acks_from_mono order.trans by blast
  then show "(\<exists>s p q. subseq [s, p, q] (es @ [e]) \<and> (handshake s p q \<or> server_handshake s p q)) \<or> (\<exists>e \<in> set (es @ [e]). ev_dsr e \<noteq> 0) \<or>
      (\<forall>d. 3 \<le> acks_from d (es @ [e]))"
    by blast
qed auto

lemma td_upd_simps [simp]: "ts_state (td_upd d f ts) = ts_state ts" "ts_cts (td_upd d f ts) = (ts_cts ts)(d := f (ts_cts ts d))"
  by (simp_all add: td_upd_def)

lemma other_dir_neq [simp]: "other_dir d \<noteq> d" "d \<noteq> other_dir d"
  by (cases d; simp)+

lemma init_acks_snoc: "unat (x :: u8) \<le> n \<Longrightarrow> unat (x + 1) \<le> n + 1"
  using mod_less_eq_dividend [of "Suc (unat x)" 256] by (simp add: unat_word_ariths)

lemmas tcp_step_defs = tcp_closed_def tcp_ss_def tcp_sa_def tcp_pest_def tcp_ppv2_def tcp_open_def Let_def

abbreviation tcp_is_open :: "ct_tcp_state_t \<Rightarrow> bool" where
  "tcp_is_open s \<equiv> s \<in> {CT_TCP_EST, CT_TCP_PEST, CT_TCP_FINI, CT_TCP_FINI2, CT_TCP_FINI3}"

text \<open>How a step can lead to each state.\<close>

lemma tcp_step_acks:
  assumes "tcp_step g d seq ack xf ts = (xf', ts', df, n)"
  shows "td_init_acks (ts_cts ts' x) = td_init_acks (ts_cts ts x) \<or>
    x = d \<and> has_flag (pm_tcp_flags (xf_pm xf)) LLB_TCP_ACK \<and> td_init_acks (ts_cts ts' x) = td_init_acks (ts_cts ts x) + 1"
  using assms by (cases "ts_state ts") (auto simp: tcp_step_def tcp_step_defs split: if_splits prod.splits)

lemma tcp_step_SS:
  assumes "tcp_step g d seq ack xf ts = (xf', ts', df, CT_TCP_SS)"
  shows "has_flags (pm_tcp_flags (xf_pm xf)) LLB_TCP_SYN \<and> td_seq (ts_cts ts' d) = seq \<and>
    (d = CT_DIR_OUT \<longrightarrow> \<not> has_flag (pm_tcp_flags (xf_pm xf)) LLB_TCP_ACK \<and> ack = 0)"
  using assms by (cases "ts_state ts") (auto simp: tcp_step_def tcp_step_defs split: if_splits prod.splits)

lemma tcp_step_SA:
  assumes "tcp_step g d seq ack xf ts = (xf', ts', df, CT_TCP_SA)"
  shows "ts_state ts = CT_TCP_SS \<and> d = CT_DIR_OUT \<and> has_flags (pm_tcp_flags (xf_pm xf)) (LLB_TCP_SYN OR LLB_TCP_ACK) \<and>
      ack = td_seq (ts_cts ts CT_DIR_IN) + 1 \<and> td_seq (ts_cts ts' CT_DIR_OUT) = seq \<or>
    ts_state ts = CT_TCP_SA \<and> td_seq (ts_cts ts' CT_DIR_OUT) = td_seq (ts_cts ts CT_DIR_OUT)"
  using assms by (cases "ts_state ts"; cases d) (auto simp: tcp_step_def tcp_step_defs split: if_splits prod.splits)

lemma tcp_step_open:
  assumes "tcp_step g d seq ack xf ts = (xf', ts', df, n)" "tcp_is_open n"
  shows "tcp_is_open (ts_state ts) \<or>
    ts_state ts = CT_TCP_SA \<and> d = CT_DIR_IN \<and> has_flags (pm_tcp_flags (xf_pm xf)) LLB_TCP_ACK \<and> ack = td_seq (ts_cts ts CT_DIR_OUT) + 1 \<or>
    nm_dsr (xf_nm xf) \<noteq> 0 \<or>
    (\<forall>x. CT_TCP_INIT_ACK_THRESHOLD \<le> td_init_acks (ts_cts ts' x))"
proof (cases "ts_state ts = CT_TCP_CLOSED")
  case True
  have all: "(\<forall>x. P x) \<longleftrightarrow> P d \<and> P (other_dir d)" for P :: "ct_dir_t \<Rightarrow> bool" by (cases d) (metis ct_dir_t.exhaust other_dir.simps)+
  show ?thesis using assms True unfolding all by (auto simp: tcp_step_def tcp_step_defs split: if_splits prod.splits)
next
  case False
  then show ?thesis
    using assms by (cases "ts_state ts"; cases d) (auto simp: tcp_step_def tcp_step_defs split: if_splits prod.splits)
qed

lemma tcp_seen_step:
  assumes I: "tcp_seen es ts" and S: "tcp_step g d seq ack xf ts = (xf', ts', df, n)"
    and e: "e = \<lparr>ev_dir = d, ev_flags = pm_tcp_flags (xf_pm xf), ev_seq = seq, ev_ack = ack, ev_dsr = nm_dsr (xf_nm xf)\<rparr>"
  shows "tcp_seen (es @ [e]) (ts'\<lparr>ts_state := n\<rparr>)"
proof -
  have acks: "unat (td_init_acks (ts_cts ts' x)) \<le> acks_from x (es @ [e])" for x
  proof -
    have o: "unat (td_init_acks (ts_cts ts x)) \<le> acks_from x es" using I by (simp add: tcp_seen_def)
    from tcp_step_acks [OF S, of x] show ?thesis
    proof (elim disjE conjE)
      assume "x = d" "has_flag (pm_tcp_flags (xf_pm xf)) LLB_TCP_ACK" "td_init_acks (ts_cts ts' x) = td_init_acks (ts_cts ts x) + 1"
      then show ?thesis using init_acks_snoc [OF o] by (simp add: acks_from_snoc e)
    qed (use o acks_from_mono [of x es e] in simp)
  qed
  have ss: "\<exists>s. subseq [s] (es @ [e]) \<and> (client_syn s \<and> td_seq (ts_cts ts' CT_DIR_IN) = ev_seq s \<or> server_syn s)" if "n = CT_TCP_SS"
    using tcp_step_SS [OF S [unfolded that]] subseq_snoc(1) [of "[]" es e]
    by (intro exI [of _ e]) (cases d; auto simp: e is_syn_def client_syn_def server_syn_def)
  have sa: "\<exists>s p. subseq [s, p] (es @ [e]) \<and> half_open s p \<and> td_seq (ts_cts ts' CT_DIR_OUT) = ev_seq p" if n: "n = CT_TCP_SA"
    using tcp_step_SA [OF S [unfolded n]]
  proof (elim disjE conjE)
    assume a: "ts_state ts = CT_TCP_SS" "d = CT_DIR_OUT" "has_flags (pm_tcp_flags (xf_pm xf)) (LLB_TCP_SYN OR LLB_TCP_ACK)"
      "ack = td_seq (ts_cts ts CT_DIR_IN) + 1" "td_seq (ts_cts ts' CT_DIR_OUT) = seq"
    then obtain s where "subseq [s] es" "client_syn s \<and> td_seq (ts_cts ts CT_DIR_IN) = ev_seq s \<or> server_syn s"
      using I unfolding tcp_seen_def by blast
    then show ?thesis using a subseq_snoc(1) [of "[s]" es e]
      by (intro exI [of _ s] exI [of _ e]) (auto simp: half_open_def acks_syn_def is_syn_ack_def e)
  next
    assume a: "ts_state ts = CT_TCP_SA" "td_seq (ts_cts ts' CT_DIR_OUT) = td_seq (ts_cts ts CT_DIR_OUT)"
    then obtain s p where "subseq [s, p] es" "half_open s p" "td_seq (ts_cts ts CT_DIR_OUT) = ev_seq p" using I unfolding tcp_seen_def by blast
    then show ?thesis using a(2) subseq_snoc(2) by metis
  qed
  have op: "opened (es @ [e])" if n: "tcp_is_open n"
    using tcp_step_open [OF S n]
  proof (elim disjE conjE)
    assume "tcp_is_open (ts_state ts)"
    then have "opened es" using I unfolding tcp_seen_def by blast
    then show ?thesis by (rule opened_snoc)
  next
    assume a: "ts_state ts = CT_TCP_SA" "d = CT_DIR_IN" "has_flags (pm_tcp_flags (xf_pm xf)) LLB_TCP_ACK" "ack = td_seq (ts_cts ts CT_DIR_OUT) + 1"
    then obtain s p where sp: "subseq [s, p] es" "half_open s p" "td_seq (ts_cts ts CT_DIR_OUT) = ev_seq p" using I unfolding tcp_seen_def by blast
    have "confirms p e" using a sp(3) by (simp add: confirms_def e)
    then have "handshake s p e \<or> server_handshake s p e" using sp(2) by (auto simp: half_open_def handshake_def server_handshake_def)
    moreover have "subseq [s, p, e] (es @ [e])" using sp(1) subseq_snoc(1) [of "[s, p]" es e] by simp
    ultimately show ?thesis unfolding opened_def by blast
  next
    assume "nm_dsr (xf_nm xf) \<noteq> 0"
    then show ?thesis by (simp add: opened_def e)
  next
    assume t: "\<forall>x. CT_TCP_INIT_ACK_THRESHOLD \<le> td_init_acks (ts_cts ts' x)"
    have "3 \<le> acks_from x (es @ [e])" for x
      using t [rule_format, of x] acks [of x] by (simp add: CT_TCP_INIT_ACK_THRESHOLD_def word_le_nat_alt)
    then show ?thesis by (simp add: opened_def)
  qed
  show ?thesis unfolding tcp_seen_def using acks ss sa op by simp
qed

text \<open>The machine as a whole: one step, with the packet noted and both entries in the next state.\<close>

lemma tcp_note_sel [simp]:
  "ts_state (pi_t (cd_pi (tcp_note len t d))) = ts_state (pi_t (cd_pi d))"
  "ts_fndir (pi_t (cd_pi (tcp_note len t d))) = ts_fndir (pi_t (cd_pi d))"
  "td_init_acks (ts_cts (pi_t (cd_pi (tcp_note len t d))) x) = td_init_acks (ts_cts (pi_t (cd_pi d)) x)"
  "td_seq (ts_cts (pi_t (cd_pi (tcp_note len t d))) x) = td_seq (ts_cts (pi_t (cd_pi d)) x)"
  by (simp_all add: tcp_note_def pb_count_def td_upd_def)

lemma dp_ct_tcp_sm_step:
  assumes "dp_ct_tcp_sm g (Some h) xf t x d = (xf', t', x', st, r)"
  obtains xf0 ts xf1 ts' df n where
    "tcp_step g d (bpf_ntohl (th_seq h)) (bpf_ntohl (th_ack_seq h)) xf0 ts = (xf1, ts', df, n)"
    "pm_tcp_flags (xf_pm xf0) = pm_tcp_flags (xf_pm xf)" "nm_dsr (xf_nm xf0) = nm_dsr (xf_nm xf)"
    "ts = pi_t (cd_pi (if d = CT_DIR_IN then tcp_note (pm_l3_len (xf_pm xf)) h t else t))"
    "pi_t (cd_pi t') = ts'\<lparr>ts_state := n\<rparr>" "ts_state (pi_t (cd_pi x')) = n"
    "st = tcp_err_stat d (ts_state (pi_t (cd_pi t))) n" "r = tcp_smr n"
proof -
  define ts where "ts = pi_t (cd_pi (if d = CT_DIR_IN then tcp_note (pm_l3_len (xf_pm xf)) h t else t))"
  define xf0 where "xf0 = (if td_ppv2 (ts_cts ts d) = 0 then xf
    else if d = CT_DIR_IN then xf\<lparr>xf_pm := (xf_pm xf)\<lparr>pm_oppv2 := True\<rparr>\<rparr> else xf\<lparr>xf_pm := (xf_pm xf)\<lparr>pm_ippv2 := True\<rparr>\<rparr>)"
  obtain xf1 ts' df n where s: "tcp_step g d (bpf_ntohl (th_seq h)) (bpf_ntohl (th_ack_seq h)) xf0 ts = (xf1, ts', df, n)"
    by (metis surj_pair)
  have "ts_state ts = ts_state (pi_t (cd_pi t))" by (simp add: ts_def)
  then have "pi_t (cd_pi t') = ts'\<lparr>ts_state := n\<rparr> \<and> ts_state (pi_t (cd_pi x')) = n \<and>
    st = tcp_err_stat d (ts_state (pi_t (cd_pi t))) n \<and> r = tcp_smr n"
    using assms s by (cases d) (auto simp: dp_ct_tcp_sm_def Let_def ts_def xf0_def split: prod.splits if_splits)
  moreover have "pm_tcp_flags (xf_pm xf0) = pm_tcp_flags (xf_pm xf)" "nm_dsr (xf_nm xf0) = nm_dsr (xf_nm xf)" by (simp_all add: xf0_def)
  ultimately show thesis using that [OF s _ _ ts_def] by blast
qed

lemma tcp_seen_cong:
  assumes "ts_state ts' = ts_state ts" "\<And>x. td_init_acks (ts_cts ts' x) = td_init_acks (ts_cts ts x)" "\<And>x. td_seq (ts_cts ts' x) = td_seq (ts_cts ts x)"
  shows "tcp_seen es ts' = tcp_seen es ts"
  by (simp add: tcp_seen_def assms)

lemma dp_ct_tcp_sm_seen:
  assumes "tcp_seen es (pi_t (cd_pi t))" "dp_ct_tcp_sm g (Some h) xf t x d = (xf', t', x', st, r)"
  shows "tcp_seen (es @ [ev_of (g, h, xf, d)]) (pi_t (cd_pi t'))"
  using assms(2)
proof (rule dp_ct_tcp_sm_step)
  fix xf0 ts xf1 ts' df n
  assume s: "tcp_step g d (bpf_ntohl (th_seq h)) (bpf_ntohl (th_ack_seq h)) xf0 ts = (xf1, ts', df, n)"
    "pm_tcp_flags (xf_pm xf0) = pm_tcp_flags (xf_pm xf)" "nm_dsr (xf_nm xf0) = nm_dsr (xf_nm xf)"
    "ts = pi_t (cd_pi (if d = CT_DIR_IN then tcp_note (pm_l3_len (xf_pm xf)) h t else t))" "pi_t (cd_pi t') = ts'\<lparr>ts_state := n\<rparr>"
  have "tcp_seen es ts" using assms(1) tcp_seen_cong [of ts "pi_t (cd_pi t)" es] s(4) by simp
  from tcp_seen_step [OF this s(1)] show ?thesis using s(2,3,5) by (simp add: ev_of_def)
qed

lemma tcp_run_seen: "tcp_seen es (pi_t (cd_pi (fst s))) \<Longrightarrow> tcp_seen (es @ map ev_of ps) (pi_t (cd_pi (fst (tcp_run ps s))))"
proof (induction ps arbitrary: es s)
  case (Cons p ps)
  obtain g h xf d where p: "p = (g, h, xf, d)" by (metis surj_pair)
  obtain xf' t' x' st r where r: "dp_ct_tcp_sm g (Some h) xf (fst s) (snd s) d = (xf', t', x', st, r)" by (metis surj_pair)
  from Cons.IH [of "es @ [ev_of p]" "(t', x')"] dp_ct_tcp_sm_seen [OF Cons.prems r] show ?case by (simp add: p r)
qed simp

section \<open>Properties\<close>

text \<open>
  C33: the machine takes a connection for open, from its establishment to the last acknowledgement of its
  end, only after one of these: a handshake, that is the client's SYN, the server's SYN with the
  acknowledgement of it and the client's acknowledgement of that; a SYN of the server's side without an
  acknowledgement, followed by a SYN with one of the same side and the client's acknowledgement of it; a
  packet of a rule with direct server return; three acknowledgements from each side, for a connection
  that was open before it was seen. The second way is not meant: the first state refuses a SYN of the
  server only if its acknowledgement number is not zero.
\<close>

theorem tcp_open_needs_handshake:
  assumes "cd_pi tdat = ct_pinf_zero" "tcp_is_open (ts_state (pi_t (cd_pi (fst (tcp_run ps (tdat, xtdat))))))"
  shows "(\<exists>s p q. subseq [s, p, q] (map ev_of ps) \<and> handshake s p q) \<or>
    (\<exists>s p q. subseq [s, p, q] (map ev_of ps) \<and> server_handshake s p q) \<or>
    (\<exists>e \<in> set (map ev_of ps). ev_dsr e \<noteq> 0) \<or> (\<forall>d. 3 \<le> acks_from d (map ev_of ps))"
proof -
  have "tcp_seen [] (pi_t (cd_pi tdat))" by (simp add: assms(1) tcp_seen_def ct_pinf_zero_def)
  from tcp_run_seen [of "[]" "(tdat, xtdat)" ps] this have "tcp_seen (map ev_of ps) (pi_t (cd_pi (fst (tcp_run ps (tdat, xtdat)))))" by simp
  with assms(2) have "opened (map ev_of ps)" unfolding tcp_seen_def by blast
  then show ?thesis unfolding opened_def by blast
qed

text \<open>
  C34: a half-closed connection is lost. After the client has closed its side and the server has
  acknowledged that, the server may go on sending; but the next two packets it sends take the machine back
  to its first state and then to an error, on which the connection's entries are deleted.
\<close>

theorem half_closed_is_lost:
  assumes "ts_state (pi_t (cd_pi tdat)) = CT_TCP_FINI2" "ts_fndir (pi_t (cd_pi tdat)) = CT_DIR_IN"
    "td_init_acks (ts_cts (pi_t (cd_pi tdat)) CT_DIR_OUT) = 0" "nm_dsr (xf_nm xf) = 0" "pm_tcp_flags (xf_pm xf) = LLB_TCP_ACK"
    "dp_ct_tcp_sm g (Some h) xf tdat xtdat CT_DIR_OUT = (xf1, tdat1, xtdat1, st1, r1)"
    "dp_ct_tcp_sm g' (Some h') xf tdat1 xtdat1 CT_DIR_OUT = (xf2, tdat2, xtdat2, st2, r2)"
  shows "r1 = CT_SMR_INPROG \<and> ts_state (pi_t (cd_pi tdat1)) = CT_TCP_CLOSED \<and> r2 = CT_SMR_ERR"
  using assms(6)
proof (rule dp_ct_tcp_sm_step)
  fix xf0 ts xf' ts' df n
  assume s: "tcp_step g CT_DIR_OUT (bpf_ntohl (th_seq h)) (bpf_ntohl (th_ack_seq h)) xf0 ts = (xf', ts', df, n)"
    "pm_tcp_flags (xf_pm xf0) = pm_tcp_flags (xf_pm xf)" "pi_t (cd_pi tdat1) = ts'\<lparr>ts_state := n\<rparr>" "r1 = tcp_smr n"
    "ts = pi_t (cd_pi (if CT_DIR_OUT = CT_DIR_IN then tcp_note (pm_l3_len (xf_pm xf)) h tdat else tdat))"
  have ts: "ts = pi_t (cd_pi tdat)" using s(5) by simp
  have 1: "ts' = ts" "n = CT_TCP_CLOSED"
    using s(1) assms(1,2,5) s(2) by (simp_all add: ts tcp_step_def tcp_open_def tcp_flag_defs)
  show ?thesis using assms(7)
  proof (rule dp_ct_tcp_sm_step)
    fix yf0 us yf' us' ef k
    assume u: "tcp_step g' CT_DIR_OUT (bpf_ntohl (th_seq h')) (bpf_ntohl (th_ack_seq h')) yf0 us = (yf', us', ef, k)"
      "pm_tcp_flags (xf_pm yf0) = pm_tcp_flags (xf_pm xf)" "nm_dsr (xf_nm yf0) = nm_dsr (xf_nm xf)" "r2 = tcp_smr k"
      "us = pi_t (cd_pi (if CT_DIR_OUT = CT_DIR_IN then tcp_note (pm_l3_len (xf_pm xf)) h' tdat1 else tdat1))"
    have "us = ts\<lparr>ts_state := CT_TCP_CLOSED\<rparr>" using u(5) s(3) 1 by simp
    moreover have "\<not> (3 :: u8) \<le> 1" by (simp add: word_le_nat_alt)
    ultimately have "k = CT_TCP_ERR"
      using u(1-3) assms(3-5)
      by (auto simp: ts tcp_step_def tcp_closed_def tcp_flag_defs CT_TCP_INIT_ACK_THRESHOLD_def Let_def split: if_splits)
    then show ?thesis using s(3,4) 1 u(4) by (simp add: tcp_smr_def)
  qed
qed

text \<open>
  C35: the regular end of a connection is counted as a reset. The last acknowledgement, from the side that
  closed first, bumps the counter of resets received from that side.
\<close>

theorem clean_close_counts_reset:
  assumes "ts_state (pi_t (cd_pi tdat)) = CT_TCP_FINI3" "ts_fndir (pi_t (cd_pi tdat)) = dir" "pm_tcp_flags (xf_pm xf) = LLB_TCP_ACK"
    "dp_ct_tcp_sm g (Some h) xf tdat xtdat dir = (xf1, tdat1, xtdat1, st, r)"
  shows "st = Some (if dir = CT_DIR_IN then CT_ERR_STAT_TCP_RST_CLIENT else CT_ERR_STAT_TCP_RST_SERVER) \<and> r = CT_SMR_CTD"
  using assms(4)
proof (rule dp_ct_tcp_sm_step)
  fix xf0 ts xf' ts' df n
  assume s: "tcp_step g dir (bpf_ntohl (th_seq h)) (bpf_ntohl (th_ack_seq h)) xf0 ts = (xf', ts', df, n)"
    "pm_tcp_flags (xf_pm xf0) = pm_tcp_flags (xf_pm xf)" "st = tcp_err_stat dir (ts_state (pi_t (cd_pi tdat))) n" "r = tcp_smr n"
    "ts = pi_t (cd_pi (if dir = CT_DIR_IN then tcp_note (pm_l3_len (xf_pm xf)) h tdat else tdat))"
  have "ts_state ts = CT_TCP_FINI3" "ts_fndir ts = dir" using s(5) assms(1,2) by simp_all
  then have "n = CT_TCP_CW" using s(1,2) assms(3) by (simp add: tcp_step_def tcp_open_def tcp_flag_defs)
  then show ?thesis using s(3,4) assms(1) by (simp add: tcp_err_stat_def tcp_smr_def)
qed

subsection \<open>Witnesses\<close>

definition sample_dat :: dp_ct_dat where
  "sample_dat = \<lparr>cd_rid = 7, cd_aid = 3, cd_nid = 0, cd_pi = ct_pinf_zero, cd_dir = CT_DIR_IN, cd_smr = CT_SMR_INIT,
     cd_xi = sample_ep 0, cd_pb = \<lparr>pb_bytes = 0, pb_packets = 0\<rparr>\<rparr>"

definition sample_tcp :: "ct_tcp_state_t \<Rightarrow> dp_ct_dat" where
  "sample_tcp s = pi_t_upd (\<lambda>ts. ts\<lparr>ts_state := s, ts_fndir := CT_DIR_IN\<rparr>) sample_dat"

definition flags_xf :: "u8 \<Rightarrow> xfi" where
  "flags_xf fl = sample_xf\<lparr>xf_pm := (xf_pm sample_xf)\<lparr>pm_tcp_flags := fl\<rparr>\<rparr>"

text \<open>A handshake: sequence number 5 of the client, 9 of the server.\<close>

definition sample_handshake :: "tcp_pkt list" where
  "sample_handshake = [(False, \<lparr>th_seq = bpf_ntohl 5, th_ack_seq = 0\<rparr>, flags_xf 2, CT_DIR_IN),
     (False, \<lparr>th_seq = bpf_ntohl 9, th_ack_seq = bpf_ntohl 6\<rparr>, flags_xf 18, CT_DIR_OUT),
     (False, \<lparr>th_seq = bpf_ntohl 6, th_ack_seq = bpf_ntohl 10\<rparr>, flags_xf 16, CT_DIR_IN)]"

lemma sample_handshake_est: "ts_state (pi_t (cd_pi (fst (tcp_run sample_handshake (sample_dat, sample_dat))))) = CT_TCP_EST"
  by code_simp

theorem tcp_open_needs_handshake_witness:
  "ts_state (pi_t (cd_pi (fst (tcp_run sample_handshake (sample_dat, sample_dat))))) = CT_TCP_EST \<and>
   (\<exists>s p q. subseq [s, p, q] (map ev_of sample_handshake) \<and> handshake s p q)"
proof -
  let ?es = "map ev_of sample_handshake"
  have c: "\<not> (\<exists>e \<in> set ?es. ev_dsr e \<noteq> 0)" "\<not> 3 \<le> acks_from CT_DIR_OUT ?es" "list_all (\<lambda>e. \<not> server_syn e) ?es"
    by code_simp+
  have "\<not> (subseq [s, p, q] ?es \<and> server_handshake s p q)" for s p q
    using c(3) subseq_singleton_left [of s ?es] subseq_order.trans [of "[s]" "[s, p, q]" ?es] by (auto simp: server_handshake_def list_all_iff)
  then show ?thesis
    using c(1,2) tcp_open_needs_handshake [of sample_dat sample_handshake sample_dat] sample_handshake_est by (auto simp: sample_dat_def)
qed

text \<open>The way that is not meant: the server sends both SYNs, and the client's acknowledgement establishes the connection.\<close>

definition sample_server_syn :: "tcp_pkt list" where
  "sample_server_syn = [(False, \<lparr>th_seq = bpf_ntohl 5, th_ack_seq = 0\<rparr>, flags_xf 2, CT_DIR_OUT),
     (False, \<lparr>th_seq = bpf_ntohl 9, th_ack_seq = bpf_ntohl 1\<rparr>, flags_xf 18, CT_DIR_OUT),
     (False, \<lparr>th_seq = bpf_ntohl 6, th_ack_seq = bpf_ntohl 10\<rparr>, flags_xf 16, CT_DIR_IN)]"

lemma server_syn_opens: "ts_state (pi_t (cd_pi (fst (tcp_run sample_server_syn (sample_dat, sample_dat))))) = CT_TCP_EST"
  by code_simp

theorem half_closed_is_lost_witness:
  "case dp_ct_tcp_sm False (Some \<lparr>th_seq = 0, th_ack_seq = 0\<rparr>) (flags_xf LLB_TCP_ACK) (sample_tcp CT_TCP_FINI2) sample_dat CT_DIR_OUT of
     (xf, t, x, st, r) \<Rightarrow>
       snd (snd (snd (snd (dp_ct_tcp_sm False (Some \<lparr>th_seq = 0, th_ack_seq = 0\<rparr>) (flags_xf LLB_TCP_ACK) t x CT_DIR_OUT)))) = CT_SMR_ERR"
proof -
  let ?h = "\<lparr>th_seq = 0, th_ack_seq = 0\<rparr>" and ?xf = "flags_xf LLB_TCP_ACK" and ?t = "sample_tcp CT_TCP_FINI2"
  obtain xf1 t1 x1 st1 r1 where 1: "dp_ct_tcp_sm False (Some ?h) ?xf ?t sample_dat CT_DIR_OUT = (xf1, t1, x1, st1, r1)" by (metis surj_pair)
  obtain xf2 t2 x2 st2 r2 where 2: "dp_ct_tcp_sm False (Some ?h) ?xf t1 x1 CT_DIR_OUT = (xf2, t2, x2, st2, r2)" by (metis surj_pair)
  have "r2 = CT_SMR_ERR"
    using half_closed_is_lost [OF _ _ _ _ _ 1 2]
    by (simp add: sample_tcp_def sample_dat_def ct_pinf_zero_def flags_xf_def sample_xf_def)
  with 1 2 show ?thesis by simp
qed

theorem clean_close_counts_reset_witness:
  "fst (snd (snd (snd (dp_ct_tcp_sm False (Some \<lparr>th_seq = 0, th_ack_seq = 0\<rparr>) (flags_xf LLB_TCP_ACK) (sample_tcp CT_TCP_FINI3) sample_dat CT_DIR_IN))))
   = Some CT_ERR_STAT_TCP_RST_CLIENT"
proof -
  obtain xf1 t1 x1 st r where 1: "dp_ct_tcp_sm False (Some \<lparr>th_seq = 0, th_ack_seq = 0\<rparr>) (flags_xf LLB_TCP_ACK) (sample_tcp CT_TCP_FINI3) sample_dat CT_DIR_IN
    = (xf1, t1, x1, st, r)" by (metis surj_pair)
  show ?thesis using clean_close_counts_reset [OF _ _ _ 1] 1
    by (simp add: sample_tcp_def sample_dat_def ct_pinf_zero_def flags_xf_def sample_xf_def)
qed

end
