(* ===== verification/CT_Flows.thy ===== *)
theory CT_Flows
  imports CT_Tcp
begin

text \<open>
  The machines of the connection table for UDP, ICMP and SCTP, \<open>dp_ct_udp_sm\<close>, \<open>dp_ct_icmp_sm\<close>,
  \<open>dp_ct_icmp6_sm\<close> and \<open>dp_ct_sctp_sm\<close> of \<open>kernel/llb_kern_ct.c\<close>, as built by default (without
  \<open>HAVE_L4_TRACE\<close> and \<open>HAVE_SCTPMH_HB_MANGLE\<close>). The SCTP machine reads and rewrites the packet, which
  is the list of its bytes; a header that the packet ends before is \<open>None\<close> for ICMP.
\<close>

section \<open>UDP\<close>

definition udp_next :: "xfi \<Rightarrow> ct_dir_t \<Rightarrow> ct_udp_pinf_t \<Rightarrow> ct_udp_pinf_t \<times> ct_udp_state_t" where
  "udp_next xf dir us =
     (case us_state us of
        CT_UDP_CNI \<Rightarrow>
          (us, if nm_dsr (xf_nm xf) \<noteq> 0 \<or> l2_ssnid (xf_l2m xf) \<noteq> 0 then CT_UDP_EST
               else if us_pkts_seen us \<noteq> 0 \<and> us_rpkts_seen us \<noteq> 0 then CT_UDP_EST
               else if us_pkts_seen us > CT_UDP_CONN_THRESHOLD then CT_UDP_UEST
               else CT_UDP_CNI)
      | CT_UDP_UEST \<Rightarrow> (us, if us_rpkts_seen us \<noteq> 0 \<or> us_pkts_seen us > 2 * CT_UDP_CONN_THRESHOLD then CT_UDP_EST else CT_UDP_UEST)
      | CT_UDP_EST \<Rightarrow> if pm_l4fin (xf_pm xf) then (us\<lparr>us_fndir := dir\<rparr>, CT_UDP_FINI) else (us, CT_UDP_EST)
      | CT_UDP_FINI \<Rightarrow> (us, if pm_l4fin (xf_pm xf) \<and> us_fndir us \<noteq> dir then CT_UDP_CW else CT_UDP_FINI)
      | CT_UDP_CW \<Rightarrow> (us, CT_UDP_CW))"

definition udp_smr :: "ct_udp_state_t \<Rightarrow> ct_smr_t" where
  "udp_smr n = (case n of CT_UDP_UEST \<Rightarrow> CT_SMR_UEST | CT_UDP_EST \<Rightarrow> CT_SMR_EST | CT_UDP_CW \<Rightarrow> CT_SMR_CTD
     | CT_UDP_FINI \<Rightarrow> CT_SMR_FIN | CT_UDP_CNI \<Rightarrow> CT_SMR_INPROG)"

abbreviation pi_u_upd :: "(ct_udp_pinf_t \<Rightarrow> ct_udp_pinf_t) \<Rightarrow> dp_ct_dat \<Rightarrow> dp_ct_dat" where
  "pi_u_upd f d \<equiv> d\<lparr>cd_pi := (cd_pi d)\<lparr>pi_u := f (pi_u (cd_pi d))\<rparr>\<rparr>"

definition dp_ct_udp_sm :: "xfi \<Rightarrow> dp_ct_dat \<Rightarrow> dp_ct_dat \<Rightarrow> ct_dir_t \<Rightarrow> dp_ct_dat \<times> dp_ct_dat \<times> ct_smr_t" where
  "dp_ct_udp_sm xf tdat xtdat dir =
     (let len = pm_l3_len (xf_pm xf);
          (tdat, xtdat) =
            (if dir = CT_DIR_IN then (pi_u_upd (\<lambda>us. us\<lparr>us_pkts_seen := us_pkts_seen us + 1\<rparr>) (pb_count len tdat), xtdat)
             else (pi_u_upd (\<lambda>us. us\<lparr>us_rpkts_seen := us_rpkts_seen us + 1\<rparr>) tdat, pb_count len xtdat));
          (us, nstate) = udp_next xf dir (pi_u (cd_pi tdat))
      in (pi_u_upd (\<lambda>_. us\<lparr>us_state := nstate\<rparr>) tdat, pi_u_upd (\<lambda>xus. xus\<lparr>us_state := nstate\<rparr>) xtdat, udp_smr nstate))"

section \<open>ICMP\<close>

text \<open>The type of the message and, for an echo, its sequence number in network order.\<close>

record icmphdr =
  ih_type :: u8
  ih_sequence :: u16

definition ICMP_ECHOREPLY :: u8 where "ICMP_ECHOREPLY = 0"
definition ICMP_DEST_UNREACH :: u8 where "ICMP_DEST_UNREACH = 3"
definition ICMP_REDIRECT :: u8 where "ICMP_REDIRECT = 5"
definition ICMP_ECHO :: u8 where "ICMP_ECHO = 8"
definition ICMP_TIME_EXCEEDED :: u8 where "ICMP_TIME_EXCEEDED = 11"
definition ICMPV6_DEST_UNREACH :: u8 where "ICMPV6_DEST_UNREACH = 1"
definition ICMPV6_TIME_EXCEED :: u8 where "ICMPV6_TIME_EXCEED = 3"
definition ICMPV6_ECHO_REQUEST :: u8 where "ICMPV6_ECHO_REQUEST = 128"
definition ICMPV6_ECHO_REPLY :: u8 where "ICMPV6_ECHO_REPLY = 129"

text \<open>The echo part, which both versions share: the data and the next state.\<close>

definition icmp_echo :: "u8 \<Rightarrow> bool \<Rightarrow> bool \<Rightarrow> u16 \<Rightarrow> ct_icmp_pinf_t \<Rightarrow> ct_icmp_pinf_t \<times> u8" where
  "icmp_echo dsr is_req is_rep seq is' =
     (if is_state is' = CT_ICMP_CLOSED
      then if dsr \<noteq> 0 then (is', CT_ICMP_REPS)
           else if \<not> is_req then (is'\<lparr>is_errs := 1\<rparr>, is_state is')
           else (is'\<lparr>is_lseq := seq\<rparr>, CT_ICMP_REQS)
      else if is_state is' = CT_ICMP_REQS
      then if is_req then (is'\<lparr>is_lseq := seq\<rparr>, is_state is')
           else if is_rep
           then if is_lseq is' \<noteq> seq then (is'\<lparr>is_errs := 1\<rparr>, is_state is') else (is'\<lparr>is_lseq := seq\<rparr>, CT_ICMP_REPS)
           else (is', is_state is')
      else (is', is_state is'))"

definition icmp_next :: "u8 \<Rightarrow> u8 \<Rightarrow> u16 \<Rightarrow> ct_icmp_pinf_t \<Rightarrow> ct_icmp_pinf_t \<times> u8" where
  "icmp_next dsr ty seq is' =
     (let mark = (\<lambda>f. (is'\<lparr>is_state := is_state is' OR f\<rparr>, is_state is'))
      in if ty = ICMP_DEST_UNREACH then mark CT_ICMP_DUNR
         else if ty = ICMP_TIME_EXCEEDED then mark CT_ICMP_TTL
         else if ty = ICMP_REDIRECT then mark CT_ICMP_RDR
         else if ty = ICMP_ECHOREPLY \<or> ty = ICMP_ECHO then icmp_echo dsr (ty = ICMP_ECHO) (ty = ICMP_ECHOREPLY) seq is'
         else mark CT_ICMP_UNK)"

definition icmp6_next :: "u8 \<Rightarrow> u8 \<Rightarrow> u16 \<Rightarrow> ct_icmp_pinf_t \<Rightarrow> ct_icmp_pinf_t \<times> u8" where
  "icmp6_next dsr ty seq is' =
     (let mark = (\<lambda>f. (is'\<lparr>is_state := is_state is' OR f\<rparr>, is_state is'))
      in if ty = ICMPV6_DEST_UNREACH then mark CT_ICMP_DUNR
         else if ty = ICMPV6_TIME_EXCEED then mark CT_ICMP_TTL
         else if ty = ICMPV6_ECHO_REPLY \<or> ty = ICMPV6_ECHO_REQUEST
         then icmp_echo dsr (ty = ICMPV6_ECHO_REQUEST) (ty = ICMPV6_ECHO_REPLY) seq is'
         else mark CT_ICMP_UNK)"

abbreviation pi_i_upd :: "(ct_icmp_pinf_t \<Rightarrow> ct_icmp_pinf_t) \<Rightarrow> dp_ct_dat \<Rightarrow> dp_ct_dat" where
  "pi_i_upd f d \<equiv> d\<lparr>cd_pi := (cd_pi d)\<lparr>pi_i := f (pi_i (cd_pi d))\<rparr>\<rparr>"

text \<open>The frame that both versions share: the count, the step, and the next state in both entries.\<close>

definition icmp_frame ::
  "(u8 \<Rightarrow> u8 \<Rightarrow> u16 \<Rightarrow> ct_icmp_pinf_t \<Rightarrow> ct_icmp_pinf_t \<times> u8) \<Rightarrow>
   icmphdr option \<Rightarrow> xfi \<Rightarrow> dp_ct_dat \<Rightarrow> dp_ct_dat \<Rightarrow> ct_dir_t \<Rightarrow> xfi \<times> dp_ct_dat \<times> dp_ct_dat \<times> ct_smr_t" where
  "icmp_frame step hdr xf tdat xtdat dir =
     (case hdr of
        None \<Rightarrow> (LLBS_PPLN_DROPC LLB_PIPE_RC_PLCT_ERR xf, tdat, xtdat, CT_SMR_ERR)
      | Some i \<Rightarrow>
        let len = pm_l3_len (xf_pm xf);
            (tdat, xtdat) = (if dir = CT_DIR_IN then (pb_count len tdat, xtdat) else (tdat, pb_count len xtdat));
            (is', nstate) = step (nm_dsr (xf_nm xf)) (ih_type i) (bpf_ntohs (ih_sequence i)) (pi_i (cd_pi tdat))
        in (xf, pi_i_upd (\<lambda>_. is'\<lparr>is_state := nstate\<rparr>) tdat, pi_i_upd (\<lambda>xis. xis\<lparr>is_state := nstate\<rparr>) xtdat,
            if nstate = CT_ICMP_REPS then CT_SMR_EST else CT_SMR_INPROG))"

definition dp_ct_icmp_sm :: "icmphdr option \<Rightarrow> xfi \<Rightarrow> dp_ct_dat \<Rightarrow> dp_ct_dat \<Rightarrow> ct_dir_t \<Rightarrow> xfi \<times> dp_ct_dat \<times> dp_ct_dat \<times> ct_smr_t" where
  "dp_ct_icmp_sm = icmp_frame icmp_next"

definition dp_ct_icmp6_sm :: "icmphdr option \<Rightarrow> xfi \<Rightarrow> dp_ct_dat \<Rightarrow> dp_ct_dat \<Rightarrow> ct_dir_t \<Rightarrow> xfi \<times> dp_ct_dat \<times> dp_ct_dat \<times> ct_smr_t" where
  "dp_ct_icmp6_sm = icmp_frame icmp6_next"

end
