(* ===== verification/CT_Sctp.thy ===== *)
theory CT_Sctp
  imports CT_Flows
begin

text \<open>
  The SCTP machine of the connection table, \<open>dp_ct_sctp_sm\<close> of \<open>kernel/llb_kern_ct.c\<close>. Besides tracking
  the association it rewrites the packets that open it: the addresses that a multi-homed host lists are
  replaced by those of the load balancer, and missing ones are appended. The packet is the list of its
  bytes, all of them in the linear part of the buffer. Addresses and tags are words as a little-endian
  machine loads them from the packet.
\<close>

section \<open>Bytes of the packet\<close>

definition be16 :: "u8 list \<Rightarrow> nat \<Rightarrow> u16" where
  "be16 p o' = push_bit 8 (ucast (p ! o')) OR ucast (p ! (o' + 1))"

definition ld32 :: "u8 list \<Rightarrow> nat \<Rightarrow> u32" where
  "ld32 p o' = ucast (p ! o') OR push_bit 8 (ucast (p ! (o' + 1))) OR push_bit 16 (ucast (p ! (o' + 2))) OR
     push_bit 24 (ucast (p ! (o' + 3)))"

definition be16_bytes :: "u16 \<Rightarrow> u8 list" where
  "be16_bytes v = [ucast (drop_bit 8 v), ucast v]"

definition le32_bytes :: "u32 \<Rightarrow> u8 list" where
  "le32_bytes v = [ucast v, ucast (drop_bit 8 v), ucast (drop_bit 16 v), ucast (drop_bit 24 v)]"

text \<open>Bytes written over those at an offset.\<close>

definition put_bytes :: "u8 list \<Rightarrow> nat \<Rightarrow> u8 list \<Rightarrow> u8 list" where
  "put_bytes p o' bs = take o' p @ bs @ drop (o' + length bs) p"

definition SCTP_DATA :: u8 where "SCTP_DATA = 0"
definition SCTP_INIT_CHUNK :: u8 where "SCTP_INIT_CHUNK = 1"
definition SCTP_INIT_CHUNK_ACK :: u8 where "SCTP_INIT_CHUNK_ACK = 2"
definition SCTP_SACK :: u8 where "SCTP_SACK = 3"
definition SCTP_HB_REQ :: u8 where "SCTP_HB_REQ = 4"
definition SCTP_HB_ACK :: u8 where "SCTP_HB_ACK = 5"
definition SCTP_ABORT :: u8 where "SCTP_ABORT = 6"
definition SCTP_SHUT :: u8 where "SCTP_SHUT = 7"
definition SCTP_SHUT_ACK :: u8 where "SCTP_SHUT_ACK = 8"
definition SCTP_ERROR :: u8 where "SCTP_ERROR = 9"
definition SCTP_COOKIE_ECHO :: u8 where "SCTP_COOKIE_ECHO = 10"
definition SCTP_COOKIE_ACK :: u8 where "SCTP_COOKIE_ACK = 11"
definition SCTP_SHUT_COMPLETE :: u8 where "SCTP_SHUT_COMPLETE = 14"
definition SCTP_IPV4_ADDR_PARAM :: u16 where "SCTP_IPV4_ADDR_PARAM = 5"
definition SCTP_MAX_INIT_ACK_SZ :: nat where "SCTP_MAX_INIT_ACK_SZ = 2000"
definition LLB_MAX_SCTP_CHUNKS_INIT :: nat where "LLB_MAX_SCTP_CHUNKS_INIT = 8"

lemmas sctp_chunk_defs = SCTP_DATA_def SCTP_INIT_CHUNK_def SCTP_INIT_CHUNK_ACK_def SCTP_SACK_def SCTP_HB_REQ_def SCTP_HB_ACK_def
  SCTP_ABORT_def SCTP_SHUT_def SCTP_SHUT_ACK_def SCTP_ERROR_def SCTP_COOKIE_ECHO_def SCTP_COOKIE_ACK_def SCTP_SHUT_COMPLETE_def

section \<open>The addresses of a multi-homed host\<close>

text \<open>The address that takes the place of the \<open>i\<close>th one: that of the rule, its first, or the translation's.\<close>

definition mh_choose :: "(nat \<Rightarrow> u32) \<Rightarrow> u32 \<Rightarrow> nat \<Rightarrow> u32 \<Rightarrow> u32" where
  "mh_choose pmhh fb i ip =
     (if i < LLB_MAX_MHOSTS \<and> pmhh i \<noteq> 0 then pmhh i else if pmhh 0 \<noteq> 0 then pmhh 0 else if fb \<noteq> 0 then fb else ip)"

text \<open>
  The walk over the parameters of the chunk, from an offset and with the number of hosts known so far. It
  returns whether the packet is refused, the packet, and the hosts.
\<close>

fun sctp_params ::
  "nat \<Rightarrow> bool \<Rightarrow> (nat \<Rightarrow> u32) \<Rightarrow> u32 \<Rightarrow> nat \<Rightarrow> nat \<Rightarrow> u8 list \<Rightarrow> ct_sctp_pinfd_t \<Rightarrow> bool \<times> u8 list \<times> ct_sctp_pinfd_t" where
  "sctp_params 0 nv6 pmhh fb poff nh p d = (False, p, d)"
| "sctp_params (Suc n) nv6 pmhh fb poff nh p d =
     (if 4096 \<le> poff then (True, p, d)
      else if length p < poff + 4 then (False, p, d)
      else
        let poff' = (poff + (unat (be16 p (poff + 2)) + 3) div 4 * 4) mod 65536
        in if be16 p poff \<noteq> SCTP_IPV4_ADDR_PARAM then sctp_params n nv6 pmhh fb poff' nh p d
           else if length p < poff + 8 then (False, p, d)
           else
             let ip = ld32 p (poff + 4);
                 seen = (nh \<le> LLB_MAX_MHOSTS \<and> ip \<noteq> sd_osrc d);
                 d = (if seen then d\<lparr>sd_mh_host := (sd_mh_host d)(nh := ip), sd_nh := sd_nh d + 1\<rparr> else d);
                 nh = (if seen then nh + 1 else nh);
                 p = (if nv6 then p else put_bytes p (poff + 4) (le32_bytes (mh_choose pmhh fb (nh - 1) ip)))
             in sctp_params n nv6 pmhh fb poff' nh p d)"

text \<open>The parameters that are appended, each eight bytes after the one before; the first at the old end.\<close>

fun sctp_append :: "nat \<Rightarrow> nat \<Rightarrow> bool \<Rightarrow> (nat \<Rightarrow> u32) \<Rightarrow> u32 \<Rightarrow> nat \<Rightarrow> nat \<Rightarrow> u8 list \<Rightarrow> u8 list" where
  "sctp_append 0 i nv6 pmhh fb poff pm p = p"
| "sctp_append (Suc n) i nv6 pmhh fb poff pm p =
     (if LLB_MAX_MHOSTS \<le> i \<or> SCTP_MAX_INIT_ACK_SZ < poff \<or> length p < pm + poff + 4 then p
      else
        let pm = pm + poff;
            p = put_bytes p pm (be16_bytes SCTP_IPV4_ADDR_PARAM @ be16_bytes 8)
        in if length p < pm + 8 then p
           else sctp_append n (i + 1) nv6 pmhh fb 8 pm
             (if nv6 then p else put_bytes p (pm + 4) (le32_bytes (mh_choose pmhh fb i (ld32 p (pm + 4))))))"

text \<open>
  The packet grown by the addresses that the host did not list. The first result says whether the end of
  the step is reached.
\<close>

definition sctp_grow ::
  "bool \<Rightarrow> bool \<Rightarrow> (nat \<Rightarrow> u32) \<Rightarrow> u32 \<Rightarrow> nat \<Rightarrow> ct_sctp_pinfd_t \<Rightarrow> xfi \<Rightarrow> u8 list \<Rightarrow> bool \<times> xfi \<times> u8 list" where
  "sctp_grow tail_ok nv6 pmhh fb npmhh d xf p =
     (if \<not> unat (sd_nh d - 1) < npmhh then (True, xf, p)
      else
        let diff = npmhh + 1 - unat (sd_nh d); grow = diff * 8; poff = length p mod 65536
        in if \<not> tail_ok then (False, LLBS_PPLN_DROPC LLB_PIPE_RC_PLCT_ERR xf, p)
           else
             let p = take (grow + poff) (p @ replicate (grow + poff - length p) 0);
                 p = sctp_append diff 0 nv6 pmhh fb poff 0 p;
                 c = unat (pm_l4_off (xf_pm xf)) + 12
             in if length p < c + 4 then (False, xf, p)
                else (True, xf\<lparr>xf_pm := (xf_pm xf)\<lparr>pm_l3_adj := signed_take_bit 15 (int grow)\<rparr>\<rparr>,
                      put_bytes p (c + 2) (be16_bytes (be16 p (c + 2) + of_nat grow))))"

section \<open>The machine\<close>

text \<open>
  What a step leaves: the packet's metadata, the packet, the data of the association, the next state,
  whether both entries are marked as multi-homed, and whether the packet is refused in the middle.
\<close>

record sctp_res =
  sr_xf :: xfi
  sr_pkt :: "u8 list"
  sr_ss :: ct_sctp_pinf_t
  sr_next :: ct_sctp_state_t
  sr_mhon :: bool
  sr_refused :: bool

abbreviation sctp_to :: "xfi \<Rightarrow> u8 list \<Rightarrow> ct_sctp_pinf_t \<Rightarrow> ct_sctp_state_t \<Rightarrow> sctp_res" where
  "sctp_to xf p ss n \<equiv> \<lparr>sr_xf = xf, sr_pkt = p, sr_ss = ss, sr_next = n, sr_mhon = False, sr_refused = False\<rparr>"

definition sd_upd :: "ct_dir_t \<Rightarrow> ct_sctp_pinfd_t \<Rightarrow> ct_sctp_pinf_t \<Rightarrow> ct_sctp_pinf_t" where
  "sd_upd dir d ss = ss\<lparr>ss_cts := (ss_cts ss)(dir := d)\<rparr>"

text \<open>The host that sends the packet, as the only one known.\<close>

definition sd_first :: "xfi \<Rightarrow> ct_sctp_pinfd_t \<Rightarrow> ct_sctp_pinfd_t" where
  "sd_first xf d = d\<lparr>sd_mh_host := (sd_mh_host d)(0 := xaddr0 (l34_saddr (xf_l34m xf))), sd_nh := 1,
     sd_odst := xaddr0 (l34_daddr (xf_l34m xf)), sd_osrc := xaddr0 (l34_saddr (xf_l34m xf))\<rparr>"

abbreviation sctp_natted :: "xfi \<Rightarrow> dp_ct_dat \<Rightarrow> bool" where
  "sctp_natted xf tdat \<equiv> l2_dl_type (xf_l2m xf) = bpf_ntohs ETH_P_IP \<and> xi_nat_flags (cd_xi tdat) \<noteq> 0"

definition sctp_closed :: "bool \<Rightarrow> ct_dir_t \<Rightarrow> dp_ct_tact \<Rightarrow> xfi \<Rightarrow> u8 list \<Rightarrow> ct_sctp_pinf_t \<Rightarrow> sctp_res" where
  "sctp_closed tail_ok dir a xf p ss =
     (let l4 = unat (pm_l4_off (xf_pm xf)); c = l4 + 12; ty = p ! c; vtag = ld32 p (l4 + 4); tdat = ct_ctd a;
          pi = cd_pi tdat; nv6 = (na_nv6 (ct_nat_act a) \<noteq> 0); fb = xaddr0 (na_rip (ct_nat_act a)); ic = c + 4; pm = ic + 16;
          grow = sctp_grow tail_ok nv6 (pi_pmhh pi) fb (unat (pi_npmhh pi))
      in if nm_dsr (xf_nm xf) \<noteq> 0 then sctp_to xf p ss CT_SCTP_EST
         else if dir = CT_DIR_IN \<and> xi_nat_flags (cd_xi tdat) \<noteq> 0 \<and> vtag \<noteq> 0 \<and>
                 (ty = SCTP_DATA \<or> ty = SCTP_SACK \<or> ty = SCTP_HB_REQ \<or> ty = SCTP_HB_ACK)
         then sctp_to xf p ss CT_SCTP_EST
         else if ty \<noteq> SCTP_INIT_CHUNK \<or> dir \<noteq> CT_DIR_IN then sctp_to xf p ss CT_SCTP_ERR
         else if length p < pm then sctp_to xf p ss (ss_state ss)
         else
           let ss = ss\<lparr>ss_itag := ld32 p ic\<rparr>
           in if length p < pm + 4
              then let (_, xf, p) = grow (ss_cts ss CT_DIR_IN) xf p in sctp_to xf p ss CT_SCTP_INIT
              else if \<not> sctp_natted xf tdat then sctp_to xf p ss CT_SCTP_INIT
              else
                let (refused, p, d) = sctp_params LLB_MAX_SCTP_CHUNKS_INIT nv6 (pi_pmhh pi) fb pm 1 p (sd_first xf (ss_cts ss CT_DIR_IN));
                    ss = sd_upd CT_DIR_IN d ss
                in if refused
                   then (sctp_to (LLBS_PPLN_DROPC LLB_PIPE_RC_PLCT_ERR xf) p ss CT_SCTP_INIT)\<lparr>sr_refused := True\<rparr>
                   else let (_, xf, p) = grow d xf p in sctp_to xf p ss CT_SCTP_INIT)"

definition sctp_init :: "bool \<Rightarrow> ct_dir_t \<Rightarrow> dp_ct_tact \<Rightarrow> dp_ct_tact \<Rightarrow> xfi \<Rightarrow> u8 list \<Rightarrow> ct_sctp_pinf_t \<Rightarrow> sctp_res" where
  "sctp_init tail_ok dir a ax xf p ss =
     (let l4 = unat (pm_l4_off (xf_pm xf)); c = l4 + 12; ty = p ! c; vtag = ld32 p (l4 + 4); tdat = ct_ctd a;
          xpi = cd_pi (ct_ctd ax); npmhh = unat (pi_npmhh (cd_pi tdat)); nv6 = (na_nv6 (ct_nat_act ax) \<noteq> 0);
          fb = xaddr0 (na_xip (ct_nat_act ax)); ic = c + 4; pm = ic + 16;
          grow = (\<lambda>d xf p ss n. let (through, xf, p) = sctp_grow tail_ok False (pi_pmhh xpi) fb npmhh d xf p
                    in (sctp_to xf p ss n)\<lparr>sr_mhon := through \<and> 0 < npmhh\<rparr>)
      in if ty \<noteq> SCTP_INIT_CHUNK \<and> ty \<noteq> SCTP_INIT_CHUNK_ACK \<or> ty = SCTP_INIT_CHUNK \<and> dir \<noteq> CT_DIR_IN \<or>
            ty = SCTP_INIT_CHUNK_ACK \<and> dir \<noteq> CT_DIR_OUT
         then sctp_to xf p ss CT_SCTP_ERR
         else if length p < pm then sctp_to xf p ss (ss_state ss)
         else if ty = SCTP_INIT_CHUNK_ACK \<and> vtag \<noteq> ss_itag ss then sctp_to xf p ss CT_SCTP_ERR
         else
           let (ss, n) = (if ty = SCTP_INIT_CHUNK then (ss\<lparr>ss_itag := ld32 p ic, ss_otag := 0\<rparr>, CT_SCTP_INIT)
                          else (ss\<lparr>ss_otag := ld32 p ic\<rparr>, CT_SCTP_INITA))
           in if \<not> sctp_natted xf tdat then sctp_to xf p ss n
              else if length p < pm + 4 then grow (ss_cts ss CT_DIR_OUT) xf p ss n
              else
                let (refused, p, d) = sctp_params LLB_MAX_SCTP_CHUNKS_INIT nv6 (pi_pmhh xpi) fb pm 1 p (sd_first xf (ss_cts ss CT_DIR_OUT));
                    ss = sd_upd CT_DIR_OUT d ss
                in if refused then (sctp_to (LLBS_PPLN_DROPC LLB_PIPE_RC_PLCT_ERR xf) p ss n)\<lparr>sr_refused := True\<rparr>
                   else grow d xf p ss n)"

definition sctp_inita :: "ct_dir_t \<Rightarrow> xfi \<Rightarrow> u8 list \<Rightarrow> ct_sctp_pinf_t \<Rightarrow> ct_sctp_pinf_t \<times> ct_sctp_state_t" where
  "sctp_inita dir xf p ss =
     (let l4 = unat (pm_l4_off (xf_pm xf)); c = l4 + 12; ty = p ! c
      in if (ty \<noteq> SCTP_INIT_CHUNK \<and> dir \<noteq> CT_DIR_IN) \<and> (ty \<noteq> SCTP_COOKIE_ECHO \<and> dir \<noteq> CT_DIR_IN) then (ss, CT_SCTP_ERR)
         else if ty = SCTP_INIT_CHUNK
         then if length p < c + 20 then (ss, ss_state ss)
              else (ss\<lparr>ss_itag := ld32 p (c + 4), ss_otag := 0\<rparr>, CT_SCTP_INIT)
         else if length p < c + 8 then (ss, ss_state ss)
         else if ss_otag ss \<noteq> ld32 p (l4 + 4) then (ss, CT_SCTP_ERR)
         else (ss\<lparr>ss_cookie := ld32 p (c + 4)\<rparr>, CT_SCTP_COOKIE))"

definition sctp_step :: "bool \<Rightarrow> ct_dir_t \<Rightarrow> dp_ct_tact \<Rightarrow> dp_ct_tact \<Rightarrow> xfi \<Rightarrow> u8 list \<Rightarrow> sctp_res" where
  "sctp_step tail_ok dir a ax xf p =
     (let ss = pi_s (cd_pi (ct_ctd a)); l4 = unat (pm_l4_off (xf_pm xf)); ty = p ! (l4 + 12); vtag = ld32 p (l4 + 4);
          to = sctp_to xf p ss
      in if ty = SCTP_ERROR then to CT_SCTP_ERR
         else if ty = SCTP_SHUT then to CT_SCTP_SHUT
         else if ty = SCTP_ABORT then to CT_SCTP_ABRT
         else case ss_state ss of
           CT_SCTP_CLOSED \<Rightarrow> sctp_closed tail_ok dir a xf p ss
         | CT_SCTP_INIT \<Rightarrow> sctp_init tail_ok dir a ax xf p ss
         | CT_SCTP_INITA \<Rightarrow> let (ss, n) = sctp_inita dir xf p ss in sctp_to xf p ss n
         | CT_SCTP_COOKIE \<Rightarrow>
             if (ty \<noteq> SCTP_COOKIE_ACK \<and> dir \<noteq> CT_DIR_OUT) \<or> ss_itag ss \<noteq> vtag then to CT_SCTP_ERR else to CT_SCTP_COOKIEA
         | CT_SCTP_COOKIEA \<Rightarrow> to CT_SCTP_EST
         | CT_SCTP_PRE_EST \<Rightarrow> to (if dir \<noteq> CT_DIR_OUT then CT_SCTP_EST else CT_SCTP_PRE_EST)
         | CT_SCTP_SHUT \<Rightarrow> to (if ty \<noteq> SCTP_SHUT_ACK \<and> dir \<noteq> CT_DIR_OUT then CT_SCTP_ERR else CT_SCTP_SHUTA)
         | CT_SCTP_SHUTA \<Rightarrow> to (if ty \<noteq> SCTP_SHUT_COMPLETE \<and> dir \<noteq> CT_DIR_IN then CT_SCTP_ERR else CT_SCTP_SHUTC)
         | n \<Rightarrow> to n)"

definition sctp_err_stat :: "ct_sctp_state_t \<Rightarrow> ct_sctp_state_t \<Rightarrow> ct_err_stat option" where
  "sctp_err_stat old n =
     (if old = n then None else if n = CT_SCTP_ABRT then Some CT_ERR_STAT_SCTP_ABORT
      else if n = CT_SCTP_ERR then Some CT_ERR_STAT_SCTP_ERR else None)"

definition sctp_smr :: "ct_sctp_state_t \<Rightarrow> ct_smr_t" where
  "sctp_smr n = (if n = CT_SCTP_EST then CT_SMR_EST else if n = CT_SCTP_SHUTC then CT_SMR_CTD else if n = CT_SCTP_ERR then CT_SMR_ERR
     else if ct_sctp_fin_mask n then CT_SMR_FIN else CT_SMR_INPROG)"

definition pi_s_set :: "ct_sctp_pinf_t \<Rightarrow> bool \<Rightarrow> dp_ct_tact \<Rightarrow> dp_ct_tact" where
  "pi_s_set ss mhon a = a\<lparr>ct_ctd := (ct_ctd a)\<lparr>cd_pi := (cd_pi (ct_ctd a))\<lparr>pi_s := ss\<rparr>,
     cd_xi := (if mhon then (cd_xi (ct_ctd a))\<lparr>xi_mhon := 1\<rparr> else cd_xi (ct_ctd a))\<rparr>\<rparr>"

definition dp_ct_sctp_sm ::
  "bool \<Rightarrow> xfi \<Rightarrow> u8 list \<Rightarrow> dp_ct_tact \<Rightarrow> dp_ct_tact \<Rightarrow> ct_dir_t \<Rightarrow>
   xfi \<times> u8 list \<times> dp_ct_tact \<times> dp_ct_tact \<times> ct_err_stat option \<times> ct_smr_t" where
  "dp_ct_sctp_sm tail_ok xf p a ax dir =
     (if length p < unat (pm_l4_off (xf_pm xf)) + 16 then (LLBS_PPLN_DROPC LLB_PIPE_RC_PLCT_ERR xf, p, a, ax, None, CT_SMR_ERR)
      else
        let len = pm_l3_len (xf_pm xf);
            (a, ax) = (if dir = CT_DIR_IN then (a\<lparr>ct_ctd := pb_count len (ct_ctd a)\<rparr>, ax) else (a, ax\<lparr>ct_ctd := pb_count len (ct_ctd ax)\<rparr>));
            r = sctp_step tail_ok dir a ax xf p;
            n = (if sd_nh (ss_cts (sr_ss r) CT_DIR_IN) \<noteq> 0 \<and> sr_next r = CT_SCTP_COOKIE then CT_SCTP_EST else sr_next r);
            old = ss_state (sr_ss r)
        in if sr_refused r then (sr_xf r, sr_pkt r, pi_s_set (sr_ss r) False a, ax, None, CT_SMR_ERR)
           else (sr_xf r, sr_pkt r, pi_s_set ((sr_ss r)\<lparr>ss_state := n\<rparr>) (sr_mhon r) a,
                 pi_s_set ((pi_s (cd_pi (ct_ctd ax)))\<lparr>ss_state := n\<rparr>) (sr_mhon r) ax, sctp_err_stat old n, sctp_smr n))"

section \<open>The appended addresses\<close>

lemma length_bytes [simp]: "length (be16_bytes v) = 2" "length (le32_bytes w) = 4"
  by (simp_all add: be16_bytes_def le32_bytes_def)

lemma length_put_bytes [simp]: "o' + length bs \<le> length p \<Longrightarrow> length (put_bytes p o' bs) = length p"
  by (simp add: put_bytes_def)

lemma put_bytes_end: "length q = n \<Longrightarrow> put_bytes (q @ r) n bs = q @ bs @ drop (length bs) r"
  by (simp add: put_bytes_def)

lemma put_bytes_front: "o' + length bs \<le> length q \<Longrightarrow> put_bytes (q @ r) o' bs = put_bytes q o' bs @ r"
  by (simp add: put_bytes_def)

text \<open>An address parameter as it is on the wire.\<close>

definition addr_param :: "(nat \<Rightarrow> u32) \<Rightarrow> u32 \<Rightarrow> nat \<Rightarrow> u8 list" where
  "addr_param pmhh fb i = be16_bytes SCTP_IPV4_ADDR_PARAM @ be16_bytes 8 @ le32_bytes (mh_choose pmhh fb i 0)"

lemma length_addr_param [simp]: "length (addr_param pmhh fb i) = 8"
  by (simp add: addr_param_def)

lemma ld32_zero: "length q = n \<Longrightarrow> ld32 (q @ replicate (4 + m) 0) n = 0"
  by (simp add: ld32_def nth_append)

lemma sctp_append_exact:
  assumes "length q = pm + poff" "poff \<le> SCTP_MAX_INIT_ACK_SZ" "i + n \<le> LLB_MAX_MHOSTS"
  shows "sctp_append n i False pmhh fb poff pm (q @ replicate (8 * n) 0) = q @ concat (map (addr_param pmhh fb) [i..<i + n])"
  using assms
proof (induction n arbitrary: i poff pm q)
  case 0
  then show ?case by simp
next
  case (Suc n)
  let ?h = "be16_bytes SCTP_IPV4_ADDR_PARAM @ be16_bytes 8"
  have r: "replicate (8 * Suc n) (0::u8) = replicate 4 0 @ replicate (4 + 8 * n) 0" by (simp flip: replicate_add)
  have a: "put_bytes (q @ replicate (8 * Suc n) 0) (pm + poff) ?h = (q @ ?h) @ replicate (4 + 8 * n) 0"
    by (subst put_bytes_end [OF Suc.prems(1)]) (simp add: r)
  have z: "ld32 ((q @ ?h) @ replicate (4 + 8 * n) 0) (pm + poff + 4) = 0" by (rule ld32_zero) (simp add: Suc.prems(1))
  have b: "put_bytes ((q @ ?h) @ replicate (4 + 8 * n) 0) (pm + poff + 4) (le32_bytes v) = (q @ ?h @ le32_bytes v) @ replicate (8 * n) 0" for v
    by (subst put_bytes_end) (simp_all add: Suc.prems(1))
  have "sctp_append (Suc n) i False pmhh fb poff pm (q @ replicate (8 * Suc n) 0) =
      sctp_append n (i + 1) False pmhh fb 8 (pm + poff) ((q @ addr_param pmhh fb i) @ replicate (8 * n) 0)"
    using Suc.prems by (simp only: sctp_append.simps Let_def a z b) (simp add: addr_param_def)
  also have "\<dots> = (q @ addr_param pmhh fb i) @ concat (map (addr_param pmhh fb) [i + 1..<i + 1 + n])"
    using Suc.prems by (intro Suc.IH) (simp_all add: SCTP_MAX_INIT_ACK_SZ_def)
  also have "\<dots> = q @ concat (map (addr_param pmhh fb) [i..<i + Suc n])" by (simp del: upt_Suc add: upt_conv_Cons)
  finally show ?case .
qed

section \<open>What opens an association\<close>

text \<open>A packet as the machine sees it, and the packets of an association in their order.\<close>

record sctp_ev =
  se_state :: ct_sctp_state_t
  se_nat :: u8
  se_dir :: ct_dir_t
  se_dsr :: u8
  se_type :: u8
  se_vtag :: u32
  se_tag :: u32

type_synonym sctp_pkt = "bool \<times> xfi \<times> u8 list \<times> ct_dir_t"

abbreviation sctp_of :: "dp_ct_tact \<Rightarrow> ct_sctp_pinf_t" where "sctp_of a \<equiv> pi_s (cd_pi (ct_ctd a))"

definition sev_of :: "dp_ct_tact \<Rightarrow> sctp_pkt \<Rightarrow> sctp_ev" where
  "sev_of a = (\<lambda>(t, xf, p, dir). let l4 = unat (pm_l4_off (xf_pm xf))
     in \<lparr>se_state = ss_state (sctp_of a), se_nat = xi_nat_flags (cd_xi (ct_ctd a)),
         se_dir = dir, se_dsr = nm_dsr (xf_nm xf), se_type = p ! (l4 + 12), se_vtag = ld32 p (l4 + 4), se_tag = ld32 p (l4 + 16)\<rparr>)"

fun sctp_run :: "sctp_pkt list \<Rightarrow> dp_ct_tact \<times> dp_ct_tact \<Rightarrow> dp_ct_tact \<times> dp_ct_tact" where
  "sctp_run [] s = s"
| "sctp_run ((t, xf, p, dir) # ps) (a, ax) =
     (let (_, _, a, ax, _, _) = dp_ct_sctp_sm t xf p a ax dir in sctp_run ps (a, ax))"

fun sctp_trace :: "sctp_pkt list \<Rightarrow> dp_ct_tact \<times> dp_ct_tact \<Rightarrow> sctp_ev list" where
  "sctp_trace [] s = []"
| "sctp_trace ((t, xf, p, dir) # ps) (a, ax) =
     sev_of a (t, xf, p, dir) # (let (_, _, a, ax, _, _) = dp_ct_sctp_sm t xf p a ax dir in sctp_trace ps (a, ax))"

text \<open>
  In its first state the machine takes a packet of a rule with direct server return for established, and
  picks an association up in the middle on a client's packet with a tag, if the flow is translated.
\<close>

definition sctp_by_dsr :: "sctp_ev \<Rightarrow> bool" where
  "sctp_by_dsr e \<longleftrightarrow> se_state e = CT_SCTP_CLOSED \<and> se_dsr e \<noteq> 0"

definition sctp_picked_up :: "sctp_ev \<Rightarrow> bool" where
  "sctp_picked_up e \<longleftrightarrow> se_state e = CT_SCTP_CLOSED \<and> se_nat e \<noteq> 0 \<and> se_dir e = CT_DIR_IN \<and> se_vtag e \<noteq> 0 \<and>
     se_type e \<in> {SCTP_DATA, SCTP_SACK, SCTP_HB_REQ, SCTP_HB_ACK}"

definition sctp_handshake :: "sctp_ev \<Rightarrow> sctp_ev \<Rightarrow> sctp_ev \<Rightarrow> bool" where
  "sctp_handshake i j k \<longleftrightarrow> se_type i = SCTP_INIT_CHUNK \<and> se_type j = SCTP_INIT_CHUNK_ACK \<and> se_dir j = CT_DIR_OUT \<and>
     se_vtag j = se_tag i \<and> se_vtag k = se_tag j"

definition sctp_opened :: "sctp_ev list \<Rightarrow> bool" where
  "sctp_opened es \<longleftrightarrow> (\<exists>i j k. subseq [i, j, k] es \<and> sctp_handshake i j k) \<or> (\<exists>e \<in> set es. sctp_by_dsr e \<or> sctp_picked_up e)"

text \<open>What the packets so far must have been, by the state of the machine.\<close>

definition sctp_seen :: "sctp_ev list \<Rightarrow> ct_sctp_pinf_t \<Rightarrow> bool" where
  "sctp_seen es ss \<longleftrightarrow>
     (case ss_state ss of
        CT_SCTP_INIT \<Rightarrow> \<exists>i \<in> set es. se_type i = SCTP_INIT_CHUNK \<and> ss_itag ss = se_tag i
      | CT_SCTP_INITA \<Rightarrow> \<exists>i j. subseq [i, j] es \<and> se_type i = SCTP_INIT_CHUNK \<and> se_type j = SCTP_INIT_CHUNK_ACK \<and>
          se_dir j = CT_DIR_OUT \<and> se_vtag j = se_tag i \<and> ss_otag ss = se_tag j
      | CT_SCTP_COOKIE \<Rightarrow> sctp_opened es
      | CT_SCTP_COOKIEA \<Rightarrow> sctp_opened es
      | CT_SCTP_PRE_EST \<Rightarrow> False
      | CT_SCTP_EST \<Rightarrow> sctp_opened es
      | _ \<Rightarrow> True)"

lemma sd_upd_simps [simp]:
  "ss_state (sd_upd dir d ss) = ss_state ss" "ss_itag (sd_upd dir d ss) = ss_itag ss" "ss_otag (sd_upd dir d ss) = ss_otag ss"
  by (simp_all add: sd_upd_def)

lemma sctp_closed_facts:
  assumes "r = sctp_closed t dir a xf p (sctp_of a)" "e = sev_of a (t, xf, p, dir)" "ss_state (sctp_of a) = CT_SCTP_CLOSED"
  shows "ss_state (sr_ss r) = CT_SCTP_CLOSED"
    "sr_next r = CT_SCTP_EST \<and> (sctp_by_dsr e \<or> sctp_picked_up e) \<or> sr_next r = CT_SCTP_ERR \<or> sr_next r = CT_SCTP_CLOSED \<or>
     sr_next r = CT_SCTP_INIT \<and> se_type e = SCTP_INIT_CHUNK \<and> ss_itag (sr_ss r) = se_tag e"
  unfolding assms(1,2) using assms(3)
  by (auto simp: sctp_closed_def sev_of_def sctp_picked_up_def sctp_by_dsr_def Let_def ac_simps split: prod.splits)

lemma sctp_init_facts:
  assumes "r = sctp_init t dir a ax xf p ss" "e = sev_of a (t, xf, p, dir)"
  shows "ss_state (sr_ss r) = ss_state ss"
    "sr_next r = CT_SCTP_ERR \<and> sr_ss r = ss \<or> sr_next r = ss_state ss \<and> sr_ss r = ss \<or>
     sr_next r = CT_SCTP_INIT \<and> se_type e = SCTP_INIT_CHUNK \<and> ss_itag (sr_ss r) = se_tag e \<or>
     sr_next r = CT_SCTP_INITA \<and> se_type e = SCTP_INIT_CHUNK_ACK \<and> se_dir e = CT_DIR_OUT \<and> se_vtag e = ss_itag ss \<and>
       ss_itag (sr_ss r) = ss_itag ss \<and> ss_otag (sr_ss r) = se_tag e"
  unfolding assms by (auto simp: sctp_init_def sev_of_def Let_def ac_simps split: prod.splits if_splits)

lemma sctp_inita_facts:
  assumes "sctp_inita dir xf p ss = (ss', n)" "e = sev_of a (t, xf, p, dir)"
  shows "ss_state ss' = ss_state ss"
    "n = CT_SCTP_ERR \<or> n = ss_state ss \<and> ss' = ss \<or> n = CT_SCTP_INIT \<and> se_type e = SCTP_INIT_CHUNK \<and> ss_itag ss' = se_tag e \<or>
     n = CT_SCTP_COOKIE \<and> se_vtag e = ss_otag ss"
  using assms by (auto simp: sctp_inita_def sev_of_def Let_def ac_simps split: if_splits)

lemma sctp_opened_app: "sctp_opened es \<Longrightarrow> sctp_opened (es @ fs)"
  unfolding sctp_opened_def using list_emb_prefix by fastforce

lemma sctp_opened_last: "sctp_by_dsr e \<or> sctp_picked_up e \<Longrightarrow> sctp_opened (es @ [e])"
  by (auto simp: sctp_opened_def)

lemma sctp_seen_app: "sctp_seen es ss \<Longrightarrow> sctp_seen (es @ fs) ss"
  unfolding sctp_seen_def by (cases "ss_state ss") (auto intro: sctp_opened_app list_emb_prefix)

lemma sctp_seen_init: "se_type e = SCTP_INIT_CHUNK \<Longrightarrow> ss_itag ss = se_tag e \<Longrightarrow> ss_state ss = CT_SCTP_INIT \<Longrightarrow> sctp_seen (es @ [e]) ss"
  by (simp add: sctp_seen_def)

lemma sctp_seen_inita:
  assumes "sctp_seen es ss" "ss_state ss = CT_SCTP_INIT" "se_type e = SCTP_INIT_CHUNK_ACK" "se_dir e = CT_DIR_OUT" "se_vtag e = ss_itag ss"
    "ss_otag ss' = se_tag e" "ss_state ss' = CT_SCTP_INITA"
  shows "sctp_seen (es @ [e]) ss'"
proof -
  from assms(1,2) obtain i where i: "i \<in> set es" "se_type i = SCTP_INIT_CHUNK" "ss_itag ss = se_tag i" by (auto simp: sctp_seen_def)
  have "subseq ([i] @ [e]) (es @ [e])" using i(1) by (simp only: subseq_append) (simp add: subseq_singleton_left)
  with i assms(3-7) show ?thesis unfolding sctp_seen_def by auto
qed

lemma sctp_seen_cookie:
  assumes "sctp_seen es ss" "ss_state ss = CT_SCTP_INITA" "se_vtag e = ss_otag ss"
  shows "sctp_opened (es @ [e])"
proof -
  from assms(1,2) obtain i j where ij: "subseq [i, j] es" "se_type i = SCTP_INIT_CHUNK" "se_type j = SCTP_INIT_CHUNK_ACK"
      "se_dir j = CT_DIR_OUT" "se_vtag j = se_tag i" "ss_otag ss = se_tag j" by (auto simp: sctp_seen_def)
  have "subseq ([i, j] @ [e]) (es @ [e])" using ij(1) by (simp only: subseq_append)
  with ij assms(3) show ?thesis unfolding sctp_opened_def sctp_handshake_def by auto
qed

text \<open>An error, a shutdown or an abort in any state; otherwise the step of the state.\<close>

abbreviation sctp_ends :: "ct_sctp_state_t \<Rightarrow> bool" where "sctp_ends n \<equiv> n = CT_SCTP_ERR \<or> n = CT_SCTP_SHUT \<or> n = CT_SCTP_ABRT"

lemma sctp_step_cases:
  assumes "r = sctp_step t dir a ax xf p" "\<not> (sctp_ends (sr_next r) \<and> \<not> sr_refused r)"
  shows "ss_state (sctp_of a) = CT_SCTP_CLOSED \<Longrightarrow> r = sctp_closed t dir a xf p (sctp_of a)"
    "ss_state (sctp_of a) = CT_SCTP_INIT \<Longrightarrow> r = sctp_init t dir a ax xf p (sctp_of a)"
    "ss_state (sctp_of a) = CT_SCTP_INITA \<Longrightarrow> sctp_inita dir xf p (sctp_of a) = (sr_ss r, sr_next r) \<and> \<not> sr_refused r"
  using assms by (simp_all add: sctp_step_def Let_def split: if_splits prod.splits)

lemma sctp_seen_ends: "sctp_ends n \<Longrightarrow> sctp_seen es (ss\<lparr>ss_state := n\<rparr>)"
  by (auto simp: sctp_seen_def)

lemma ss_state_same: "ss_state ss = n \<Longrightarrow> ss\<lparr>ss_state := n\<rparr> = ss"
  by (cases ss) simp

text \<open>The refused packets change a tag without changing the state; they are so in the first two states only.\<close>

lemma sctp_step_seen:
  assumes "sctp_seen es (sctp_of a)" "r = sctp_step t dir a ax xf p" "e = sev_of a (t, xf, p, dir)"
    "n = sr_next r \<or> n = CT_SCTP_EST \<and> sr_next r = CT_SCTP_COOKIE"
  shows "sctp_seen (es @ [e]) ((sr_ss r)\<lparr>ss_state := n\<rparr>)"
proof (cases "sctp_ends n")
  case True
  then show ?thesis by (rule sctp_seen_ends)
next
  case False
  then have ne: "\<not> (sctp_ends (sr_next r) \<and> \<not> sr_refused r)" using assms(4) by auto
  show ?thesis
  proof (cases "ss_state (sctp_of a)")
    case CT_SCTP_CLOSED
    from sctp_closed_facts [OF sctp_step_cases(1) [OF assms(2) ne CT_SCTP_CLOSED] assms(3) CT_SCTP_CLOSED] False assms(4)
    show ?thesis by (elim disjE conjE) (simp_all add: sctp_seen_def sctp_opened_last)
  next
    case CT_SCTP_INIT
    from sctp_init_facts [OF sctp_step_cases(2) [OF assms(2) ne CT_SCTP_INIT] assms(3)] False assms(4) CT_SCTP_INIT
      sctp_seen_app [OF assms(1), of "[e]"] sctp_seen_inita [OF assms(1) CT_SCTP_INIT, of e]
    show ?thesis by (elim disjE conjE) (simp_all add: ss_state_same sctp_seen_init)
  next
    case CT_SCTP_INITA
    from sctp_inita_facts [OF conjunct1 [OF sctp_step_cases(3) [OF assms(2) ne CT_SCTP_INITA]] assms(3)] False assms(4) CT_SCTP_INITA
      sctp_seen_app [OF assms(1), of "[e]"] sctp_seen_cookie [OF assms(1) CT_SCTP_INITA, of e]
    show ?thesis by (elim disjE conjE) (simp_all add: ss_state_same sctp_seen_init, simp_all add: sctp_seen_def)
  qed (use assms(1,2,4) False in \<open>auto simp: sctp_step_def Let_def sctp_seen_def intro: sctp_opened_app split: if_splits\<close>)
qed

lemma sctp_step_not_refused:
  assumes "ss_state (sctp_of a) \<noteq> CT_SCTP_CLOSED" "ss_state (sctp_of a) \<noteq> CT_SCTP_INIT"
  shows "\<not> sr_refused (sctp_step t dir a ax xf p)"
  using assms by (simp add: sctp_step_def Let_def split: ct_sctp_state_t.split prod.split)

lemma sctp_step_refused:
  assumes "sctp_seen es (sctp_of a)" "r = sctp_step t dir a ax xf p" "e = sev_of a (t, xf, p, dir)" "sr_refused r"
  shows "sctp_seen (es @ [e]) (sr_ss r)"
proof -
  have ne: "\<not> (sctp_ends (sr_next r) \<and> \<not> sr_refused r)" using assms(4) by simp
  have "ss_state (sctp_of a) = CT_SCTP_CLOSED \<or> ss_state (sctp_of a) = CT_SCTP_INIT"
    using sctp_step_not_refused [of a t dir ax xf p] assms(2,4) by blast
  then show ?thesis
  proof
    assume c: "ss_state (sctp_of a) = CT_SCTP_CLOSED"
    from sctp_closed_facts(1) [OF sctp_step_cases(1) [OF assms(2) ne c] assms(3) c] show ?thesis by (simp add: sctp_seen_def)
  next
    assume i: "ss_state (sctp_of a) = CT_SCTP_INIT"
    from sctp_init_facts [OF sctp_step_cases(2) [OF assms(2) ne i] assms(3)] i assms(1)
    show ?thesis by (elim disjE conjE) (auto simp: sctp_seen_def)
  qed
qed

lemma sctp_sm_seen:
  assumes "sctp_seen es (sctp_of a)" "dp_ct_sctp_sm t xf p a ax dir = (xf', p', a', ax', st, smr)"
  shows "sctp_seen (es @ [sev_of a (t, xf, p, dir)]) (sctp_of a')"
proof (cases "length p < unat (pm_l4_off (xf_pm xf)) + 16")
  case True
  then show ?thesis using assms sctp_seen_app by (simp add: dp_ct_sctp_sm_def)
next
  case False
  define b where "b = (if dir = CT_DIR_IN then a\<lparr>ct_ctd := pb_count (pm_l3_len (xf_pm xf)) (ct_ctd a)\<rparr> else a)"
  define bx where "bx = (if dir = CT_DIR_IN then ax else ax\<lparr>ct_ctd := pb_count (pm_l3_len (xf_pm xf)) (ct_ctd ax)\<rparr>)"
  define r where "r = sctp_step t dir b bx xf p"
  define n where "n = (if sd_nh (ss_cts (sr_ss r) CT_DIR_IN) \<noteq> 0 \<and> sr_next r = CT_SCTP_COOKIE then CT_SCTP_EST else sr_next r)"
  have b: "sctp_seen es (sctp_of b)" using assms(1) by (simp add: b_def pb_count_def)
  have ev: "sev_of a q = sev_of b q" for q by (simp add: sev_of_def b_def pb_count_def)
  have "sctp_of a' = (if sr_refused r then sr_ss r else (sr_ss r)\<lparr>ss_state := n\<rparr>)"
    using assms(2) False unfolding dp_ct_sctp_sm_def Let_def
    by (auto simp: b_def bx_def r_def n_def pi_s_set_def split: if_splits)
  moreover have "n = sr_next r \<or> n = CT_SCTP_EST \<and> sr_next r = CT_SCTP_COOKIE" by (simp add: n_def)
  ultimately show ?thesis unfolding ev using sctp_step_seen [OF b r_def HOL.refl] sctp_step_refused [OF b r_def HOL.refl] by auto
qed

lemma sctp_run_seen: "sctp_seen es (sctp_of (fst s)) \<Longrightarrow> sctp_seen (es @ sctp_trace ps s) (sctp_of (fst (sctp_run ps s)))"
proof (induction ps arbitrary: es s)
  case Nil
  then show ?case by simp
next
  case (Cons q ps)
  obtain t xf p dir a ax where q: "q = (t, xf, p, dir)" "s = (a, ax)" by (metis surj_pair)
  obtain xf' p' a' ax' st smr where e: "dp_ct_sctp_sm t xf p a ax dir = (xf', p', a', ax', st, smr)" by (metis surj_pair)
  have "sctp_seen (es @ [sev_of a q]) (sctp_of (fst (a', ax')))" using sctp_sm_seen [OF _ e] Cons.prems q by simp
  from Cons.IH [OF this] show ?case by (simp add: q e)
qed

section \<open>Properties\<close>

text \<open>
  C36: an INIT packet grown by the missing addresses is the old packet with the length of its chunk raised,
  followed by one well-formed address parameter for every missing address; the length of the packet
  follows. It is so for the up to three addresses a rule can have and a packet of up to 2000 bytes.
\<close>

theorem sctp_grow_exact:
  assumes "0 < sd_nh d" "diff = npmhh + 1 - unat (sd_nh d)" "0 < diff" "diff \<le> LLB_MAX_MHOSTS"
    "unat (pm_l4_off (xf_pm xf)) + 16 \<le> length p" "length p \<le> SCTP_MAX_INIT_ACK_SZ"
  shows "sctp_grow True False pmhh fb npmhh d xf p =
    (True, xf\<lparr>xf_pm := (xf_pm xf)\<lparr>pm_l3_adj := 8 * int diff\<rparr>\<rparr>,
     put_bytes p (unat (pm_l4_off (xf_pm xf)) + 14) (be16_bytes (be16 p (unat (pm_l4_off (xf_pm xf)) + 14) + of_nat (8 * diff))) @
     concat (map (addr_param pmhh fb) [0..<diff]))"
proof -
  let ?c = "unat (pm_l4_off (xf_pm xf)) + 14"
  have n: "unat (sd_nh d - 1) = unat (sd_nh d) - 1" using assms(1) by (simp add: unat_minus_one word_neq_0_conv)
  have lt: "unat (sd_nh d - 1) < npmhh" using assms(1-3) n by (simp add: word_less_nat_alt)
  have len: "length p mod 65536 = length p" using assms(6) by (simp add: SCTP_MAX_INIT_ACK_SZ_def)
  have app: "sctp_append diff 0 False pmhh fb (length p) 0 (p @ replicate (8 * diff) 0) = p @ concat (map (addr_param pmhh fb) [0..<diff])"
    using sctp_append_exact [of p 0 "length p" 0 diff pmhh fb] assms(4,6) by simp
  have adj: "signed_take_bit 15 (8 * int diff) = 8 * int diff"
    using assms(4) by (intro signed_take_bit_int_eq_self) (simp_all add: LLB_MAX_MHOSTS_def)
  have be: "be16 (p @ q) ?c = be16 p ?c" for q using assms(5) by (simp add: be16_def nth_append)
  have put: "put_bytes (p @ q) ?c (be16_bytes v) = put_bytes p ?c (be16_bytes v) @ q" for q v
    using assms(5) by (intro put_bytes_front) simp
  have c: "unat (pm_l4_off (xf_pm xf)) + 12 + 2 = ?c" by simp
  show ?thesis
    unfolding sctp_grow_def assms(2) [symmetric] len c Let_def using lt app assms(5)
    by (simp add: adj be put mult.commute [of diff])
qed

text \<open>
  C37: the machine takes an association for established only after a handshake: an INIT, an INIT-ACK of the
  server that carries the tag of the INIT, and a packet that carries the tag of the INIT-ACK. The only other
  ways are, while the machine is in its first state, a packet of a rule with direct server return, and a
  client's data, acknowledgement or heartbeat with a tag on a translated flow, which was open before it
  was seen.
\<close>

theorem sctp_open_needs_handshake:
  assumes "cd_pi (ct_ctd a) = ct_pinf_zero" "ss_state (sctp_of (fst (sctp_run ps (a, ax)))) = CT_SCTP_EST"
  shows "(\<exists>i j k. subseq [i, j, k] (sctp_trace ps (a, ax)) \<and> sctp_handshake i j k) \<or>
    (\<exists>e \<in> set (sctp_trace ps (a, ax)). sctp_by_dsr e \<or> sctp_picked_up e)"
proof -
  have "sctp_seen [] (sctp_of a)" by (simp add: assms(1) sctp_seen_def ct_pinf_zero_def)
  from sctp_run_seen [of "[]" "(a, ax)" ps] this assms(2) have "sctp_opened (sctp_trace ps (a, ax))" by (simp add: sctp_seen_def)
  then show ?thesis by (simp add: sctp_opened_def)
qed

subsection \<open>Witnesses\<close>

text \<open>A packet with an SCTP header at offset 34: the type of its chunk, its tag and the tag it proposes.\<close>

definition sample_chunk :: "u8 \<Rightarrow> u32 \<Rightarrow> u32 \<Rightarrow> u8 list" where
  "sample_chunk ty vtag tag = replicate 38 0 @ le32_bytes vtag @ replicate 4 0 @ [ty, 0, 0, 20] @ le32_bytes tag @ replicate 20 0"

definition sample_tact :: dp_ct_tact where
  "sample_tact = \<lparr>ct_ca = \<lparr>ca_act_type = DP_SET_DO_CT, ca_ftrap = 0, ca_oaux = 0, ca_cidx = 0, ca_fwrid = 0, ca_record = 0\<rparr>,
     ct_ctd = sample_dat, ct_ito = 0, ct_lts = 0,
     ct_nat_act = \<lparr>na_xip = (0, 0, 0, 0), na_rip = (0, 0, 0, 0), na_xport = 0, na_doct = 0, na_rid = 0, na_aid = 0, na_nv6 = 0,
       na_dsr = 0, na_cdis = 0, na_nmh = 0, na_ppv2 = 0, na_polid = 0\<rparr>\<rparr>"

definition sample_assoc :: "sctp_pkt list" where
  "sample_assoc = (let xf = flags_xf 0
     in [(True, xf, sample_chunk 1 0 7, CT_DIR_IN), (True, xf, sample_chunk 2 7 9, CT_DIR_OUT),
         (True, xf, sample_chunk 10 9 0, CT_DIR_IN), (True, xf, sample_chunk 11 7 0, CT_DIR_OUT), (True, xf, sample_chunk 10 9 0, CT_DIR_IN)])"

lemma sample_assoc_est: "ss_state (sctp_of (fst (sctp_run sample_assoc (sample_tact, sample_tact)))) = CT_SCTP_EST"
  by code_simp

theorem sctp_open_needs_handshake_witness:
  "ss_state (sctp_of (fst (sctp_run sample_assoc (sample_tact, sample_tact)))) = CT_SCTP_EST \<and>
   (\<exists>i j k. subseq [i, j, k] (sctp_trace sample_assoc (sample_tact, sample_tact)) \<and> sctp_handshake i j k)"
proof -
  have "\<not> (\<exists>e \<in> set (sctp_trace sample_assoc (sample_tact, sample_tact)). sctp_by_dsr e \<or> sctp_picked_up e)"
    unfolding sctp_picked_up_def sctp_by_dsr_def by code_simp
  then show ?thesis
    using sctp_open_needs_handshake [of sample_tact sample_assoc sample_tact] sample_assoc_est by (auto simp: sample_tact_def sample_dat_def)
qed

text \<open>A rule with two addresses of its own and a client that listed none.\<close>

definition sample_hosts :: ct_sctp_pinfd_t where
  "sample_hosts = \<lparr>sd_nh = 1, sd_odst = 3, sd_osrc = 2, sd_mh_host = (\<lambda>_. 0)\<rparr>"

theorem sctp_grow_exact_witness:
  "\<exists>xf' q. sctp_grow True False (\<lambda>i. if i < 2 then 100 + of_nat i else 0) 0 2 sample_hosts sample_xf (sample_chunk 1 0 7) =
     (True, xf', q @ [0, 5, 0, 8, 100, 0, 0, 0, 0, 5, 0, 8, 101, 0, 0, 0]) \<and> pm_l3_adj (xf_pm xf') = 16"
proof -
  let ?f = "\<lambda>i. if i < 2 then 100 + of_nat i else 0 :: u32"
  have "sctp_grow True False ?f 0 2 sample_hosts sample_xf (sample_chunk 1 0 7) =
    (True, sample_xf\<lparr>xf_pm := (xf_pm sample_xf)\<lparr>pm_l3_adj := 8 * int 2\<rparr>\<rparr>,
     put_bytes (sample_chunk 1 0 7) (unat (pm_l4_off (xf_pm sample_xf)) + 14)
       (be16_bytes (be16 (sample_chunk 1 0 7) (unat (pm_l4_off (xf_pm sample_xf)) + 14) + of_nat (8 * 2))) @
     concat (map (addr_param ?f 0) [0..<2]))"
    by (rule sctp_grow_exact)
      (simp_all add: sample_hosts_def LLB_MAX_MHOSTS_def sample_xf_def sample_chunk_def SCTP_MAX_INIT_ACK_SZ_def)
  moreover have "concat (map (addr_param ?f 0) [0..<2]) = [0, 5, 0, 8, 100, 0, 0, 0, 0, 5, 0, 8, 101, 0, 0, 0]"
    by (simp add: addr_param_def be16_bytes_def le32_bytes_def mh_choose_def SCTP_IPV4_ADDR_PARAM_def LLB_MAX_MHOSTS_def upt_conv_Cons)
  ultimately show ?thesis by simp
qed

end
