(* ===== verification/CT_Main.thy ===== *)
theory CT_Main
  imports CT_Sctp
begin

text \<open>
  A packet in the connection table, \<open>dp_ct_in\<close> of \<open>kernel/llb_kern_ct.c\<close> with what it calls: the entries
  of a new connection are made in the per-CPU scratch, which keeps the fields that are not written, and
  inserted; the state machine of the protocol runs; and an established or ended connection is acted on.
  The maps of the kernel are partial functions. A new element may be refused by a map that is full, which
  is the parameter \<open>ok\<close>; an element that exists is replaced. One packet is processed at a time. The two
  keys of a connection are different: a packet from an address and port to itself is outside the model.
\<close>

section \<open>State\<close>

record dp_fcv4_key =
  fk_daddr :: u32
  fk_saddr :: u32
  fk_sport :: u16
  fk_dport :: u16
  fk_l4proto :: u8
  fk_in_port :: u16

record ll_dp_ct_hwev =
  ev_rid :: u32
  ev_saddr :: u32
  ev_daddr :: u32
  ev_sport :: u16
  ev_dport :: u16
  ev_l4proto :: u8

type_synonym ct_map = "dp_ct_key \<rightharpoonup> dp_ct_tact"

text \<open>The maps, the scratch entries, the counts of errors and the events sent so far, the oldest first.\<close>

record ct_world =
  cw_ct :: ct_map
  cw_ep :: nat_ep_map
  cw_fc :: "dp_fcv4_key set"
  cw_ctr :: "dp_ct_ctrtact option"
  cw_adat :: dp_ct_tact
  cw_axdat :: dp_ct_tact
  cw_err :: "ct_err_stat \<Rightarrow> u64"
  cw_events :: "ll_dp_ct_hwev list"

definition dp_update_ct_error_stats :: "ct_err_stat \<Rightarrow> ct_world \<Rightarrow> ct_world" where
  "dp_update_ct_error_stats st w = w\<lparr>cw_err := (cw_err w)(st := cw_err w st + 1)\<rparr>"

definition bpf_map_update_elem :: "(dp_ct_key \<Rightarrow> bool) \<Rightarrow> dp_ct_key \<Rightarrow> dp_ct_tact \<Rightarrow> ct_map \<Rightarrow> ct_map" where
  "bpf_map_update_elem ok k v m = (if m k \<noteq> None \<or> ok k then m(k \<mapsto> v) else m)"

definition dp_ct_related_fc_rm :: "dp_ct_key \<Rightarrow> dp_fcv4_key set \<Rightarrow> dp_fcv4_key set" where
  "dp_ct_related_fc_rm ctk fc =
     (if ck_v6 ctk \<noteq> 0 \<or> ck_ident ctk \<noteq> 0 \<or> ck_type ctk \<noteq> 0 then fc
      else fc - {\<lparr>fk_daddr = xaddr0 (ck_daddr ctk), fk_saddr = xaddr0 (ck_saddr ctk), fk_sport = ck_sport ctk,
                  fk_dport = ck_dport ctk, fk_l4proto = ck_l4proto ctk, fk_in_port = 0\<rparr>})"

section \<open>The machine of the protocol\<close>

definition ld16 :: "u8 list \<Rightarrow> nat \<Rightarrow> u16" where
  "ld16 p o' = ucast (p ! o') OR push_bit 8 (ucast (p ! (o' + 1)))"

definition tcphdr_at :: "u8 list \<Rightarrow> nat \<Rightarrow> tcphdr option" where
  "tcphdr_at p o' = (if length p < o' + 20 then None else Some \<lparr>th_seq = ld32 p (o' + 4), th_ack_seq = ld32 p (o' + 8)\<rparr>)"

definition icmphdr_at :: "u8 list \<Rightarrow> nat \<Rightarrow> icmphdr option" where
  "icmphdr_at p o' = (if length p < o' + 8 then None else Some \<lparr>ih_type = p ! o', ih_sequence = ld16 p (o' + 6)\<rparr>)"

definition dp_ct_sm ::
  "bool \<Rightarrow> bool \<Rightarrow> xfi \<Rightarrow> u8 list \<Rightarrow> dp_ct_tact \<Rightarrow> dp_ct_tact \<Rightarrow> ct_dir_t \<Rightarrow>
   xfi \<times> u8 list \<times> dp_ct_tact \<times> dp_ct_tact \<times> ct_err_stat option \<times> ct_smr_t" where
  "dp_ct_sm is_gso tail_ok xf p a ax dir =
     (let l4 = unat (pm_l4_off (xf_pm xf)); t = ct_ctd a; x = ct_ctd ax
      in if nw_proto xf = IPPROTO_TCP
         then let (xf, t, x, st, smr) = dp_ct_tcp_sm is_gso (tcphdr_at p l4) xf t x dir in (xf, p, a\<lparr>ct_ctd := t\<rparr>, ax\<lparr>ct_ctd := x\<rparr>, st, smr)
         else if nw_proto xf = IPPROTO_UDP
         then let (t, x, smr) = dp_ct_udp_sm xf t x dir in (xf, p, a\<lparr>ct_ctd := t\<rparr>, ax\<lparr>ct_ctd := x\<rparr>, None, smr)
         else if nw_proto xf = IPPROTO_ICMP
         then let (xf, t, x, smr) = dp_ct_icmp_sm (icmphdr_at p l4) xf t x dir in (xf, p, a\<lparr>ct_ctd := t\<rparr>, ax\<lparr>ct_ctd := x\<rparr>, None, smr)
         else if nw_proto xf = IPPROTO_SCTP then dp_ct_sctp_sm tail_ok xf p a ax dir
         else if nw_proto xf = IPPROTO_ICMPV6
         then let (xf, t, x, smr) = dp_ct_icmp6_sm (icmphdr_at p l4) xf t x dir in (xf, p, a\<lparr>ct_ctd := t\<rparr>, ax\<lparr>ct_ctd := x\<rparr>, None, smr)
         else (xf, p, a, ax, None, CT_SMR_UNT))"

section \<open>An established connection\<close>

text \<open>
  The further entries of an established connection. The keys, the two scratch entries, and the elements to
  put into the map, in their order.
\<close>

type_synonym ct_est = "dp_ct_key \<times> dp_ct_key \<times> dp_ct_tact \<times> dp_ct_tact \<times> (dp_ct_key \<times> dp_ct_tact) list"

abbreviation xi_upd :: "(mf_xfrm_inf \<Rightarrow> mf_xfrm_inf) \<Rightarrow> dp_ct_tact \<Rightarrow> dp_ct_tact" where
  "xi_upd f a \<equiv> a\<lparr>ct_ctd := (ct_ctd a)\<lparr>cd_xi := f (cd_xi (ct_ctd a))\<rparr>\<rparr>"

definition frag_mark :: "dp_ct_key \<Rightarrow> dp_ct_tact \<Rightarrow> dp_ct_tact" where
  "frag_mark key a = (let a = xi_upd (\<lambda>xi. xi\<lparr>xi_osp := ck_sport key, xi_odp := ck_dport key\<rparr>) a
     in a\<lparr>ct_ctd := (ct_ctd a)\<lparr>cd_pi := (cd_pi (ct_ctd a))\<lparr>pi_frag := 1\<rparr>\<rparr>\<rparr>)"

text \<open>The pair of entries for host \<open>i\<close> of the client and address \<open>j\<close> of the rule.\<close>

definition mh_assoc :: "(nat \<Rightarrow> u32) \<Rightarrow> (nat \<Rightarrow> u32) \<Rightarrow> (nat \<Rightarrow> u32) \<Rightarrow> u32 \<Rightarrow> nat \<times> nat \<Rightarrow> ct_est \<Rightarrow> ct_est" where
  "mh_assoc pmhh src ep primary_ep = (\<lambda>(i, j) (key, xkey, adat, axdat, puts).
     if pmhh j = 0 \<or> src i = 0 then (key, xkey, adat, axdat, puts)
     else
       let mhvip = pmhh j; s_ep = (if ep i \<noteq> 0 then ep i else primary_ep);
           set = (\<lambda>rip xip a. (xi_upd (\<lambda>xi. xi\<lparr>xi_nat_rip := xaddr0_set rip (xi_nat_rip xi), xi_nat_xip := xaddr0_set xip (xi_nat_xip xi)\<rparr>) a)
                    \<lparr>ct_nat_act := (ct_nat_act a)\<lparr>na_rip := xaddr0_set rip (na_rip (ct_nat_act a)), na_xip := xaddr0_set xip (na_xip (ct_nat_act a))\<rparr>\<rparr>);
           key = key\<lparr>ck_saddr := xaddr0_set (src i) (ck_saddr key), ck_daddr := xaddr0_set mhvip (ck_daddr key)\<rparr>;
           xkey = xkey\<lparr>ck_daddr := xaddr0_set mhvip (ck_daddr xkey), ck_saddr := xaddr0_set s_ep (ck_saddr xkey)\<rparr>;
           adat = set mhvip s_ep adat; axdat = set (src i) mhvip axdat
       in (key, xkey, adat, axdat, puts @ [(xkey, axdat), (key, adat)]))"

text \<open>Hosts one and up with the address before their place, then host zero with the addresses left.\<close>

definition mh_pairs :: "nat \<Rightarrow> (nat \<times> nat) list" where
  "mh_pairs nh = map (\<lambda>i. (i, i - 1)) [1..<min nh LLB_MAX_MHOSTS] @ map (\<lambda>j. (0, j)) [max 1 (min nh LLB_MAX_MHOSTS) - 1..<LLB_MAX_MHOSTS]"

definition dp_ct_est :: "xfi \<Rightarrow> dp_ct_key \<Rightarrow> dp_ct_key \<Rightarrow> dp_ct_tact \<Rightarrow> dp_ct_tact \<Rightarrow> dp_ct_tact \<times> dp_ct_tact \<Rightarrow> ct_est" where
  "dp_ct_est xf key xkey a ax scratch =
     (let xi = cd_xi (ct_ctd a); ssnid = l2_ssnid (xf_l2m xf); hosts = ss_cts (sctp_of a);
          nh = unat (sd_nh (hosts CT_DIR_IN)); src = sd_mh_host (hosts CT_DIR_IN); ep = sd_mh_host (hosts CT_DIR_OUT);
          known = list_ex (\<lambda>i. src i = xaddr0 (l34_saddr (xf_l34m xf))) [0..<min nh LLB_MAX_MHOSTS];
          primary_ep = (if known then sd_osrc (hosts CT_DIR_OUT) else 0)
      in if xi_dsr xi \<noteq> 0 \<or> xi_nv6 xi \<noteq> 0 then (key, xkey, fst scratch, snd scratch, [])
         else if nw_proto xf = IPPROTO_UDP \<and> ssnid \<noteq> 0
         then if pm_dir (xf_pm xf) = CT_DIR_IN
              then let adat = frag_mark key a; key = key\<lparr>ck_sport := ssnid, ck_dport := ssnid\<rparr> in (key, xkey, adat, ax, [(key, adat)])
              else let axdat = frag_mark xkey ax; xkey = xkey\<lparr>ck_sport := ssnid, ck_dport := ssnid\<rparr> in (key, xkey, a, axdat, [(xkey, axdat)])
         else if nw_proto xf = IPPROTO_SCTP \<and> \<not> pm_goct (xf_pm xf) \<and> xi_mhon xi \<noteq> 0 \<and> pm_dir (xf_pm xf) = CT_DIR_IN \<and> primary_ep \<noteq> 0
         then let mark = xi_upd (\<lambda>xi. xi\<lparr>xi_mhon := 0, xi_mhs := 1\<rparr>)
              in fold (mh_assoc (pi_pmhh (cd_pi (ct_ctd a))) src ep primary_ep) (mh_pairs nh) (key, xkey, mark a, mark ax, [])
         else (key, xkey, a, ax, []))"

section \<open>An ended connection\<close>

abbreviation key_daddr :: "u32 \<Rightarrow> dp_ct_key \<Rightarrow> dp_ct_key" where "key_daddr d k \<equiv> k\<lparr>ck_daddr := xaddr0_set d (ck_daddr k)\<rparr>"
abbreviation key_saddr :: "u32 \<Rightarrow> dp_ct_key \<Rightarrow> dp_ct_key" where "key_saddr s k \<equiv> k\<lparr>ck_saddr := xaddr0_set s (ck_saddr k)\<rparr>"

text \<open>The keys that are deleted besides the two of the connection, for the hosts of the client and of the server.\<close>

definition ctd_host :: "(nat \<Rightarrow> u32) \<Rightarrow> ct_sctp_pinfd_t \<Rightarrow> nat \<Rightarrow> dp_ct_key \<times> dp_ct_key \<times> dp_ct_key list \<Rightarrow> dp_ct_key \<times> dp_ct_key \<times> dp_ct_key list" where
  "ctd_host pmhh d i = (\<lambda>(key, xkey, dels).
     let key = key_saddr (sd_mh_host d i) key;
         (key, xkey, dels) = fold (\<lambda>j (key, xkey, dels).
           if pmhh j \<noteq> 0 \<and> sd_mh_host d i \<noteq> 0
           then let key = key_daddr (pmhh j) key; xkey = key_daddr (pmhh j) xkey in (key, xkey, dels @ [key, xkey])
           else (key, xkey, dels)) [0..<LLB_MAX_MHOSTS] (key, xkey, dels);
         key = key_daddr (sd_odst d) key
     in (key, xkey, dels @ [key]))"

definition ctd_xhost :: "(nat \<Rightarrow> u32) \<Rightarrow> ct_sctp_pinfd_t \<Rightarrow> nat \<Rightarrow> dp_ct_key \<times> dp_ct_key list \<Rightarrow> dp_ct_key \<times> dp_ct_key list" where
  "ctd_xhost pmhh d i = (\<lambda>(xkey, dels).
     let xkey = key_saddr (sd_mh_host d i) xkey;
         (xkey, dels) = fold (\<lambda>j (xkey, dels).
           if pmhh j \<noteq> 0 \<and> sd_mh_host d i \<noteq> 0 then let xkey = key_daddr (pmhh j) xkey in (xkey, dels @ [xkey]) else (xkey, dels))
           [0..<LLB_MAX_MHOSTS] (xkey, dels);
         xkey = key_daddr (sd_odst d) xkey
     in (xkey, dels @ [xkey]))"

definition dp_ct_ctd :: "xfi \<Rightarrow> dp_ct_key \<Rightarrow> dp_ct_key \<Rightarrow> dp_ct_tact \<Rightarrow> dp_ct_tact \<Rightarrow> dp_ct_key list" where
  "dp_ct_ctd xf key xkey a ax =
     (if nw_proto xf \<noteq> IPPROTO_SCTP \<or> nm_npmhh (xf_nm xf) = 0 then []
      else
        let d = ss_cts (sctp_of a) CT_DIR_IN; xd = ss_cts (sctp_of a) CT_DIR_OUT;
            (_, xkey, dels) = fold (ctd_host (pi_pmhh (cd_pi (ct_ctd a))) d) [0..<min (unat (sd_nh d)) LLB_MAX_MHOSTS] (key, xkey, [])
        in snd (fold (ctd_xhost (pi_pmhh (cd_pi (ct_ctd ax))) xd) [0..<min (unat (sd_nh xd)) LLB_MAX_MHOSTS] (xkey, dels)))"

section \<open>A packet\<close>

text \<open>The transformation of the packet, written into the scratch, with the reverse key.\<close>

definition ct_xfrm :: "xfi \<Rightarrow> mf_xfrm_inf \<Rightarrow> mf_xfrm_inf" where
  "ct_xfrm xf xi =
     (let nf = pm_nf (xf_pm xf); nm = xf_nm xf;
          host = (nf AND (LLB_NAT_DST OR LLB_NAT_SRC) \<noteq> 0 \<and> DP_XADDR_ISZR (nm_nxip nm))
      in xi\<lparr>xi_nat_flags := (if host \<and> nf = LLB_NAT_DST then LLB_NAT_HDST else if host \<and> nf = LLB_NAT_SRC then LLB_NAT_HSRC else nf),
            xi_nat_xip := nm_nxip nm, xi_nat_rip := nm_nrip nm, xi_nat_xport := nm_nxport nm, xi_nv6 := nm_nv6 nm, xi_dsr := nm_dsr nm\<rparr>)"

definition xi_reset :: "mf_xfrm_inf \<Rightarrow> mf_xfrm_inf" where
  "xi_reset xi = xi\<lparr>xi_nat_flags := 0, xi_nat_xport := 0, xi_nat_xip := DP_XADDR_SETZR, xi_nat_rip := DP_XADDR_SETZR\<rparr>"

definition ct_keys :: "xfi \<Rightarrow> ct_world \<Rightarrow> xfk" where
  "ct_keys xf w = dp_ct_proto_xfk_init (ct_key_of xf) (ct_xfrm xf (cd_xi (ct_ctd (cw_adat w)))) (xi_reset (cd_xi (ct_ctd (cw_axdat w))))"

text \<open>An entry of a new connection; \<open>nv6\<close> is the family of the addresses that it translates to.\<close>

definition ct_new :: "xfi \<Rightarrow> ct_dir_t \<Rightarrow> mf_xfrm_inf \<Rightarrow> u32 \<Rightarrow> u32 \<Rightarrow> u8 \<Rightarrow> u64 \<Rightarrow> dp_ct_tact \<Rightarrow> dp_ct_tact" where
  "ct_new xf dir xi cidx nid nv6 lts a =
     (let nm = xf_nm xf; (h0, h1, h2) = nm_pmhh nm; natted = (xi_nat_flags xi \<noteq> 0)
      in \<lparr>ct_ca = \<lparr>ca_act_type = (if \<not> natted then DP_SET_DO_CT
                      else if xi_nat_flags xi AND (LLB_NAT_DST OR LLB_NAT_HDST) \<noteq> 0 then DP_SET_DNAT else DP_SET_SNAT),
              ca_ftrap = 0, ca_oaux = 0, ca_cidx = cidx, ca_fwrid = pm_fw_rid (xf_pm xf), ca_record = ucast (pm_dp_rec (xf_pm xf))\<rparr>,
          ct_ctd = \<lparr>cd_rid = pm_rule_id (xf_pm xf), cd_aid = ucast (nm_sel_aid nm), cd_nid = nid,
              cd_pi = ct_pinf_zero\<lparr>pi_npmhh := ucast (nm_npmhh nm), pi_pmhh := (\<lambda>_. 0)(0 := h0, 1 := h1, 2 := h2)\<rparr>,
              cd_dir = dir, cd_smr = CT_SMR_INIT, cd_xi = xi, cd_pb = \<lparr>pb_bytes = 0, pb_packets = 0\<rparr>\<rparr>,
          ct_ito = (if natted then nm_ito nm else 0), ct_lts = lts,
          ct_nat_act = (if natted
              then \<lparr>na_xip = xi_nat_xip xi, na_rip = xi_nat_rip xi, na_xport = xi_nat_xport xi, na_doct = 1,
                    na_rid = ucast (pm_rule_id (xf_pm xf)), na_aid = ucast (nm_sel_aid nm), na_nv6 = (if nv6 \<noteq> 0 then 1 else 0),
                    na_dsr = nm_dsr nm, na_cdis = nm_cdis nm, na_nmh = ucast (nm_npmhh nm), na_ppv2 = nm_ppv2 nm, na_polid = qm_rpolid (xf_qm xf)\<rparr>
              else ct_nat_act a)\<rparr>)"

definition conn_opened :: "u32 \<Rightarrow> nat_ep_map \<Rightarrow> nat_ep_map" where
  "conn_opened rule m = (case m rule of None \<Rightarrow> m
     | Some e \<Rightarrow> m(rule \<mapsto> e\<lparr>ea_conc_conns := ea_conc_conns e + 1, ea_total_conns := ea_total_conns e + 1\<rparr>))"

definition conn_closed :: "u32 \<Rightarrow> u64 \<Rightarrow> u64 \<Rightarrow> nat_ep_map \<Rightarrow> nat_ep_map" where
  "conn_closed rule bin bout m = (case m rule of None \<Rightarrow> m
     | Some e \<Rightarrow> m(rule \<mapsto> e\<lparr>ea_conc_conns := (if ea_conc_conns e > 0 then ea_conc_conns e - 1 else ea_conc_conns e),
         ea_cum_bytes_in := ea_cum_bytes_in e + bin, ea_cum_bytes_out := ea_cum_bytes_out e + bout\<rparr>))"

text \<open>A new connection. The first result says whether the reverse key was free.\<close>

definition ct_create :: "(dp_ct_key \<Rightarrow> bool) \<Rightarrow> xfi \<Rightarrow> dp_ct_key \<Rightarrow> xfk \<Rightarrow> ct_world \<Rightarrow> bool \<times> ct_world" where
  "ct_create ok xf key = (\<lambda>(xi, xkey, xxi) w.
     let (cidx, nid, ctr) = dp_ct_get_newctr (cd_nid (ct_ctd (cw_adat w))) (cw_ctr w);
         adat = ct_new xf CT_DIR_IN xi cidx nid (nm_nv6 (xf_nm xf)) (ct_lts (cw_adat w)) (cw_adat w);
         axdat = ct_new xf CT_DIR_OUT xxi (cidx + 1) nid (ck_v6 key) (ct_lts (cw_adat w)) (cw_axdat w);
         w = w\<lparr>cw_ctr := ctr, cw_adat := adat, cw_axdat := axdat,
               cw_ep := (if xi_nat_flags xi \<noteq> 0 then conn_opened (ucast (pm_rule_id (xf_pm xf))) (cw_ep w) else cw_ep w)\<rparr>
     in if cw_ct w xkey \<noteq> None then (False, w)
        else (True, w\<lparr>cw_ct := bpf_map_update_elem ok key adat (bpf_map_update_elem ok xkey axdat (cw_ct w))\<rparr>))"

text \<open>
  What follows an established connection. The code writes to the two entries by pointer, also after further
  elements were put into the map; an entry that was replaced by one of them no longer sees these writes.
\<close>

abbreviation ct_pair :: "dp_ct_key \<Rightarrow> dp_ct_tact \<Rightarrow> dp_ct_key \<Rightarrow> dp_ct_tact \<Rightarrow> ct_map \<Rightarrow> ct_map" where
  "ct_pair key a xkey ax m \<equiv> m(xkey \<mapsto> ax, key \<mapsto> a)"

definition mhon_clear :: "dp_ct_key list \<Rightarrow> dp_ct_key \<Rightarrow> ct_map \<Rightarrow> ct_map" where
  "mhon_clear replaced k m = (if k \<in> set replaced then m else m(k := map_option (xi_upd (\<lambda>xi. xi\<lparr>xi_mhon := 0\<rparr>)) (m k)))"

definition hwev :: "u16 \<Rightarrow> u8 \<Rightarrow> dp_ct_key \<Rightarrow> ll_dp_ct_hwev" where
  "hwev rid proto k = \<lparr>ev_rid = ucast rid, ev_saddr = xaddr0 (ck_saddr k), ev_daddr = xaddr0 (ck_daddr k),
     ev_sport = ck_sport k, ev_dport = ck_dport k, ev_l4proto = proto\<rparr>"

definition ct_established :: "(dp_ct_key \<Rightarrow> bool) \<Rightarrow> xfi \<Rightarrow> dp_ct_key \<Rightarrow> dp_ct_key \<Rightarrow> dp_ct_tact \<Rightarrow> dp_ct_tact \<Rightarrow> bool \<Rightarrow> ct_world \<Rightarrow> ct_world" where
  "ct_established ok xf key xkey a ax natted w =
     (let rid = cd_rid (ct_ctd a); proto = ck_l4proto key;
          offload = (ck_v6 key = 0 \<and> (proto = IPPROTO_TCP \<or> proto = IPPROTO_UDP))
      in if natted
         then
           let first = (na_doct (ct_nat_act a) \<noteq> 0); done = (\<lambda>e. e\<lparr>ct_nat_act := (ct_nat_act e)\<lparr>na_doct := 0\<rparr>\<rparr>);
               a = done a; ax = done ax; s = (cw_adat w, cw_axdat w);
               (key', xkey', adat, axdat, puts) =
                 (if cd_dir (ct_ctd a) = CT_DIR_IN then dp_ct_est xf key xkey a ax s
                  else let (xk, k, ad, axd, puts) = dp_ct_est xf xkey key ax a s in (k, xk, ad, axd, puts));
               m = fold (\<lambda>(k, v). bpf_map_update_elem ok k v) puts (ct_pair key a xkey ax (cw_ct w));
               replaced = map fst puts
           in w\<lparr>cw_adat := adat, cw_axdat := axdat, cw_ct := mhon_clear replaced xkey (mhon_clear replaced key m),
                cw_events := cw_events w @ (if first \<and> offload then [hwev rid proto key', hwev rid proto xkey'] else [])\<rparr>
         else
           let first = (ca_act_type (ct_ca a) \<noteq> DP_SET_NOP); done = (\<lambda>e. e\<lparr>ct_ca := (ct_ca e)\<lparr>ca_act_type := DP_SET_NOP\<rparr>\<rparr>)
           in w\<lparr>cw_ct := ct_pair key (done a) xkey (done ax) (cw_ct w),
                cw_events := cw_events w @ (if first \<and> offload then [hwev rid proto key] else [])\<rparr>)"

definition ct_torn_down :: "xfi \<Rightarrow> dp_ct_key \<Rightarrow> dp_ct_key \<Rightarrow> dp_ct_tact \<Rightarrow> dp_ct_tact \<Rightarrow> bool \<Rightarrow> ct_world \<Rightarrow> ct_world" where
  "ct_torn_down xf key xkey a ax natted w =
     (let dir = cd_dir (ct_ctd a); rid = cd_rid (ct_ctd a);
          dels = [xkey, key] @ (if dir = CT_DIR_IN then dp_ct_ctd xf key xkey a ax else dp_ct_ctd xf xkey key ax a);
          bytes = (\<lambda>e. pb_bytes (cd_pb (ct_ctd e)));
          (bin, bout) = (if dir = CT_DIR_IN then (bytes a, bytes ax) else (bytes ax, bytes a))
      in w\<lparr>cw_ct := cw_ct w |` (- set dels), cw_fc := dp_ct_related_fc_rm key (dp_ct_related_fc_rm xkey (cw_fc w)),
           cw_ep := (if natted then conn_closed (ucast rid) bin bout (dp_do_dec_nat_sess (ucast rid) (cd_aid (ct_ctd a)) (cw_ep w))
                     else cw_ep w)\<rparr>)"

definition ct_track ::
  "bool \<Rightarrow> bool \<Rightarrow> (dp_ct_key \<Rightarrow> bool) \<Rightarrow> u64 \<Rightarrow> xfi \<Rightarrow> u8 list \<Rightarrow> dp_ct_key \<Rightarrow> dp_ct_key \<Rightarrow> dp_ct_tact \<Rightarrow> dp_ct_tact \<Rightarrow> bool \<Rightarrow> ct_world \<Rightarrow>
   ct_smr_t \<times> xfi \<times> u8 list \<times> ct_world" where
  "ct_track is_gso tail_ok ok now xf p key xkey a ax natted w =
     (let a = a\<lparr>ct_lts := now\<rparr>; ax = ax\<lparr>ct_lts := now\<rparr>; dir = cd_dir (ct_ctd a);
          xf = xf\<lparr>xf_pm := (xf_pm xf)\<lparr>pm_dir := dir,
                 pm_phit := pm_phit (xf_pm xf) OR (if dir = CT_DIR_IN then LLB_DP_CTSI_HIT else LLB_DP_CTSO_HIT)\<rparr>\<rparr>;
          (xf, p, a, ax, st, smr) =
            (if dir = CT_DIR_IN then dp_ct_sm is_gso tail_ok xf p a ax CT_DIR_IN
             else let (xf, p, ax, a, st, smr) = dp_ct_sm is_gso tail_ok xf p ax a CT_DIR_OUT in (xf, p, a, ax, st, smr));
          w = (case st of None \<Rightarrow> w | Some st \<Rightarrow> dp_update_ct_error_stats st w);
          w = w\<lparr>cw_ct := ct_pair key a xkey ax (cw_ct w)\<rparr>
      in (smr, xf, p,
          if smr = CT_SMR_EST \<or> smr = CT_SMR_UEST then ct_established ok xf key xkey a ax natted w
          else if smr = CT_SMR_ERR \<or> smr = CT_SMR_CTD then ct_torn_down xf key xkey a ax natted w
          else w))"

definition dp_ct_in ::
  "bool \<Rightarrow> bool \<Rightarrow> (dp_ct_key \<Rightarrow> bool) \<Rightarrow> u64 \<Rightarrow> xfi \<Rightarrow> u8 list \<Rightarrow> ct_world \<Rightarrow> ct_smr_t \<times> xfi \<times> u8 list \<times> ct_world" where
  "dp_ct_in is_gso tail_ok ok now xf p w =
     (let key = ct_key_of xf
      in if nw_proto xf \<notin> {IPPROTO_TCP, IPPROTO_UDP, IPPROTO_ICMP, IPPROTO_SCTP, IPPROTO_ICMPV6} then (CT_SMR_INPROG, xf, p, w)
         else
           let (xi, xkey, xxi) = ct_keys xf w;
               w = w\<lparr>cw_adat := xi_upd (\<lambda>_. xi) (cw_adat w), cw_axdat := xi_upd (\<lambda>_. xxi) (cw_axdat w)\<rparr>;
               (paired, w) = (if cw_ct w key \<noteq> None then (cw_ct w xkey \<noteq> None, w) else ct_create ok xf key (xi, xkey, xxi) w)
           in if \<not> paired then (CT_SMR_INPROG, LLBS_PPLN_DROPC LLB_PIPE_CT_ERR xf, p, w)
              else case (cw_ct w key, cw_ct w xkey) of
                (Some a, Some ax) \<Rightarrow> ct_track is_gso tail_ok ok now xf p key xkey a ax (xi_nat_flags xi \<noteq> 0) w
              | _ \<Rightarrow> (CT_SMR_ERR, xf, p, w))"

end
