(* ===== verification/CT_Table.thy ===== *)
theory CT_Table
  imports CT_Main
begin

text \<open>
  What a packet does to the connection table and to the counts of its rule: the two entries of a
  connection come and go together as long as the map has room for both, a rule never has more
  connections than its limit, and a connection whose reverse key is taken is counted although it is
  never made.
\<close>

section \<open>What the machines leave alone\<close>

text \<open>Only the pipeline metadata of a packet changes.\<close>

lemma dropc_headers [simp]:
  "xf_l34m (LLBS_PPLN_DROPC c xf) = xf_l34m xf" "xf_l2m (LLBS_PPLN_DROPC c xf) = xf_l2m xf"
  by (simp_all add: LLBS_PPLN_DROPC_def)

lemma tcp_ppv2_headers:
  assumes "tcp_ppv2 g dir (xf, ts, b) = (xf', r)"
  shows "xf_l34m xf' = xf_l34m xf" "xf_l2m xf' = xf_l2m xf"
  using assms by (auto simp: tcp_ppv2_def split: if_splits)

lemma tcp_sa_headers:
  assumes "tcp_sa g fl dir seq ack xf ts = (xf', r)"
  shows "xf_l34m xf' = xf_l34m xf \<and> xf_l2m xf' = xf_l2m xf"
  using assms tcp_ppv2_headers by (auto simp: tcp_sa_def Let_def split: if_splits prod.splits)

lemma tcp_pest_headers:
  assumes "tcp_pest g fl dir seq xf ts = (xf', r)"
  shows "xf_l34m xf' = xf_l34m xf \<and> xf_l2m xf' = xf_l2m xf"
  using assms tcp_ppv2_headers by (auto simp: tcp_pest_def Let_def split: if_splits prod.splits)

lemma tcp_step_headers:
  assumes "tcp_step g dir seq ack xf ts = (xf', r)"
  shows "xf_l34m xf' = xf_l34m xf \<and> xf_l2m xf' = xf_l2m xf"
  using assms tcp_sa_headers tcp_pest_headers
  by (cases "ts_state ts") (auto simp: tcp_step_def Let_def split: if_splits prod.splits)

lemma dp_ct_tcp_sm_headers:
  assumes "dp_ct_tcp_sm g hdr xf t x dir = (xf', r)"
  shows "xf_l34m xf' = xf_l34m xf \<and> xf_l2m xf' = xf_l2m xf"
proof (cases hdr)
  case None
  then show ?thesis using assms by (auto simp: dp_ct_tcp_sm_def)
next
  case (Some h)
  then show ?thesis using assms by (auto simp: dp_ct_tcp_sm_def Let_def split: if_splits prod.splits dest!: tcp_step_headers)
qed

lemma icmp_frame_headers:
  assumes "icmp_frame step hdr xf t x dir = (xf', r)"
  shows "xf_l34m xf' = xf_l34m xf \<and> xf_l2m xf' = xf_l2m xf"
  using assms by (auto simp: icmp_frame_def Let_def split: option.splits prod.splits if_splits)

lemma dp_ct_sm_headers:
  assumes "dp_ct_sm g tok xf p a ax dir = (xf', r)" "nw_proto xf \<noteq> IPPROTO_SCTP"
  shows "xf_l34m xf' = xf_l34m xf \<and> xf_l2m xf' = xf_l2m xf"
  using assms by (auto simp: dp_ct_sm_def dp_ct_icmp_sm_def dp_ct_icmp6_sm_def Let_def
    split: if_splits prod.splits dest!: dp_ct_tcp_sm_headers icmp_frame_headers)

section \<open>One packet\<close>

text \<open>The two entries after the machine, and the world in which they are acted on.\<close>

lemma ct_track_cases:
  assumes "ct_track g tok ok now xf p key xkey a ax natted w = (smr, xf', p', w')"
  obtains a' ax' w1 where "cw_ep w1 = cw_ep w" "cw_ct w1 = ct_pair key a' xkey ax' (cw_ct w)"
    "nw_proto xf \<noteq> IPPROTO_SCTP \<Longrightarrow> xf_l34m xf' = xf_l34m xf \<and> xf_l2m xf' = xf_l2m xf"
    "w' = (if smr = CT_SMR_EST \<or> smr = CT_SMR_UEST then ct_established ok xf' key xkey a' ax' natted w1
           else if smr = CT_SMR_ERR \<or> smr = CT_SMR_CTD then ct_torn_down xf' key xkey a' ax' natted w1 else w1)"
proof -
  define dir where "dir = cd_dir (ct_ctd (a\<lparr>ct_lts := now\<rparr>))"
  define xf0 where "xf0 = xf\<lparr>xf_pm := (xf_pm xf)\<lparr>pm_dir := dir,
    pm_phit := pm_phit (xf_pm xf) OR (if dir = CT_DIR_IN then LLB_DP_CTSI_HIT else LLB_DP_CTSO_HIT)\<rparr>\<rparr>"
  define R where "R = (if dir = CT_DIR_IN then dp_ct_sm g tok xf0 p (a\<lparr>ct_lts := now\<rparr>) (ax\<lparr>ct_lts := now\<rparr>) CT_DIR_IN
    else let (xf, p, ax, a, st, smr) = dp_ct_sm g tok xf0 p (ax\<lparr>ct_lts := now\<rparr>) (a\<lparr>ct_lts := now\<rparr>) CT_DIR_OUT in (xf, p, a, ax, st, smr))"
  obtain xf1 p1 a1 ax1 st smr1 where R: "R = (xf1, p1, a1, ax1, st, smr1)" by (metis surj_pair)
  define w0 where "w0 = (case st of None \<Rightarrow> w | Some st \<Rightarrow> dp_update_ct_error_stats st w)"
  define w1 where "w1 = w0\<lparr>cw_ct := ct_pair key a1 xkey ax1 (cw_ct w0)\<rparr>"
  have w0: "cw_ep w0 = cw_ep w" "cw_ct w0 = cw_ct w" by (simp_all add: w0_def dp_update_ct_error_stats_def split: option.split)
  have eq: "ct_track g tok ok now xf p key xkey a ax natted w = (smr1, xf1, p1,
      if smr1 = CT_SMR_EST \<or> smr1 = CT_SMR_UEST then ct_established ok xf1 key xkey a1 ax1 natted w1
      else if smr1 = CT_SMR_ERR \<or> smr1 = CT_SMR_CTD then ct_torn_down xf1 key xkey a1 ax1 natted w1 else w1)"
    unfolding ct_track_def Let_def dir_def [symmetric] xf0_def [symmetric] R_def [unfolded Let_def, symmetric] R
    by (simp add: w1_def w0_def)
  have hd: "xf_l34m xf1 = xf_l34m xf \<and> xf_l2m xf1 = xf_l2m xf" if "nw_proto xf \<noteq> IPPROTO_SCTP"
  proof -
    have n: "nw_proto xf0 \<noteq> IPPROTO_SCTP" "xf_l34m xf0 = xf_l34m xf" "xf_l2m xf0 = xf_l2m xf" using that by (simp_all add: xf0_def)
    from R have "fst (dp_ct_sm g tok xf0 p (a\<lparr>ct_lts := now\<rparr>) (ax\<lparr>ct_lts := now\<rparr>) CT_DIR_IN) = xf1 \<or>
        fst (dp_ct_sm g tok xf0 p (ax\<lparr>ct_lts := now\<rparr>) (a\<lparr>ct_lts := now\<rparr>) CT_DIR_OUT) = xf1"
      unfolding R_def by (auto split: if_splits prod.splits)
    then show ?thesis using dp_ct_sm_headers [OF prod.collapse [symmetric] n(1)] n(2,3) by metis
  qed
  have r: "smr = smr1" "xf' = xf1"
    "w' = (if smr1 = CT_SMR_EST \<or> smr1 = CT_SMR_UEST then ct_established ok xf1 key xkey a1 ax1 natted w1
      else if smr1 = CT_SMR_ERR \<or> smr1 = CT_SMR_CTD then ct_torn_down xf1 key xkey a1 ax1 natted w1 else w1)"
    using assms unfolding eq prod.inject by - (elim conjE, rule sym, assumption)+
  have "cw_ep w1 = cw_ep w" "cw_ct w1 = ct_pair key a1 xkey ax1 (cw_ct w)" using w0 by (simp_all add: w1_def)
  from that [OF this] hd r show ?thesis by simp
qed

text \<open>Outside SCTP and fragments the table changes at the two keys only.\<close>

lemma mhon_clear_dom [simp]: "dom (mhon_clear r k m) = dom m"
  by (auto simp: mhon_clear_def dom_def split: if_splits)

lemma mhon_clear_other: "k' \<noteq> k \<Longrightarrow> mhon_clear r k m k' = m k'"
  by (simp add: mhon_clear_def)

lemma dp_ct_est_plain:
  assumes "nw_proto xf \<noteq> IPPROTO_SCTP" "l2_ssnid (xf_l2m xf) = 0"
  shows "\<exists>k xk ad axd. dp_ct_est xf key xkey a ax s = (k, xk, ad, axd, [])"
  using assms by (auto simp: dp_ct_est_def Let_def)

lemma ct_established_ct:
  assumes "nw_proto xf \<noteq> IPPROTO_SCTP" "l2_ssnid (xf_l2m xf) = 0" "w' = ct_established ok xf key xkey a ax natted w"
  shows "dom (cw_ct w') = dom (cw_ct w) \<union> {key, xkey}" "k \<noteq> key \<Longrightarrow> k \<noteq> xkey \<Longrightarrow> cw_ct w' k = cw_ct w k" "cw_ep w' = cw_ep w"
proof -
  let ?done = "\<lambda>e. e\<lparr>ct_nat_act := (ct_nat_act e)\<lparr>na_doct := 0\<rparr>\<rparr>"
  obtain k1 x1 d1 e1 where 1: "dp_ct_est xf key xkey (?done a) (?done ax) (cw_adat w, cw_axdat w) = (k1, x1, d1, e1, [])"
    using dp_ct_est_plain [OF assms(1,2)] by metis
  obtain k2 x2 d2 e2 where 2: "dp_ct_est xf xkey key (?done ax) (?done a) (cw_adat w, cw_axdat w) = (k2, x2, d2, e2, [])"
    using dp_ct_est_plain [OF assms(1,2)] by metis
  show "dom (cw_ct w') = dom (cw_ct w) \<union> {key, xkey}"
    unfolding assms(3) ct_established_def Let_def 1 2 by (cases natted; cases "cd_dir (ct_ctd (?done a)) = CT_DIR_IN") auto
  show "k \<noteq> key \<Longrightarrow> k \<noteq> xkey \<Longrightarrow> cw_ct w' k = cw_ct w k"
    unfolding assms(3) ct_established_def Let_def 1 2
    by (cases natted; cases "cd_dir (ct_ctd (?done a)) = CT_DIR_IN") (auto simp: mhon_clear_other)
  show "cw_ep w' = cw_ep w"
    unfolding assms(3) ct_established_def Let_def 1 2 by (cases natted; cases "cd_dir (ct_ctd (?done a)) = CT_DIR_IN") auto
qed

lemma ct_established_ep [simp]: "cw_ep (ct_established ok xf key xkey a ax natted w) = cw_ep w"
  by (simp add: ct_established_def Let_def split: prod.split)

lemma ct_torn_down_ct:
  assumes "nw_proto xf \<noteq> IPPROTO_SCTP"
  shows "cw_ct (ct_torn_down xf key xkey a ax natted w) = cw_ct w |` (- {xkey, key})"
  using assms by (simp add: ct_torn_down_def dp_ct_ctd_def Let_def split: prod.split)

lemma ct_track_ct:
  assumes "ct_track g tok ok now xf p key xkey a ax natted w = (smr, xf', p', w')"
    "nw_proto xf \<noteq> IPPROTO_SCTP" "l2_ssnid (xf_l2m xf) = 0"
  shows "k \<noteq> key \<Longrightarrow> k \<noteq> xkey \<Longrightarrow> cw_ct w' k = cw_ct w k"
    "{key, xkey} \<subseteq> dom (cw_ct w') \<or> {key, xkey} \<inter> dom (cw_ct w') = {}"
    "smr = CT_SMR_ERR \<or> smr = CT_SMR_CTD \<Longrightarrow> {key, xkey} \<inter> dom (cw_ct w') = {}"
proof -
  obtain a' ax' w1 where c: "cw_ct w1 = ct_pair key a' xkey ax' (cw_ct w)" and
      h: "nw_proto xf' \<noteq> IPPROTO_SCTP" "l2_ssnid (xf_l2m xf') = 0" and
      e: "w' = (if smr = CT_SMR_EST \<or> smr = CT_SMR_UEST then ct_established ok xf' key xkey a' ax' natted w1
           else if smr = CT_SMR_ERR \<or> smr = CT_SMR_CTD then ct_torn_down xf' key xkey a' ax' natted w1 else w1)"
    using ct_track_cases [OF assms(1)] assms(2,3) by metis
  note E = ct_established_ct [OF h, where ok = ok and key = key and xkey = xkey and a = a' and ax = ax' and natted = natted and w = w1, OF HOL.refl]
    and D = ct_torn_down_ct [OF h(1), of key xkey a' ax' natted w1]
  show "k \<noteq> key \<Longrightarrow> k \<noteq> xkey \<Longrightarrow> cw_ct w' k = cw_ct w k" using E(2) [of k] by (auto simp: e D c restrict_map_def)
  show "{key, xkey} \<subseteq> dom (cw_ct w') \<or> {key, xkey} \<inter> dom (cw_ct w') = {}" using E(1) by (auto simp: e D c)
  show "smr = CT_SMR_ERR \<or> smr = CT_SMR_CTD \<Longrightarrow> {key, xkey} \<inter> dom (cw_ct w') = {}" by (auto simp: e D)
qed

section \<open>The reverse key\<close>

text \<open>The reverse key depends on the packet only, and not on what the scratch entries hold.\<close>

definition xi_zero :: mf_xfrm_inf where
  "xi_zero = \<lparr>xi_nat_flags = 0, xi_inactive = 0, xi_nv6 = 0, xi_dsr = 0, xi_mhon = 0, xi_mhs = 0, xi_nat_xip = (0, 0, 0, 0),
     xi_nat_rip = (0, 0, 0, 0), xi_nat_xport = 0, xi_osp = 0, xi_odp = 0\<rparr>"

definition ct_rev :: "xfi \<Rightarrow> dp_ct_key" where
  "ct_rev xf = fst (snd (dp_ct_proto_xfk_init (ct_key_of xf) (ct_xfrm xf xi_zero) xi_zero))"

definition xfk_agree :: "xfk \<Rightarrow> xfk \<Rightarrow> bool" where
  "xfk_agree s s' \<longleftrightarrow> fst (snd s) = fst (snd s') \<and>
     (let x = fst s; y = fst s'
      in xi_nat_flags x = xi_nat_flags y \<and> xi_nv6 x = xi_nv6 y \<and> xi_dsr x = xi_dsr y \<and> xi_nat_xip x = xi_nat_xip y \<and>
         xi_nat_rip x = xi_nat_rip y \<and> xi_nat_xport x = xi_nat_xport y)"

lemma xfk_agree_steps:
  assumes "xfk_agree s s'"
  shows "xfk_agree (xfk_dst key s) (xfk_dst key s')" "xfk_agree (xfk_src key s) (xfk_src key s')"
    "xfk_agree (xfk_hdst key s) (xfk_hdst key s')" "xfk_agree (xfk_hsrc key s) (xfk_hsrc key s')"
  using assms by (cases s; cases s'; simp add: xfk_agree_def xfk_dst_def xfk_src_def xfk_hdst_def xfk_hsrc_def Let_def)+

lemma xfk_agree_flags: "xfk_agree s s' \<Longrightarrow> xi_nat_flags (fst s) = xi_nat_flags (fst s')"
  by (simp add: xfk_agree_def Let_def)

lemma xfk_agree_init:
  assumes "xfk_agree (xi, swap_key key, xxi) (yi, swap_key key, yyi)"
  shows "fst (snd (dp_ct_proto_xfk_init key xi xxi)) = fst (snd (dp_ct_proto_xfk_init key yi yyi))"
proof -
  have d: "xi_dsr xi = xi_dsr yi" "xi_nat_flags xi = xi_nat_flags yi" using assms by (simp_all add: xfk_agree_def Let_def)
  have "xfk_agree (dp_ct_proto_xfk_init key xi xxi) (dp_ct_proto_xfk_init key yi yyi)" if "xi_dsr xi = 0"
    using assms that d unfolding dp_ct_proto_xfk_init_def Let_def
    by (simp add: xfk_agree_steps)
  then show ?thesis using d by (cases "xi_dsr xi = 0") (simp_all add: xfk_agree_def dp_ct_proto_xfk_init_def Let_def)
qed

lemma ct_keys_rev: "fst (snd (ct_keys xf w)) = ct_rev xf"
  unfolding ct_keys_def ct_rev_def by (rule xfk_agree_init) (simp add: xfk_agree_def ct_xfrm_def Let_def)

lemma ct_keys_flags: "xi_nat_flags (fst (ct_keys xf w)) \<noteq> 0 \<longleftrightarrow> pm_nf (xf_pm xf) \<noteq> 0"
proof -
  have "xi_nat_flags (fst (dp_ct_proto_xfk_init key xi xxi)) = xi_nat_flags xi" for key xi xxi
    by (simp add: dp_ct_proto_xfk_init_def Let_def)
  then show ?thesis by (simp add: ct_keys_def ct_xfrm_def Let_def)
qed

section \<open>The table\<close>

lemma ct_create_facts:
  assumes "ct_create ok xf key (xi, xkey, xxi) w = (b, w')"
  shows "b \<longleftrightarrow> cw_ct w xkey = None"
    "\<not> b \<Longrightarrow> cw_ct w' = cw_ct w"
    "b \<Longrightarrow> cw_ct w key = None \<Longrightarrow> (cw_ct w' key \<noteq> None \<longleftrightarrow> ok key) \<and> (cw_ct w' xkey \<noteq> None \<longleftrightarrow> ok xkey)"
    "cw_ep w' = (if xi_nat_flags xi \<noteq> 0 then conn_opened (ucast (pm_rule_id (xf_pm xf))) (cw_ep w) else cw_ep w)"
    "k \<noteq> key \<Longrightarrow> k \<noteq> xkey \<Longrightarrow> cw_ct w' k = cw_ct w k"
  using assms by (auto simp: ct_create_def bpf_map_update_elem_def Let_def split: prod.splits if_splits)

text \<open>The packet of a tracked protocol: it is dropped, or it is tracked with both entries in the table.\<close>

definition ct_tracked :: "xfi \<Rightarrow> bool" where
  "ct_tracked xf \<longleftrightarrow> nw_proto xf \<in> {IPPROTO_TCP, IPPROTO_UDP, IPPROTO_ICMP, IPPROTO_SCTP, IPPROTO_ICMPV6}"

lemma dp_ct_in_cases:
  assumes "dp_ct_in g tok ok now xf p w = (smr, xf', p', w')" "key = ct_key_of xf" "xkey = ct_rev xf"
    "natted = (pm_nf (xf_pm xf) \<noteq> 0)"
    "m = (if natted \<and> cw_ct w key = None then conn_opened (ucast (pm_rule_id (xf_pm xf))) (cw_ep w) else cw_ep w)"
  obtains (untracked) "\<not> ct_tracked xf" "w' = w" "xf' = xf"
  | (dropped) "ct_tracked xf" "cw_ct w key = None \<longleftrightarrow> cw_ct w xkey \<noteq> None" "cw_ct w' = cw_ct w" "cw_ep w' = m"
      "xf' = LLBS_PPLN_DROPC LLB_PIPE_CT_ERR xf" "smr = CT_SMR_INPROG"
  | (full) "ct_tracked xf" "cw_ct w key = None" "cw_ct w xkey = None" "\<not> (ok key \<and> ok xkey)" "cw_ep w' = m" "smr = CT_SMR_ERR"
      "\<forall>k. k \<noteq> key \<longrightarrow> k \<noteq> xkey \<longrightarrow> cw_ct w' k = cw_ct w k" "cw_ct w' key \<noteq> None \<longleftrightarrow> ok key" "cw_ct w' xkey \<noteq> None \<longleftrightarrow> ok xkey"
  | (tracked) a ax w2 where "ct_tracked xf" "cw_ct w key = None \<longleftrightarrow> cw_ct w xkey = None" "cw_ct w key = None \<longrightarrow> ok key \<and> ok xkey" "cw_ep w2 = m"
      "\<forall>k. k \<noteq> key \<longrightarrow> k \<noteq> xkey \<longrightarrow> cw_ct w2 k = cw_ct w k"
      "ct_track g tok ok now xf p key xkey a ax natted w2 = (smr, xf', p', w')"
proof -
  obtain xi xk xxi where K: "ct_keys xf w = (xi, xk, xxi)" by (metis surj_pair)
  have xk: "xk = xkey" and nf: "xi_nat_flags xi \<noteq> 0 \<longleftrightarrow> natted"
    using ct_keys_rev [of xf w] ct_keys_flags [of xf w] K assms(3,4) by simp_all
  define w0 where "w0 = w\<lparr>cw_adat := xi_upd (\<lambda>_. xi) (cw_adat w), cw_axdat := xi_upd (\<lambda>_. xxi) (cw_axdat w)\<rparr>"
  have w0: "cw_ct w0 = cw_ct w" "cw_ep w0 = cw_ep w" by (simp_all add: w0_def)
  define C where "C = (if cw_ct w key \<noteq> None then (cw_ct w xkey \<noteq> None, w0) else ct_create ok xf key (xi, xkey, xxi) w0)"
  obtain b w2 where C: "C = (b, w2)" by (metis surj_pair)
  have E: "ct_tracked xf \<Longrightarrow> dp_ct_in g tok ok now xf p w = (if \<not> b then (CT_SMR_INPROG, LLBS_PPLN_DROPC LLB_PIPE_CT_ERR xf, p, w2)
      else case (cw_ct w2 key, cw_ct w2 xkey) of (Some a, Some ax) \<Rightarrow> ct_track g tok ok now xf p key xkey a ax natted w2
        | _ \<Rightarrow> (CT_SMR_ERR, xf, p, w2))"
    using C unfolding dp_ct_in_def Let_def K ct_tracked_def C_def xk assms(2) [symmetric] prod.case nf w0_def [symmetric] w0
    by (cases "cw_ct w key = None") simp_all
  show ?thesis
  proof (cases "ct_tracked xf")
    case False
    then have "w' = w" "xf' = xf" using assms(1) by (simp_all add: dp_ct_in_def ct_tracked_def Let_def)
    with False show ?thesis by (rule untracked)
  next
    case T: True
    note E = assms(1) [unfolded E [OF T]]
    have F: "(b \<longleftrightarrow> (cw_ct w key = None \<longleftrightarrow> cw_ct w xkey = None)) \<and> (\<not> b \<longrightarrow> cw_ct w2 = cw_ct w) \<and> cw_ep w2 = m \<and>
        (\<forall>k. k \<noteq> key \<longrightarrow> k \<noteq> xkey \<longrightarrow> cw_ct w2 k = cw_ct w k) \<and>
        (cw_ct w key \<noteq> None \<longrightarrow> cw_ct w2 = cw_ct w) \<and>
        (b \<longrightarrow> cw_ct w key = None \<longrightarrow> (cw_ct w2 key \<noteq> None \<longleftrightarrow> ok key) \<and> (cw_ct w2 xkey \<noteq> None \<longleftrightarrow> ok xkey))"
    proof (cases "cw_ct w key = None")
      case True
      then have "ct_create ok xf key (xi, xkey, xxi) w0 = (b, w2)" using C by (simp add: C_def)
      note F = ct_create_facts [OF this, unfolded w0 nf]
      show ?thesis using True F assms(5) by auto
    next
      case False
      then have "b = (cw_ct w xkey \<noteq> None)" "w2 = w0" using C by (simp_all add: C_def)
      then show ?thesis using False assms(5) w0 by auto
    qed
    show ?thesis
    proof (cases b)
      case False
      then have "xf' = LLBS_PPLN_DROPC LLB_PIPE_CT_ERR xf" "smr = CT_SMR_INPROG" "w' = w2" using E by simp_all
      then show ?thesis by (intro dropped T) (use F False in simp_all)
    next
      case b: True
      show ?thesis
      proof (cases "\<exists>a ax. cw_ct w2 key = Some a \<and> cw_ct w2 xkey = Some ax")
        case True
        then obtain a ax where "cw_ct w2 key = Some a" "cw_ct w2 xkey = Some ax" by blast
        then have t: "ct_track g tok ok now xf p key xkey a ax natted w2 = (smr, xf', p', w')" using E b by simp
        show ?thesis by (rule tracked [OF T _ _ _ _ t]) (use F b True in auto)
      next
        case False
        then have w': "w' = w2" "smr = CT_SMR_ERR" using E b by (auto split: option.splits)
        have none: "cw_ct w key = None" "cw_ct w xkey = None" using F b False by auto
        then have "(cw_ct w2 key \<noteq> None \<longleftrightarrow> ok key) \<and> (cw_ct w2 xkey \<noteq> None \<longleftrightarrow> ok xkey)" using F b by simp
        with False show ?thesis by (intro full [OF T none]) (use F w' in auto)
      qed
    qed
  qed
qed

text \<open>Packets one after the other.\<close>

type_synonym ct_pkt = "bool \<times> bool \<times> (dp_ct_key \<Rightarrow> bool) \<times> u64 \<times> xfi \<times> u8 list"

definition ct_one :: "ct_pkt \<Rightarrow> ct_world \<Rightarrow> ct_world" where
  "ct_one = (\<lambda>(g, tok, ok, now, xf, p) w. let (_, _, _, w') = dp_ct_in g tok ok now xf p w in w')"

definition ct_run :: "ct_pkt list \<Rightarrow> ct_world \<Rightarrow> ct_world" where
  "ct_run = fold ct_one"

section \<open>The counts of a rule\<close>

definition conc_of :: "nat_ep_map \<Rightarrow> u32 \<Rightarrow> nat" where
  "conc_of m r = (case m r of None \<Rightarrow> 0 | Some e \<Rightarrow> unat (ea_conc_conns e))"

lemma conc_of_map: "map_option ea_conc_conns (m r) = map_option ea_conc_conns (m' r) \<Longrightarrow> conc_of m r = conc_of m' r"
  by (auto simp: conc_of_def split: option.splits)

lemma unat_Suc_le: "unat (x + 1 :: u32) \<le> unat x + 1"
  by (metis Suc_eq_plus1 mod_less_eq_dividend unat_word_ariths(1) unsigned_1)

lemma conn_opened_conc: "conc_of (conn_opened rule m) r \<le> conc_of m r + (if r = rule then 1 else 0)"
  using unat_Suc_le by (auto simp: conc_of_def conn_opened_def split: option.splits)

lemma conn_closed_conc: "conc_of (conn_closed rule bin bout m) r \<le> conc_of m r"
  by (auto simp: conc_of_def conn_closed_def unat_dec split: option.splits)

lemma dec_nat_sess_conc: "conc_of (dp_do_dec_nat_sess rule aid m) r = conc_of m r"
  by (auto simp: conc_of_def dp_do_dec_nat_sess_def split: option.splits)

lemma ct_torn_down_conc: "conc_of (cw_ep (ct_torn_down xf key xkey a ax natted w)) r \<le> conc_of (cw_ep w) r"
  using conn_closed_conc dec_nat_sess_conc by (simp add: ct_torn_down_def Let_def split: prod.split) metis

lemma dp_ct_in_conc:
  assumes "dp_ct_in g tok ok now xf p w = (smr, xf', p', w')"
  shows "conc_of (cw_ep w') r \<le> conc_of (cw_ep w) r + (if pm_nf (xf_pm xf) \<noteq> 0 \<and> r = ucast (pm_rule_id (xf_pm xf)) then 1 else 0)"
    (is "_ \<le> ?B")
proof -
  let ?m = "if pm_nf (xf_pm xf) \<noteq> 0 \<and> cw_ct w (ct_key_of xf) = None then conn_opened (ucast (pm_rule_id (xf_pm xf))) (cw_ep w) else cw_ep w"
  have m: "conc_of ?m r \<le> ?B" using conn_opened_conc [of "ucast (pm_rule_id (xf_pm xf))" "cw_ep w" r] by auto
  show ?thesis
  proof (rule dp_ct_in_cases [OF assms HOL.refl HOL.refl HOL.refl HOL.refl], goal_cases)
    case (4 a ax w2)
    obtain a' ax' w1 where w1: "cw_ep w1 = cw_ep w2" and
      e: "w' = (if smr = CT_SMR_EST \<or> smr = CT_SMR_UEST then ct_established ok xf' (ct_key_of xf) (ct_rev xf) a' ax' (pm_nf (xf_pm xf) \<noteq> 0) w1
           else if smr = CT_SMR_ERR \<or> smr = CT_SMR_CTD then ct_torn_down xf' (ct_key_of xf) (ct_rev xf) a' ax' (pm_nf (xf_pm xf) \<noteq> 0) w1 else w1)"
      using ct_track_cases [OF 4(6)] by metis
    have "conc_of (cw_ep w') r \<le> conc_of (cw_ep w1) r" using ct_torn_down_conc by (simp add: e)
    then show ?case using m 4(4) w1 by simp
  qed (use m in simp_all)
qed

lemma dp_ct_in_leak:
  assumes "ct_tracked xf" "cw_ct w (ct_key_of xf) = None" "cw_ct w (ct_rev xf) \<noteq> None" "pm_nf (xf_pm xf) \<noteq> 0"
    "dp_ct_in g tok ok now xf p w = (smr, xf', p', w')"
  shows "cw_ct w' = cw_ct w \<and> cw_ep w' = conn_opened (ucast (pm_rule_id (xf_pm xf))) (cw_ep w) \<and> xf' = LLBS_PPLN_DROPC LLB_PIPE_CT_ERR xf"
proof -
  obtain xi xk xxi where K: "ct_keys xf w = (xi, xk, xxi)" by (metis surj_pair)
  have xk: "xk = ct_rev xf" and nf: "xi_nat_flags xi \<noteq> 0" using ct_keys_rev [of xf w] ct_keys_flags [of xf w] K assms(4) by simp_all
  define w0 where "w0 = w\<lparr>cw_adat := xi_upd (\<lambda>_. xi) (cw_adat w), cw_axdat := xi_upd (\<lambda>_. xxi) (cw_axdat w)\<rparr>"
  obtain b w2 where C: "ct_create ok xf (ct_key_of xf) (xi, ct_rev xf, xxi) w0 = (b, w2)" by (metis surj_pair)
  have w0: "cw_ct w0 = cw_ct w" "cw_ep w0 = cw_ep w" by (simp_all add: w0_def)
  note F = ct_create_facts [OF C, unfolded w0]
  have nb: "\<not> b" using F(1) assms(3) by simp
  have "dp_ct_in g tok ok now xf p w = (CT_SMR_INPROG, LLBS_PPLN_DROPC LLB_PIPE_CT_ERR xf, p, w2)"
    using assms(1,2) C nb unfolding dp_ct_in_def Let_def K xk ct_tracked_def prod.case w0_def [symmetric] w0 by simp
  then show ?thesis using assms(5) F(2,4) nb nf by simp
qed

section \<open>Properties\<close>

text \<open>
  C38: the two entries of a connection come and go together, as far as the map has room. A packet outside
  SCTP and fragments (which make further entries) touches the entries of its key and its reverse key only.
  If exactly one of the two was in the table, the packet is dropped and the table left as it was. If the
  connection is new and the map refuses one of the entries, the packet is in error and the other entry,
  if the map took it, stays alone: the results of the two insertions are not looked at. Otherwise
  both entries are in the table after the packet or neither is, and neither after an error or the end of
  the connection.
\<close>

theorem ct_table_paired:
  assumes "dp_ct_in g tok ok now xf p w = (smr, xf', p', w')" "nw_proto xf \<noteq> IPPROTO_SCTP" "l2_ssnid (xf_l2m xf) = 0"
    and "key = ct_key_of xf" "xkey = ct_rev xf"
  shows "(\<forall>k. k \<noteq> key \<longrightarrow> k \<noteq> xkey \<longrightarrow> cw_ct w' k = cw_ct w k) \<and>
    (if \<not> ct_tracked xf then cw_ct w' = cw_ct w
     else if (cw_ct w key = None) \<noteq> (cw_ct w xkey = None) then cw_ct w' = cw_ct w \<and> xf' = LLBS_PPLN_DROPC LLB_PIPE_CT_ERR xf
     else if cw_ct w key = None \<and> \<not> (ok key \<and> ok xkey)
     then smr = CT_SMR_ERR \<and> (cw_ct w' key \<noteq> None \<longleftrightarrow> ok key) \<and> (cw_ct w' xkey \<noteq> None \<longleftrightarrow> ok xkey)
     else (cw_ct w' key = None \<longleftrightarrow> cw_ct w' xkey = None) \<and>
       (smr = CT_SMR_ERR \<or> smr = CT_SMR_CTD \<longrightarrow> cw_ct w' key = None \<and> cw_ct w' xkey = None))"
proof (rule dp_ct_in_cases [OF assms(1,4,5) HOL.refl HOL.refl], goal_cases)
  case (4 a ax w2)
  note t = ct_track_ct [OF 4(6) assms(2,3)]
  have "cw_ct w' key = None \<longleftrightarrow> cw_ct w' xkey = None" using t(2) by auto
  moreover have "smr = CT_SMR_ERR \<or> smr = CT_SMR_CTD \<Longrightarrow> cw_ct w' key = None \<and> cw_ct w' xkey = None" using t(3) by blast
  ultimately show ?case using 4(1-3,5) t(1) by auto
qed simp_all

text \<open>
  C39: a rule never has more connections than its limit. A packet that the rule matches goes through the
  load-balancing step and, whatever is done to the rest of its metadata in between, through the connection
  table; if the count of the rule was within the limit before, it is within it after.
\<close>

theorem conn_limit_kept:
  assumes "nat_hit xf nat_map act" "ta_conn_limit act \<noteq> 0" "cw_ep w (ta_cidx act) = Some e" "ea_conc_conns e \<le> ta_conn_limit act"
    "dp_do_nat now hash xf nat_map (cw_ep w) = (r, xf1, nat_map', m')" "pm_nf (xf_pm xf2) = pm_nf (xf_pm xf1)"
    "dp_ct_in g tok ok now' xf2 p (w\<lparr>cw_ep := m'\<rparr>) = (smr, xf', p', w')"
  shows "conc_of (cw_ep w') (ta_cidx act) \<le> unat (ta_conn_limit act)"
proof -
  note L = dp_do_nat_at_limit [OF assms(1,2,3,5)]
  have c: "conc_of m' (ta_cidx act) = unat (ea_conc_conns e)" using conc_of_map [of m' "ta_cidx act" "cw_ep w", OF L(2)] assms(3) by (simp add: conc_of_def)
  note C = dp_ct_in_conc [OF assms(7), of "ta_cidx act"]
  show ?thesis
  proof (cases "ta_conn_limit act \<le> ea_conc_conns e")
    case True
    then show ?thesis using C L(1) c assms(4,6) by (simp add: word_le_nat_alt)
  next
    case False
    then show ?thesis using C c by (simp add: word_le_nat_alt split: if_splits)
  qed
qed

text \<open>
  C40: a connection that cannot be made is counted nevertheless. When the reverse key of a translated packet is
  taken by another connection the packet is dropped and no entry is made, but the rule has one connection
  more; every time the client tries again adds one, the packet is dropped again, and no entry is left
  whose end would take it back.
\<close>

theorem taken_reverse_key_leaks:
  assumes "ct_tracked xf" "cw_ct w (ct_key_of xf) = None" "cw_ct w (ct_rev xf) \<noteq> None" "pm_nf (xf_pm xf) \<noteq> 0"
    "cw_ep w (ucast (pm_rule_id (xf_pm xf))) = Some e" "w' = ct_run (replicate n (g, tok, ok, now, xf, p)) w"
  shows "cw_ct w' = cw_ct w \<and> fst (snd (dp_ct_in g tok ok now xf p w')) = LLBS_PPLN_DROPC LLB_PIPE_CT_ERR xf \<and> (\<exists>e'. cw_ep w' (ucast (pm_rule_id (xf_pm xf))) = Some e' \<and>
    ea_conc_conns e' = ea_conc_conns e + of_nat n \<and> ea_total_conns e' = ea_total_conns e + of_nat n)"
  using assms(2,3,5,6)
proof (induction n arbitrary: w e)
  case 0
  obtain smr xf' p' w2 where d: "dp_ct_in g tok ok now xf p w = (smr, xf', p', w2)" by (metis surj_pair)
  from dp_ct_in_leak [OF assms(1) 0(1,2) assms(4) d] d 0 show ?case by (simp add: ct_run_def)
next
  case (Suc n)
  define w1 where "w1 = ct_one (g, tok, ok, now, xf, p) w"
  obtain smr xf' p' w2 where d: "dp_ct_in g tok ok now xf p w = (smr, xf', p', w2)" by (metis surj_pair)
  then have "w1 = w2" by (simp add: w1_def ct_one_def)
  with dp_ct_in_leak [OF assms(1) Suc.prems(1,2) assms(4) d] Suc.prems(3)
  have k: "cw_ct w1 = cw_ct w" and e: "cw_ep w1 (ucast (pm_rule_id (xf_pm xf))) =
      Some (e\<lparr>ea_conc_conns := ea_conc_conns e + 1, ea_total_conns := ea_total_conns e + 1\<rparr>)"
    by (simp_all add: conn_opened_def)
  have "w' = ct_run (replicate n (g, tok, ok, now, xf, p)) w1" using Suc.prems(4) by (simp add: ct_run_def w1_def)
  from Suc.IH [OF _ _ e this] Suc.prems(1,2) k show ?case by (simp add: ac_simps)
qed

subsection \<open>Witnesses\<close>

definition sample_ctw :: "ct_map \<Rightarrow> nat_ep_map \<Rightarrow> ct_world" where
  "sample_ctw m ep = \<lparr>cw_ct = m, cw_ep = ep, cw_fc = {}, cw_ctr = None, cw_adat = sample_tact, cw_axdat = sample_tact,
     cw_err = (\<lambda>_. 0), cw_events = []\<rparr>"

definition tcp_bytes :: "u32 \<Rightarrow> u32 \<Rightarrow> u8 list" where
  "tcp_bytes seq ack = replicate 38 0 @ le32_bytes (bpf_ntohl seq) @ le32_bytes (bpf_ntohl ack) @ replicate 8 0"

text \<open>The first packet of a connection into a table with room, and into one that takes the reverse entry only.\<close>

theorem ct_table_paired_witness:
  "let xf = flags_xf 2; w = sample_ctw (\<lambda>_. None) (\<lambda>_. None);
       (_, _, _, w1) = dp_ct_in False False (\<lambda>_. True) 1 xf (tcp_bytes 5 0) w;
       (_, _, _, w2) = dp_ct_in False False (\<lambda>k. k = ct_rev xf) 1 xf (tcp_bytes 5 0) w
   in cw_ct w1 (ct_key_of xf) \<noteq> None \<and> cw_ct w1 (ct_rev xf) \<noteq> None \<and> cw_ct w2 (ct_key_of xf) = None \<and> cw_ct w2 (ct_rev xf) \<noteq> None"
proof -
  let ?xf = "flags_xf 2" and ?w = "sample_ctw (\<lambda>_. None) (\<lambda>_. None)"
  have c: "nw_proto ?xf \<noteq> IPPROTO_SCTP" "l2_ssnid (xf_l2m ?xf) = 0" "ct_tracked ?xf" "ct_key_of ?xf \<noteq> ct_rev ?xf" by code_simp+
  have m: "cw_ct ?w k = None" for k by (simp add: sample_ctw_def)
  obtain r1 x1 p1 w1 where 1: "dp_ct_in False False (\<lambda>_. True) 1 ?xf (tcp_bytes 5 0) ?w = (r1, x1, p1, w1)" by (metis surj_pair)
  obtain r2 x2 p2 w2 where 2: "dp_ct_in False False (\<lambda>k. k = ct_rev ?xf) 1 ?xf (tcp_bytes 5 0) ?w = (r2, x2, p2, w2)" by (metis surj_pair)
  have "cw_ct (ct_one (False, False, \<lambda>_. True, 1, ?xf, tcp_bytes 5 0) ?w) (ct_key_of ?xf) \<noteq> None" by code_simp
  then have "cw_ct w1 (ct_key_of ?xf) \<noteq> None" using 1 by (simp add: ct_one_def)
  with ct_table_paired [OF 1 c(1,2) HOL.refl HOL.refl] ct_table_paired [OF 2 c(1,2) HOL.refl HOL.refl] c(3,4) m show ?thesis
    unfolding 1 2 Let_def prod.case by simp
qed

text \<open>A rule with a limit of one connection and none so far: the first connection is made.\<close>

theorem conn_limit_kept_witness:
  "let (r, xf1, n', m') = dp_do_nat 0 0 sample_xf [nat_key_of sample_xf \<mapsto> sample_rule NAT_LB_SEL_RR] [7 \<mapsto> sample_epacts\<lparr>ea_conc_conns := 0\<rparr>];
       (smr, xf', p', w') = dp_ct_in False False (\<lambda>_. True) 1 xf1 (tcp_bytes 5 0) (sample_ctw (\<lambda>_. None) m')
   in smr = CT_SMR_INPROG \<and> conc_of (cw_ep w') 7 = 1"
proof -
  let ?r = "sample_rule NAT_LB_SEL_RR" and ?m = "[7 \<mapsto> sample_epacts\<lparr>ea_conc_conns := 0\<rparr>]" and ?n = "[nat_key_of sample_xf \<mapsto> sample_rule NAT_LB_SEL_RR]"
  let ?w = "sample_ctw (\<lambda>_. None) ?m"
  obtain r xf1 n' m' where d: "dp_do_nat 0 0 sample_xf ?n ?m = (r, xf1, n', m')" by (metis surj_pair)
  obtain smr xf' p' w' where c: "dp_ct_in False False (\<lambda>_. True) 1 xf1 (tcp_bytes 5 0) (?w\<lparr>cw_ep := m'\<rparr>) = (smr, xf', p', w')" by (metis surj_pair)
  have h: "nat_hit sample_xf ?n ?r" by (simp add: nat_hit_def sample_xf_def sample_rule_def NAT_LB_OP_CHKSRC_def)
  have "conc_of (cw_ep w') (ta_cidx ?r) \<le> unat (ta_conn_limit ?r)"
    by (rule conn_limit_kept [where w = ?w and e = "sample_epacts\<lparr>ea_conc_conns := 0\<rparr>", OF h _ _ _ _ HOL.refl c]) (use d in \<open>simp_all add: sample_rule_def sample_ctw_def sample_epacts_def\<close>)
  moreover have "let (r, xf1, n', m') = dp_do_nat 0 0 sample_xf ?n ?m;
       (smr, xf', p', w') = dp_ct_in False False (\<lambda>_. True) 1 xf1 (tcp_bytes 5 0) (?w\<lparr>cw_ep := m'\<rparr>)
     in smr = CT_SMR_INPROG \<and> 1 \<le> conc_of (cw_ep w') 7" by code_simp
  ultimately show ?thesis using d c by (simp add: sample_rule_def sample_ctw_def)
qed

text \<open>A translated packet whose reverse key belongs to another connection, sent three times.\<close>

theorem taken_reverse_key_leaks_witness:
  "let xf = sample_xf\<lparr>xf_pm := (xf_pm sample_xf)\<lparr>pm_nf := LLB_NAT_DST, pm_rule_id := 7\<rparr>\<rparr>;
       w' = ct_run (replicate 3 (False, False, \<lambda>_. True, 1, xf, tcp_bytes 5 0)) (sample_ctw [ct_rev xf \<mapsto> sample_tact] [7 \<mapsto> sample_epacts])
   in cw_ct w' = [ct_rev xf \<mapsto> sample_tact] \<and> map_option ea_conc_conns (cw_ep w' 7) = Some 4"
proof -
  let ?xf = "sample_xf\<lparr>xf_pm := (xf_pm sample_xf)\<lparr>pm_nf := LLB_NAT_DST, pm_rule_id := 7\<rparr>\<rparr>"
  let ?w = "sample_ctw [ct_rev ?xf \<mapsto> sample_tact] [7 \<mapsto> sample_epacts]"
  have "ct_key_of ?xf \<noteq> ct_rev ?xf" by code_simp
  then have "cw_ct ?w (ct_key_of ?xf) = None" "cw_ct ?w (ct_rev ?xf) \<noteq> None" by (simp_all add: sample_ctw_def)
  moreover have "ct_tracked ?xf" "pm_nf (xf_pm ?xf) \<noteq> 0" by code_simp+
  ultimately show ?thesis
    using taken_reverse_key_leaks [of ?xf ?w sample_epacts _ 3 False False "\<lambda>_. True" 1 "tcp_bytes 5 0", OF _ _ _ _ _ HOL.refl]
    by (auto simp: Let_def sample_ctw_def sample_epacts_def)
qed

end
