(* ===== verification/Spec2Isabelle.thy ===== *)
theory Spec2Isabelle
  imports FC_Sample PD_Evict CT_Table
begin

text \<open>
  \<^bold>\<open>Capacity admission, prefix trie and connection tracking of the inference gateway.\<close> The development
  models three parts of the gateway. The first is the admission module of the proxy,
  \<open>src/common/sockproxy_fc.c\<close> and \<open>src/common/sockproxy_fc.h\<close>, with the callback of
  \<open>src/common/sockproxy_health.c\<close> that ends waits. A pool limits how many requests execute on a
  service at once, queues the others, wakes them when a unit is free, shares units between tenants and
  between three bands of importance, adapts its ceiling to what the backends report, and ends waits at
  their deadlines. The second is the trie that remembers which endpoint has seen which prompt prefix,
  \<open>src/common/sockproxy_pd_trie.c\<close>. The third is the stateful load balancing of the kernel datapath,
  \<open>src/kernel/llb_kern_natlbfwd.c\<close> and \<open>src/kernel/llb_kern_ct.c\<close>.

  \<^bold>\<open>How the parts interact.\<close> A request asks the gate for a service unit (\<open>fc_service_acquire__\<close> and its
  six variants), then for an endpoint unit of each leg (\<open>fc_ep_acquire\<close>, \<open>fc_ep_acquire_any\<close>,
  \<open>fc_permit_move\<close>); what it holds is written in its permit. A refused request that may wait is pushed
  on the pool's queue (\<open>fc_queue_push\<close>), a ring of entries named by connection and generation. A
  release (\<open>fc_permit_release__\<close>) gives the units back and wakes a waiter (\<open>fc_queue_wake_one\<close>), whose
  owner worker resumes it (\<open>fc_queue_owner_resume\<close>) and asks the gate again as a woken request. A wait
  can also end by its deadline (\<open>fc_deadline_pass\<close>), by an eviction, by a drain, or by the client
  leaving; all of them race for the permit's state.

  In the datapath a packet without an entry in the connection table is matched with a rule, which selects
  an endpoint and has a limit of connections (\<open>dp_do_nat\<close>); the connection table (\<open>dp_ct_in\<close>) makes an
  entry for each direction, counts the connection for the rule, runs the state machine of the protocol
  (\<open>dp_ct_sm\<close>) and deletes the entries at the end of the connection, with the count taken back.

  \<^bold>\<open>Theories, in the order of the code.\<close>
  \<^item> \<open>FC_Prelude\<close>, \<open>FC_Types\<close>: word and list lemmas; the enums and structs of the header. Counters,
    percentages and times have their C width; positions in the ring and in the tenant table are natural
    numbers; an array indexed by an enum is a function; \<open>-1\<close> and \<open>UINT32_MAX\<close> for "none" are options.
  \<^item> \<open>FC_Config\<close>: \<open>fc_cfg_from_env\<close>, \<open>fc_cfg_resolve\<close>, \<open>fc_cfg_band_guard\<close>, \<open>fc_cfg_equal\<close>. Every
    resolved configuration is in range; the guard accepts or repairs.
  \<^item> \<open>FC_Ring\<close>: the ring of waiters with its tombstones, compaction, growth and ordered insertion. Its
    live entries are a list (\<open>ring_live\<close>, \<open>waiters\<close>), and every operation is the list operation. The
    locale \<open>popping_queue\<close> has the contract of a pop, interpreted for the ring and for the pool's queue.
  \<^item> \<open>FC_Tenants\<close>: tenant slots with free list, open-addressing index with tombstones, and the count of
    runnable waiting tenants. The locale \<open>slot_table\<close> has the contract of the lookup.
  \<^item> \<open>FC_Units\<close>: the compare-and-swap loops of one counter, atomically (locale \<open>unit_counter\<close>, interpreted
    for service, band and endpoint counters) and step by step with every interleaving (\<open>unit_step\<close>).
  \<^item> \<open>FC_Pool\<close>, \<open>FC_Adapt\<close>: bands, shares, floors and the critical reserve; the adaptive ceiling, the
    warm-up ramp, the TTFT average, the retry-after value.
  \<^item> \<open>FC_World\<close>: the process (all pools, anomaly counts, timer, clock, hooks), permits and their owner
    references, the arming of the deadline timer.
  \<^item> \<open>FC_Wake\<close>, \<open>FC_Queue\<close>, \<open>FC_Waits\<close>: which waiter gets the next unit (floors, strict order, weighted
    rounds, tenants in turn) and which is evicted; push, take, pop, resume, wakes, drain, with the
    pool's invariant \<open>pool_inv\<close> (ring, tenant table, mirrored counts). Every one of them keeps it, with one
    exception: a push that evicts the only hold of its own tenant (\<open>evict_frees\<close>) waits under a slot it has
    just freed, which \<open>fc_push_locked_frees\<close> follows to the next tenant. The counters read for "is anybody
    ahead" answer exactly whether such a waiter is in the queue (\<open>fc_waiters_ahead_iff\<close>).
  \<^item> \<open>FC_Gate\<close>, \<open>FC_Account\<close>, \<open>FC_System\<close>, \<open>FC_Outcome\<close>: the gate; the accounting of one permit
    (\<open>sound_step\<close>) and of all permits of the process as a labelled step relation (\<open>fc_step\<close>, \<open>fc_reach\<close>),
    over the runs in which no push \<open>self_evicts\<close>; what the answers mean.
  \<^item> \<open>FC_State\<close>: a configuration applied to a pool, init, destroy, the adaptive tick. \<open>FC_Settle\<close>: the
    operations that race for a queued permit. \<open>FC_Deadline\<close>: expired waits, the deadline pass and the
    proxy's callback (locale \<open>expiry\<close>, interpreted on that callback). \<open>FC_Expose\<close>: the admission headers.
  \<^item> \<open>FC_Sample\<close>: concrete pools, permits and processes on which the properties below are applied.
  \<^item> \<open>PD_Trie\<close>, \<open>PD_Evict\<close>: the radix trie as a datatype (the parent pointers of the code are the path to
    a node). A lookup is the search for the longest prefix with an endpoint; insertion, removal of an
    endpoint and eviction are exact on the entries; a node that has lost its entry and its children stays.
    The locale \<open>tagged_store\<close> has the contract by which a removed endpoint stays away, interpreted on the trie.
  \<^item> \<open>DP_Types\<close>, \<open>DP_Nat\<close>: the metadata of a packet and the actions; the selection of an endpoint by
    round robin, hash, tunnel, persistence and least connections, and the load-balancing step.
  \<^item> \<open>CT_Types\<close>, \<open>CT_Key\<close>: the entries and the key of the reverse direction; the reverse of the reverse is
    the key. \<open>CT_Tcp\<close>, \<open>CT_Flows\<close>, \<open>CT_Sctp\<close>: the state machines; what a TCP connection or an SCTP
    association needs to be taken for open; the addresses added to an SCTP packet, byte by byte.
  \<^item> \<open>CT_Main\<close>, \<open>CT_Table\<close>: a packet in the connection table; the two entries of a connection come and go
    together as long as the map has room for both; with the load-balancing step, a rule stays within its limit.

  \<^bold>\<open>Conventions.\<close> A pool pointer is a number, \<open>None\<close> is \<open>NULL\<close>, and the pools are a function in the
  process. A section under the pool's lock is one step; counters outside the lock are atomic, which
  \<open>FC_Units\<close> justifies. An allocation of \<open>n\<close> elements succeeds or fails by a parameter. The clock is read
  once per operation. The wake hook's answer may depend on all calls made before; it does not call back
  into the module. Anomalies are returned and added to the process's counts. Permits are passed by value;
  \<open>NULL\<close> permits are not modelled.

  In the datapath the maps of the kernel are partial functions, an address is four words, the packet of the
  SCTP machine is the list of its bytes, and the states of a protocol are the constructors of a datatype.
  The time, the hash of a packet, whether it is a segment to be split and whether a map has room are
  arguments. The build is the default one, without tracing and heartbeat rewriting; one packet is processed
  at a time. The scratch entries of a CPU are part of the state, because the code does not clear them.

  \<^bold>\<open>Bounds and fuel.\<close> Two loops take fuel. The drain (\<open>drain_loop\<close>) needs as many rounds as there are
  waiters, and the eviction of the trie (\<open>evict_loop\<close>) as many as there are nodes; both are proved enough.
  The scans over endpoints, hosts and parameters have the fixed counts of the code. All other loops are
  structural or have a termination proof. Fewer than \<open>2 ^ 32\<close> permits exist, so no counter wraps.

  \<^bold>\<open>Not modelled.\<close> Logging, metric export, the \<open>timerfd\<close> system calls, the memory order of atomics, and
  the parts of the proxy outside the modules: sockets, HTTP, TLS, the choice of endpoints in the proxy, and
  the checks of contents. In the datapath: parsing, routing, filtering, policing and the rewriting of
  packets, \<open>dp_ct3_sm\<close>, which nothing calls, packets of two CPUs at once, and a packet from an address and
  port to itself, whose two entries are one.
\<close>

section \<open>Accounting\<close>

text \<open>
  C1: every unit has a holder. From an accounted state, whatever gate, endpoint, queue, wake,
  configuration and tick operations run on whatever permits, as long as none of the pushes among them
  evicts the only hold of its own tenant, each pool's service, band, endpoint and tenant counters are
  exactly the numbers of permits that hold such a unit, and neither an underflow nor an unknown permit
  is noted. (Such a push breaks the tenant table instead, as the property on it below states, and a
  later leave can then underflow.)
\<close>

theorem every_unit_has_a_holder:
  assumes "accounted (w, ps)" "length ps < 2 ^ 32" "fc_reach (w, ps) tr (w', ps')"
    and "\<forall>(st, op) \<in> set tr. \<not> self_evicts st op"
  shows "unat (s_inflight (w_pools w' f)) = length (filter (exec_on f) ps') \<and>
    (fc_band_counted b \<longrightarrow> unat (s_band_inflight (w_pools w' f) b) = length (filter (\<lambda>p. exec_on f p \<and> p_band p = b) ps')) \<and>
    unat (s_ep_inflight (w_pools w' f) ep r) = length (filter (\<lambda>p. exec_on f p \<and> p_ep p r = int ep) ps') \<and>
    (0 \<le> sl \<longrightarrow> ti (s_tt (w_pools w' f)) sl = length (filter (\<lambda>p. exec_on f p \<and> p_tslot p = sl) ps')) \<and>
    w_anomaly w' FC_A_UNDERFLOW = 0 \<and> w_anomaly w' FC_A_UNKNOWN_PERMIT = 0"
  using fc_reach_accounted [OF assms(3,4,1)] assms(2) accounted_counts [where w = w' and ps = ps' and f = f] by (simp add: accounted_def)

theorem every_unit_has_a_holder_witness:
  "unat (s_inflight (w_pools (fst sample_busy) 0)) = 1 \<and> length (filter (exec_on 0) [snd sample_busy, sample_permit]) = 1"
proof -
  let ?ps = "[sample_permit, sample_permit]"
  have "fc_step (sample_world, ?ps) (Op_acquire 0) (fst sample_busy, ?ps[0 := snd sample_busy])"
    by (rule fc_step.acquire [where fc = "Some 0" and can_queue = False and woken = False and tkey = "fc_tenant_key None" and band = 0 and v = FC_ADMIT])
      (use sample_busy_admits in \<open>simp_all add: fc_service_acquire_def\<close>)
  then have r: "fc_reach (sample_world, ?ps) [((sample_world, ?ps), Op_acquire 0)] (fst sample_busy, [snd sample_busy, sample_permit])"
    using fc_reach.more [OF fc_reach.start] by simp
  have "length (filter (exec_on 0) [snd sample_busy, sample_permit]) = 1" by code_simp
  with every_unit_has_a_holder [OF sample_accounted _ r, where f = 0] show ?thesis by simp
qed

text \<open>
  C2: the answer of the service gate. An admission to an active pool takes exactly one unit and, in
  enforcing mode, only when the pool was below its ceiling and the permit's tenant below its share; a
  refusal happens only in enforcing mode and moves neither a counter nor the queue; a pool that is off
  admits without a unit.
\<close>

theorem acquire_outcome:
  assumes "pool_inv h (w_pools w f)" "\<And>sl. h sl + 1 < 2 ^ 32"
    and "fc_service_acquire_with w (Some f) p cq woken tkey band = (v, w', p')"
  shows "(if \<not> fc_active (w_pools w f) then v = FC_ADMIT \<and> p_state p' = FC_P_BYPASS \<and> w_pools w' = w_pools w
      else if v = FC_ADMIT then gate_admitted h w f w' p' else gate_refused w f w' p') \<and> (\<forall>g. g \<noteq> f \<longrightarrow> w_pools w' g = w_pools w g)"
  by (rule fc_service_acquire_outcome [OF assms])

theorem acquire_outcome_witness:
  "gate_admitted (\<lambda>_. 0) sample_world 0 (fst sample_busy) (snd sample_busy)"
proof -
  have "fc_active (w_pools sample_world 0)" by code_simp
  with acquire_outcome [OF sample_world_inv _ sample_busy_admits [unfolded fc_service_acquire_def]] show ?thesis by simp
qed

text \<open>
  C3: no overtaking. On an enforcing pool with its queue on and without tenant shares, a newcomer is not
  admitted while a request waits ahead of it, whatever the counters say, and the pool is left as it was:
  the unit freed for the head of the queue is not taken from under it. Ahead of a newcomer is every
  waiter, or under a strict wake those of its own band or a higher one; a newcomer whose band is below
  the floor it claims stands behind the waiters of its own band only.
\<close>

theorem newcomer_waits_behind:
  assumes "pool_inv h (w_pools w f)" "e \<in> set (waiters (w_pools w f))" "waits_ahead (w_pools w f) (fc_band_of band) e"
    and "c_mode (s_cfg (w_pools w f)) = FC_MODE_ENFORCE" "fc_queue_enabled (w_pools w f)" "\<not> fc_share_active (w_pools w f)"
    and "fc_service_acquire_with w (Some f) p cq False tkey band = (v, w', p')"
  shows "v \<noteq> FC_ADMIT \<and> w_pools w' f = w_pools w f"
proof -
  have "fc_waiters_ahead (w_pools w f) (fc_band_of band)" using fc_waiters_ahead_iff [OF assms(1)] assms(2,3) by blast
  then have v: "v \<noteq> FC_ADMIT" by (intro fc_service_acquire_behind [OF assms(7)]) (use assms in \<open>simp_all add: gate_ahead_def\<close>)
  have "w_pools w' f = w_pools w f"
    using assms(7) HOL.refl HOL.refl by (cases rule: fc_service_acquire_cases) (use v assms(6) in \<open>auto simp: gate_admits_def\<close>)
  with v show ?thesis by simp
qed

theorem newcomer_waits_behind_witness:
  "fst (fc_service_acquire (fst sample_one) (Some 0) sample_permit) \<noteq> FC_ADMIT"
proof -
  obtain v w p where r: "fc_service_acquire_with (fst sample_one) (Some 0) sample_permit False False (fc_tenant_key None) 0 = (v, w, p)"
    by (metis surj_pair)
  let ?s = "w_pools (fst sample_one) 0"
  have c: "c_mode (s_cfg ?s) = FC_MODE_ENFORCE" "fc_queue_enabled ?s" "\<not> fc_share_active ?s"
    "waiters ?s = [hd (waiters ?s)]" "waits_ahead ?s (fc_band_of 0) (hd (waiters ?s))" by code_simp+
  then have "hd (waiters ?s) \<in> set (waiters ?s)" by (metis list.set_intros(1))
  from newcomer_waits_behind [OF sample_one_inv this c(5,1-3) r] r show ?thesis by (simp add: fc_service_acquire_def)
qed

text \<open>
  C4: what a request takes it gives back. A permit that takes its service unit and an endpoint unit and is
  then released leaves every counter of every pool (service, counted bands, endpoints, tenants) as it was
  before, whatever the answers on the way were.
\<close>

theorem acquire_release_round_trip:
  assumes "accounted (w, ps)" "i < length ps" "length ps < 2 ^ 32" "idle (ps ! i)"
    and "fc_service_acquire_with w fc (ps ! i) cq woken tkey band = (v, w1, p1)"
    and "p_fc p1 = fc" "fc_ep_acquire w1 fc p1 e role = (v2, w2, p2)"
    and "fc_permit_release_with w2 p2 wake = (w3, p3)"
  shows "s_inflight (w_pools w3 f) = s_inflight (w_pools w f) \<and>
    (fc_band_counted b \<longrightarrow> s_band_inflight (w_pools w3 f) b = s_band_inflight (w_pools w f) b) \<and>
    s_ep_inflight (w_pools w3 f) = s_ep_inflight (w_pools w f) \<and> ti (s_tt (w_pools w3 f)) = ti (s_tt (w_pools w f)) \<and>
    p_state p3 \<noteq> FC_P_EXECUTING"
  using acquire_release_same [OF assms] by (simp add: idle_def)

theorem acquire_release_round_trip_witness:
  "\<exists>w1 p1 w2 p2 w3 p3. fc_service_acquire sample_world (Some 0) sample_permit = (FC_ADMIT, w1, p1) \<and>
     fc_ep_acquire w1 (Some 0) p1 3 0 = (FC_ADMIT, w2, p2) \<and> fc_permit_release w2 p2 = (w3, p3) \<and>
     s_inflight (w_pools w2 0) = 1 \<and> s_inflight (w_pools w3 0) = s_inflight (w_pools sample_world 0)"
proof -
  let ?r1 = "fc_service_acquire sample_world (Some 0) sample_permit"
  let ?r2 = "fc_ep_acquire (fst (snd ?r1)) (Some 0) (snd (snd ?r1)) 3 0"
  let ?r3 = "fc_permit_release (fst (snd ?r2)) (snd (snd ?r2))"
  have c: "fst ?r1 = FC_ADMIT" "p_fc (snd (snd ?r1)) = Some 0" "fst ?r2 = FC_ADMIT" "s_inflight (w_pools (fst (snd ?r2)) 0) = 1"
    by code_simp+
  have "s_inflight (w_pools (fst ?r3) 0) = s_inflight (w_pools sample_world 0)"
    using acquire_release_round_trip [OF sample_accounted, where i = 0 and fc = "Some 0" and cq = False and woken = False and
        tkey = "fc_tenant_key None" and band = 0 and e = 3 and role = 0 and wake = True and f = 0] c(2)
    by (simp add: fc_service_acquire_def fc_permit_release_def) (metis prod.collapse)
  with c show ?thesis by (metis prod.collapse)
qed

text \<open>A release happens once. Releasing a released permit again changes neither the process nor the permit.\<close>

theorem release_is_idempotent:
  assumes "permit_wf p" "fc_permit_release_with w p wake = (w', p')"
  shows "fc_permit_release_with w' p' wake' = (w', p')"
  by (rule fc_permit_release_again [OF assms])

theorem release_is_idempotent_witness:
  "fc_permit_release (fst (fc_permit_release (fst sample_busy) (snd sample_busy))) (snd (fc_permit_release (fst sample_busy) (snd sample_busy))) =
     fc_permit_release (fst sample_busy) (snd sample_busy)"
  using release_is_idempotent [OF sample_busy_wf, of "fst sample_busy" True _ _ True] by (simp add: fc_permit_release_def)

section \<open>The queue\<close>

text \<open>
  C5: where a pushed request waits. A push that is accepted leaves the permit queued and the waiters of
  the pool are the old ones, less the youngest sheddable waiter when the queue was full and eviction is
  on (which is then owed an answer), with the request inserted at its place: behind all others, by its
  first arrival when it waited elsewhere before, or in front when it goes back to its place. A push that
  is refused leaves the permit unbound. Other pools are untouched and no anomaly is noted. The pool's
  invariant holds after it unless the push evicted the only hold of its own tenant, which the next
  property is about.
\<close>

theorem push_places_waiter:
  assumes "pool_inv h (w_pools w f)" "0 \<le> fd" "fc_queue_push w (Some f) p fd gen now front = (rc, w', p')"
  shows "(\<not> evict_frees (w_calloc w) (w_pools w f) (push_ent (w_pools w f) p fd gen now front) (p_tkey p) front now \<longrightarrow>
      pool_inv h (w_pools w' f)) \<and>
    (g \<noteq> f \<longrightarrow> w_pools w' g = w_pools w g) \<and> w_anomaly w' = w_anomaly w \<and>
    p_state p' = (if rc = 0 then FC_P_QUEUED else FC_P_NONE) \<and>
    (\<exists>base gone sl. push_evicts (w_pools w f) now gone base (q_evicted (s_queue (w_pools w' f))) \<and>
       waiters (w_pools w' f) =
         (if rc = 0
          then queue_insert front (push_ordered p now front) ((push_ent (w_pools w f) p fd gen now front)\<lparr>e_tslot := sl\<rparr>) base
          else base))"
  using fc_queue_push_ok(1-5) [OF assms] by blast

theorem push_places_waiter_witness:
  "pool_inv (\<lambda>_. 0) (w_pools (fst sample_one) 0) \<and> map e_fd (waiters (w_pools (fst sample_one) 0)) = [7]"
proof -
  obtain rc w' p' where r: "fc_queue_push sample_world (Some 0) sample_permit 7 1 1000 False = (rc, w', p')" by (metis surj_pair)
  have "map e_fd (waiters (w_pools (fst sample_one) 0)) = [7]" by code_simp
  with push_places_waiter [OF sample_world_inv _ r] sample_push_safe r show ?thesis by (simp add: sample_one_def)
qed

text \<open>
  The queue stays within its depth. A push that does not go back to its place never makes the queue
  longer than the configured depth (or than it already was, after the depth was lowered).
\<close>

theorem push_keeps_depth:
  assumes "pool_inv h (w_pools w f)" "0 \<le> fd"
    and "fc_queue_push w (Some f) p fd gen now False = (rc, w', p')"
  shows "length (waiters (w_pools w' f)) \<le>
    max (length (waiters (w_pools w f))) (unat (c_max_queue_depth (s_cfg (w_pools w f))))"
  by (rule fc_queue_push_depth [OF assms])

theorem push_keeps_depth_witness:
  "length (waiters (w_pools (fst sample_one) 0)) \<le> 2"
proof -
  obtain rc w' p' where r: "fc_queue_push sample_world (Some 0) sample_permit 7 1 1000 False = (rc, w', p')" by (metis surj_pair)
  have "waiters (w_pools sample_world 0) = []" "unat (c_max_queue_depth (s_cfg (w_pools sample_world 0))) = 2" by code_simp+
  with push_keeps_depth [OF sample_world_inv _ r] r show ?thesis by (simp add: sample_one_def)
qed

text \<open>
  C6: a tenant that evicts itself loses its slot. When an accepted push evicts the only hold of its own
  tenant (the youngest sheddable waiter, its tenant neither waiting nor executing elsewhere), the slot
  the newcomer obtained is freed before the newcomer is counted on it: the newcomer waits under a slot
  that is marked unused, so the pool's invariant is lost, and, when it is a slot of the tenant's own,
  the next tenant without one is given the same slot, whose count of waiters starts over from zero.
\<close>

theorem self_eviction_shares_slot:
  assumes "pool_inv h (w_pools w f)" "0 \<le> fd"
    and "evict_frees (w_calloc w) (w_pools w f) (push_ent (w_pools w f) p fd gen now front) (p_tkey p) front now"
    and "fc_queue_push w (Some f) p fd gen now front = (0, w', p')"
  shows "(\<forall>h'. \<not> pool_inv h' (w_pools w' f)) \<and>
    (\<exists>sl \<ge> 0. (push_ent (w_pools w f) p fd gen now front)\<lparr>e_tslot := sl\<rparr> \<in> set (waiters (w_pools w' f)) \<and>
       \<not> t_used (tts (s_tt (w_pools w' f)) ! nat sl) \<and>
       (\<forall>key ok dead cnt sl' tt' an. nat sl < tt_slots (s_tt (w_pools w' f)) \<longrightarrow> tt_slot_of (s_tt (w_pools w' f)) key = None \<longrightarrow>
          fc_tenant_get ok dead (s_tt (w_pools w' f)) key cnt = (sl', tt', an) \<longrightarrow>
          sl' = sl \<and> t_key (tts tt' ! nat sl) = key \<and> t_queued (tts tt' ! nat sl) = 0))"
proof -
  from fc_queue_push_frees [OF assms] obtain sl where sl: "0 \<le> sl"
    "(push_ent (w_pools w f) p fd gen now front)\<lparr>e_tslot := sl\<rparr> \<in> set (waiters (w_pools w' f))"
    "\<not> t_used (tts (s_tt (w_pools w' f)) ! nat sl)" "\<not> tt_inv (s_tt (w_pools w' f))"
    "\<And>key ok dead cnt sl' tt' an. nat sl < tt_slots (s_tt (w_pools w' f)) \<Longrightarrow> tt_slot_of (s_tt (w_pools w' f)) key = None \<Longrightarrow>
       fc_tenant_get ok dead (s_tt (w_pools w' f)) key cnt = (sl', tt', an) \<Longrightarrow>
       sl' = sl \<and> t_key (tts tt' ! nat sl) = key \<and> t_queued (tts tt' ! nat sl) = 0" by metis
  have "\<not> pool_inv h' (w_pools w' f)" for h' using sl(4) pool_coreD(2) [OF pool_invD(1)] by blast
  with sl show ?thesis by blast
qed

theorem self_eviction_shares_slot_witness:
  "pool_inv (\<lambda>_. 0) (w_pools reuse_world 0) \<and>
   fc_queue_push reuse_world (Some 0) reuse_permit 12 1 1000 False = (0, fst (snd reuse_second), snd (snd reuse_second)) \<and>
   \<not> pool_inv (\<lambda>_. 0) (w_pools (fst (snd reuse_second)) 0)"
proof -
  have inv: "pool_inv (\<lambda>_. 0) (w_pools reuse_world 0)" using reuse_full_inv by (simp add: reuse_world_def)
  from self_eviction_shares_slot [OF inv _ reuse_second_frees reuse_second_pushed] inv reuse_second_pushed show ?thesis by simp
qed

text \<open>
  C7: a waiter is taken once, by name. Taking a permit's wait succeeds exactly when its entry is in the
  queue; then that one entry leaves and the permit is ended; otherwise nothing changes. The invariant
  holds in both cases, without an anomaly.
\<close>

theorem take_is_exact:
  assumes "pool_inv h s" "fc_queue_take s p = (won, s', p', an)"
  shows "pool_inv h s' \<and> an = [] \<and> (won \<longleftrightarrow> fc_queue_holds s p) \<and>
    (won \<longrightarrow> p' = p\<lparr>p_state := FC_P_ENDED\<rparr> \<and>
       (\<exists>pre e post. waiters s = pre @ e # post \<and> ent_is (p_q_fd p) (p_q_gen p) e \<and> waiters s' = pre @ post)) \<and>
    (\<not> won \<longrightarrow> s' = s \<and> p' = p)"
  using fc_queue_take_ok [OF assms] by blast

theorem take_is_exact_witness:
  "pool_inv (\<lambda>_. 0) (fst (snd (fc_queue_take (w_pools (fst sample_one) 0) (snd sample_one)))) \<and>
   fst (fc_queue_take (w_pools (fst sample_one) 0) (snd sample_one))"
proof -
  obtain won s p an where r: "fc_queue_take (w_pools (fst sample_one) 0) (snd sample_one) = (won, s, p, an)" by (metis surj_pair)
  have "fst (fc_queue_take (w_pools (fst sample_one) 0) (snd sample_one))" by code_simp
  with take_is_exact [OF sample_one_inv r] r show ?thesis by simp
qed

text \<open>C8: first in, first out. Popping until the queue is empty returns the waiters in their order.\<close>

theorem pops_in_order:
  assumes "pool_inv h s" "length (waiters s) \<le> n"
    and "pops (\<lambda>s. (fst (fc_queue_pop s), fst (snd (fc_queue_pop s)))) n s = (es, s')"
  shows "es = waiters s \<and> waiters s' = []"
  by (rule poolq.pops_all [OF assms])

theorem pops_in_order_witness:
  "map e_fd (fst (pops (\<lambda>s. (fst (fc_queue_pop s), fst (snd (fc_queue_pop s)))) 2 (w_pools (fst sample_one) 0))) = [7]"
proof -
  obtain es s' where r: "pops (\<lambda>s. (fst (fc_queue_pop s), fst (snd (fc_queue_pop s)))) 2 (w_pools (fst sample_one) 0) = (es, s')"
    by (metis surj_pair)
  have "length (waiters (w_pools (fst sample_one) 0)) \<le> 2" "map e_fd (waiters (w_pools (fst sample_one) 0)) = [7]" by code_simp+
  with pops_in_order [OF sample_one_inv _ r] r show ?thesis by simp
qed

text \<open>
  C9: a wait is decided once. Whatever order the deadline pass, the owner worker and the settling of an
  eviction run in on one queued permit, exactly one of them decides when the permit leaves the queued
  state, none decides while it stays, and none decides afterwards.
\<close>

theorem wait_decided_once:
  assumes "settle_run f ops (w, p) = (n, w', p')"
  shows "n = (if p_state p = FC_P_QUEUED \<and> p_state p' \<noteq> FC_P_QUEUED then 1 else 0)"
  using settle_run_once [OF assms] by blast

theorem wait_decided_once_witness:
  "fst (settle_run 0 [By_take, By_resume, By_evicted 7 1, By_take] sample_one) = 1"
proof -
  obtain n w' p' where r: "settle_run 0 [By_take, By_resume, By_evicted 7 1, By_take] (fst sample_one, snd sample_one) = (n, w', p')"
    by (metis surj_pair)
  have "p_state (snd sample_one) = FC_P_QUEUED"
    "p_state (snd (snd (settle_run 0 [By_take, By_resume, By_evicted 7 1, By_take] (fst sample_one, snd sample_one)))) \<noteq> FC_P_QUEUED" by code_simp+
  with wait_decided_once [OF r] r show ?thesis by simp
qed

text \<open>
  C10: a freed unit wakes a waiter. On a pool with room, without floors in force, whose hook delivers,
  the wake takes out exactly one waiter whose tenant can run and calls its owner, if there is such a
  waiter at all.
\<close>

theorem wake_one_wakes:
  assumes "pool_inv h (w_pools w f)" "w_wake_hook w = Some hk" "\<And>cs fd gen. hk cs fd gen"
    and "fc_has_room (w_pools w f)" "\<not> fc_floors_apply (w_pools w f) (fc_svc_cap (w_pools w f))"
    and "e \<in> set (waiters (w_pools w f))" "ent_runnable (s_tt (w_pools w f)) (fc_tenant_svc_bound (w_pools w f)) e"
  shows "\<exists>x \<in> set (waiters (w_pools w f)). ent_runnable (s_tt (w_pools w f)) (fc_tenant_svc_bound (w_pools w f)) x \<and>
    waiters (w_pools (fc_queue_wake_one w (Some f)) f) = remove1 x (waiters (w_pools w f)) \<and>
    w_calls (fc_queue_wake_one w (Some f)) = w_calls w @ [Wake (e_fd x) (e_gen x)]"
  by (rule fc_queue_wake_one_wakes [OF assms])

theorem wake_one_wakes_witness:
  "waiters (w_pools (fc_queue_wake_one (sample_wait) (Some 0)) 0) = []"
proof -
  let ?s = "w_pools (sample_wait) 0"
  obtain e where e: "waiters ?s = [e]" "ent_runnable (s_tt ?s) (fc_tenant_svc_bound ?s) e"
  proof -
    have "length (waiters ?s) = 1" "list_all (ent_runnable (s_tt ?s) (fc_tenant_svc_bound ?s)) (waiters ?s)" by code_simp+
    then show thesis using that by (cases "waiters ?s") auto
  qed
  have "fc_has_room ?s" "\<not> fc_floors_apply ?s (fc_svc_cap ?s)" by code_simp+
  then show ?thesis using wake_one_wakes [OF sample_wait_inv sample_wait_env(1), of 0 e] e by auto
qed

text \<open>
  A wake takes out whom it wakes and nobody else. One turn of the wake loop either wakes one waiter
  whose tenant can run, which leaves the queue while all others keep their order, or wakes nobody; then,
  as long as memory can be had, every waiter is still there, at most one of them moved back by its
  arrival. The invariant holds after it, and other pools are untouched.
\<close>

theorem wake_head_is_exact:
  assumes "pool_inv h (w_pools w f)" "q_cap (s_queue (w_pools w f)) < 65536" "\<And>n. w_calloc w n"
    and "fc_queue_wake_head w f pend = (woken, w', pend')"
  shows "pool_inv h (w_pools w' f) \<and> (g \<noteq> f \<longrightarrow> w_pools w' g = w_pools w g) \<and>
    (woken \<longrightarrow> (\<exists>e \<in> set (waiters (w_pools w f)). ent_runnable (s_tt (w_pools w f)) (fc_tenant_svc_bound (w_pools w f)) e \<and>
       waiters (w_pools w' f) = remove1 e (waiters (w_pools w f)) \<and> w_calls w' = w_calls w @ [Wake (e_fd e) (e_gen e)])) \<and>
    (\<not> woken \<longrightarrow> waiters (w_pools w' f) = waiters (w_pools w f) \<or>
       (\<exists>e \<in> set (waiters (w_pools w f)). waiters (w_pools w' f) = queue_insert True False e (remove1 e (waiters (w_pools w f)))))"
  using fc_queue_wake_head_ok(1,2,5,7) [OF assms(1,4)] assms(2,3) by blast

theorem wake_head_is_exact_witness:
  "pool_inv (\<lambda>_. 0) (w_pools (fst (snd (fc_queue_wake_head (sample_wait) 0 (\<lambda>_. 0)))) 0)"
proof -
  obtain x w' y where r: "fc_queue_wake_head (sample_wait) 0 (\<lambda>_. 0) = (x, w', y)" by (metis surj_pair)
  have "q_cap (s_queue (w_pools (sample_wait) 0)) < 65536" by code_simp
  then show ?thesis using wake_head_is_exact [OF sample_wait_inv _ _ r] r by simp
qed

text \<open>
  A raised ceiling wakes no more than fit. The wake after a raised ceiling calls at most as many
  owners as there are free units.
\<close>

theorem wake_room_bounded:
  assumes "pool_inv h (w_pools w f)" "c_mode (s_cfg (w_pools w f)) = FC_MODE_ENFORCE" "fc_svc_cap (w_pools w f) \<noteq> 0"
  shows "\<exists>cs. w_calls (fc_queue_wake_room w (Some f)) = w_calls w @ cs \<and>
    length cs \<le> unat (fc_svc_cap (w_pools w f)) - unat (s_inflight (w_pools w f))"
  by (rule fc_queue_wake_room_ok(4) [OF assms])

theorem wake_room_bounded_witness:
  "\<exists>cs. w_calls (fc_queue_wake_room (sample_wait) (Some 0)) = w_calls (sample_wait) @ cs \<and> length cs \<le> 1"
proof -
  let ?s = "w_pools (sample_wait) 0"
  have "c_mode (s_cfg ?s) = FC_MODE_ENFORCE" "fc_svc_cap ?s \<noteq> 0" "unat (fc_svc_cap ?s) - unat (s_inflight ?s) = 1" by code_simp+
  with wake_room_bounded [OF sample_wait_inv] show ?thesis by metis
qed

text \<open>
  C11: a drain ends. Given as many rounds as there are waiters, the drain of a pool returns; then nobody
  waits, the invariant holds, and without a callback that answers otherwise every waiter is counted as
  drained. (The callback may do anything that does not touch this pool.)
\<close>

theorem drain_ends:
  assumes "pool_inv h (w_pools w f)" "\<And>g e w. fn = Some g \<Longrightarrow> w_pools (snd (g e w)) f = w_pools w f"
    and "length (waiters (w_pools w f)) \<le> fuel"
  shows "\<exists>w'. fc_queue_drain w (Some f) fn fuel = Some w' \<and> pool_inv h (w_pools w' f) \<and> waiters (w_pools w' f) = [] \<and>
    (fn = None \<longrightarrow> s_decisions (w_pools w' f) FC_R_DRAINED =
       s_decisions (w_pools w f) FC_R_DRAINED + of_nat (length (waiters (w_pools w f))))"
  unfolding fc_queue_drain_def option.case by (rule drain_loop_ok) (use assms in blast)+

theorem drain_ends_witness:
  "\<exists>w'. fc_queue_drain (sample_wait) (Some 0) None 1 = Some w' \<and> s_decisions (w_pools w' 0) FC_R_DRAINED = 1"
proof -
  have "length (waiters (w_pools (sample_wait) 0)) = 1" "s_decisions (w_pools (sample_wait) 0) FC_R_DRAINED = 0" by code_simp+
  with drain_ends [OF sample_wait_inv, where f = 0 and fn = None and fuel = 1] show ?thesis by auto
qed

section \<open>Units, shares and turns\<close>

text \<open>
  C12: a ceiling holds under every interleaving. Whatever threads run the compare-and-swap loops of one
  counter, and however their steps interleave, a counter that starts at or below a bound none of their
  ceilings exceeds stays at or below it.
\<close>

theorem ceiling_holds_interleaved:
  assumes "unit_run s s'" "us_ctr s \<le> m" "\<forall>i. caps_within m (us_pc s i)"
  shows "us_ctr s' \<le> m"
  using unit_run_ceiling [OF assms] by blast

theorem ceiling_holds_interleaved_witness:
  "us_ctr \<lparr>us_ctr = 1, us_pc = (\<lambda>_. Start (Take 1))(0 := Took), us_anomaly = 0\<rparr> \<le> 1"
proof -
  let ?s0 = "\<lparr>us_ctr = 0, us_pc = (\<lambda>_. Start (Take 1)), us_anomaly = 0\<rparr>"
  have "unit_step ?s0 (?s0\<lparr>us_pc := (us_pc ?s0)(0 := Loaded (Take 1) (us_ctr ?s0))\<rparr>)" (is "unit_step _ ?s1")
    by (rule unit_step.load) simp
  moreover have "unit_step ?s1 (?s1\<lparr>us_ctr := 0 + 1, us_pc := (us_pc ?s1)(0 := Took)\<rparr>)" by (rule unit_step.take_cas) simp_all
  ultimately have "unit_run ?s0 (?s1\<lparr>us_ctr := 0 + 1, us_pc := (us_pc ?s1)(0 := Took)\<rparr>)"
    using unit_run.refl unit_run.step by blast
  from ceiling_holds_interleaved [OF this, of 1] show ?thesis by simp
qed

text \<open>
  No unit is lost or invented under interleaving. While the threads of a finite set run, the counter
  moves by exactly the units they took less the units they gave back.
\<close>

theorem units_conserved_interleaved:
  assumes "unit_run s s'" "finite T" "quiet_outside T s" "us_ctr s \<le> m" "\<forall>i. caps_within m (us_pc s i)"
  shows "unat (us_ctr s') + gave T s' + took T s = unat (us_ctr s) + gave T s + took T s'"
  using unit_run_conserves [OF assms] by blast

theorem units_conserved_interleaved_witness:
  "\<exists>s'. unit_run \<lparr>us_ctr = 0, us_pc = (\<lambda>_. Refused)(0 := Start (Take 1)), us_anomaly = 0\<rparr> s' \<and> unat (us_ctr s') = took {0} s'"
proof -
  let ?s0 = "\<lparr>us_ctr = 0, us_pc = (\<lambda>_. Refused)(0 := Start (Take 1)), us_anomaly = 0\<rparr>"
  have "unit_step ?s0 (?s0\<lparr>us_pc := (us_pc ?s0)(0 := Loaded (Take 1) (us_ctr ?s0))\<rparr>)" (is "unit_step _ ?s1")
    by (rule unit_step.load) simp
  moreover have "unit_step ?s1 (?s1\<lparr>us_ctr := 0 + 1, us_pc := (us_pc ?s1)(0 := Took)\<rparr>)" (is "unit_step _ ?s2")
    by (rule unit_step.take_cas) simp_all
  ultimately have r: "unit_run ?s0 ?s2" using unit_run.refl unit_run.step by blast
  have "gave {0} ?s2 = 0" "gave {0} ?s0 = 0" "took {0} ?s0 = 0" by (simp_all add: gave_def took_def card_eq_0_iff)
  moreover have "quiet_outside {0} ?s0" "\<forall>i. caps_within 1 (us_pc ?s0 i)" by (simp_all add: quiet_outside_def)
  ultimately have "unat (us_ctr ?s2) = took {0} ?s2" using units_conserved_interleaved [OF r, of "{0}" 1] by simp
  with r show ?thesis by blast
qed

text \<open>
  C13: the critical reserve is kept for the critical band. While the floors of a pool apply, taking a unit
  for any band leaves enough units free for what the critical band has not used of its reserve.
\<close>

theorem reserve_is_kept:
  assumes "reserve_kept s cap" "fc_floors_apply s cap" "fc_unit_take_band s b cap wt = Some s'"
    and "p_band p = b" "b = FC_BAND_CRITICAL \<longrightarrow> s_band_inflight s FC_BAND_CRITICAL \<noteq> -1"
  shows "reserve_kept (fc_band_unit_take s' p) cap"
proof -
  have "s' = s\<lparr>s_inflight := s_inflight s + 1\<rparr>" by (rule fc_unit_take_band_Some(1) [OF assms(3)])
  then show ?thesis
    using assms(4,5) by (intro reserve_kept_take [OF assms(1-3)]) (auto simp: fc_band_unit_take_def fc_band_counted_def)
qed

theorem reserve_is_kept_witness:
  "\<exists>s'. fc_unit_take_band floor_pool FC_BAND_STANDARD 4 None = Some s' \<and> reserve_kept (fc_band_unit_take s' sample_permit) 4"
proof -
  have "reserve_kept floor_pool 4" "fc_floors_apply floor_pool 4" "fc_unit_take_band floor_pool FC_BAND_STANDARD 4 None \<noteq> None" by code_simp+
  then obtain s' where "fc_unit_take_band floor_pool FC_BAND_STANDARD 4 None = Some s'" by blast
  with reserve_is_kept [OF \<open>reserve_kept floor_pool 4\<close> \<open>fc_floors_apply floor_pool 4\<close> this, of sample_permit]
  show ?thesis by (simp add: sample_permit_def)
qed

text \<open>The reserve admits. A critical request that is below the reserve gets its unit while the reserve is kept.\<close>

theorem reserve_admits_critical:
  assumes "reserve_kept s cap" "fc_floors_apply s cap" "s_band_inflight s FC_BAND_CRITICAL < fc_reserve (s_cfg s) cap"
  shows "fc_unit_take_band s FC_BAND_CRITICAL cap wt = Some (s\<lparr>s_inflight := s_inflight s + 1\<rparr>)"
  by (rule reserve_kept_admits [OF assms])

theorem reserve_admits_critical_witness:
  "fc_unit_take_band (floor_pool\<lparr>s_inflight := 2\<rparr>) FC_BAND_CRITICAL 4 None \<noteq> None"
proof -
  have "reserve_kept (floor_pool\<lparr>s_inflight := 2\<rparr>) 4" "fc_floors_apply (floor_pool\<lparr>s_inflight := 2\<rparr>) 4"
    "s_band_inflight (floor_pool\<lparr>s_inflight := 2\<rparr>) FC_BAND_CRITICAL < fc_reserve (s_cfg (floor_pool\<lparr>s_inflight := 2\<rparr>)) 4" by code_simp+
  from reserve_admits_critical [OF this] show ?thesis by simp
qed

text \<open>
  Who is woken on a plain pool. Without floors, under the strict policy and with tenants first come
  first served, the entry taken out is the oldest of the highest band among the waiters whose tenant can
  run, and all other waiters stay in their order.
\<close>

theorem plain_wake_order:
  assumes "ring_inv (s_queue s)" "fc_plain s" "fc_ring_pop_runnable s pend = (r, s', u)"
  shows "first_best (ent_runnable (s_tt s) (fc_tenant_svc_bound s)) (\<lambda>e. fc_band_rank (e_band e)) (waiters s) r \<and>
    waiters s' = (case r of None \<Rightarrow> waiters s | Some e \<Rightarrow> remove1 e (waiters s)) \<and> ring_inv (s_queue s')"
  using fc_ring_pop_runnable_plain [OF assms] by simp

theorem plain_wake_order_witness:
  "\<exists>e s'. fst (fc_ring_pop_runnable (w_pools sample_wait 0) (\<lambda>_. 0)) = Some e \<and> waiters (w_pools sample_wait 0) = e # s'"
proof -
  let ?s = "w_pools sample_wait 0"
  obtain r s' u where r: "fc_ring_pop_runnable ?s (\<lambda>_. 0) = (r, s', u)" by (metis surj_pair)
  have "ring_inv (s_queue ?s)" using sample_wait_inv [of 0] by (simp add: pool_inv_def pool_core_def)
  moreover have p: "fc_plain ?s" "length (waiters ?s) = 1" "fst (fc_ring_pop_runnable ?s (\<lambda>_. 0)) \<noteq> None" by code_simp+
  ultimately show ?thesis
    using plain_wake_order [OF _ _ r] r by (cases "waiters ?s") (auto simp: first_best_def Cons_eq_append_conv)
qed

text \<open>
  C14: weighted rounds are fair. Under the weighted policy, with the same bands waiting throughout, a
  round that starts without credit serves every waiting band exactly its weight (at least one) times, and
  ends without credit.
\<close>

theorem weighted_round_fair:
  assumes "credit_left cand (q_drr_credit q) = 0" "drr_served c cand (credit_left cand (drr_round c cand)) q = (bs, q')"
  shows "count_list bs b = drr_round c cand b \<and> credit_left cand (q_drr_credit q') = 0"
  by (rule drr_one_round [OF assms])

theorem weighted_round_fair_witness:
  "count_list (fst (drr_served (sample_cfg\<lparr>c_band_weight := (\<lambda>_. 2)\<rparr>) (\<lambda>_. True) 6 (s_queue sample_pool))) FC_BAND_CRITICAL = 2"
proof -
  let ?c = "sample_cfg\<lparr>c_band_weight := (\<lambda>_. 2)\<rparr>"
  obtain bs q' where r: "drr_served ?c (\<lambda>_. True) 6 (s_queue sample_pool) = (bs, q')" by (metis surj_pair)
  have "credit_left (\<lambda>_. True) (q_drr_credit (s_queue sample_pool)) = 0" "credit_left (\<lambda>_. True) (drr_round ?c (\<lambda>_. True)) = 6"
    "drr_round ?c (\<lambda>_. True) FC_BAND_CRITICAL = 2" by code_simp+
  with weighted_round_fair [of "\<lambda>_. True" "s_queue sample_pool" ?c bs q'] r show ?thesis by simp
qed

text \<open>
  Whom an eviction picks. Only a request above sheddable evicts, only when eviction is on and an
  answer can still be owed, and the waiter it picks is live, sheddable, and has no younger sheddable
  waiter behind it.
\<close>

theorem evict_pick_is_youngest_sheddable:
  assumes "ring_inv (s_queue s)" "fc_ring_evict_pick s band = Some i"
  shows "c_shed_queue (s_cfg s) \<and> band \<noteq> FC_BAND_SHEDDABLE \<and> length (q_evicted (s_queue s)) < FC_EVICT_PENDING \<and>
    live_slot (s_queue s) i \<and> e_band (q_ring (s_queue s) ! i) = FC_BAND_SHEDDABLE \<and>
    (\<exists>us vs. fc_ring_span (s_queue s) = us @ i # vs \<and>
      (\<forall>v \<in> set vs. e_live (q_ring (s_queue s) ! v) \<longrightarrow> e_band (q_ring (s_queue s) ! v) \<noteq> FC_BAND_SHEDDABLE))"
  using fc_ring_evict_pick_Some [OF assms] by blast

theorem evict_pick_is_youngest_sheddable_witness:
  "fc_ring_evict_pick reuse_full FC_BAND_STANDARD = Some 0 \<and> live_slot (s_queue reuse_full) 0"
proof -
  have i: "ring_inv (s_queue reuse_full)" using reuse_full_inv by (simp add: pool_inv_def pool_core_def)
  have p: "fc_ring_evict_pick reuse_full FC_BAND_STANDARD = Some 0" by code_simp
  from evict_pick_is_youngest_sheddable [OF i p] p show ?thesis by simp
qed

text \<open>
  C15: tenants keep apart. While the table has a free slot for both, two tenants with different keys are
  given different slots, and the first one still has its own afterwards.
\<close>

theorem tenants_keep_apart:
  assumes "tt_ok tt \<and> tt_marks_ok tt" "\<not> tt_full tt" "tt_get tt k = (j, tt1)" "\<not> tt_full tt1" "tt_get tt1 k' = (j', tt2)" "k \<noteq> k'"
  shows "j \<noteq> j' \<and> tt_slot_of tt2 k = Some (nat j)"
  by (rule tenants.get_other [OF assms])

theorem tenants_keep_apart_witness:
  "fst (tt_get (s_tt reuse_full) 22) \<noteq> fst (tt_get (snd (tt_get (s_tt reuse_full) 22)) 44)"
proof -
  obtain j tt1 where a: "tt_get (s_tt reuse_full) 22 = (j, tt1)" by fastforce
  obtain j' tt2 where b: "tt_get tt1 44 = (j', tt2)" by fastforce
  have "tt_ok (s_tt reuse_full) \<and> tt_marks_ok (s_tt reuse_full)"
    using reuse_full_inv by (simp add: pool_inv_def pool_core_def tt_inv_def reuse_full_def)
  moreover have "\<not> tt_full (s_tt reuse_full)" "\<not> tt_full (snd (tt_get (s_tt reuse_full) 22))" by code_simp+
  ultimately show ?thesis using tenants_keep_apart [OF _ _ a _ b] a b by simp
qed

text \<open>
  C16: the running count of runnable tenants is right. What the gate reads from the maintained count of
  waiting tenants that could take a unit is what a scan of the whole table says, after the bound changed
  too.
\<close>

theorem runnable_count_is_scan:
  assumes "tt_inv tt" "fc_tenant_waiter_can_run tt b = (r, tt')"
  shows "(r \<longleftrightarrow> tt_tenants tt \<noteq> None \<and> (\<exists>i \<le> tt_slots tt. tenant_runnable b (tts tt ! i))) \<and> tt_inv tt' \<and>
    tq tt' = tq tt \<and> ti tt' = ti tt"
  using fc_tenant_waiter_can_run_ok [OF assms] by blast

theorem runnable_count_is_scan_witness:
  "fst (fc_tenant_waiter_can_run (s_tt reuse_full) 3) \<longleftrightarrow> (\<exists>i \<le> 64. tenant_runnable 3 (tts (s_tt reuse_full) ! i))"
proof -
  obtain r tt' where r: "fc_tenant_waiter_can_run (s_tt reuse_full) 3 = (r, tt')" by fastforce
  have "tt_inv (s_tt reuse_full)" using reuse_full_inv by (simp add: pool_inv_def pool_core_def)
  moreover have "tt_tenants (s_tt reuse_full) \<noteq> None" "tt_slots (s_tt reuse_full) = 64" by code_simp+
  ultimately show ?thesis using runnable_count_is_scan [OF _ r] r by simp
qed

text \<open>
  C17: the ring is a list. When the ring has room (it can always be compacted or grown to have it when
  memory can be had), inserting an entry inserts it at its place in the list of live entries, keeps the
  ring's invariant and its order of arrival: in front of every entry that arrived later when it goes back
  or waited elsewhere before, behind all others when it comes last.
\<close>

theorem ring_insert_is_list_insert:
  assumes "ring_inv q" "q_used (fc_ring_make_room ok q front) < q_cap (fc_ring_make_room ok q front)" "q_cap q \<noteq> 0"
    and "fc_ring_insert ok q e front ordered = (r, q')"
  shows "r \<noteq> None \<and> ring_inv q' \<and> ring_live q' = queue_insert front ordered (e\<lparr>e_live := True\<rparr>) (ring_live q) \<and>
    (arrival_order (ring_live q) \<and> (front \<or> ordered \<or> (\<forall>x \<in> set (ring_live q). e_enqueue_ns x \<le> e_enqueue_ns e)) \<longrightarrow>
      arrival_order (ring_live q'))"
proof -
  have i: "r \<noteq> None" "ring_inv q'" "ring_live q' = queue_insert front ordered (e\<lparr>e_live := True\<rparr>) (ring_live q)"
    using fc_ring_insert_room [OF assms(1-3), of e ordered] assms(4) by auto
  have "\<forall>x \<in> set (ring_live q). e_live x" by (simp add: ring_live_def)
  with i arrival_order_insert [of "ring_live q" front ordered "e\<lparr>e_live := True\<rparr>"] show ?thesis by auto
qed

theorem ring_insert_is_list_insert_witness:
  "ring_live (snd (fc_ring_insert (\<lambda>_. True) (s_queue sample_pool) (reuse_ent FC_BAND_STANDARD 5) False False)) =
     [reuse_ent FC_BAND_STANDARD 5]"
proof -
  obtain r q' where r: "fc_ring_insert (\<lambda>_. True) (s_queue sample_pool) (reuse_ent FC_BAND_STANDARD 5) False False = (r, q')" by fastforce
  have "ring_inv (s_queue sample_pool)" using sample_pool_inv by (simp add: pool_inv_def pool_core_def)
  moreover have "q_used (fc_ring_make_room (\<lambda>_. True) (s_queue sample_pool) False) < q_cap (fc_ring_make_room (\<lambda>_. True) (s_queue sample_pool) False)"
    "q_cap (s_queue sample_pool) \<noteq> 0" "ring_live (s_queue sample_pool) = []" by code_simp+
  ultimately show ?thesis
    using ring_insert_is_list_insert [OF _ _ _ r] r by (simp add: queue_insert_def reuse_ent_def)
qed

section \<open>Configuration, adaptation and deadlines\<close>

text \<open>
  C18: every configuration is in range. Whatever the environment variables hold and whatever a rule
  asks for, the resolved configuration keeps every limit in its range, and a queue with a depth has a
  window.
\<close>

theorem resolved_config_in_range: "fc_cfg_wf (fc_cfg_resolve (fc_cfg_from_env g) rule)"
  by (rule fc_cfg_resolve_wf' [OF fc_cfg_from_env_wf'])

text \<open>
  The band guard. A configuration whose bands are used gets through the guard only in a form the
  gate accepts (weights for the weighted policy, a queue to evict from, no bands where the gate is
  bypassed), and one that is accepted already is not changed by it.
\<close>

theorem band_guard_accepts:
  assumes "c_bands c = fc_cfg_bands c"
  shows "fc_cfg_accepted (fc_cfg_band_guard c g) g \<and> (fc_cfg_accepted c g \<longrightarrow> fc_cfg_band_guard c g = fc_cfg_band_mirror c)"
  using fc_cfg_band_guard_accepted' [OF assms] fc_cfg_band_guard_keeps' [OF assms] by blast

theorem band_guard_accepts_witness:
  "fc_cfg_accepted (fc_cfg_band_guard (sample_cfg\<lparr>c_shed_queue := True, c_bands := True\<rparr>) True) True"
proof -
  have "c_bands (sample_cfg\<lparr>c_shed_queue := True, c_bands := True\<rparr>) = fc_cfg_bands (sample_cfg\<lparr>c_shed_queue := True, c_bands := True\<rparr>)"
    by code_simp
  from band_guard_accepts [OF this] show ?thesis by blast
qed

text \<open>
  The warm-up ramp. An endpoint with a cap is admitted at least a quarter of it (and at least one) and
  at most all of it, and its share never shrinks as time passes.
\<close>

theorem warm_up_ramp:
  assumes "role_of role = Some r" "c_ep_cap (s_cfg s) r \<noteq> 0" "now \<noteq> 0" "now \<le> now'"
  shows "quarter (c_ep_cap (s_cfg s) r) \<le> fc_ep_cap_now s clock ep role now \<and>
    fc_ep_cap_now s clock ep role now \<le> fc_ep_cap_now s clock ep role now' \<and>
    fc_ep_cap_now s clock ep role now' \<le> c_ep_cap (s_cfg s) r \<and> fc_ep_cap_now s clock ep role now \<noteq> 0"
  using fc_ep_cap_now_bounds [OF assms(1,2)] fc_ep_cap_now_mono [OF assms(1,3,4)] by blast

theorem warm_up_ramp_witness:
  "fc_ep_cap_now (sample_pool\<lparr>s_cfg := sample_cfg\<lparr>c_ep_cap := (\<lambda>_. 8), c_warmup_ms := 1000\<rparr>\<rparr>) 5 2 0 7 \<le> 8"
proof -
  have "role_of 0 = Some FC_ROLE_NORMAL" by code_simp
  from warm_up_ramp [OF this, of "sample_pool\<lparr>s_cfg := sample_cfg\<lparr>c_ep_cap := (\<lambda>_. 8), c_warmup_ms := 1000\<rparr>\<rparr>" 7 7 5 2]
  show ?thesis by simp
qed

text \<open>
  C19: the adaptive ceiling stays in range. In every pool a tick keeps the effective ceiling of an adaptive
  pool at least one and at most its configured maximum, and keeps the pool's invariant.
\<close>

theorem adaptive_ceiling_in_range:
  assumes "pool_inv h (w_pools w f)" "adapt_ok (w_pools w f)"
  shows "adapt_ok (w_pools (fc_adapt_tick w (Some f) sig) f) \<and> pool_inv h (w_pools (fc_adapt_tick w (Some f) sig) f)"
  using fc_adapt_tick_inv [OF assms(1)] fc_adapt_tick_ok [OF assms] by blast

theorem adaptive_ceiling_in_range_witness:
  "adapt_ok (w_pools (fc_adapt_tick sample_wait (Some 0) \<lparr>sig_fresh = True, sig_queued = False, sig_ttft_over = False\<rparr>) 0)"
proof -
  have "adapt_ok (w_pools sample_wait 0)" by code_simp
  from adaptive_ceiling_in_range [OF sample_wait_inv this] show ?thesis by blast
qed

text \<open>
  C20: a changed configuration takes effect without touching the requests. Applying a configuration keeps
  every waiter in its place, every unit with its holder and the pool's invariant; a share that is then in
  force has its tenant table.
\<close>

theorem apply_keeps_requests:
  assumes "pool_inv h s"
  shows "pool_inv h (fc_state_apply ok s cfg) \<and> waiters (fc_state_apply ok s cfg) = waiters s \<and>
    s_inflight (fc_state_apply ok s cfg) = s_inflight s \<and> s_band_inflight (fc_state_apply ok s cfg) = s_band_inflight s \<and>
    s_ep_inflight (fc_state_apply ok s cfg) = s_ep_inflight s \<and> adapt_ok (fc_state_apply ok s cfg) \<and>
    (fc_share_active (fc_state_apply ok s cfg) \<longrightarrow> tt_tenants (s_tt (fc_state_apply ok s cfg)) \<noteq> None)"
  using fc_state_apply_ok [OF assms] by blast

theorem apply_keeps_requests_witness:
  "pool_inv (\<lambda>_. 0) (fc_state_apply (\<lambda>_. True) reuse_full sample_cfg)"
  using apply_keeps_requests [OF reuse_full_inv] by blast

text \<open>
  C21: the deadline pass. A timed pass over distinct pools with the proxy's callback ends every wait whose
  deadline is over (the oldest 1024 of each pool), keeps all other waiters in their order, keeps the
  books of connections and pools consistent, and leaves the timer armed no later than the earliest
  deadline left, or the grain after now when that is later.
\<close>

theorem deadline_pass_ends_due_waits:
  assumes "conns_ok (w, c)" "distinct fs" "now + FC_DEADLINE_GRAIN_NS \<noteq> 0" "0 < d_tfd (w_timer w)"
    and "fc_deadline_pass True now fs (Some sp_fc_deadline_expire) (w, c) = (ear, w', c')" "f \<in> set fs"
  shows "conns_ok (w', c') \<and>
    filter (ent_due now) (waiters (w_pools w' f)) = drop 1024 (filter (ent_due now) (waiters (w_pools w f))) \<and>
    filter (\<lambda>e. \<not> ent_due now e) (waiters (w_pools w' f)) = filter (\<lambda>e. \<not> ent_due now e) (waiters (w_pools w f)) \<and>
    (\<forall>e \<in> set (waiters (w_pools w' f)). e_deadline_ns e \<noteq> 0 \<longrightarrow>
       d_armed_ns (w_timer w') \<noteq> 0 \<and> d_armed_ns (w_timer w') \<le> max (e_deadline_ns e) (now + FC_DEADLINE_GRAIN_NS))"
  using spx.pass [OF assms] by blast

theorem deadline_pass_ends_due_waits_witness:
  "filter (ent_due 9000000000) (waiters (w_pools (fst (snd (fc_deadline_pass True 9000000000 [0] (Some sp_fc_deadline_expire)
     (fst sample_one, sample_conns)))) 0)) = []"
proof -
  obtain ear w' c' where r: "fc_deadline_pass True 9000000000 [0] (Some sp_fc_deadline_expire) (fst sample_one, sample_conns) = (ear, w', c')"
    by (metis surj_pair)
  have "0 < d_tfd (w_timer (fst sample_one))" "length (filter (ent_due 9000000000) (waiters (w_pools (fst sample_one) 0))) = 1" by code_simp+
  with deadline_pass_ends_due_waits [OF sample_conns_ok _ _ _ r, of 0] r show ?thesis by simp
qed

text \<open>
  C22: the admission headers. Put into a final response whose head is whole, given as its lines, the
  response keeps its status line, every header line that is not the gateway's own, the blank line and
  the body, in order, and carries the gateway's three lines once, before the blank line; without room
  for them the gateway's lines are missing.
\<close>

theorem expose_headers_exact:
  assumes "list_all h1_line (l0 # ls)" "h1_status_line l0" "200 \<le> h1_status l0"
  shows "fc_expose_h1 (h1_response (l0 # ls) body) cap v =
    (let kept = l0 # filter (\<lambda>l. \<not> own_line l) ls
     in if length (h1_response kept body) + length (expose_lines v) > cap then (h1_response kept body, FC_EXPOSE_H1_SKIPPED)
        else (h1_lines kept @ expose_lines v @ CR # LF # body, FC_EXPOSE_H1_DONE))"
  unfolding Let_def by (rule fc_expose_h1_lines [OF assms])

theorem expose_headers_exact_witness:
  "snd (fc_expose_h1 (h1_response [''HTTP/1.1 200 OK'', ''Host: a'', ''X-LoxiLB-Admission-Queued: 9''] ''hi'') 300
     \<lparr>x_inflight = 1, x_queued = 2, x_limit = 3\<rparr>) = FC_EXPOSE_H1_DONE"
proof -
  have "list_all h1_line [''HTTP/1.1 200 OK'', ''Host: a'', ''X-LoxiLB-Admission-Queued: 9'']" "h1_status_line ''HTTP/1.1 200 OK''"
    "200 \<le> h1_status ''HTTP/1.1 200 OK''" by code_simp+
  moreover have "\<not> length (h1_response (''HTTP/1.1 200 OK'' # filter (\<lambda>l. \<not> own_line l) [''Host: a'', ''X-LoxiLB-Admission-Queued: 9'']) ''hi'') +
      length (expose_lines \<lparr>x_inflight = 1, x_queued = 2, x_limit = 3\<rparr>) > 300" by code_simp
  ultimately show ?thesis using expose_headers_exact [of "''HTTP/1.1 200 OK''" "[''Host: a'', ''X-LoxiLB-Admission-Queued: 9'']"]
    by (simp only: Let_def if_False snd_conv)
qed

end
